(* ===== verification/HnetdPrelude.thy ===== *)
theory HnetdPrelude
  imports Main "HOL-Library.Word" "HOL-Library.Monad_Syntax"
begin

unbundle bit_operations_syntax

text \<open>
  Shared vocabulary of the development.  C objects of known size are lists of machine words;
  a load or a store outside the object is undefined behaviour in C and is the value \<open>None\<close>
  here, so a theorem that an operation returns \<open>Some\<close> is also a memory safety theorem.
  The theory holds the memory accesses (\<open>rd\<close>, \<open>wr\<close>, \<open>memcpy_at\<close>, \<open>memcmp\<close>), the
  reading of a byte buffer as a string of bits, most significant bit of a byte first, and the
  generic facts on lists and words that the components share.
\<close>

section \<open>Machine types\<close>

type_synonym u8 = "8 word"
type_synonym u16 = "16 word"
type_synonym u32 = "32 word"
type_synonym u64 = "64 word"
type_synonym bytes = "u8 list"

named_theorems mem_simps \<open>loads, stores and copies inside an object\<close>
named_theorems bitbuf \<open>bits of byte buffers\<close>

section \<open>Memory\<close>

definition rd :: "'a list \<Rightarrow> nat \<Rightarrow> 'a option" where
  "rd buf i = (if i < length buf then Some (buf ! i) else None)"

definition wr :: "'a list \<Rightarrow> nat \<Rightarrow> 'a \<Rightarrow> 'a list option" where
  "wr buf i v = (if i < length buf then Some (buf[i := v]) else None)"

text \<open>\<open>memcpy(dst + di, src + si, n)\<close> between two objects.\<close>

definition memcpy_at :: "'a list \<Rightarrow> nat \<Rightarrow> 'a list \<Rightarrow> nat \<Rightarrow> nat \<Rightarrow> 'a list option" where
  "memcpy_at dst di src si n =
     (if di + n \<le> length dst \<and> si + n \<le> length src
      then Some (take di dst @ take n (drop si src) @ drop (di + n) dst) else None)"

text \<open>
  \<open>memcmp\<close> on two equally long lists: the difference of the first bytes that differ.  The C
  standard fixes the sign only, and only the sign is used in the theorems.
\<close>

fun bytes_cmp :: "bytes \<Rightarrow> bytes \<Rightarrow> int" where
  "bytes_cmp (x # xs) (y # ys) = (if x = y then bytes_cmp xs ys else uint x - uint y)"
| "bytes_cmp _ _ = 0"

definition memcmp :: "bytes \<Rightarrow> nat \<Rightarrow> bytes \<Rightarrow> nat \<Rightarrow> nat \<Rightarrow> int option" where
  "memcmp m1 i m2 j n =
     (if i + n \<le> length m1 \<and> j + n \<le> length m2
      then Some (bytes_cmp (take n (drop i m1)) (take n (drop j m2))) else None)"

lemma rd_Some [mem_simps]: "i < length buf \<Longrightarrow> rd buf i = Some (buf ! i)"
  by (simp add: rd_def)

lemma wr_Some [mem_simps]: "i < length buf \<Longrightarrow> wr buf i v = Some (buf[i := v])"
  by (simp add: wr_def)

lemma rd_None_iff: "rd buf i = None \<longleftrightarrow> length buf \<le> i"
  by (auto simp: rd_def)

lemma memcpy_at_Some [mem_simps]:
  "di + n \<le> length dst \<Longrightarrow> si + n \<le> length src \<Longrightarrow>
   memcpy_at dst di src si n = Some (take di dst @ take n (drop si src) @ drop (di + n) dst)"
  by (simp add: memcpy_at_def)

lemma memcpy_at_length: "memcpy_at dst di src si n = Some d \<Longrightarrow> length d = length dst"
  by (auto simp: memcpy_at_def split: if_splits)

lemma memcpy_at_nth:
  assumes "memcpy_at dst di src si n = Some d" and "k < length dst"
  shows "d ! k = (if di \<le> k \<and> k < di + n then src ! (si + (k - di)) else dst ! k)"
proof -
  from assms(1) have b: "di + n \<le> length dst" "si + n \<le> length src"
    and d: "d = take di dst @ take n (drop si src) @ drop (di + n) dst"
    by (auto simp: memcpy_at_def split: if_splits)
  show ?thesis
    using b assms(2) by (auto simp: d nth_append not_less min_absorb2)
qed

lemma bytes_cmp_refl [simp]: "bytes_cmp xs xs = 0"
  by (induction xs) auto

lemma bytes_cmp_eq_0: "length xs = length ys \<Longrightarrow> bytes_cmp xs ys = 0 \<longleftrightarrow> xs = ys"
  by (induction xs ys rule: bytes_cmp.induct) (auto simp: word_uint_eq_iff)

lemma bytes_cmp_antisym: "bytes_cmp ys xs = - bytes_cmp xs ys"
  by (induction xs ys rule: bytes_cmp.induct) auto

text \<open>The comparison by the first index at which two buffers differ.\<close>

lemma bytes_cmp_first_diff:
  assumes "length xs = length ys"
  shows "bytes_cmp xs ys < 0 \<longleftrightarrow>
    (\<exists>k < length xs. take k xs = take k ys \<and> xs ! k < ys ! k)"
  using assms
proof (induction xs ys rule: bytes_cmp.induct)
  case (1 x xs y ys)
  show ?case
  proof (cases "x = y")
    case True
    with "1" have IH: "bytes_cmp xs ys < 0 \<longleftrightarrow>
      (\<exists>k < length xs. take k xs = take k ys \<and> xs ! k < ys ! k)" by simp
    show ?thesis
    proof
      assume "bytes_cmp (x # xs) (y # ys) < 0"
      with True IH obtain k where "k < length xs" "take k xs = take k ys" "xs ! k < ys ! k"
        by auto
      with True show "\<exists>k < length (x # xs). take k (x # xs) = take k (y # ys) \<and> (x # xs) ! k < (y # ys) ! k"
        by (intro exI [of _ "Suc k"]) simp
    next
      assume "\<exists>k < length (x # xs). take k (x # xs) = take k (y # ys) \<and> (x # xs) ! k < (y # ys) ! k"
      then obtain k where k: "k < length (x # xs)" "take k (x # xs) = take k (y # ys)"
        "(x # xs) ! k < (y # ys) ! k" by blast
      with True show "bytes_cmp (x # xs) (y # ys) < 0"
        using IH by (cases k) auto
    qed
  next
    case False
    have "bytes_cmp (x # xs) (y # ys) < 0 \<longleftrightarrow> x < y"
      using False by (simp add: word_less_def)
    also have "\<dots> \<longleftrightarrow> (\<exists>k < length (x # xs). take k (x # xs) = take k (y # ys) \<and> (x # xs) ! k < (y # ys) ! k)"
      using False by (auto simp: nth_Cons' take_Cons' split: if_splits)
    finally show ?thesis .
  qed
qed auto

section \<open>Bits of byte buffers\<close>

text \<open>
  \<open>bitn buf n\<close> is the \<open>n\<close>-th bit of a buffer, most significant bit of each byte first: the
  order of bits in a network prefix.
\<close>

definition bitn :: "bytes \<Rightarrow> nat \<Rightarrow> bool" where
  "bitn buf n = bit (buf ! (n div 8)) (7 - n mod 8)"

text \<open>Equality and lexicographic order of the first \<open>n\<close> bits of two bit strings.\<close>

definition bits_eq :: "(nat \<Rightarrow> bool) \<Rightarrow> (nat \<Rightarrow> bool) \<Rightarrow> nat \<Rightarrow> bool" where
  "bits_eq f g n \<longleftrightarrow> (\<forall>k < n. f k = g k)"

definition bits_less :: "(nat \<Rightarrow> bool) \<Rightarrow> (nat \<Rightarrow> bool) \<Rightarrow> nat \<Rightarrow> bool" where
  "bits_less f g n \<longleftrightarrow> (\<exists>k < n. bits_eq f g k \<and> \<not> f k \<and> g k)"

text \<open>The number of bits of the window \<open>[i, i + n)\<close> in which two bit strings differ.\<close>

definition bits_dist :: "(nat \<Rightarrow> bool) \<Rightarrow> (nat \<Rightarrow> bool) \<Rightarrow> nat \<Rightarrow> nat \<Rightarrow> nat" where
  "bits_dist f g i n = length (filter (\<lambda>k. f k \<noteq> g k) [i ..< i + n])"

section \<open>Byte order\<close>

text \<open>The word whose big-endian encoding is a byte string, and the \<open>n\<close> bytes of a word.\<close>

definition be_word :: "bytes \<Rightarrow> 'a::len word" where
  "be_word bs = foldl (\<lambda>a b. push_bit 8 a OR ucast b) 0 bs"

definition word_be :: "nat \<Rightarrow> 'a::len word \<Rightarrow> bytes" where
  "word_be n w = map (\<lambda>i. ucast (drop_bit (8 * (n - 1 - i)) w)) [0 ..< n]"

text \<open>A big-endian 32 bit load.\<close>

definition ld_be32 :: "bytes \<Rightarrow> nat \<Rightarrow> u32 option" where
  "ld_be32 buf i = (if i + 4 \<le> length buf then Some (be_word (take 4 (drop i buf))) else None)"

end
