(* ===== verification/BitStrings.thy ===== *)
theory BitStrings
  imports HnetdPrelude
begin

unbundle bit_operations_syntax

text \<open>
  Generic facts on bit strings that the component proofs share: the lexicographic order and its
  reading as the sign of a C comparison (\<open>bits_cmp\<close>), copies of bit ranges (\<open>bits_copied\<close>,
  closed under concatenation of ranges), numbers by their digits in a power of two, and words in
  either byte order.
\<close>

text \<open>\<open>bits_cmp r f g n\<close>: the sign of \<open>r\<close> is the order of the first \<open>n\<close> bits.\<close>

definition bits_cmp :: "int \<Rightarrow> (nat \<Rightarrow> bool) \<Rightarrow> (nat \<Rightarrow> bool) \<Rightarrow> nat \<Rightarrow> bool" where
  "bits_cmp r f g n \<longleftrightarrow> (r < 0 \<longleftrightarrow> bits_less f g n) \<and> (r = 0 \<longleftrightarrow> bits_eq f g n) \<and> (r > 0 \<longleftrightarrow> bits_less g f n)"

text \<open>\<open>d\<close> is \<open>dst\<close> with the \<open>k\<close> bits from \<open>a\<close> on replaced by those of \<open>src\<close> from \<open>b\<close> on.\<close>

definition bits_copied :: "bytes \<Rightarrow> nat \<Rightarrow> bytes \<Rightarrow> nat \<Rightarrow> nat \<Rightarrow> bytes \<Rightarrow> bool" where
  "bits_copied dst a src b k d \<longleftrightarrow> length d = length dst \<and> a + k \<le> 8 * length dst \<and>
     (\<forall>j < k. bitn d (a + j) = bitn src (b + j)) \<and>
     (\<forall>n < 8 * length dst. n < a \<or> a + k \<le> n \<longrightarrow> bitn d n = bitn dst n)"

text \<open>Digits in base \<open>2 ^ k\<close>, least significant first.\<close>

fun undigits :: "nat \<Rightarrow> nat list \<Rightarrow> nat" where
  "undigits k [] = 0"
| "undigits k (d # ds) = d + 2 ^ k * undigits k ds"

fun digits :: "nat \<Rightarrow> nat \<Rightarrow> nat \<Rightarrow> nat list" where
  "digits k 0 v = []"
| "digits k (Suc n) v = v mod 2 ^ k # digits k n (v div 2 ^ k)"

text \<open>The position of a bit of a 64 bit word after its bytes are reversed.\<close>

definition le_pos :: "nat \<Rightarrow> nat" where "le_pos k = 8 * (7 - k div 8) + k mod 8"

section \<open>Words and natural numbers\<close>

lemma ff_mask: "(0xff :: u8) = mask 8"
  by (simp add: mask_eq_exp_minus_1)

lemma bit_push_ff: "bit (push_bit k (0xff :: u8)) n \<longleftrightarrow> k \<le> n \<and> n < 8"
  unfolding ff_mask bit_push_bit_iff bit_mask_iff by auto

lemma bit_drop_ff: "bit (drop_bit k (0xff :: u8)) n \<longleftrightarrow> k + n < 8"
  unfolding ff_mask bit_drop_bit_eq comp_def bit_mask_iff by auto

lemma not_bit_nat: "(x :: nat) < 2 ^ n \<Longrightarrow> n \<le> k \<Longrightarrow> \<not> bit x k"
proof -
  assume "x < 2 ^ n" "n \<le> k"
  then have "x < 2 ^ k" using power_increasing [of n k "2::nat"] by linarith
  then show ?thesis by (simp add: bit_iff_odd)
qed

lemma div_mod_window:
  fixes s j w :: nat
  assumes "s mod w + j < w"
  shows "(s + j) div w = s div w" "(s + j) mod w = s mod w + j"
proof -
  have "s + j = w * (s div w) + (s mod w + j)" by (simp flip: add.assoc)
  then show "(s + j) div w = s div w" "(s + j) mod w = s mod w + j"
    using assms by (metis add.right_neutral div_less div_mult_self4 gr_implies_not_zero, metis mod_less mod_mult_self4)
qed

lemma same_block: "(s :: nat) div 8 = (s + n) div 8 \<Longrightarrow> s mod 8 + n < 8"
  using div_mult_mod_eq [of s 8] div_mult_mod_eq [of "s + n" 8] mod_less_divisor [of 8 "s + n"] by linarith

lemma other_block: "(s :: nat) div 8 \<noteq> (s + n) div 8 \<Longrightarrow> 8 \<le> s mod 8 + n"
  by (metis div_mod_window(1) not_less)

section \<open>Bits of buffers\<close>

lemma bitn_update:
  "i < length buf \<Longrightarrow> bitn (buf[i := v]) n = (if n div 8 = i then bit v (7 - n mod 8) else bitn buf n)"
  by (simp add: bitn_def)

lemma bitn_single: "n < 8 \<Longrightarrow> bitn [w] n = bit w (7 - n)"
  by (simp add: bitn_def)

lemma bitn_block: "r < 8 \<Longrightarrow> bitn buf (8 * a + r) = bit (buf ! a) (7 - r)"
  by (simp add: bitn_def)

lemma bitn_Cons:
  "bitn (x # xs) n = (if n < 8 then bit x (7 - n) else bitn xs (n - 8))"
proof (cases "n < 8")
  case False
  then obtain m where m: "n = 8 + m" by (metis le_Suc_ex not_less)
  have "(8 + m) div 8 = Suc (m div 8)" by presburger
  then show ?thesis by (simp add: bitn_def m)
qed (simp add: bitn_def)

lemma bitn_drop: "o1 \<le> length m \<Longrightarrow> bitn (drop o1 m) n = bitn m (8 * o1 + n)"
  by (simp add: bitn_def)

lemma bitn_take: "j < 8 * n \<Longrightarrow> bitn (take n m) j = bitn m j"
  by (simp add: bitn_def less_mult_imp_div_less mult.commute)

section \<open>Order of bit strings\<close>

lemma bits_eq_Suc: "bits_eq f g (Suc n) \<longleftrightarrow> bits_eq f g n \<and> f n = g n"
  by (auto simp: bits_eq_def less_Suc_eq)

lemma bits_eq_add:
  "bits_eq f g (m + n) \<longleftrightarrow> bits_eq f g m \<and> bits_eq (\<lambda>j. f (m + j)) (\<lambda>j. g (m + j)) n"
  by (induction n) (auto simp: bits_eq_Suc bits_eq_def [of _ _ 0])

lemma bits_less_add:
  "bits_less f g (m + n) \<longleftrightarrow>
     bits_less f g m \<or> bits_eq f g m \<and> bits_less (\<lambda>j. f (m + j)) (\<lambda>j. g (m + j)) n"
proof
  assume "bits_less f g (m + n)"
  then obtain k where k: "k < m + n" "bits_eq f g k" "\<not> f k" "g k" by (auto simp: bits_less_def)
  show "bits_less f g m \<or> bits_eq f g m \<and> bits_less (\<lambda>j. f (m + j)) (\<lambda>j. g (m + j)) n"
  proof (cases "k < m")
    case True
    with k show ?thesis by (auto simp: bits_less_def)
  next
    case False
    then obtain i where i: "k = m + i" by (metis le_Suc_ex not_less)
    with k show ?thesis unfolding i bits_eq_add by (auto simp: bits_less_def)
  qed
next
  assume "bits_less f g m \<or> bits_eq f g m \<and> bits_less (\<lambda>j. f (m + j)) (\<lambda>j. g (m + j)) n"
  then show "bits_less f g (m + n)"
  proof
    assume "bits_eq f g m \<and> bits_less (\<lambda>j. f (m + j)) (\<lambda>j. g (m + j)) n"
    then obtain i where "i < n" "bits_eq f g (m + i)" "\<not> f (m + i)" "g (m + i)"
      by (auto simp: bits_less_def bits_eq_add)
    then show ?thesis unfolding bits_less_def by (metis nat_add_left_cancel_less)
  qed (auto simp: bits_less_def intro: trans_less_add1)
qed

lemma bits_less_Suc: "bits_less f g (Suc n) \<longleftrightarrow> bits_less f g n \<or> bits_eq f g n \<and> \<not> f n \<and> g n"
  by (auto simp: bits_less_def less_Suc_eq)

lemma bits_eq_sym: "bits_eq f g n \<longleftrightarrow> bits_eq g f n"
  by (auto simp: bits_eq_def)

lemma bits_eq_refl [simp]: "bits_eq f f n"
  by (simp add: bits_eq_def)

lemma bits_eq_trans: "bits_eq f g n \<Longrightarrow> bits_eq g h n \<Longrightarrow> bits_eq f h n"
  by (simp add: bits_eq_def)

lemma bits_eq_mono: "bits_eq f g n \<Longrightarrow> m \<le> n \<Longrightarrow> bits_eq f g m"
  by (simp add: bits_eq_def)

lemma bits_less_trans: "bits_less f g n \<Longrightarrow> bits_less g h n \<Longrightarrow> bits_less f h n"
proof -
  assume "bits_less f g n" "bits_less g h n"
  then obtain i j where "i < n" "bits_eq f g i" "\<not> f i" "g i" "j < n" "bits_eq g h j" "\<not> g j" "h j"
    by (auto simp: bits_less_def)
  then show ?thesis
    unfolding bits_less_def bits_eq_def
    by (intro exI [of _ "min i j"]) (cases i j rule: linorder_cases; auto)
qed

lemma bits_less_eq_trans:
  "bits_less f g n \<Longrightarrow> bits_eq g h n \<Longrightarrow> bits_less f h n" "bits_eq f g n \<Longrightarrow> bits_less g h n \<Longrightarrow> bits_less f h n"
  by (fastforce simp: bits_less_def bits_eq_def)+

lemma bits_trichotomy:
  "bits_less f g n \<or> bits_eq f g n \<or> bits_less g f n"
  "\<not> (bits_less f g n \<and> bits_eq f g n)" "\<not> (bits_less f g n \<and> bits_less g f n)"
proof -
  show "bits_less f g n \<or> bits_eq f g n \<or> bits_less g f n"
  proof (induction n)
    case (Suc n)
    then show ?case
      by (auto simp: bits_less_Suc bits_eq_Suc bits_eq_sym [of g f])
  qed (simp add: bits_eq_def)
  show "\<not> (bits_less f g n \<and> bits_eq f g n)"
    by (auto simp: bits_less_def bits_eq_def)
  show "\<not> (bits_less f g n \<and> bits_less g f n)"
  proof
    assume "bits_less f g n \<and> bits_less g f n"
    then obtain k l where "bits_eq f g k" "\<not> f k" "g k" "bits_eq g f l" "\<not> g l" "f l"
      by (auto simp: bits_less_def)
    then show False by (cases k l rule: linorder_cases) (auto simp: bits_eq_def)
  qed
qed

lemma bits_cmpI: "(r < 0 \<longleftrightarrow> bits_less f g n) \<Longrightarrow> (r = 0 \<longleftrightarrow> bits_eq f g n) \<Longrightarrow> bits_cmp r f g n"
  using bits_trichotomy [of f g n] bits_trichotomy(2) [of g f n] bits_eq_sym [of f g n]
  by (auto simp: bits_cmp_def)

lemma bits_cmp_0: "bits_cmp 0 f g 0"
  by (rule bits_cmpI) (simp_all add: bits_less_def bits_eq_def)

lemma bits_cmp_decided: "bits_cmp r f g m \<Longrightarrow> r \<noteq> 0 \<Longrightarrow> bits_cmp r f g (m + n)"
  by (rule bits_cmpI) (auto simp: bits_cmp_def bits_less_add bits_eq_add)

lemma bits_cmp_more:
  "bits_cmp 0 f g m \<Longrightarrow> bits_cmp r (\<lambda>j. f (m + j)) (\<lambda>j. g (m + j)) n \<Longrightarrow> bits_cmp r f g (m + n)"
  by (rule bits_cmpI) (auto simp: bits_cmp_def bits_less_add bits_eq_add)

lemma bits_cmp_cong:
  "(\<And>j. j < n \<Longrightarrow> f j = f' j) \<Longrightarrow> (\<And>j. j < n \<Longrightarrow> g j = g' j) \<Longrightarrow> bits_cmp r f g n = bits_cmp r f' g' n"
  by (simp add: bits_cmp_def bits_less_def bits_eq_def cong: conj_cong)

lemma nat_less_bits:
  fixes a b :: nat
  assumes "a < 2 ^ n" "b < 2 ^ n"
  shows "a < b \<longleftrightarrow> bits_less (\<lambda>j. bit a (n - 1 - j)) (\<lambda>j. bit b (n - 1 - j)) n"
  using assms
proof (induction n arbitrary: a b)
  case 0
  then show ?case by (simp add: bits_less_def)
next
  case (Suc n)
  let ?f = "\<lambda>a::nat. \<lambda>j. bit a (n - j)"
  have s: "bit (a div 2) (n - 1 - j) = ?f a j" if "j < n" for a :: nat and j
    using that by (simp add: bit_Suc [symmetric] Suc_diff_Suc)
  have h: "a div 2 < 2 ^ n" "b div 2 < 2 ^ n" using Suc.prems by auto
  have lt: "a div 2 < b div 2 \<longleftrightarrow> bits_less (?f a) (?f b) n"
    using Suc.IH [OF h] s by (simp add: bits_less_def bits_eq_def cong: conj_cong)
  have eq: "a div 2 = b div 2 \<longleftrightarrow> bits_eq (?f a) (?f b) n"
  proof
    assume e: "bits_eq (?f a) (?f b) n"
    show "a div 2 = b div 2"
    proof (rule bit_eqI)
      fix k
      show "bit (a div 2) k = bit (b div 2) k"
      proof (cases "k < n")
        case True
        then have i: "n - (n - 1 - k) = Suc k" "n - 1 - k < n" by simp_all
        have "?f a (n - 1 - k) = ?f b (n - 1 - k)"
          using e i(2) unfolding bits_eq_def by blast
        then show ?thesis unfolding i by (simp add: bit_Suc)
      next
        case False
        then have "bit (a div 2) k = False" "bit (b div 2) k = False"
          using h not_bit_nat by auto
        then show ?thesis by simp
      qed
    qed
  qed (simp add: bits_eq_def flip: s)
  have "a < b \<longleftrightarrow> a div 2 < b div 2 \<or> a div 2 = b div 2 \<and> even a \<and> odd b"
    by presburger
  also have "\<dots> \<longleftrightarrow> bits_less (?f a) (?f b) (n + 1)"
    unfolding lt eq bits_less_add by (auto simp: bits_less_def bits_eq_def bit_0)
  finally show ?case by simp
qed

lemma bits_cmp_word:
  fixes x y :: u8
  shows "bits_cmp (uint x - uint y) (\<lambda>j. bit x (7 - j)) (\<lambda>j. bit y (7 - j)) 8"
proof (rule bits_cmpI)
  have "unat x < 2 ^ 8" "unat y < 2 ^ 8" using unsigned_less [of x] unsigned_less [of y] by simp_all
  then show "uint x - uint y < 0 \<longleftrightarrow> bits_less (\<lambda>j. bit x (7 - j)) (\<lambda>j. bit y (7 - j)) 8"
    using nat_less_bits [of "unat x" 8 "unat y"]
    by (simp add: bit_unsigned_iff word_less_nat_alt [symmetric] word_less_def)
  have "x = y \<longleftrightarrow> (\<forall>j < 8. bit x (7 - j) = bit y (7 - j))"
  proof
    assume e: "\<forall>j < 8. bit x (7 - j) = bit y (7 - j)"
    show "x = y"
    proof (rule bit_word_eqI)
      fix n assume "n < LENGTH(8)"
      then show "bit x n = bit y n" using e [rule_format, of "7 - n"] by simp
    qed
  qed simp
  then show "uint x - uint y = 0 \<longleftrightarrow> bits_eq (\<lambda>j. bit x (7 - j)) (\<lambda>j. bit y (7 - j)) 8"
    by (simp add: bits_eq_def word_uint_eq_iff)
qed

lemma bits_cmp_window:
  fixes x y m :: u8
  assumes m: "\<And>j. j < 8 \<Longrightarrow> bit m (7 - j) \<longleftrightarrow> lo \<le> j \<and> j < lo + k" and "lo + k \<le> 8"
  shows "bits_cmp (uint (x AND m) - uint (y AND m)) (\<lambda>j. bit x (7 - (lo + j))) (\<lambda>j. bit y (7 - (lo + j))) k"
proof -
  let ?f = "\<lambda>x::u8. \<lambda>j. bit (x AND m) (7 - j)" and ?g = "\<lambda>x::u8. \<lambda>j. bit x (7 - (lo + j))"
  obtain r where r: "8 = lo + k + r" using assms(2) by (metis le_iff_add)
  have z: "bits_eq (?f x) (?f y) lo" and nl: "\<not> bits_less (?f x) (?f y) lo"
    using m r by (auto simp: bits_eq_def bits_less_def bit_and_iff)
  have z2: "bits_eq (\<lambda>j. ?f x (lo + k + j)) (\<lambda>j. ?f y (lo + k + j)) r"
    and nl2: "\<not> bits_less (\<lambda>j. ?f x (lo + k + j)) (\<lambda>j. ?f y (lo + k + j)) r"
    using m r by (auto simp: bits_eq_def bits_less_def bit_and_iff)
  have g: "?f w (lo + j) = ?g w j" if "j < k" for w j
    using m [of "lo + j"] that r by (auto simp: bit_and_iff)
  have l: "bits_less (\<lambda>j. ?f x (lo + j)) (\<lambda>j. ?f y (lo + j)) k = bits_less (?g x) (?g y) k"
    and e: "bits_eq (\<lambda>j. ?f x (lo + j)) (\<lambda>j. ?f y (lo + j)) k = bits_eq (?g x) (?g y) k"
    using g by (auto simp: bits_less_def bits_eq_def cong: conj_cong)
  have "bits_less (?f x) (?f y) 8 = bits_less (?g x) (?g y) k"
    unfolding r bits_less_add bits_eq_add using z nl nl2 l by simp
  moreover have "bits_eq (?f x) (?f y) 8 = bits_eq (?g x) (?g y) k"
    unfolding r bits_eq_add using z z2 e by simp
  ultimately show ?thesis
    using bits_cmp_word [of "x AND m" "y AND m"] by (intro bits_cmpI) (simp_all add: bits_cmp_def)
qed

lemma bits_cmp_bytes:
  "length xs = length ys \<Longrightarrow> bits_cmp (bytes_cmp xs ys) (bitn xs) (bitn ys) (8 * length xs)"
proof (induction xs ys rule: bytes_cmp.induct)
  case (1 x xs y ys)
  have h: "bits_cmp (uint x - uint y) (bitn (x # xs)) (bitn (y # ys)) 8"
    using bits_cmp_word [of x y] by (subst bits_cmp_cong) (auto simp: bitn_Cons)
  show ?case
  proof (cases "x = y")
    case True
    have "bits_cmp (bytes_cmp xs ys) (\<lambda>j. bitn (x # xs) (8 + j)) (\<lambda>j. bitn (y # ys) (8 + j)) (8 * length xs)"
      using 1 True by (simp add: bitn_Cons)
    with h True show ?thesis
      using bits_cmp_more [of "bitn (x # xs)" "bitn (y # ys)" 8] by simp
  next
    case False
    then show ?thesis
      using bits_cmp_decided [OF h, of "8 * length xs"] by (simp add: word_uint_eq_iff)
  qed
qed (simp_all add: bits_cmp_0)

lemma memcmp_cmp:
  assumes "o1 + n \<le> length m1" "o2 + n \<le> length m2"
  shows "\<exists>r. memcmp m1 o1 m2 o2 n = Some r \<and>
    bits_cmp r (\<lambda>j. bitn m1 (8 * o1 + j)) (\<lambda>j. bitn m2 (8 * o2 + j)) (8 * n)"
proof -
  let ?a = "take n (drop o1 m1)" and ?b = "take n (drop o2 m2)"
  have "bits_cmp (bytes_cmp ?a ?b) (bitn ?a) (bitn ?b) (8 * n)"
    using bits_cmp_bytes [of ?a ?b] assms by simp
  then have "bits_cmp (bytes_cmp ?a ?b) (\<lambda>j. bitn m1 (8 * o1 + j)) (\<lambda>j. bitn m2 (8 * o2 + j)) (8 * n)"
    using assms by (subst (asm) bits_cmp_cong) (auto simp: bitn_take bitn_drop)
  then show ?thesis using assms by (simp add: memcmp_def)
qed

section \<open>Copies of bit ranges\<close>

lemma bits_copied_0: "a \<le> 8 * length dst \<Longrightarrow> bits_copied dst a src b 0 dst"
  by (simp add: bits_copied_def)

lemma bits_copied_trans:
  assumes "bits_copied dst a src b k d" "bits_copied d (a + k) src (b + k) l e"
  shows "bits_copied dst a src b (k + l) e"
  unfolding bits_copied_def
proof (intro conjI allI impI)
  fix j assume j: "j < k + l"
  show "bitn e (a + j) = bitn src (b + j)"
  proof (cases "j < k")
    case True
    with assms show ?thesis by (auto simp: bits_copied_def)
  next
    case False
    then obtain i where "j = k + i" "i < l" using j by (metis add.commute le_Suc_ex less_diff_conv2 not_less diff_add_inverse2)
    with assms show ?thesis by (auto simp: bits_copied_def add.assoc)
  qed
qed (use assms in \<open>auto simp: bits_copied_def\<close>)

lemma bits_copied_src_cong:
  assumes "\<And>j. j < k \<Longrightarrow> bitn s1 (b1 + j) = bitn s2 (b2 + j)"
  shows "bits_copied dst a s1 b1 k d = bits_copied dst a s2 b2 k d"
  using assms by (auto simp: bits_copied_def)

lemma memcpy_copied:
  assumes "di + n \<le> length dst" "si + n \<le> length src"
  shows "\<exists>d. memcpy_at dst di src si n = Some d \<and> bits_copied dst (8 * di) src (8 * si) (8 * n) d"
proof -
  obtain d where d: "memcpy_at dst di src si n = Some d"
    using assms by (simp add: mem_simps)
  have "bitn d (8 * di + j) = bitn src (8 * si + j)" if "j < 8 * n" for j
    using that assms memcpy_at_nth [OF d, of "di + j div 8"]
    by (simp add: bitn_def less_mult_imp_div_less mult.commute)
  moreover have "bitn d k = bitn dst k" if "k < 8 * length dst" "k < 8 * di \<or> 8 * di + 8 * n \<le> k" for k
    using that assms memcpy_at_nth [OF d, of "k div 8"] by (auto simp: bitn_def)
  ultimately show ?thesis
    using d assms memcpy_at_length [OF d] by (auto simp: bits_copied_def)
qed

lemma bits_copied_bitn:
  assumes "bits_copied dst a src b k d"
  shows "length d = length dst" "n < 8 * length dst \<Longrightarrow>
    bitn d n = (if a \<le> n \<and> n < a + k then bitn src (b + (n - a)) else bitn dst n)"
proof -
  show "length d = length dst" using assms by (simp add: bits_copied_def)
  assume n: "n < 8 * length dst"
  show "bitn d n = (if a \<le> n \<and> n < a + k then bitn src (b + (n - a)) else bitn dst n)"
  proof (cases "a \<le> n \<and> n < a + k")
    case True
    then have "n - a < k" "n = a + (n - a)" by auto
    with assms True show ?thesis unfolding bits_copied_def by metis
  qed (use assms n in \<open>auto simp: bits_copied_def\<close>)
qed

section \<open>Numbers by digits\<close>

lemma undigits_digits: "v < 2 ^ (k * n) \<Longrightarrow> undigits k (digits k n v) = v"
proof (induction n arbitrary: v)
  case (Suc n)
  then have "v div 2 ^ k < 2 ^ (k * n)"
    by (simp add: less_mult_imp_div_less power_add mult.commute)
  with Suc.IH show ?case by simp
qed simp

lemma length_digits [simp]: "length (digits k n v) = n"
  by (induction n arbitrary: v) auto

lemma digits_bound: "d \<in> set (digits k n v) \<Longrightarrow> d < 2 ^ k"
  by (induction n arbitrary: v) auto

lemma bit_digit:
  fixes a A :: nat
  assumes "a < 2 ^ k"
  shows "bit (a + 2 ^ k * A) n \<longleftrightarrow> (if n < k then bit a n else bit A (n - k))"
proof (cases "n < k")
  case True
  have "take_bit k (a + 2 ^ k * A) = a" using assms by (simp add: take_bit_eq_mod)
  with True show ?thesis by (metis bit_take_bit_iff)
next
  case False
  have "drop_bit k (a + 2 ^ k * A) = A" using assms by (simp add: drop_bit_eq_div)
  with False show ?thesis
    by (metis bit_drop_bit_eq comp_apply le_add_diff_inverse not_less)
qed

lemma and_less_exp: "(a :: nat) < 2 ^ k \<Longrightarrow> a AND c < 2 ^ k"
proof -
  assume "a < 2 ^ k"
  then have "take_bit k (a AND c) = a AND c"
    by (intro bit_eqI) (auto simp: bit_take_bit_iff bit_and_iff dest: not_bit_nat simp flip: not_less)
  then show ?thesis by (metis take_bit_nat_less_exp)
qed

lemma and_digit:
  fixes a A c C :: nat
  assumes "a < 2 ^ k" "c < 2 ^ k"
  shows "(a + 2 ^ k * A) AND (c + 2 ^ k * C) = (a AND c) + 2 ^ k * (A AND C)"
  by (rule bit_eqI) (simp add: bit_and_iff bit_digit assms and_less_exp)

lemma shift_and_digit:
  fixes d A m M :: nat
  assumes "d < 2 ^ k" "j \<le> k" "m < 2 ^ (k - j)"
  shows "((d + 2 ^ k * A) div 2 ^ j) AND (m + 2 ^ k * M) = ((d div 2 ^ j) AND m) + 2 ^ k * ((A div 2 ^ j) AND M)"
proof -
  have kk: "(2 :: nat) ^ k = 2 ^ j * 2 ^ (k - j)" using assms(2) by (simp flip: power_add)
  have dj: "d div 2 ^ j < 2 ^ (k - j)" using assms(1) kk by (simp add: less_mult_imp_div_less mult.commute)
  have "(d + 2 ^ k * A) div 2 ^ j = d div 2 ^ j + 2 ^ (k - j) * A"
    unfolding kk by (simp add: mult.assoc)
  also have "\<dots> = d div 2 ^ j + 2 ^ (k - j) * (A mod 2 ^ j) + 2 ^ k * (A div 2 ^ j)"
  proof -
    have "2 ^ (k - j) * A = 2 ^ (k - j) * (2 ^ j * (A div 2 ^ j) + A mod 2 ^ j)" by simp
    also have "\<dots> = 2 ^ (k - j) * (A mod 2 ^ j) + 2 ^ k * (A div 2 ^ j)"
      unfolding kk distrib_left by (simp only: ac_simps)
    finally show ?thesis by simp
  qed
  finally have e: "(d + 2 ^ k * A) div 2 ^ j = (d div 2 ^ j + 2 ^ (k - j) * (A mod 2 ^ j)) + 2 ^ k * (A div 2 ^ j)" .
  have "d div 2 ^ j + 2 ^ (k - j) * (A mod 2 ^ j) < 2 ^ (k - j) + 2 ^ (k - j) * (A mod 2 ^ j)"
    using dj by simp
  also have "\<dots> = 2 ^ (k - j) * (A mod 2 ^ j + 1)" by simp
  also have "\<dots> \<le> 2 ^ (k - j) * 2 ^ j" by (intro mult_le_mono2) (simp add: Suc_leI)
  finally have lo: "d div 2 ^ j + 2 ^ (k - j) * (A mod 2 ^ j) < 2 ^ k" by (simp add: kk mult.commute)
  have "m < 2 ^ k" using assms(3) power_increasing [of "k - j" k "2::nat"] by linarith
  then show ?thesis
    unfolding e using and_digit [OF lo, of m "A div 2 ^ j" M]
      and_digit [OF dj assms(3), of "A mod 2 ^ j" 0] by simp
qed

lemma shift_and_undigits:
  assumes "\<forall>d \<in> set ds. d < 2 ^ k" "j \<le> k" "m < 2 ^ (k - j)"
  shows "(undigits k ds div 2 ^ j) AND undigits k (replicate (length ds) m) =
    undigits k (map (\<lambda>d. (d div 2 ^ j) AND m) ds)"
  using assms(1) by (induction ds) (simp_all add: shift_and_digit assms(2,3))

lemma undigits_map_add:
  "undigits k (map f ds) + undigits k (map g ds) = undigits k (map (\<lambda>d. f d + g d) ds)"
  by (induction ds) (simp_all flip: distrib_left)

lemma undigits_map_diff:
  assumes "\<forall>d \<in> set ds. g d \<le> f d"
  shows "undigits k (map f ds) = undigits k (map g ds) + undigits k (map (\<lambda>d. f d - g d) ds)"
  unfolding undigits_map_add using assms by (intro arg_cong [of _ _ "undigits k"]) simp

lemma undigits_less: "\<forall>d \<in> set ds. d < 2 ^ k \<Longrightarrow> undigits k ds < 2 ^ (k * length ds)"
proof (induction ds)
  case (Cons d ds)
  then have "undigits k ds + 1 \<le> 2 ^ (k * length ds)" by simp
  then have "2 ^ k * (undigits k ds + 1) \<le> 2 ^ k * 2 ^ (k * length ds)" by (rule mult_le_mono2)
  with Cons show ?case by (simp add: power_add)
qed simp

lemma undigits_count:
  "\<forall>d \<in> set ds. d < 2 ^ k \<Longrightarrow>
   length (filter (bit (undigits k ds)) [0 ..< k * length ds]) =
     sum_list (map (\<lambda>d. length (filter (bit d) [0 ..< k])) ds)"
proof (induction ds)
  case (Cons d ds)
  define x where "x = undigits k (d # ds)"
  have b: "bit x n = (if n < k then bit d n else bit (undigits k ds) (n - k))" for n
    unfolding x_def using bit_digit [of d k "undigits k ds" n] Cons.prems by simp
  have "[0 ..< k + k * length ds] = [0 ..< k] @ map (\<lambda>n. n + k) [0 ..< k * length ds]"
    unfolding map_add_upt using upt_add_eq_append [of 0 k "k * length ds"] by (simp add: add.commute)
  moreover have "length (filter (bit x) [0 ..< k]) = length (filter (bit d) [0 ..< k])"
    by (intro arg_cong [of _ _ length] filter_cong) (simp_all add: b)
  moreover have "length (filter (bit x) (map (\<lambda>n. n + k) [0 ..< k * length ds])) =
      length (filter (bit (undigits k ds)) [0 ..< k * length ds])"
    by (simp add: filter_map comp_def b)
  ultimately show ?case using Cons unfolding x_def [symmetric] by simp
qed simp

lemma unat_and: "unat (x AND y :: 'a::len word) = unat x AND unat y"
  by (simp add: unsigned_and_eq)

lemma unat_drop: "unat (drop_bit n x :: 'a::len word) = unat x div 2 ^ n"
  by (simp add: unat_drop_bit_eq flip: drop_bit_eq_div)

lemma replicate_8: "replicate 8 x = [x, x, x, x, x, x, x, x]"
  by (simp add: numeral_eq_Suc)

section \<open>Byte order and distances\<close>

lemma be_word_snoc: "be_word (bs @ [b]) = push_bit 8 (be_word bs) OR ucast b"
  by (simp add: be_word_def)

lemma bit_be_word:
  assumes "8 * length bs \<le> LENGTH('a::len)" "k < 8 * length bs"
  shows "bit (be_word bs :: 'a word) k = bit (rev bs ! (k div 8)) (k mod 8)"
  using assms
proof (induction bs arbitrary: k rule: rev_induct)
  case (snoc b bs)
  show ?case
  proof (cases "k < 8")
    case True
    with snoc.prems show ?thesis
      by (simp add: be_word_snoc bit_or_iff bit_push_bit_iff bit_ucast_iff not_le)
  next
    case False
    have "\<not> bit (ucast b :: 'a word) k"
      using False bit_imp_le_length [of b k] by (auto simp: bit_ucast_iff)
    moreover have "(k - 8) div 8 = k div 8 - 1" "(k - 8) mod 8 = k mod 8" "k div 8 \<noteq> 0"
      using False by (simp_all add: le_div_geq le_mod_geq not_less)
    ultimately show ?thesis
      using False snoc by (simp add: be_word_snoc bit_or_iff bit_push_bit_iff not_less nth_Cons')
  qed
qed simp

lemma length_word_be [simp]: "length (word_be n w) = n"
  by (simp add: word_be_def)

lemma bit_word_be: "i < n \<Longrightarrow> j < 8 \<Longrightarrow> bit (word_be n w ! i) j = bit w (8 * (n - 1 - i) + j)"
  by (simp add: word_be_def bit_ucast_iff bit_drop_bit_eq)

lemma le_pos_inv: "k < 64 \<Longrightarrow> le_pos k < 64" "k < 64 \<Longrightarrow> le_pos (le_pos k) = k"
proof -
  assume k: "k < 64"
  then have d: "k div 8 \<le> 7" by simp
  have m: "le_pos k div 8 = 7 - k div 8" "le_pos k mod 8 = k mod 8" by (simp_all add: le_pos_def)
  show "le_pos k < 64" using mod_less_divisor [of 8 k] by (simp add: le_pos_def del: mod_less_divisor)
  show "le_pos (le_pos k) = k"
    unfolding le_pos_def [of "le_pos k"] m using d by simp
qed

lemma le_pos_block: "r < 8 \<Longrightarrow> le_pos (8 * q + r) = 8 * (7 - q) + r"
  by (simp add: le_pos_def)

lemma mirror: "k < 64 \<Longrightarrow> 63 - le_pos (63 - le_pos k) = k"
proof -
  assume k: "k < 64"
  define q r where "q = k div 8" and "r = k mod 8"
  have qr: "k = 8 * q + r" "q < 8" "r < 8" using k by (simp_all add: q_def r_def)
  then have "63 - le_pos k = 8 * q + (7 - r)" by (simp add: le_pos_def)
  moreover have "le_pos (8 * q + (7 - r)) = 8 * (7 - q) + (7 - r)" by (rule le_pos_block) simp
  ultimately show ?thesis using qr by simp
qed

lemma count_involution:
  assumes "\<And>k. k < n \<Longrightarrow> f k < (n :: nat)" "\<And>k. k < n \<Longrightarrow> f (f k) = k"
  shows "length (filter (\<lambda>k. P (f k)) [0 ..< n]) = length (filter P [0 ..< n])"
proof -
  have "bij_betw f {k. k < n \<and> P (f k)} {k. k < n \<and> P k}"
    by (rule bij_betw_byWitness [where f' = f]) (use assms in auto)
  then have "card {k. k < n \<and> P (f k)} = card {k. k < n \<and> P k}" by (rule bij_betw_same_card)
  moreover have "length (filter Q [0 ..< n]) = card {k. k < n \<and> Q k}" for Q
    using distinct_card [of "filter Q [0 ..< n]"] by simp
  ultimately show ?thesis by simp
qed

lemma bits_dist_shift: "bits_dist f g i n = length (filter (\<lambda>k. f (i + k) \<noteq> g (i + k)) [0 ..< n])"
proof -
  have "[i ..< i + n] = map (\<lambda>k. k + i) [0 ..< n]" by (simp add: map_add_upt add.commute)
  then show ?thesis by (simp add: bits_dist_def filter_map comp_def add.commute)
qed

lemma bits_dist_add: "bits_dist f g i (m + n) = bits_dist f g i m + bits_dist f g (i + m) n"
  using upt_add_eq_append [of i "i + m" n] by (simp add: bits_dist_def add.assoc)

lemma be_word_word_be: "8 * n \<le> LENGTH('a::len) \<Longrightarrow> be_word (word_be n (w :: 'a word)) = take_bit (8 * n) w"
proof (rule bit_word_eqI)
  fix k assume n: "8 * n \<le> LENGTH('a)" and k: "k < LENGTH('a)"
  show "bit (be_word (word_be n w) :: 'a word) k = bit (take_bit (8 * n) w) k"
  proof (cases "k < 8 * n")
    case True
    then have i: "k div 8 < n" by (simp add: less_mult_imp_div_less mult.commute)
    have "bit (be_word (word_be n w) :: 'a word) k = bit (word_be n w ! (n - 1 - k div 8)) (k mod 8)"
      using bit_be_word [of "word_be n w" k, where 'a = 'a] n True i by (simp add: rev_nth)
    also have "\<dots> = bit w k" using i by (subst bit_word_be) auto
    finally show ?thesis using True by (simp add: bit_take_bit_iff)
  next
    case False
    have "\<not> bit (be_word bs :: 'a word) k" if "8 * length bs \<le> k" for bs
      using that
    proof (induction bs arbitrary: k rule: rev_induct)
      case (snoc b bs)
      then have "\<not> bit (ucast b :: 'a word) k" using bit_imp_le_length [of b k] by (auto simp: bit_ucast_iff)
      with snoc show ?case by (simp add: be_word_snoc bit_or_iff bit_push_bit_iff)
    qed (simp add: be_word_def)
    from this [of "word_be n w"] False show ?thesis by (simp add: bit_take_bit_iff)
  qed
qed

lemma word_be_be_word:
  assumes "length bs = n" "8 * n \<le> LENGTH('a::len)"
  shows "word_be n (be_word bs :: 'a word) = bs"
proof (rule nth_equalityI)
  fix i assume "i < length (word_be n (be_word bs :: 'a word))"
  then have i: "i < n" by simp
  show "word_be n (be_word bs :: 'a word) ! i = bs ! i"
  proof (rule bit_word_eqI)
    fix j assume "j < LENGTH(8)"
    then have j: "j < 8" by simp
    have lt: "8 * (n - 1 - i) + j < 8 * n" using i j by simp
    have "bit (word_be n (be_word bs :: 'a word) ! i) j = bit (be_word bs :: 'a word) (8 * (n - 1 - i) + j)"
      by (rule bit_word_be [OF i j])
    also have "\<dots> = bit (rev bs ! (n - 1 - i)) j"
      using bit_be_word [of bs "8 * (n - 1 - i) + j", where 'a = 'a] assms lt j by simp
    also have "\<dots> = bit (bs ! i) j" using i assms(1) by (simp add: rev_nth)
    finally show "bit (word_be n (be_word bs :: 'a word) ! i) j = bit (bs ! i) j" .
  qed
qed (simp add: assms)

lemma unat_and_mask: "unat (w AND mask n :: 'a::len word) = unat w mod 2 ^ n"
  unfolding take_bit_eq_mask [symmetric] unsigned_take_bit_eq by (simp add: take_bit_eq_mod)

lemma and_split: "(x AND NOT m) + (x AND m) = (x :: 'a::len word)"
proof -
  have "(x AND NOT m) + (x AND m) = (x AND NOT m) OR (x AND m)"
    by (rule disjunctive_add) (simp add: bit_simps)
  also have "\<dots> = x" by (rule bit_word_eqI) (auto simp: bit_simps)
  finally show ?thesis .
qed

lemma unat_align4: "unat (x AND NOT 3 :: u32) = unat x div 4 * 4"
proof -
  have "x AND NOT 3 = x - take_bit 2 x"
  proof -
    have "take_bit 2 x = x AND 3" by (simp add: take_bit_eq_mask mask_eq_exp_minus_1)
    moreover note and_split [of x 3]
    ultimately show ?thesis by (metis add_diff_cancel_right')
  qed
  moreover have "unat (take_bit 2 x) = unat x mod 4"
    unfolding unsigned_take_bit_eq by (simp add: take_bit_eq_mod)
  ultimately show ?thesis by (simp add: unat_sub_if_size minus_mod_eq_div_mult)
qed

end
