(* ===== verification/Bitops.thy ===== *)
theory Bitops
  imports BitStrings
begin

unbundle bit_operations_syntax

text \<open>
  The bit-level operations of \<open>bitops.c\<close>: copies of bit ranges between buffers, comparison of
  bit strings, Hamming distances and hexadecimal notation.  A pointer into a buffer is the
  buffer with an offset; \<open>size_t\<close> quantities are natural numbers.  The lemmas give each
  operation its meaning on the bits of the buffers (\<open>bitn\<close>), which is all the other components
  use.
\<close>

section \<open>Copying bits\<close>

definition bbytecpy_masks :: bytes where
  "bbytecpy_masks = [0x00, 0x80, 0xc0, 0xe0, 0xf0, 0xf8, 0xfc, 0xfe, 0xff]"

definition bbytecpy :: "bytes \<Rightarrow> nat \<Rightarrow> bytes \<Rightarrow> nat \<Rightarrow> nat \<Rightarrow> nat \<Rightarrow> bytes option" where
  "bbytecpy dst di src si frombit nbits =
     do { m \<leftarrow> rd bbytecpy_masks nbits;
          let mask = drop_bit frombit m;
          s \<leftarrow> rd src si;
          let v = s AND mask;
          d \<leftarrow> rd dst di;
          wr dst di ((d AND NOT mask) OR v) }"

definition bmemcpy :: "bytes \<Rightarrow> nat \<Rightarrow> bytes \<Rightarrow> nat \<Rightarrow> nat \<Rightarrow> nat \<Rightarrow> bytes option" where
  "bmemcpy dst doff src soff frombit nbits =
     (let tobit = frombit + nbits;
          frombyte = frombit div 8;
          tobyte = tobit div 8;
          nbyte = tobyte - frombyte;
          frombitrem = frombit mod 8;
          tobitrem = tobit mod 8;
          di = doff + frombyte;
          si = soff + frombyte
      in if nbyte = 0 then bbytecpy dst di src si frombitrem nbits
         else do {
           (dst, di, si, nbyte) \<leftarrow>
             (if frombitrem \<noteq> 0
              then do { dst \<leftarrow> bbytecpy dst di src si frombitrem (8 - frombitrem);
                        Some (dst, di + 1, si + 1, nbyte - 1) }
              else Some (dst, di, si, nbyte));
           dst \<leftarrow> memcpy_at dst di src si nbyte;
           if tobitrem \<noteq> 0 then bbytecpy dst (di + nbyte) src (si + nbyte) 0 tobitrem
           else Some dst })"

partial_function (option) bmemcpy_shift_loop ::
  "bytes \<Rightarrow> nat \<Rightarrow> nat \<Rightarrow> bytes \<Rightarrow> nat \<Rightarrow> nat \<Rightarrow> nat \<Rightarrow> bytes option" where
  "bmemcpy_shift_loop dst di dst_start src si src_start nbits =
     (if nbits = 0 then Some dst
      else Option.bind (rd src si) (\<lambda>interm.
        let shift = int src_start - int dst_start
        in if shift > 0
           then (let interm = push_bit (nat shift) interm;
                     n = 8 - src_start;
                     n = (if n > nbits then nbits else n)
                 in Option.bind (bbytecpy dst di [interm] 0 dst_start n) (\<lambda>dst.
                      bmemcpy_shift_loop dst di (dst_start + n) src (si + 1) 0 (nbits - n)))
           else (let interm = drop_bit (nat (- shift)) interm;
                     n = 8 - dst_start;
                     n = (if n > nbits then nbits else n)
                 in Option.bind (bbytecpy dst di [interm] 0 dst_start n) (\<lambda>dst.
                      bmemcpy_shift_loop dst (di + 1) 0 src si (src_start + n) (nbits - n)))))"

declare bmemcpy_shift_loop.simps [code]

definition bmemcpy_shift :: "bytes \<Rightarrow> nat \<Rightarrow> bytes \<Rightarrow> nat \<Rightarrow> nat \<Rightarrow> bytes option" where
  "bmemcpy_shift dst dst_start src src_start nbits =
     (let di = dst_start div 8;
          ds = dst_start mod 8;
          si = src_start div 8;
          ss = src_start mod 8
      in if ds = ss then bmemcpy dst di src si ds nbits
         else bmemcpy_shift_loop dst di ds src si ss nbits)"

section \<open>Comparing bits\<close>

definition bmemcmp :: "bytes \<Rightarrow> nat \<Rightarrow> bytes \<Rightarrow> nat \<Rightarrow> nat \<Rightarrow> int option" where
  "bmemcmp m1 o1 m2 o2 bitlen =
     (let nbytes = bitlen div 8
      in do { r \<leftarrow> memcmp m1 o1 m2 o2 nbytes;
              if r \<noteq> 0 then Some r
              else (let rembit = bitlen mod 8
                    in if rembit = 0 then Some 0
                       else do { p1 \<leftarrow> rd m1 (o1 + nbytes);
                                 p2 \<leftarrow> rd m2 (o2 + nbytes);
                                 let mask = push_bit (8 - rembit) (0xff :: u8);
                                 Some (uint (p1 AND mask) - uint (p2 AND mask)) }) })"

definition bmemcmp_s :: "bytes \<Rightarrow> bytes \<Rightarrow> nat \<Rightarrow> nat \<Rightarrow> int option" where
  "bmemcmp_s m1 m2 start nbits =
     (if nbits = 0 then Some 0
      else let md = start mod 8;
               first = start div 8;
               last = (start + nbits) div 8
           in if first = last
              then do { b1 \<leftarrow> rd m1 first;
                        b2 \<leftarrow> rd m2 first;
                        let mask = drop_bit md (0xff :: u8);
                        let mask = drop_bit (8 - nbits - md) mask;
                        let mask = push_bit (8 - nbits - md) mask;
                        Some (uint (b1 AND mask) - uint (b2 AND mask)) }
              else if md \<noteq> 0
              then do { b1 \<leftarrow> rd m1 first;
                        b2 \<leftarrow> rd m2 first;
                        let mask = drop_bit md (0xff :: u8);
                        let i = uint (b1 AND mask) - uint (b2 AND mask);
                        if i \<noteq> 0 then Some i
                        else let nbits = nbits - (8 - md)
                             in if nbits \<noteq> 0 then bmemcmp m1 (first + 1) m2 (first + 1) nbits
                                else Some 0 }
              else bmemcmp m1 first m2 first nbits)"

section \<open>Hamming distances\<close>

definition popcount_3 :: "u64 \<Rightarrow> u64" where
  "popcount_3 x =
     (let m1 = 0x5555555555555555; m2 = 0x3333333333333333; m4 = 0x0f0f0f0f0f0f0f0f;
          h01 = 0x0101010101010101;
          x = x - (drop_bit 1 x AND m1);
          x = (x AND m2) + (drop_bit 2 x AND m2);
          x = (x + drop_bit 4 x) AND m4
      in drop_bit 56 (x * h01))"

text \<open>
  A load of the \<open>i\<close>-th 64 bit element of a buffer, and \<open>be64_to_cpu\<close>, on a host of either
  byte order.
\<close>

definition ld64 :: "bool \<Rightarrow> bytes \<Rightarrow> nat \<Rightarrow> u64 option" where
  "ld64 big_endian buf i =
     (if 8 * i + 8 \<le> length buf
      then (let bs = take 8 (drop (8 * i) buf)
            in Some (be_word (if big_endian then bs else rev bs)))
      else None)"

definition be64_to_cpu :: "bool \<Rightarrow> u64 \<Rightarrow> u64" where
  "be64_to_cpu big_endian w = (if big_endian then w else be_word (rev (word_be 8 w)))"

fun hamming_loop :: "bool \<Rightarrow> bytes \<Rightarrow> bytes \<Rightarrow> nat \<Rightarrow> nat \<Rightarrow> nat \<Rightarrow> nat option" where
  "hamming_loop be m1 m2 i 0 dst = Some dst"
| "hamming_loop be m1 m2 i (Suc n) dst =
     do { a \<leftarrow> ld64 be m1 i;
          b \<leftarrow> ld64 be m2 i;
          hamming_loop be m1 m2 (i + 1) n (dst + unat (popcount_3 (a XOR b))) }"

definition hamming_distance_64 :: "bool \<Rightarrow> bytes \<Rightarrow> bytes \<Rightarrow> nat \<Rightarrow> nat option" where
  "hamming_distance_64 be m1 m2 nbits =
     (let n = nbits div 64;
          rem = nbits mod 64
      in do { dst \<leftarrow> hamming_loop be m1 m2 0 n 0;
              if rem \<noteq> 0
              then do { a \<leftarrow> ld64 be m1 n;
                        b \<leftarrow> ld64 be m2 n;
                        Some (dst + unat (popcount_3
                          (be64_to_cpu be (a XOR b) AND push_bit (64 - rem) 0xffffffffffffffff))) }
              else Some dst })"

text \<open>\<open>buf[n/8] & (0x80 >> (n % 8))\<close>\<close>

definition testbit :: "bytes \<Rightarrow> nat \<Rightarrow> bool option" where
  "testbit buf n =
     do { b \<leftarrow> rd buf (n div 8); Some (b AND drop_bit (n mod 8) 0x80 \<noteq> 0) }"

function hamming_scan :: "bytes \<Rightarrow> bytes \<Rightarrow> nat \<Rightarrow> nat \<Rightarrow> nat \<Rightarrow> (nat \<times> nat) option" where
  "hamming_scan mx target n endb ret =
     (if n < endb
      then do { m \<leftarrow> testbit mx n;
                if m then Some (n, ret)
                else do { t \<leftarrow> testbit target n;
                          hamming_scan mx target (n + 1) endb (if t then ret + 1 else ret) } }
      else Some (n, ret))"
  by pat_completeness auto
termination
  by (relation "measure (\<lambda>(mx, target, n, endb, ret). endb - n)") auto

definition hamming_minimize ::
  "bytes \<Rightarrow> bytes \<Rightarrow> bytes \<Rightarrow> nat \<Rightarrow> nat \<Rightarrow> (bytes \<times> nat) option" where
  "hamming_minimize mx target dst start_len nbits =
     (let endb = start_len + nbits
      in do { (n, ret) \<leftarrow> hamming_scan mx target start_len endb 0;
              dst \<leftarrow> bmemcpy dst 0 mx 0 start_len (n - start_len);
              let nbits = endb - n;
              if nbits \<noteq> 0
              then do { dst \<leftarrow> bmemcpy dst 0 target 0 n nbits;
                        c \<leftarrow> bmemcmp_s mx target n nbits;
                        if c < 0
                        then do { b \<leftarrow> rd dst (n div 8);
                                  dst \<leftarrow> wr dst (n div 8) (b AND NOT (drop_bit (n mod 8) 0x80));
                                  Some (dst, ret + 1) }
                        else Some (dst, ret) }
              else Some (dst, ret) })"

text \<open>The three folding steps of \<open>popcount_3\<close> on one byte.\<close>

definition pc1 :: "nat \<Rightarrow> nat" where
  "pc1 d = d - (d div 2 ^ 1 AND 85)"

definition pc2 :: "nat \<Rightarrow> nat" where
  "pc2 d = (d div 2 ^ 0 AND 51) + (d div 2 ^ 2 AND 51)"

definition pc3 :: "nat \<Rightarrow> nat" where
  "pc3 d = (d + d div 2 ^ 4) AND 15"

section \<open>Hexadecimal notation\<close>

definition hexdigits :: bytes where
  "hexdigits = map (\<lambda>c. of_nat (of_char c)) ''0123456789abcdef''"

definition hexvals :: "int list" where
  "hexvals =
    [-1, -1, -1, -1, -1, -1, -1, -1, -1, -2, -2, -1, -1, -2, -1, -1,
     -1, -1, -1, -1, -1, -1, -1, -1, -1, -1, -1, -1, -1, -1, -1, -1,
     -2, -1, -1, -1, -1, -1, -1, -1, -1, -1, -1, -1, -1, -1, -1, -1,
      0,  1,  2,  3,  4,  5,  6,  7,  8,  9, -1, -1, -1, -1, -1, -1,
     -1, 10, 11, 12, 13, 14, 15, -1, -1, -1, -1, -1, -1, -1, -1, -1,
     -1, -1, -1, -1, -1, -1, -1, -1, -1, -1, -1, -1, -1, -1, -1, -1,
     -1, 10, 11, 12, 13, 14, 15, -1, -1, -1, -1, -1, -1, -1, -1, -1,
     -1, -1, -1, -1, -1, -1, -1, -1, -1, -1, -1, -1, -1, -1, -1, -1]"

text \<open>
  A C string is its bytes with the terminating zero.  \<open>(int8_t)c < 0\<close> is \<open>sint c < 0\<close>.
  The inner loop skips the characters between two pairs of digits.
\<close>

function unhexlify_skip :: "bytes \<Rightarrow> nat \<Rightarrow> nat option" where
  "unhexlify_skip src p =
     (case rd src p of
        None \<Rightarrow> None
      | Some c \<Rightarrow>
          if sint c < 0 then unhexlify_skip src (p + 1)
          else if c \<noteq> 0
          then (case rd hexvals (unat c) of
                  None \<Rightarrow> None
                | Some v \<Rightarrow> if v < 0 then unhexlify_skip src (p + 1) else Some p)
          else Some p)"
  by pat_completeness auto
termination
  by (relation "measure (\<lambda>(src, p). length src - p)") (auto simp: rd_def split: if_splits)

text \<open>
  The main loop of \<open>unhexlify\<close> from its \<open>c\<close>-th iteration: \<open>k\<close> is \<open>len - c\<close>.  The result is the
  destination buffer and the returned count; \<open>Some (dst, -1)\<close> is the error return, \<open>None\<close> an
  access outside a buffer.
\<close>

fun unhexlify_loop :: "bytes \<Rightarrow> nat \<Rightarrow> nat \<Rightarrow> bytes \<Rightarrow> nat \<Rightarrow> (bytes \<times> int) option" where
  "unhexlify_loop dst c 0 src p = Some (dst, int c)"
| "unhexlify_loop dst c (Suc k) src p =
     do { x \<leftarrow> rd src p;
          if x = 0 then Some (dst, int c)
          else do {
            y \<leftarrow> rd src (p + 1);
            if y = 0 then Some (dst, int c)
            else if sint x < 0 then Some (dst, -1)
            else do {
              xv \<leftarrow> rd hexvals (unat x);
              if xv < 0 \<or> sint y < 0 then Some (dst, -1)
              else do {
                yv \<leftarrow> rd hexvals (unat y);
                if yv < 0 then Some (dst, -1)
                else do {
                  dst \<leftarrow> wr dst c (of_int (16 * xv) OR of_int yv);
                  p \<leftarrow> unhexlify_skip src (p + 2);
                  unhexlify_loop dst (c + 1) k src p } } } } }"

definition unhexlify :: "bytes \<Rightarrow> nat \<Rightarrow> bytes \<Rightarrow> (bytes \<times> int) option" where
  "unhexlify dst len src = unhexlify_loop dst 0 len src 0"

fun hexlify_loop :: "bytes \<Rightarrow> nat \<Rightarrow> bytes \<Rightarrow> nat \<Rightarrow> nat \<Rightarrow> bytes option" where
  "hexlify_loop dst p src i 0 = wr dst p 0"
| "hexlify_loop dst p src i (Suc k) =
     do { b \<leftarrow> rd src i;
          h \<leftarrow> rd hexdigits (unat (drop_bit 4 b));
          dst \<leftarrow> wr dst p h;
          l \<leftarrow> rd hexdigits (unat (b AND 0x0f));
          dst \<leftarrow> wr dst (p + 1) l;
          hexlify_loop dst (p + 2) src (i + 1) k }"

definition hexlify :: "bytes \<Rightarrow> bytes \<Rightarrow> nat \<Rightarrow> bytes option" where
  "hexlify dst src len = hexlify_loop dst 0 src 0 len"

text \<open>
  The contract of \<open>hamming_minimize\<close>: outside the window nothing changes, inside the result is
  not above \<open>mx\<close>, the returned number is its distance to \<open>target\<close>, and no string that is not
  above \<open>mx\<close> is nearer to \<open>target\<close>.
\<close>

definition minimizes :: "bytes \<Rightarrow> bytes \<Rightarrow> bytes \<Rightarrow> nat \<Rightarrow> nat \<Rightarrow> bytes \<Rightarrow> nat \<Rightarrow> bool" where
  "minimizes mx target dst s nb d ret \<longleftrightarrow>
     length d = length dst \<and>
     (\<forall>m < 8 * length dst. m < s \<or> s + nb \<le> m \<longrightarrow> bitn d m = bitn dst m) \<and>
     \<not> bits_less (\<lambda>j. bitn mx (s + j)) (\<lambda>j. bitn d (s + j)) nb \<and>
     ret = bits_dist (bitn d) (bitn target) s nb \<and>
     (\<forall>e. \<not> bits_less (\<lambda>j. bitn mx (s + j)) (\<lambda>j. e (s + j)) nb \<longrightarrow>
        ret \<le> bits_dist e (bitn target) s nb)"

definition hexpair :: "u8 \<Rightarrow> bytes" where
  "hexpair b = [hexdigits ! unat (drop_bit 4 b), hexdigits ! unat (b AND 0x0f)]"

section \<open>Lemmas: copies\<close>

lemma rd_masks: "n \<le> 8 \<Longrightarrow> rd bbytecpy_masks n = Some (push_bit (8 - n) 0xff)"
proof -
  assume "n \<le> 8"
  then have "n = 0 \<or> n = 1 \<or> n = 2 \<or> n = 3 \<or> n = 4 \<or> n = 5 \<or> n = 6 \<or> n = 7 \<or> n = 8" by arith
  then show ?thesis
    by (elim disjE) (simp_all add: rd_def bbytecpy_masks_def)
qed

lemma bbytecpy_spec:
  assumes "nbits \<le> 8" "frombit < 8" "di < length dst" "si < length src"
  shows "\<exists>d. bbytecpy dst di src si frombit nbits = Some d \<and> length d = length dst \<and>
    (\<forall>n. bitn d n = (if n div 8 = di \<and> frombit \<le> n mod 8 \<and> n mod 8 < frombit + nbits
                     then bitn src (8 * si + n mod 8) else bitn dst n))"
proof -
  define m :: u8 where "m = drop_bit frombit (push_bit (8 - nbits) 0xff)"
  define v where "v = (dst ! di AND NOT m) OR (src ! si AND m)"
  have m: "bit m (7 - j) \<longleftrightarrow> frombit \<le> j \<and> j < frombit + nbits" if "j < 8" for j
    using that assms unfolding m_def bit_drop_bit_eq comp_def bit_push_ff by auto
  have v: "bit v (7 - n mod 8) = (if frombit \<le> n mod 8 \<and> n mod 8 < frombit + nbits
      then bit (src ! si) (7 - n mod 8) else bit (dst ! di) (7 - n mod 8))" for n
    using m [of "n mod 8"] by (auto simp: v_def bit_and_iff bit_or_iff bit_not_iff)
  have "bbytecpy dst di src si frombit nbits = Some (dst[di := v])"
    using assms by (simp add: bbytecpy_def rd_masks mem_simps m_def v_def Let_def)
  then show ?thesis
    using assms v by (auto simp: bitn_update) (auto simp: bitn_def)
qed

lemma bbytecpy_copied:
  assumes "frombit + nbits \<le> 8" "frombit < 8" "di < length dst" "si < length src"
  shows "\<exists>d. bbytecpy dst di src si frombit nbits = Some d \<and>
    bits_copied dst (8 * di + frombit) src (8 * si + frombit) nbits d"
proof -
  obtain d where d: "bbytecpy dst di src si frombit nbits = Some d" "length d = length dst"
    and b: "\<And>n. bitn d n = (if n div 8 = di \<and> frombit \<le> n mod 8 \<and> n mod 8 < frombit + nbits
                     then bitn src (8 * si + n mod 8) else bitn dst n)"
    using bbytecpy_spec [of nbits frombit di dst si src] assms by auto
  have e: "(8 * di + frombit + j) div 8 = di" "(8 * di + frombit + j) mod 8 = frombit + j"
    if "j < nbits" for j
    using that assms(1) by (simp_all add: add.assoc)
  have o: "\<not> (n div 8 = di \<and> frombit \<le> n mod 8 \<and> n mod 8 < frombit + nbits)"
    if "n < 8 * di + frombit \<or> 8 * di + frombit + nbits \<le> n" for n
    using that by (metis add.assoc add_less_cancel_left leD mult_div_mod_eq nat_add_left_cancel_le)
  show ?thesis
    using d assms o by (auto simp: bits_copied_def b e add.assoc)
qed

lemma bmemcpy_head:
  assumes "fr < 8" "di < length dst" "si < length src" "dr = (if fr = 0 then 0 else 1)"
  shows "\<exists>d. (if fr \<noteq> 0
              then do { dst \<leftarrow> bbytecpy dst di src si fr (8 - fr); Some (dst, di + 1, si + 1, nb - 1) }
              else Some (dst, di, si, nb)) = Some (d, di + dr, si + dr, nb - dr) \<and>
    bits_copied dst (8 * di + fr) src (8 * si + fr) (8 * dr - fr) d"
proof (cases "fr = 0")
  case False
  then show ?thesis
    using bbytecpy_copied [of fr "8 - fr" di dst si src] assms by auto
qed (use assms in \<open>simp add: bits_copied_0\<close>)

lemma bmemcpy_tail:
  assumes "tr < 8" "8 * di + tr \<le> 8 * length dst" "8 * si + tr \<le> 8 * length src"
  shows "\<exists>d. (if tr \<noteq> 0 then bbytecpy dst di src si 0 tr else Some dst) = Some d \<and>
    bits_copied dst (8 * di) src (8 * si) tr d"
proof (cases "tr = 0")
  case False
  with assms have "di < length dst" "si < length src" by linarith+
  with False show ?thesis
    using bbytecpy_copied [of 0 tr di dst si src] assms by auto
qed (use assms in \<open>simp add: bits_copied_0\<close>)

text \<open>A copy of \<open>nb \<ge> 1\<close> byte boundaries: a partial first byte, whole bytes, a partial last byte.\<close>

lemma bmemcpy_bytes:
  assumes "fr < 8" "tr < 8" "0 < nb" "8 * (di + nb) + tr \<le> 8 * length dst"
    "8 * (si + nb) + tr \<le> 8 * length src"
  shows "\<exists>d. do {
           (dst, di, si, nbyte) \<leftarrow>
             (if fr \<noteq> 0
              then do { dst \<leftarrow> bbytecpy dst di src si fr (8 - fr); Some (dst, di + 1, si + 1, nb - 1) }
              else Some (dst, di, si, nb));
           dst \<leftarrow> memcpy_at dst di src si nbyte;
           if tr \<noteq> 0 then bbytecpy dst (di + nbyte) src (si + nbyte) 0 tr
           else Some dst } = Some d \<and>
    bits_copied dst (8 * di + fr) src (8 * si + fr) (8 * nb + tr - fr) d"
proof -
  define dr :: nat where "dr = (if fr = 0 then 0 else 1)"
  have dr: "dr \<le> nb" "fr \<le> 8 * dr" using assms by (auto simp: dr_def)
  obtain d1 where d1: "(if fr \<noteq> 0
      then do { dst \<leftarrow> bbytecpy dst di src si fr (8 - fr); Some (dst, di + 1, si + 1, nb - 1) }
      else Some (dst, di, si, nb)) = Some (d1, di + dr, si + dr, nb - dr)"
    and c1: "bits_copied dst (8 * di + fr) src (8 * si + fr) (8 * dr - fr) d1"
    using bmemcpy_head [of fr di dst si src dr nb] assms dr_def by auto
  have l1: "length d1 = length dst" using c1 by (simp add: bits_copied_def)
  obtain d2 where d2: "memcpy_at d1 (di + dr) src (si + dr) (nb - dr) = Some d2"
    and c2: "bits_copied d1 (8 * (di + dr)) src (8 * (si + dr)) (8 * (nb - dr)) d2"
    using memcpy_copied [of "di + dr" "nb - dr" d1 "si + dr" src] assms l1 dr by auto
  have l2: "length d2 = length dst" using c2 l1 by (simp add: bits_copied_def)
  obtain d where d: "(if tr \<noteq> 0 then bbytecpy d2 (di + nb) src (si + nb) 0 tr else Some d2) = Some d"
    and c3: "bits_copied d2 (8 * (di + nb)) src (8 * (si + nb)) tr d"
    using bmemcpy_tail [of tr "di + nb" d2 "si + nb" src] assms l2 by auto
  have a: "8 * x + fr + (8 * dr - fr) = 8 * (x + dr)" "8 * x + fr + (8 * nb - fr) = 8 * (x + nb)" for x
    using dr assms by simp_all
  have k: "8 * dr - fr + 8 * (nb - dr) = 8 * nb - fr" "8 * nb - fr + tr = 8 * nb + tr - fr"
    using dr assms by simp_all
  have c12: "bits_copied dst (8 * di + fr) src (8 * si + fr) (8 * nb - fr) d2"
    using bits_copied_trans [OF c1, unfolded a, OF c2] by (simp only: k)
  have "bits_copied dst (8 * di + fr) src (8 * si + fr) (8 * nb + tr - fr) d"
    using bits_copied_trans [OF c12, unfolded a, OF c3] by (simp only: k)
  then show ?thesis
    using d1 d2 d dr by (cases "tr = 0") simp_all
qed

lemma bmemcpy_copied:
  assumes "8 * doff + frombit + nbits \<le> 8 * length dst" "8 * soff + frombit + nbits \<le> 8 * length src"
    and "nbits = 0 \<Longrightarrow> 8 * doff + frombit < 8 * length dst \<and> 8 * soff + frombit < 8 * length src"
  shows "\<exists>d. bmemcpy dst doff src soff frombit nbits = Some d \<and>
    bits_copied dst (8 * doff + frombit) src (8 * soff + frombit) nbits d"
proof -
  define fb fr tb tr where "fb = frombit div 8" and "fr = frombit mod 8"
    and "tb = (frombit + nbits) div 8" and "tr = (frombit + nbits) mod 8"
  note defs = fb_def fr_def tb_def tr_def
  have f: "frombit = 8 * fb + fr" "fr < 8" and t: "frombit + nbits = 8 * tb + tr" "tr < 8"
    by (simp_all add: defs)
  have e: "8 * x + frombit = 8 * (x + fb) + fr" for x using f by simp
  have le: "fb \<le> tb" by (simp add: defs div_le_mono)
  show ?thesis
  proof (cases "tb - fb = 0")
    case True
    then have "fr + nbits = tr" using f t le by linarith
    moreover have "doff + fb < length dst" "soff + fb < length src"
      using assms f by (cases "nbits = 0"; linarith)+
    ultimately show ?thesis
      using bbytecpy_copied [of fr nbits "doff + fb" dst "soff + fb" src] f(2) t(2) True
      unfolding e by (simp add: bmemcpy_def Let_def flip: defs)
  next
    case False
    then have lt: "0 < tb - fb" by simp
    have "8 * (tb - fb) + tr - fr = nbits" using f t le by linarith
    moreover have "8 * (doff + fb + (tb - fb)) + tr \<le> 8 * length dst"
      "8 * (soff + fb + (tb - fb)) + tr \<le> 8 * length src"
      using assms(1,2) t le by simp_all
    ultimately show ?thesis
      using bmemcpy_bytes [OF f(2) t(2) lt, of "doff + fb" dst "soff + fb" src] False
      unfolding e bmemcpy_def Let_def defs [symmetric] by (simp only: if_False)
  qed
qed

lemma shift_left_copied:
  assumes "ds < ss" "ss + n \<le> 8" "di < length dst" "si < length src"
  shows "\<exists>d. bbytecpy dst di [push_bit (ss - ds) (src ! si)] 0 ds n = Some d \<and>
    bits_copied dst (8 * di + ds) src (8 * si + ss) n d"
proof -
  have "bitn [push_bit (ss - ds) (src ! si)] (8 * 0 + ds + j) = bitn src (8 * si + ss + j)" if "j < n" for j
    using that assms bitn_block [of "ss + j" src si]
    by (auto simp: bitn_single bit_push_bit_iff add.assoc add.commute [of j])
  then show ?thesis
    using bbytecpy_copied [of ds n di dst 0 "[push_bit (ss - ds) (src ! si)]"] assms
      bits_copied_src_cong [of n "[push_bit (ss - ds) (src ! si)]" "8 * 0 + ds" src "8 * si + ss"]
    by auto
qed

lemma shift_right_copied:
  assumes "ss < ds" "ds + n \<le> 8" "ds < 8" "di < length dst" "si < length src"
  shows "\<exists>d. bbytecpy dst di [drop_bit (ds - ss) (src ! si)] 0 ds n = Some d \<and>
    bits_copied dst (8 * di + ds) src (8 * si + ss) n d"
proof -
  have "bitn [drop_bit (ds - ss) (src ! si)] (8 * 0 + ds + j) = bitn src (8 * si + ss + j)" if "j < n" for j
    using that assms bitn_block [of "ss + j" src si]
    by (simp add: bitn_single bit_drop_bit_eq add.assoc)
  then show ?thesis
    using bbytecpy_copied [of ds n di dst 0 "[drop_bit (ds - ss) (src ! si)]"] assms
      bits_copied_src_cong [of n "[drop_bit (ds - ss) (src ! si)]" "8 * 0 + ds" src "8 * si + ss"]
    by auto
qed

lemma shift_loop_0: "bmemcpy_shift_loop dst di ds src si ss 0 = Some dst"
  by (simp add: bmemcpy_shift_loop.simps)

lemma shift_loop_left:
  assumes "0 < nbits" "ds < ss" "si < length src" "n = (if nbits < 8 - ss then nbits else 8 - ss)"
  shows "bmemcpy_shift_loop dst di ds src si ss nbits =
    Option.bind (bbytecpy dst di [push_bit (ss - ds) (src ! si)] 0 ds n)
      (\<lambda>dst. bmemcpy_shift_loop dst di (ds + n) src (si + 1) 0 (nbits - n))"
proof -
  have "nat (int ss - int ds) = ss - ds" "int ss - int ds > 0" using assms by simp_all
  then show ?thesis
    using assms by (subst bmemcpy_shift_loop.simps) (simp add: mem_simps Let_def)
qed

lemma shift_loop_right:
  assumes "0 < nbits" "ss < ds" "si < length src" "n = (if nbits < 8 - ds then nbits else 8 - ds)"
  shows "bmemcpy_shift_loop dst di ds src si ss nbits =
    Option.bind (bbytecpy dst di [drop_bit (ds - ss) (src ! si)] 0 ds n)
      (\<lambda>dst. bmemcpy_shift_loop dst (di + 1) 0 src si (ss + n) (nbits - n))"
proof -
  have "nat (- (int ss - int ds)) = ds - ss" "\<not> int ss - int ds > 0" using assms by simp_all
  then show ?thesis
    using assms by (subst bmemcpy_shift_loop.simps) (simp add: mem_simps Let_def)
qed

lemma shift_loop_step_left:
  assumes "0 < nbits" "ds < ss" "ss < 8" "si < length src"
    "8 * di + ds + nbits \<le> 8 * length dst" and n: "n = (if nbits < 8 - ss then nbits else 8 - ss)"
    and IH: "\<And>d. n < nbits \<Longrightarrow> length d = length dst \<Longrightarrow>
      \<exists>e. bmemcpy_shift_loop d di (ds + n) src (si + 1) 0 (nbits - n) = Some e \<and>
        bits_copied d (8 * di + (ds + n)) src (8 * (si + 1) + 0) (nbits - n) e"
  shows "\<exists>e. bmemcpy_shift_loop dst di ds src si ss nbits = Some e \<and>
    bits_copied dst (8 * di + ds) src (8 * si + ss) nbits e"
proof -
  have b: "di < length dst" "n \<le> nbits" "ss + n \<le> 8" using assms by auto
  obtain d where d: "bbytecpy dst di [push_bit (ss - ds) (src ! si)] 0 ds n = Some d"
    and c: "bits_copied dst (8 * di + ds) src (8 * si + ss) n d"
    using shift_left_copied assms b by blast
  have l: "length d = length dst" using c by (simp add: bits_copied_def)
  have "\<exists>e. bmemcpy_shift_loop d di (ds + n) src (si + 1) 0 (nbits - n) = Some e \<and>
    bits_copied d (8 * di + ds + n) src (8 * si + ss + n) (nbits - n) e"
  proof (cases "n < nbits")
    case True
    then have "8 * si + ss + n = 8 * (si + 1) + 0" using assms by (auto split: if_splits)
    then show ?thesis using IH [OF True l] by (simp only: add.assoc)
  qed (use b l assms in \<open>simp add: shift_loop_0 bits_copied_0\<close>)
  then show ?thesis
    using bits_copied_trans [OF c, of "nbits - n"] b
    by (auto simp: shift_loop_left [OF assms(1,2,4) n] d)
qed

lemma shift_loop_step_right:
  assumes "0 < nbits" "ss < ds" "ds < 8" "si < length src"
    "8 * di + ds + nbits \<le> 8 * length dst" and n: "n = (if nbits < 8 - ds then nbits else 8 - ds)"
    and IH: "\<And>d. n < nbits \<Longrightarrow> length d = length dst \<Longrightarrow>
      \<exists>e. bmemcpy_shift_loop d (di + 1) 0 src si (ss + n) (nbits - n) = Some e \<and>
        bits_copied d (8 * (di + 1) + 0) src (8 * si + (ss + n)) (nbits - n) e"
  shows "\<exists>e. bmemcpy_shift_loop dst di ds src si ss nbits = Some e \<and>
    bits_copied dst (8 * di + ds) src (8 * si + ss) nbits e"
proof -
  have b: "di < length dst" "n \<le> nbits" "ds + n \<le> 8" using assms by auto
  obtain d where d: "bbytecpy dst di [drop_bit (ds - ss) (src ! si)] 0 ds n = Some d"
    and c: "bits_copied dst (8 * di + ds) src (8 * si + ss) n d"
    using shift_right_copied assms b by blast
  have l: "length d = length dst" using c by (simp add: bits_copied_def)
  have "\<exists>e. bmemcpy_shift_loop d (di + 1) 0 src si (ss + n) (nbits - n) = Some e \<and>
    bits_copied d (8 * di + ds + n) src (8 * si + ss + n) (nbits - n) e"
  proof (cases "n < nbits")
    case True
    then have "8 * di + ds + n = 8 * (di + 1) + 0" using assms by (auto split: if_splits)
    then show ?thesis using IH [OF True l] by (simp only: add.assoc)
  qed (use b l assms in \<open>simp add: shift_loop_0 bits_copied_0\<close>)
  then show ?thesis
    using bits_copied_trans [OF c, of "nbits - n"] b
    by (auto simp: shift_loop_right [OF assms(1,2,4) n] d)
qed

lemma bmemcpy_shift_loop_copied:
  assumes "ds < 8" "ss < 8" "ds \<noteq> ss" "8 * di + ds + nbits \<le> 8 * length dst"
    "8 * si + ss + nbits \<le> 8 * length src"
  shows "\<exists>d. bmemcpy_shift_loop dst di ds src si ss nbits = Some d \<and>
    bits_copied dst (8 * di + ds) src (8 * si + ss) nbits d"
  using assms
proof (induction nbits arbitrary: dst di ds si ss rule: less_induct)
  case (less nbits)
  have b: "si < length src" if "0 < nbits" using that less.prems by linarith
  consider "nbits = 0" | "0 < nbits" "ds < ss" | "0 < nbits" "ss < ds" using less.prems(3) by linarith
  then show ?case
  proof cases
    case 1
    then show ?thesis using less.prems by (simp add: shift_loop_0 bits_copied_0)
  next
    case 2
    show ?thesis
      by (rule shift_loop_step_left [OF 2 less.prems(2) b [OF 2(1)] less.prems(4) refl], rule less.IH)
        (use 2 less.prems in \<open>auto split: if_splits\<close>)
  next
    case 3
    show ?thesis
      by (rule shift_loop_step_right [OF 3 less.prems(1) b [OF 3(1)] less.prems(4) refl], rule less.IH)
        (use 3 less.prems in \<open>auto split: if_splits\<close>)
  qed
qed

lemma bmemcpy_shift_copied:
  assumes "dst_start + nbits \<le> 8 * length dst" "src_start + nbits \<le> 8 * length src"
    and "nbits = 0 \<Longrightarrow> dst_start < 8 * length dst \<and> src_start < 8 * length src"
  shows "\<exists>d. bmemcpy_shift dst dst_start src src_start nbits = Some d \<and>
    bits_copied dst dst_start src src_start nbits d"
proof (cases "dst_start mod 8 = src_start mod 8")
  case True
  have e: "8 * (dst_start div 8) + dst_start mod 8 = dst_start"
    "8 * (src_start div 8) + dst_start mod 8 = src_start"
    by simp (unfold True, simp)
  show ?thesis
    using bmemcpy_copied [of "dst_start div 8" "dst_start mod 8" nbits dst "src_start div 8" src] assms True
    unfolding e by (simp add: bmemcpy_shift_def Let_def)
next
  case False
  have e: "8 * (dst_start div 8) + dst_start mod 8 = dst_start"
    "8 * (src_start div 8) + src_start mod 8 = src_start"
    by simp_all
  show ?thesis
    using bmemcpy_shift_loop_copied [of "dst_start mod 8" "src_start mod 8" "dst_start div 8" nbits dst
        "src_start div 8" src] assms False
    unfolding e by (simp add: bmemcpy_shift_def Let_def)
qed

section \<open>Lemmas: comparisons\<close>

lemma bmemcmp_cmp:
  assumes "8 * o1 + bitlen \<le> 8 * length m1" "8 * o2 + bitlen \<le> 8 * length m2"
  shows "\<exists>r. bmemcmp m1 o1 m2 o2 bitlen = Some r \<and>
    bits_cmp r (\<lambda>j. bitn m1 (8 * o1 + j)) (\<lambda>j. bitn m2 (8 * o2 + j)) bitlen"
proof -
  define nb rem where "nb = bitlen div 8" and "rem = bitlen mod 8"
  have bl: "bitlen = 8 * nb + rem" "rem < 8" by (simp_all add: nb_def rem_def)
  obtain r where r: "memcmp m1 o1 m2 o2 nb = Some r"
    "bits_cmp r (\<lambda>j. bitn m1 (8 * o1 + j)) (\<lambda>j. bitn m2 (8 * o2 + j)) (8 * nb)"
    using memcmp_cmp [of o1 nb m1 o2 m2] assms bl by auto
  have unf: "bmemcmp m1 o1 m2 o2 bitlen = (if r \<noteq> 0 then Some r else if rem = 0 then Some 0
      else do { p1 \<leftarrow> rd m1 (o1 + nb); p2 \<leftarrow> rd m2 (o2 + nb);
                Some (uint (p1 AND push_bit (8 - rem) 0xff) - uint (p2 AND push_bit (8 - rem) 0xff)) })"
    using r by (simp add: bmemcmp_def Let_def flip: nb_def rem_def)
  consider "r \<noteq> 0" | "r = 0" "rem = 0" | "r = 0" "0 < rem" by blast
  then show ?thesis
  proof cases
    case 1
    then show ?thesis using unf bits_cmp_decided [OF r(2)] bl by simp
  next
    case 2
    then show ?thesis using unf r bl by simp
  next
    case 3
    let ?m = "push_bit (8 - rem) 0xff :: u8"
    have i: "o1 + nb < length m1" "o2 + nb < length m2" using assms bl 3 by linarith+
    have "bits_cmp (uint (m1 ! (o1 + nb) AND ?m) - uint (m2 ! (o2 + nb) AND ?m))
      (\<lambda>j. bit (m1 ! (o1 + nb)) (7 - (0 + j))) (\<lambda>j. bit (m2 ! (o2 + nb)) (7 - (0 + j))) rem"
      by (rule bits_cmp_window) (use bl in \<open>unfold bit_push_ff, auto\<close>)
    then have "bits_cmp (uint (m1 ! (o1 + nb) AND ?m) - uint (m2 ! (o2 + nb) AND ?m))
      (\<lambda>j. bitn m1 (8 * o1 + (8 * nb + j))) (\<lambda>j. bitn m2 (8 * o2 + (8 * nb + j))) rem"
      by (subst (asm) bits_cmp_cong) (use bl in \<open>auto simp: bitn_def\<close>)
    then show ?thesis
      using unf 3 i r bits_cmp_more [of _ _ "8 * nb"] bl by (simp add: mem_simps)
  qed
qed

text \<open>The part of a byte from bit \<open>lo\<close> on, as one window of a comparison.\<close>

lemma bits_cmp_first_byte:
  assumes m: "\<And>j. j < 8 \<Longrightarrow> bit m (7 - j) \<longleftrightarrow> start mod 8 \<le> j \<and> j < start mod 8 + k"
    and "start mod 8 + k \<le> 8"
  shows "bits_cmp (uint (m1 ! (start div 8) AND m) - uint (m2 ! (start div 8) AND m))
    (\<lambda>j. bitn m1 (start + j)) (\<lambda>j. bitn m2 (start + j)) k"
proof -
  have e: "(start + j) div 8 = start div 8" "(start + j) mod 8 = start mod 8 + j" if "j < k" for j
    using that assms(2) by (simp_all add: div_mod_window)
  have "bits_cmp (uint (m1 ! (start div 8) AND m) - uint (m2 ! (start div 8) AND m))
    (\<lambda>j. bit (m1 ! (start div 8)) (7 - (start mod 8 + j)))
    (\<lambda>j. bit (m2 ! (start div 8)) (7 - (start mod 8 + j))) k"
    by (rule bits_cmp_window) (use assms in auto)
  then show ?thesis
    by (subst (asm) bits_cmp_cong) (auto simp: bitn_def e)
qed

lemma bmemcmp_s_cmp:
  assumes "start + nbits \<le> 8 * length m1" "start + nbits \<le> 8 * length m2"
  shows "\<exists>r. bmemcmp_s m1 m2 start nbits = Some r \<and>
    bits_cmp r (\<lambda>j. bitn m1 (start + j)) (\<lambda>j. bitn m2 (start + j)) nbits"
proof -
  define md fi la where "md = start mod 8" and "fi = start div 8" and "la = (start + nbits) div 8"
  note defs = md_def fi_def la_def
  have st: "start = 8 * fi + md" "md < 8" by (simp_all add: defs)
  have idx: "fi < length m1" "fi < length m2" if "0 < nbits" using that assms st by linarith+
  consider "nbits = 0" | "0 < nbits" "fi = la" | "0 < nbits" "fi \<noteq> la" "md = 0" | "0 < nbits" "fi \<noteq> la" "0 < md"
    by auto
  then show ?thesis
  proof cases
    case 1
    then show ?thesis by (simp add: bmemcmp_s_def bits_cmp_0)
  next
    case 2
    then have s8: "md + nbits < 8" unfolding defs by (simp add: same_block)
    let ?k = "8 - nbits - md"
    let ?m = "push_bit ?k (drop_bit ?k (drop_bit md 0xff)) :: u8"
    have "bit ?m (7 - j) \<longleftrightarrow> md \<le> j \<and> j < md + nbits" if "j < 8" for j
      unfolding bit_push_bit_iff bit_drop_bit_eq comp_def ff_mask bit_mask_iff using that s8 by auto
    then show ?thesis
      using bits_cmp_first_byte [of ?m start nbits m1 m2] 2 s8 idx
      by (simp add: bmemcmp_s_def Let_def mem_simps flip: defs)
  next
    case 3
    then have "bmemcmp_s m1 m2 start nbits = bmemcmp m1 fi m2 fi nbits"
      by (simp add: bmemcmp_s_def Let_def flip: defs)
    then show ?thesis
      using bmemcmp_cmp [of fi nbits m1 fi m2] assms st 3 by simp
  next
    case 4
    let ?m = "drop_bit md 0xff :: u8" and ?n = "nbits - (8 - md)"
    have s8: "8 - md \<le> nbits" using 4 other_block [of start nbits] unfolding defs by linarith
    have "bit ?m (7 - j) \<longleftrightarrow> md \<le> j \<and> j < md + (8 - md)" if "j < 8" for j
      unfolding bit_drop_ff using that st by auto
    then have c1: "bits_cmp (uint (m1 ! fi AND ?m) - uint (m2 ! fi AND ?m))
      (\<lambda>j. bitn m1 (start + j)) (\<lambda>j. bitn m2 (start + j)) (8 - md)" (is "bits_cmp ?i _ _ _")
      using bits_cmp_first_byte [of ?m start "8 - md" m1 m2] st by (simp flip: defs)
    have "8 * (fi + 1) + ?n = start + nbits" using st s8 by simp
    then have b: "8 * (fi + 1) + ?n \<le> 8 * length m1" "8 * (fi + 1) + ?n \<le> 8 * length m2"
      using assms by simp_all
    obtain r where r: "bmemcmp m1 (fi + 1) m2 (fi + 1) ?n = Some r"
      "bits_cmp r (\<lambda>j. bitn m1 (8 * (fi + 1) + j)) (\<lambda>j. bitn m2 (8 * (fi + 1) + j)) ?n"
      using bmemcmp_cmp [OF b] by blast
    have e: "8 * (fi + 1) + j = start + (8 - md + j)" for j using st by simp
    have "bits_cmp r (\<lambda>j. bitn m1 (start + (8 - md + j))) (\<lambda>j. bitn m2 (start + (8 - md + j))) ?n"
      using r(2) unfolding e .
    then have "bits_cmp r (\<lambda>j. bitn m1 (start + j)) (\<lambda>j. bitn m2 (start + j)) nbits" if "?i = 0"
      using bits_cmp_more [of _ _ "8 - md" r ?n] c1 that s8 by simp
    moreover have "bits_cmp ?i (\<lambda>j. bitn m1 (start + j)) (\<lambda>j. bitn m2 (start + j)) nbits" if "?i \<noteq> 0"
      using bits_cmp_decided [OF c1 that, of ?n] s8 by simp
    moreover have "bmemcmp_s m1 m2 start nbits = (if ?i \<noteq> 0 then Some ?i else if ?n \<noteq> 0 then Some r else Some 0)"
      using 4 idx r(1) by (simp add: bmemcmp_s_def Let_def mem_simps flip: defs)
    moreover have "r = 0" if "?n = 0" using r(2) that by (auto simp: bits_cmp_def bits_eq_def)
    ultimately show ?thesis by (cases "?i = 0"; cases "?n = 0") auto
  qed
qed

section \<open>Lemmas: population count and Hamming distance\<close>

lemma nibble_and_digit:
  fixes d A M :: nat
  assumes "d \<le> 68" "A mod 16 \<le> 4"
  shows "((d + 2 ^ 8 * A) + (d + 2 ^ 8 * A) div 2 ^ 4) AND (15 + 2 ^ 8 * M) =
    ((d + d div 2 ^ 4) AND 15) + 2 ^ 8 * ((A + A div 2 ^ 4) AND M)"
proof -
  have e: "(d + 2 ^ 8 * A) + (d + 2 ^ 8 * A) div 2 ^ 4 =
    (d + d div 16 + 2 ^ 4 * (A mod 16)) + 2 ^ 8 * (A + A div 2 ^ 4)"
  proof -
    have "(d + 256 * A) div 16 = d div 16 + 16 * A"
      using div_mult_self2 [of 16 d "16 * A"] by simp
    moreover have "16 * A = 16 * (A mod 16) + 256 * (A div 16)"
      using mult_div_mod_eq [of 16 A] by linarith
    ultimately show ?thesis by simp
  qed
  have lo: "d + d div 16 + 2 ^ 4 * (A mod 16) < 2 ^ 8" using assms div_le_mono [of d 68 16] by simp
  define q r where "q = (d + d div 16) div 16" and "r = (d + d div 16) mod 16"
  then have qr: "d + d div 16 = r + 2 ^ 4 * q" "r < 2 ^ 4" by simp_all
  have "(r + 2 ^ 4 * q + 2 ^ 4 * (A mod 16)) AND 15 = r AND 15"
    using and_digit [of r 4 15 "q + A mod 16" 0] qr(2) by (simp add: distrib_left add.assoc)
  moreover have "(r + 2 ^ 4 * q) AND 15 = r AND 15"
    using and_digit [of r 4 15 q 0] qr(2) by simp
  ultimately show ?thesis
    unfolding e and_digit [OF lo, of 15, simplified] using and_digit [OF lo, of 15 "A + A div 2 ^ 4" M] qr by simp
qed

lemma nibble_and_undigits:
  assumes "\<forall>d \<in> set ds. d \<le> 68 \<and> d mod 16 \<le> 4"
  shows "(undigits 8 ds + undigits 8 ds div 2 ^ 4) AND undigits 8 (replicate (length ds) 15) =
    undigits 8 (map (\<lambda>d. (d + d div 2 ^ 4) AND 15) ds)"
  using assms
proof (induction ds)
  case (Cons d ds)
  have "undigits 8 ds mod 16 \<le> 4"
  proof (cases ds)
    case (Cons e es)
    then have "undigits 8 ds = e + 16 * (16 * undigits 8 es)" by simp
    then have "undigits 8 ds mod 16 = e mod 16" by (metis mod_mult_self2)
    then show ?thesis using Cons \<open>\<forall>d \<in> set (d # ds). d \<le> 68 \<and> d mod 16 \<le> 4\<close> by simp
  qed simp
  with Cons show ?case using nibble_and_digit [of d "undigits 8 ds"] by simp
qed simp

lemma pc_byte_int:
  "\<forall>d \<in> set [0 .. 255 :: int].
     (let p1 = d - (d div 2 AND 85); p2 = (p1 AND 51) + (p1 div 4 AND 51); p3 = (p2 + p2 div 16) AND 15
      in d div 2 AND 85 \<le> d \<and> p1 < 256 \<and> p2 \<le> 68 \<and> p2 mod 16 \<le> 4 \<and>
         p3 \<le> 8 \<and> p3 = int (length (filter (bit d) [0 ..< 8])))"
  by code_simp

lemma pc_byte:
  assumes "d < 256"
  shows "d div 2 AND 85 \<le> d" "pc1 d < 256" "pc2 (pc1 d) \<le> 68" "pc2 (pc1 d) mod 16 \<le> 4"
    "pc3 (pc2 (pc1 d)) \<le> 8" "pc3 (pc2 (pc1 d)) = length (filter (bit d) [0 ..< 8])"
proof -
  have m: "int d \<in> set [0 .. 255]" using assms by simp
  have "int (d div 2 AND 85) \<le> int d"
    using pc_byte_int [rule_format, OF m] by (simp add: Let_def of_nat_and_eq zdiv_int)
  then have le: "d div 2 AND 85 \<le> d" by simp
  have i1: "int (pc1 d) = int d - (int d div 2 AND 85)"
    using le by (simp add: pc1_def of_nat_diff of_nat_and_eq zdiv_int)
  have i2: "int (pc2 e) = (int e AND 51) + (int e div 4 AND 51)" for e
    by (simp add: pc2_def of_nat_and_eq zdiv_int)
  have i3: "int (pc3 e) = (int e + int e div 16) AND 15" for e
    by (simp add: pc3_def of_nat_and_eq zdiv_int)
  have b: "bit (int d) n = bit d n" for n by (simp add: bit_of_nat_iff)
  from pc_byte_int [rule_format, OF m, unfolded Let_def, folded i1, folded i2, folded i3, unfolded b]
  show "d div 2 AND 85 \<le> d" "pc1 d < 256" "pc2 (pc1 d) \<le> 68" "pc2 (pc1 d) mod 16 \<le> 4"
    "pc3 (pc2 (pc1 d)) \<le> 8" "pc3 (pc2 (pc1 d)) = length (filter (bit d) [0 ..< 8])"
    using le zmod_int [of "pc2 (pc1 d)" 16] by simp_all
qed

lemma byte_sum_product:
  assumes "length ds = 8" "\<forall>d \<in> set ds. d \<le> 8"
  shows "(undigits 8 ds * 0x0101010101010101 mod 2 ^ 64) div 2 ^ 56 = sum_list ds"
proof -
  obtain a b c d e f g h where ds: "ds = [a, b, c, d, e, f, g, h]"
    using assms(1) by (auto simp: length_Suc_conv numeral_eq_Suc)
  have l: "a \<le> 8" "b \<le> 8" "c \<le> 8" "d \<le> 8" "e \<le> 8" "f \<le> 8" "g \<le> 8" "h \<le> 8"
    using assms(2) by (simp_all add: ds)
  define s where "s = a + b + c + d + e + f + g + h"
  define lo where "lo = a + 2 ^ 8 * (a + b) + 2 ^ 16 * (a + b + c) + 2 ^ 24 * (a + b + c + d)
    + 2 ^ 32 * (a + b + c + d + e) + 2 ^ 40 * (a + b + c + d + e + f) + 2 ^ 48 * (a + b + c + d + e + f + g)"
  define hi where "hi = (b + c + d + e + f + g + h) + 2 ^ 8 * (c + d + e + f + g + h) + 2 ^ 16 * (d + e + f + g + h)
    + 2 ^ 24 * (e + f + g + h) + 2 ^ 32 * (f + g + h) + 2 ^ 40 * (g + h) + 2 ^ 48 * h"
  have "undigits 8 ds * 0x0101010101010101 = lo + 2 ^ 56 * s + 2 ^ 64 * hi"
    by (simp add: ds s_def lo_def hi_def algebra_simps)
  moreover have "lo < 2 ^ 56" using l by (simp add: lo_def)
  moreover have "s < 2 ^ 8" using l by (simp add: s_def)
  ultimately have "undigits 8 ds * 0x0101010101010101 mod 2 ^ 64 = lo + 2 ^ 56 * s"
    by simp
  then show ?thesis
    using \<open>lo < 2 ^ 56\<close> by (simp add: ds s_def)
qed

text \<open>
  The word level steps, on the digits of the argument in base 256: the sums of bytes do not
  carry into the next byte.
\<close>

lemma unat_add_digits:
  fixes x y :: u64
  assumes "unat x = undigits 8 ds" "unat y = undigits 8 es" "undigits 8 ds + undigits 8 es < 2 ^ 64"
  shows "unat (x + y) = undigits 8 ds + undigits 8 es"
  using assms by (simp add: unat_word_ariths)

lemma popcount_step1:
  assumes x: "unat x = undigits 8 ds" and b: "\<forall>d \<in> set ds. d < 256" and len: "length ds = 8"
  shows "unat (x - (drop_bit 1 x AND 0x5555555555555555) :: u64) = undigits 8 (map pc1 ds)"
proof -
  have "undigits 8 (replicate 8 85) = 0x5555555555555555" by (simp add: replicate_8)
  then have e: "unat (drop_bit 1 x AND 0x5555555555555555) = undigits 8 (map (\<lambda>d. d div 2 ^ 1 AND 85) ds)"
    using shift_and_undigits [of ds 8 1 85] b by (simp add: unat_and unat_drop x len)
  have "undigits 8 (map (\<lambda>d. d) ds) = undigits 8 (map (\<lambda>d. d div 2 ^ 1 AND 85) ds) + undigits 8 (map pc1 ds)"
    unfolding pc1_def by (rule undigits_map_diff) (use b pc_byte(1) in auto)
  with e have "unat x = unat (drop_bit 1 x AND 0x5555555555555555) + undigits 8 (map pc1 ds)"
    by (simp add: x)
  then show ?thesis by (simp add: unat_sub_if_size)
qed

lemma popcount_step2:
  assumes x: "unat x = undigits 8 ds" and b: "\<forall>d \<in> set ds. d < 256 \<and> pc2 d < 256" and len: "length ds = 8"
  shows "unat ((x AND 0x3333333333333333) + (drop_bit 2 x AND 0x3333333333333333) :: u64) =
    undigits 8 (map pc2 ds)"
proof -
  have r: "undigits 8 (replicate 8 51) = 0x3333333333333333" by (simp add: replicate_8)
  have e: "unat (x AND 0x3333333333333333) = undigits 8 (map (\<lambda>d. d div 2 ^ 0 AND 51) ds)"
    "unat (drop_bit 2 x AND 0x3333333333333333) = undigits 8 (map (\<lambda>d. d div 2 ^ 2 AND 51) ds)"
    using shift_and_undigits [of ds 8 0 51] shift_and_undigits [of ds 8 2 51] b r
    by (simp_all add: unat_and unat_drop x len)
  have s: "undigits 8 (map (\<lambda>d. d div 2 ^ 0 AND 51) ds) + undigits 8 (map (\<lambda>d. d div 2 ^ 2 AND 51) ds) =
      undigits 8 (map pc2 ds)"
    unfolding undigits_map_add pc2_def ..
  have "undigits 8 (map pc2 ds) < 2 ^ (8 * length (map pc2 ds))"
    by (rule undigits_less) (use b in auto)
  with unat_add_digits [OF e] s len show ?thesis by simp
qed

lemma popcount_step3:
  assumes x: "unat x = undigits 8 ds" and b: "\<forall>d \<in> set ds. d \<le> 68 \<and> d mod 16 \<le> 4" and len: "length ds = 8"
  shows "unat ((x + drop_bit 4 x) AND 0x0f0f0f0f0f0f0f0f :: u64) = undigits 8 (map pc3 ds)"
proof -
  have "undigits 8 ds < 2 ^ 63"
  proof -
    have "undigits 8 ds + undigits 8 ds = undigits 8 (map (\<lambda>d. d + d) ds)"
      using undigits_map_add [of 8 "\<lambda>d. d" ds "\<lambda>d. d"] by simp
    moreover have "undigits 8 (map (\<lambda>d. d + d) ds) < 2 ^ (8 * length (map (\<lambda>d. d + d) ds))"
      by (rule undigits_less) (use b in force)
    ultimately show ?thesis using len by simp
  qed
  then have "unat (x + drop_bit 4 x) = undigits 8 ds + undigits 8 ds div 2 ^ 4"
    by (simp add: unat_word_ariths unat_drop x)
  moreover have "undigits 8 (replicate 8 15) = 0x0f0f0f0f0f0f0f0f" by (simp add: replicate_8)
  ultimately show ?thesis
    using nibble_and_undigits [of ds] b unfolding pc3_def by (simp add: unat_and len)
qed

lemma popcount_3_count: "unat (popcount_3 x) = length (filter (bit x) [0 ..< 64])"
proof -
  define ds where "ds = digits 8 8 (unat x)"
  have x: "unat x = undigits 8 ds"
    using undigits_digits [of "unat x" 8 8] unsigned_less [of x, where 'a = nat] by (simp add: ds_def)
  have b: "\<forall>d \<in> set ds. d < 256" and len: "length ds = 8"
    using digits_bound [of _ 8 8 "unat x"] by (auto simp: ds_def)
  define x1 where "x1 = x - (drop_bit 1 x AND 0x5555555555555555)"
  define x2 where "x2 = (x1 AND 0x3333333333333333) + (drop_bit 2 x1 AND 0x3333333333333333)"
  define x3 where "x3 = (x2 + drop_bit 4 x2) AND 0x0f0f0f0f0f0f0f0f"
  have s1: "unat x1 = undigits 8 (map pc1 ds)"
    unfolding x1_def by (rule popcount_step1 [OF x b len])
  have s2: "unat x2 = undigits 8 (map pc2 (map pc1 ds))"
    unfolding x2_def using b pc_byte(2) le_less_trans [OF pc_byte(3), of _ 256] len
    by (intro popcount_step2 [OF s1]) auto
  have s3: "unat x3 = undigits 8 (map pc3 (map pc2 (map pc1 ds)))"
    unfolding x3_def using b len by (intro popcount_step3 [OF s2]) (auto intro: pc_byte)
  have "unat (popcount_3 x) = unat x3 * 0x0101010101010101 mod 2 ^ 64 div 2 ^ 56"
    unfolding popcount_3_def Let_def x1_def [symmetric] x2_def [symmetric] x3_def [symmetric]
    by (simp add: unat_drop unat_word_ariths)
  also have "\<dots> = sum_list (map pc3 (map pc2 (map pc1 ds)))"
    unfolding s3 by (rule byte_sum_product) (use b len pc_byte(5) in auto)
  also have "\<dots> = sum_list (map (\<lambda>d. length (filter (bit d) [0 ..< 8])) ds)"
    using b by (auto simp: comp_def pc_byte(6) intro!: arg_cong [of _ _ sum_list])
  also have "\<dots> = length (filter (bit (unat x)) [0 ..< 64])"
    using undigits_count [of ds 8] b len x by simp
  finally have "unat (popcount_3 x) = length (filter (bit (unat x)) [0 ..< 64])" .
  moreover have "bit (unat x) = bit x" by (rule ext) (simp add: bit_unsigned_iff)
  ultimately show ?thesis by simp
qed

lemma bit_ld64:
  assumes "ld64 be buf i = Some w" "k < 64"
  shows "bit w k = bitn buf (64 * i + (if be then 63 - k else 63 - le_pos k))"
proof -
  define bs where "bs = take 8 (drop (8 * i) buf)"
  have len: "8 * i + 8 \<le> length buf" and w: "w = be_word (if be then bs else rev bs)"
    using assms(1) by (auto simp: ld64_def bs_def Let_def split: if_splits)
  then have l: "length bs = 8" by (simp add: bs_def)
  have nth: "bs ! j = buf ! (8 * i + j)" if "j < 8" for j using that len by (simp add: bs_def)
  define q r where "q = k div 8" and "r = k mod 8"
  have qr: "k = 8 * q + r" "q < 8" "r < 8" using assms(2) by (simp_all add: q_def r_def)
  have "64 * i + (63 - k) = 8 * (8 * i + (7 - q)) + (7 - r)" using qr by simp
  then have b: "bitn buf (64 * i + (63 - k)) = bit (buf ! (8 * i + (7 - q))) r"
    using bitn_block [of "7 - r" buf "8 * i + (7 - q)"] qr by simp
  have "63 - le_pos k = 8 * q + (7 - r)" using qr by (simp add: le_pos_def)
  then have "64 * i + (63 - le_pos k) = 8 * (8 * i + q) + (7 - r)" by simp
  then have c: "bitn buf (64 * i + (63 - le_pos k)) = bit (buf ! (8 * i + q)) r"
    using bitn_block [of "7 - r" buf "8 * i + q"] qr by simp
  have "bit w k = bit (rev (if be then bs else rev bs) ! q) r"
    unfolding w using bit_be_word [of "if be then bs else rev bs" k, where 'a = 64] l assms(2)
    by (simp add: q_def r_def)
  then show ?thesis using b c qr l by (simp add: rev_nth nth)
qed

lemma bit_be64_to_cpu: "k < 64 \<Longrightarrow> bit (be64_to_cpu be w) k = bit w (if be then k else le_pos k)"
  using bit_be_word [of "rev (word_be 8 w)" k, where 'a = 64] bit_word_be [of "k div 8" 8 "k mod 8" w]
  by (simp add: be64_to_cpu_def le_pos_def)

lemma hamming_word:
  assumes "ld64 be m1 i = Some a" "ld64 be m2 i = Some b"
  shows "unat (popcount_3 (a XOR b)) = bits_dist (bitn m1) (bitn m2) (64 * i) 64"
proof -
  define f where "f k = (if be then 63 - k else 63 - le_pos k)" for k
  have "length (filter (bit (a XOR b)) [0 ..< 64]) =
    length (filter (\<lambda>k. bitn m1 (64 * i + f k) \<noteq> bitn m2 (64 * i + f k)) [0 ..< 64])"
    by (intro arg_cong [of _ _ length] filter_cong)
       (simp_all add: bit_xor_iff bit_ld64 [OF assms(1)] bit_ld64 [OF assms(2)] f_def)
  also have "\<dots> = length (filter (\<lambda>k. bitn m1 (64 * i + k) \<noteq> bitn m2 (64 * i + k)) [0 ..< 64])"
    by (rule count_involution) (auto simp: f_def mirror)
  finally show ?thesis by (simp add: popcount_3_count bits_dist_shift)
qed

lemma hamming_word_rem:
  assumes "ld64 be m1 i = Some a" "ld64 be m2 i = Some b" "r < 64"
  shows "unat (popcount_3 (be64_to_cpu be (a XOR b) AND push_bit (64 - r) 0xffffffffffffffff)) =
    bits_dist (bitn m1) (bitn m2) (64 * i) r"
proof -
  let ?x = "be64_to_cpu be (a XOR b) AND push_bit (64 - r) 0xffffffffffffffff"
  have m: "(0xffffffffffffffff :: u64) = mask 64" by (simp add: mask_eq_exp_minus_1)
  have "length (filter (bit ?x) [0 ..< 64]) =
    length (filter (\<lambda>k. 63 - k < r \<and> bitn m1 (64 * i + (63 - k)) \<noteq> bitn m2 (64 * i + (63 - k))) [0 ..< 64])"
    unfolding m by (intro arg_cong [of _ _ length] filter_cong)
       (auto simp: bit_and_iff bit_push_bit_iff bit_mask_iff bit_be64_to_cpu bit_xor_iff le_pos_inv
         bit_ld64 [OF assms(1)] bit_ld64 [OF assms(2)])
  also have "\<dots> = length (filter (\<lambda>k. k < r \<and> bitn m1 (64 * i + k) \<noteq> bitn m2 (64 * i + k)) [0 ..< 64])"
    by (rule count_involution) auto
  also have "\<dots> = length (filter (\<lambda>k. bitn m1 (64 * i + k) \<noteq> bitn m2 (64 * i + k)) [0 ..< r])"
  proof -
    have "[0 ..< 64] = [0 ..< r] @ [r ..< 64]"
      using assms(3) upt_add_eq_append [of 0 r "64 - r"] by simp
    moreover have "filter (\<lambda>k. k < r \<and> P k) [0 ..< r] = filter P [0 ..< r]" for P
      by (rule filter_cong) simp_all
    moreover have "filter (\<lambda>k. k < r \<and> P k) [r ..< 64] = []" for P
      by (simp add: filter_empty_conv)
    ultimately show ?thesis by simp
  qed
  finally show ?thesis by (simp add: popcount_3_count bits_dist_shift)
qed

lemma ld64_Some: "8 * i + 8 \<le> length buf \<Longrightarrow> \<exists>w. ld64 be buf i = Some w"
  by (simp add: ld64_def Let_def)

lemma hamming_loop_dist:
  assumes "8 * (i + n) \<le> length m1" "8 * (i + n) \<le> length m2"
  shows "hamming_loop be m1 m2 i n d = Some (d + bits_dist (bitn m1) (bitn m2) (64 * i) (64 * n))"
  using assms
proof (induction n arbitrary: i d)
  case (Suc n)
  obtain a b where ab: "ld64 be m1 i = Some a" "ld64 be m2 i = Some b"
    using ld64_Some [of i m1 be] ld64_Some [of i m2 be] Suc.prems by auto
  have e: "64 * Suc n = 64 + 64 * n" and j: "64 + 64 * i = 64 * Suc i" by simp_all
  show ?case
    using Suc.IH [of "i + 1"] Suc.prems j
    by (simp add: ab hamming_word [OF ab] e bits_dist_add add.commute del: mult_Suc_right)
qed (simp add: bits_dist_def)

lemma hamming_distance_64_dist:
  assumes "8 * ((nbits + 63) div 64) \<le> length m1" "8 * ((nbits + 63) div 64) \<le> length m2"
  shows "hamming_distance_64 be m1 m2 nbits = Some (bits_dist (bitn m1) (bitn m2) 0 nbits)"
proof -
  define n r where "n = nbits div 64" and "r = nbits mod 64"
  have nb: "nbits = 64 * n + r" by (simp add: n_def r_def)
  have r: "r < 64" by (simp add: r_def)
  show ?thesis
  proof (cases "r = 0")
    case True
    then have "(nbits + 63) div 64 = n" by (simp add: nb)
    with assms True show ?thesis
      by (simp add: hamming_distance_64_def n_def [symmetric] r_def [symmetric] hamming_loop_dist nb)
  next
    case False
    then have "(nbits + 63) div 64 = n + 1" using r by (simp add: nb)
    then have l: "8 * (n + 1) \<le> length m1" "8 * (n + 1) \<le> length m2" using assms by simp_all
    obtain a b where ab: "ld64 be m1 n = Some a" "ld64 be m2 n = Some b"
      using ld64_Some [of n m1 be] ld64_Some [of n m2 be] l by auto
    show ?thesis
      using l False unfolding hamming_distance_64_def n_def [symmetric] r_def [symmetric] Let_def
      by (simp add: hamming_loop_dist ab hamming_word_rem [OF ab r] nb bits_dist_add)
  qed
qed

section \<open>Lemmas: minimal Hamming distance\<close>

lemma bit_mask_80: "drop_bit (n mod 8) (0x80 :: u8) = push_bit (7 - n mod 8) 1"
proof -
  have "n mod 8 < 8" by simp
  then have "n mod 8 = 0 \<or> n mod 8 = 1 \<or> n mod 8 = 2 \<or> n mod 8 = 3 \<or> n mod 8 = 4 \<or> n mod 8 = 5 \<or>
    n mod 8 = 6 \<or> n mod 8 = 7" by arith
  then show ?thesis by (elim disjE) simp_all
qed

lemma testbit_bitn: "n < 8 * length buf \<Longrightarrow> testbit buf n = Some (bitn buf n)"
proof -
  assume "n < 8 * length buf"
  then have i: "n div 8 < length buf" by (simp add: less_mult_imp_div_less mult.commute)
  have "b AND push_bit k 1 \<noteq> 0 \<longleftrightarrow> bit b k" if "k < 8" for b :: u8 and k
    using that by (simp add: bit_iff_and_push_bit_not_eq_0)
  then show ?thesis using i unfolding testbit_def bit_mask_80 by (simp add: mem_simps bitn_def)
qed

lemma bits_dist_cong:
  "(\<And>k. i \<le> k \<Longrightarrow> k < i + n \<Longrightarrow> f k = f' k \<and> g k = g' k) \<Longrightarrow> bits_dist f g i n = bits_dist f' g' i n"
  unfolding bits_dist_def by (intro arg_cong [of _ _ length] filter_cong) auto

lemma bits_dist_0_iff: "bits_dist f g i n = 0 \<longleftrightarrow> (\<forall>k. i \<le> k \<and> k < i + n \<longrightarrow> f k = g k)"
  by (auto simp: bits_dist_def filter_empty_conv)

lemma bits_dist_None [simp]: "bits_dist f g i 0 = 0"
  by (simp add: bits_dist_def)

lemma bits_dist_Suc: "bits_dist f g i (Suc n) = of_bool (f i \<noteq> g i) + bits_dist f g (Suc i) n"
  by (simp add: bits_dist_def upt_conv_Cons del: upt_Suc)

text \<open>
  The scan stops at the first set bit of \<open>mx\<close> in the window, having counted the set bits of
  \<open>target\<close> before it.
\<close>

lemma hamming_scan_spec:
  assumes "s + nb \<le> 8 * length mx" "s + nb \<le> 8 * length target"
  shows "\<exists>k \<le> nb. hamming_scan mx target s (s + nb) ret =
      Some (s + k, ret + bits_dist (\<lambda>_. False) (bitn target) s k) \<and>
    (\<forall>j < k. \<not> bitn mx (s + j)) \<and> (k < nb \<longrightarrow> bitn mx (s + k))"
  using assms
proof (induction nb arbitrary: s ret)
  case 0
  then show ?case by simp
next
  case (Suc nb)
  have t: "testbit mx s = Some (bitn mx s)" "testbit target s = Some (bitn target s)"
    using Suc.prems by (simp_all add: testbit_bitn)
  show ?case
  proof (cases "bitn mx s")
    case True
    with t show ?thesis by (intro exI [of _ 0]) simp
  next
    case False
    define ret' where "ret' = (if bitn target s then ret + 1 else ret)"
    obtain k where k: "k \<le> nb" "hamming_scan mx target (Suc s) (Suc s + nb) ret' =
        Some (Suc s + k, ret' + bits_dist (\<lambda>_. False) (bitn target) (Suc s) k)"
      "\<forall>j < k. \<not> bitn mx (Suc s + j)" "k < nb \<longrightarrow> bitn mx (Suc s + k)"
      using Suc.IH [of "Suc s" ret'] Suc.prems by auto
    have "hamming_scan mx target s (s + Suc nb) ret =
        Some (s + Suc k, ret + bits_dist (\<lambda>_. False) (bitn target) s (Suc k))"
      using t False k(2) by (simp add: ret'_def bits_dist_Suc)
    moreover have "\<forall>j < Suc k. \<not> bitn mx (s + j)"
      using k(3) False by (auto simp: less_Suc_eq_0_disj)
    ultimately show ?thesis using k(1,4) by (intro exI [of _ "Suc k"]) simp
  qed
qed

declare hamming_scan.simps [simp del]

text \<open>Strings below a bound that starts with zeros start with these zeros.\<close>

lemma bits_below_zeros:
  assumes "\<not> bits_less f g (k + n)" "\<forall>j < k. \<not> f j"
  shows "\<forall>j < k. \<not> g j" "\<not> bits_less (\<lambda>j. f (k + j)) (\<lambda>j. g (k + j)) n"
proof -
  have *: "\<not> bits_less f g k" using assms(1) by (auto simp: bits_less_add)
  have "bits_eq f g k"
    using bits_trichotomy(1) [of f g k] * assms(2) by (auto simp: bits_less_def)
  then show "\<forall>j < k. \<not> g j" using assms(2) by (auto simp: bits_eq_def)
  show "\<not> bits_less (\<lambda>j. f (k + j)) (\<lambda>j. g (k + j)) n"
    using \<open>bits_eq f g k\<close> assms(1) by (auto simp: bits_less_add)
qed

text \<open>
  What \<open>hamming_minimize\<close> computes, on bit strings \<open>f\<close> (the bound), \<open>t\<close> (the target) and \<open>d\<close>
  (the result).
\<close>

lemma minimize_zeros:
  assumes "\<forall>j < k. \<not> f j" "\<not> bits_less f e (k + n)"
  shows "bits_dist (\<lambda>_. False) t 0 k \<le> bits_dist e t 0 (k + n)"
proof -
  have "bits_dist e t 0 k = bits_dist (\<lambda>_. False) t 0 k"
    by (rule bits_dist_cong) (use bits_below_zeros(1) [OF assms(2,1)] in auto)
  then show ?thesis by (simp add: bits_dist_add)
qed

lemma minimize_over:
  assumes "\<forall>j < k. \<not> f j" "\<not> bits_less f e (k + n)" "bits_less (\<lambda>j. f (k + j)) (\<lambda>j. t (k + j)) n"
  shows "bits_dist (\<lambda>_. False) t 0 k + 1 \<le> bits_dist e t 0 (k + n)"
proof -
  have "bits_dist e t 0 k = bits_dist (\<lambda>_. False) t 0 k"
    by (rule bits_dist_cong) (use bits_below_zeros(1) [OF assms(2,1)] in auto)
  moreover have "bits_dist e t k n \<noteq> 0"
  proof
    assume "bits_dist e t k n = 0"
    then have "\<forall>j < n. e (k + j) = t (k + j)" by (auto simp: bits_dist_0_iff)
    then have "bits_less (\<lambda>j. f (k + j)) (\<lambda>j. e (k + j)) n"
      using assms(3) unfolding bits_less_def bits_eq_def by (metis less_trans)
    then show False using bits_below_zeros(2) [OF assms(2,1)] by simp
  qed
  ultimately show ?thesis by (simp add: bits_dist_add)
qed

lemma clear_bit:
  assumes "n < 8 * length dst"
  shows "\<exists>d. do { b \<leftarrow> rd dst (n div 8); wr dst (n div 8) (b AND NOT (drop_bit (n mod 8) 0x80)) } = Some d \<and>
    length d = length dst \<and> (\<forall>m. bitn d m \<longleftrightarrow> bitn dst m \<and> m \<noteq> n)"
proof -
  have i: "n div 8 < length dst" using assms by (simp add: less_mult_imp_div_less mult.commute)
  define v where "v = dst ! (n div 8) AND NOT (push_bit (7 - n mod 8) 1)"
  define r where "r = n mod 8"
  have r: "r < 8" by (simp add: r_def)
  have v: "bit v (7 - j) \<longleftrightarrow> bit (dst ! (n div 8)) (7 - j) \<and> j \<noteq> n mod 8" if "j < 8" for j
    unfolding v_def r_def [symmetric] using that r
    by (auto simp: bit_and_iff bit_not_iff push_bit_of_1 bit_exp_iff)
  have "bitn (dst[n div 8 := v]) m \<longleftrightarrow> bitn dst m \<and> m \<noteq> n" for m
  proof (cases "m div 8 = n div 8")
    case True
    then have "m \<noteq> n \<longleftrightarrow> m mod 8 \<noteq> n mod 8" by (metis mult_div_mod_eq)
    with True v [of "m mod 8"] i show ?thesis by (simp add: bitn_update) (simp add: bitn_def)
  qed (use i in \<open>auto simp: bitn_update\<close>)
  then show ?thesis using i unfolding bit_mask_80 by (simp add: mem_simps v_def)
qed

lemma bits_dist_from: "bits_dist f g s n = bits_dist (\<lambda>j. f (s + j)) (\<lambda>j. g (s + j)) 0 n"
  by (simp add: bits_dist_shift)

lemma minimizesI:
  assumes len: "length d = length dst" and k: "k \<le> nb" "\<forall>j < k. \<not> bitn mx (s + j)"
    and out: "\<forall>m < 8 * length dst. m < s \<or> s + nb \<le> m \<longrightarrow> bitn d m = bitn dst m"
    and zero: "\<forall>j < k. \<not> bitn d (s + j)"
    and over: "over \<longleftrightarrow> bits_less (\<lambda>j. bitn mx (s + k + j)) (\<lambda>j. bitn target (s + k + j)) (nb - k)"
    and rest: "\<forall>j. k \<le> j \<and> j < nb \<longrightarrow> bitn d (s + j) = (bitn target (s + j) \<and> \<not> (over \<and> j = k))"
    and first: "k < nb \<Longrightarrow> bitn mx (s + k)"
  shows "minimizes mx target dst s nb d (bits_dist (\<lambda>_. False) (bitn target) s k + of_bool over)"
proof -
  define f t g where "f j = bitn mx (s + j)" and "t j = bitn target (s + j)" and "g j = bitn d (s + j)" for j
  define n where "n = nb - k"
  have nb: "nb = k + n" using k by (simp add: n_def)
  note fold = f_def [symmetric] t_def [symmetric] g_def [symmetric] add.assoc n_def [symmetric]
  note h = k(2) [unfolded fold] zero [unfolded fold] over [unfolded fold] rest [unfolded fold nb] first [unfolded fold nb]
  have ov: "0 < n \<and> t k" if over
  proof -
    from that h(3) have b: "bits_less (\<lambda>j. f (k + j)) (\<lambda>j. t (k + j)) n" by simp
    then obtain i where i: "i < n" "bits_eq (\<lambda>j. f (k + j)) (\<lambda>j. t (k + j)) i" "\<not> f (k + i)" "t (k + i)"
      by (auto simp: bits_less_def)
    then have "0 < n" by simp
    with h(5) have "f k" by simp
    with i have "0 < i" by (cases i) auto
    with i(2) \<open>f k\<close> have "t k" by (auto simp: bits_eq_def)
    with \<open>0 < n\<close> show ?thesis by simp
  qed
  have z: "bits_dist g t 0 k = bits_dist (\<lambda>_. False) t 0 k"
    by (rule bits_dist_cong) (use h(2) in auto)
  have r: "bits_dist g t k n = of_bool over"
  proof (cases over)
    case True
    then have "0 < n" "t k" using ov by auto
    moreover have "bits_dist g t (Suc k) (n - 1) = 0" using h(4) \<open>0 < n\<close> by (auto simp: bits_dist_0_iff)
    ultimately show ?thesis using True h(4) bits_dist_Suc [of g t k "n - 1"] by simp
  qed (use h(4) in \<open>auto simp: bits_dist_0_iff\<close>)
  have le: "\<not> bits_less f g (k + n)"
  proof
    assume "bits_less f g (k + n)"
    then obtain i where i: "i < k + n" "bits_eq f g i" "\<not> f i" "g i" by (auto simp: bits_less_def)
    have "k \<le> i" using i h(2) by (metis not_le)
    show False
    proof (cases over)
      case True
      then have "f k" "\<not> g k" using h(4,5) ov by auto
      with i \<open>k \<le> i\<close> show False by (cases "i = k") (auto simp: bits_eq_def)
    next
      case False
      have "bits_less (\<lambda>j. f (k + j)) (\<lambda>j. t (k + j)) n"
        unfolding bits_less_def bits_eq_def
        using i h(4) False \<open>k \<le> i\<close> by (intro exI [of _ "i - k"]) (auto simp: bits_eq_def)
      with False h(3) show False by simp
    qed
  qed
  show ?thesis
    unfolding minimizes_def bits_dist_from [of _ _ s] fold nb
    using len out le z r minimize_zeros [OF h(1), of _ n t] minimize_over [OF h(1), of _ n t] h(3)
    by (auto simp: bits_dist_add nb)
qed

lemma copied_twice:
  assumes "bits_copied dst s mx s k d1" "bits_copied d1 (s + k) target (s + k) n d2"
  shows "length d2 = length dst" "\<forall>j < k. bitn d2 (s + j) = bitn mx (s + j)"
    "\<forall>j. k \<le> j \<and> j < k + n \<longrightarrow> bitn d2 (s + j) = bitn target (s + j)"
    "\<forall>m < 8 * length dst. m < s \<or> s + k + n \<le> m \<longrightarrow> bitn d2 m = bitn dst m"
proof -
  show "\<forall>j. k \<le> j \<and> j < k + n \<longrightarrow> bitn d2 (s + j) = bitn target (s + j)"
  proof (intro allI impI)
    fix j assume "k \<le> j \<and> j < k + n"
    then have "j - k < n" "s + j = s + k + (j - k)" by auto
    with assms(2) show "bitn d2 (s + j) = bitn target (s + j)" unfolding bits_copied_def by metis
  qed
qed (use assms in \<open>auto simp: bits_copied_def\<close>)

lemma hamming_minimize_spec:
  assumes "s + nb \<le> 8 * length mx" "s + nb \<le> 8 * length target" "s + nb \<le> 8 * length dst"
    and "nb = 0 \<Longrightarrow> s < 8 * length mx \<and> s < 8 * length dst"
  shows "\<exists>d ret. hamming_minimize mx target dst s nb = Some (d, ret) \<and> minimizes mx target dst s nb d ret"
proof -
  obtain k where k: "k \<le> nb" "hamming_scan mx target s (s + nb) 0 =
      Some (s + k, bits_dist (\<lambda>_. False) (bitn target) s k)"
    "\<forall>j < k. \<not> bitn mx (s + j)" "k < nb \<Longrightarrow> bitn mx (s + k)"
    using hamming_scan_spec [OF assms(1,2), of 0] by auto
  obtain d1 where d1: "bmemcpy dst 0 mx 0 s k = Some d1" "bits_copied dst s mx s k d1"
    using bmemcpy_copied [of 0 s k dst 0 mx] assms k(1) by (cases "nb = 0") auto
  show ?thesis
  proof (cases "k = nb")
    case True
    have "minimizes mx target dst s nb d1 (bits_dist (\<lambda>_. False) (bitn target) s k + of_bool False)"
      by (rule minimizesI) (use True k d1(2) in \<open>auto simp: bits_copied_def bits_less_def\<close>)
    then show ?thesis using True k(2) d1(1) by (simp add: hamming_minimize_def Let_def)
  next
    case False
    then have kn: "k < nb" using k(1) by simp
    have l1: "length d1 = length dst" using d1(2) by (simp add: bits_copied_def)
    obtain d2 where d2: "bmemcpy d1 0 target 0 (s + k) (nb - k) = Some d2"
        "bits_copied d1 (s + k) target (s + k) (nb - k) d2"
      using bmemcpy_copied [of 0 "s + k" "nb - k" d1 0 target] assms kn l1 by auto
    obtain c where c: "bmemcmp_s mx target (s + k) (nb - k) = Some c"
        "bits_cmp c (\<lambda>j. bitn mx (s + k + j)) (\<lambda>j. bitn target (s + k + j)) (nb - k)"
      using bmemcmp_s_cmp [of "s + k" "nb - k" mx target] assms kn by auto
    have "k + (nb - k) = nb" "s + k + (nb - k) = s + nb" using k(1) by simp_all
    note b2 = copied_twice [OF d1(2) d2(2), unfolded this]
    show ?thesis
    proof (cases "c < 0")
      case True
      obtain d3 where d3: "do { b \<leftarrow> rd d2 ((s + k) div 8);
          wr d2 ((s + k) div 8) (b AND NOT (drop_bit ((s + k) mod 8) 0x80)) } = Some d3"
        "length d3 = length d2" "\<forall>m. bitn d3 m \<longleftrightarrow> bitn d2 m \<and> m \<noteq> s + k"
        using clear_bit [of "s + k" d2] assms(3) kn b2(1) by auto
      have "minimizes mx target dst s nb d3 (bits_dist (\<lambda>_. False) (bitn target) s k + of_bool True)"
        by (rule minimizesI) (use True kn k(3,4) d3(2,3) b2 c(2) in \<open>auto simp: bits_cmp_def\<close>)
      moreover have "hamming_minimize mx target dst s nb = Some (d3, bits_dist (\<lambda>_. False) (bitn target) s k + 1)"
        using True kn k(2) d1(1) d2(1) c(1) d3(1) by (auto simp: hamming_minimize_def Let_def bind_eq_Some_conv)
      ultimately show ?thesis by auto
    next
      case F: False
      have "minimizes mx target dst s nb d2 (bits_dist (\<lambda>_. False) (bitn target) s k + of_bool False)"
        by (rule minimizesI) (use F kn k(3,4) b2 c(2) in \<open>auto simp: bits_cmp_def\<close>)
      then show ?thesis
        using F kn k(2) d1(1) d2(1) c(1) by (simp add: hamming_minimize_def Let_def)
    qed
  qed
qed

section \<open>Lemmas: hexadecimal notation\<close>

lemma length_hexvals [simp]: "length hexvals = 128"
  by (simp add: hexvals_def)

lemma length_hexdigits [simp]: "length hexdigits = 16"
  by (simp add: hexdigits_def)

lemma sint_u8: "sint (c :: u8) < 0 \<longleftrightarrow> 128 \<le> unat c"
proof -
  have "sint c < 0 \<longleftrightarrow> bit c 7" using bit_last_iff [of c] by simp
  also have "\<dots> \<longleftrightarrow> odd (unat c div 128)"
    using bit_iff_odd [of "unat c" 7] by (simp add: bit_unsigned_iff)
  also have "\<dots> \<longleftrightarrow> 128 \<le> unat c"
    using unsigned_less [of c, where 'a = nat] by (cases "unat c < 128") (auto simp: div_nat_eqI [where q = 1])
  finally show ?thesis .
qed

text \<open>The skipping loop stays at or before a terminating zero and ends.\<close>

lemma unhexlify_skip_safe:
  "p \<le> z \<Longrightarrow> z < length src \<Longrightarrow> src ! z = 0 \<Longrightarrow> \<exists>q. unhexlify_skip src p = Some q \<and> q \<le> z"
proof (induction src p rule: unhexlify_skip.induct)
  case (1 src p)
  let ?c = "src ! p"
  have r: "rd src p = Some ?c" using 1 by (simp add: mem_simps)
  show ?case
  proof (cases "?c = 0")
    case True
    with r 1 show ?thesis by (simp add: unhexlify_skip.simps)
  next
    case False
    then have "p < z" using 1 by (cases "p = z") auto
    then have n: "p + 1 \<le> z" by simp
    show ?thesis
    proof (cases "sint ?c < 0")
      case True
      with 1(1) [OF r True n] 1 r show ?thesis by (simp add: unhexlify_skip.simps [of src p])
    next
      case False
      then have v: "rd hexvals (unat ?c) = Some (hexvals ! unat ?c)" by (simp add: mem_simps sint_u8)
      show ?thesis
        using 1(2) [OF r False \<open>?c \<noteq> 0\<close> v _ n] 1 r v False \<open>p < z\<close> by (simp add: unhexlify_skip.simps [of src p])
    qed
  qed
qed

declare unhexlify_skip.simps [simp del]

lemma unhexlify_loop_safe:
  assumes "p \<le> z" "z < length src" "src ! z = 0" "c + k \<le> length dst"
  shows "\<exists>d r. unhexlify_loop dst c k src p = Some (d, r) \<and> length d = length dst \<and> - 1 \<le> r \<and> r \<le> int (c + k)"
  using assms
proof (induction k arbitrary: dst c p)
  case (Suc k)
  define x y where "x = src ! p" and "y = src ! (p + 1)"
  have x: "rd src p = Some x" using Suc.prems by (simp add: mem_simps x_def)
  show ?case
  proof (cases "x = 0")
    case False
    then have "p < z" using Suc.prems by (cases "p = z") (auto simp: x_def)
    then have y: "rd src (p + 1) = Some y" using Suc.prems by (simp add: mem_simps y_def)
    show ?thesis
    proof (cases "y = 0 \<or> sint x < 0 \<or> hexvals ! unat x < 0 \<or> sint y < 0 \<or> hexvals ! unat y < 0")
      case True
      then show ?thesis using x y False by (auto simp: mem_simps sint_u8)
    next
      case F: False
      then have "p + 1 < z" using Suc.prems \<open>p < z\<close> by (cases "p + 1 = z") (auto simp: y_def)
      then have pz: "p + 2 \<le> z" by simp
      obtain q where q: "unhexlify_skip src (p + 2) = Some q" "q \<le> z"
        using unhexlify_skip_safe [OF pz] Suc.prems by auto
      define b where "b = (of_int (16 * (hexvals ! unat x)) OR of_int (hexvals ! unat y) :: u8)"
      have "unhexlify_loop dst c (Suc k) src p = unhexlify_loop (dst[c := b]) (c + 1) k src q"
        using F False x y q Suc.prems by (simp add: mem_simps sint_u8 b_def)
      then show ?thesis
        using Suc.IH [of q "c + 1" "dst[c := b]"] Suc.prems q by simp
    qed
  qed (use x in simp)
qed simp

lemma unhexlify_safe:
  assumes "0 \<in> set src" "len \<le> length dst"
  shows "\<exists>d r. unhexlify dst len src = Some (d, r) \<and> length d = length dst \<and> - 1 \<le> r \<and> r \<le> int len"
proof -
  obtain z where "z < length src" "src ! z = 0" using assms(1) by (metis in_set_conv_nth)
  then show ?thesis unfolding unhexlify_def using unhexlify_loop_safe [of 0 z src 0 len dst] assms by simp
qed

lemma nibbles: "unat (drop_bit 4 (b :: u8)) < 16" "unat (b AND 0x0f) < 16"
proof -
  show "unat (drop_bit 4 b) < 16"
    using unsigned_less [of b, where 'a = nat] by (simp add: unat_drop)
  have "b AND 0x0f = take_bit 4 b" by (simp add: take_bit_eq_mask mask_eq_exp_minus_1)
  then show "unat (b AND 0x0f) < 16"
    using take_bit_nat_less_exp [of 4 "unat b"] by (simp add: unsigned_take_bit_eq)
qed

lemma hexdigit_val:
  "\<forall>n \<in> set [0 ..< 16]. let c = hexdigits ! n in c \<noteq> 0 \<and> 0 \<le> sint c \<and> hexvals ! unat c = int n"
  by code_simp

lemma hexlify_loop_eq:
  assumes "i + k \<le> length src" "length rest = 2 * k + 1 + m"
  shows "hexlify_loop (pre @ rest) (length pre) src i k =
    Some (pre @ concat (map hexpair (take k (drop i src))) @ 0 # drop (2 * k + 1) rest)"
  using assms
proof (induction k arbitrary: i pre rest)
  case 0
  then obtain a r where "rest = a # r" by (cases rest) auto
  then show ?case by (simp add: mem_simps)
next
  case (Suc k)
  then obtain a b r where rest: "rest = a # b # r" by (cases rest; cases "tl rest") auto
  define h l where "h = hexdigits ! unat (drop_bit 4 (src ! i))" and "l = hexdigits ! unat (src ! i AND 0x0f)"
  have p: "hexpair (src ! i) = [h, l]" by (simp add: hexpair_def h_def l_def)
  have "hexlify_loop (pre @ rest) (length pre) src i (Suc k) =
      hexlify_loop ((pre @ [h, l]) @ r) (length (pre @ [h, l])) src (i + 1) k"
    using Suc.prems nibbles [of "src ! i"]
    by (simp add: rest mem_simps h_def l_def list_update_append)
  also have "\<dots> = Some ((pre @ [h, l]) @ concat (map hexpair (take k (drop (i + 1) src))) @ 0 # drop (2 * k + 1) r)"
    using Suc.prems by (intro Suc.IH) (simp_all add: rest)
  also have "take (Suc k) (drop i src) = src ! i # take k (drop (i + 1) src)"
    using Suc.prems by (simp add: Cons_nth_drop_Suc [symmetric])
  then have "(pre @ [h, l]) @ concat (map hexpair (take k (drop (i + 1) src))) @ 0 # drop (2 * k + 1) r =
      pre @ concat (map hexpair (take (Suc k) (drop i src))) @ 0 # drop (2 * Suc k + 1) rest"
    by (simp add: p rest)
  finally show ?case .
qed

lemma hexlify_eq:
  assumes "len \<le> length src" "2 * len + 1 \<le> length dst"
  shows "hexlify dst src len = Some (concat (map hexpair (take len src)) @ 0 # drop (2 * len + 1) dst)"
  using hexlify_loop_eq [of 0 len src dst "length dst - (2 * len + 1)" "[]"] assms by (simp add: hexlify_def)

lemma unhex_byte:
  "of_int (16 * hexvals ! unat (hexdigits ! unat (drop_bit 4 b))) OR
   of_int (hexvals ! unat (hexdigits ! unat (b AND 0x0f))) = (b :: u8)"
proof -
  have v: "hexvals ! unat (hexdigits ! unat (drop_bit 4 b)) = uint (drop_bit 4 b)"
    "hexvals ! unat (hexdigits ! unat (b AND 0x0f)) = uint (b AND 0x0f)"
    using hexdigit_val nibbles [of b] by (auto simp: Let_def)
  have "of_int (16 * uint (drop_bit 4 b)) = push_bit 4 (drop_bit 4 b)"
    by (simp add: push_bit_eq_mult)
  moreover have "b AND 0x0f = take_bit 4 b" by (simp add: take_bit_eq_mask mask_eq_exp_minus_1)
  moreover have "push_bit 4 (drop_bit 4 b) OR take_bit 4 b = b"
    by (rule bit_eqI) (auto simp: bit_or_iff bit_push_bit_iff bit_drop_bit_eq bit_take_bit_iff)
  ultimately show ?thesis unfolding v by simp
qed

text \<open>A zero or a digit is not skipped.\<close>

lemma unhexlify_skip_stop:
  assumes "rd src p = Some c" "c = 0 \<or> (\<exists>n < 16. c = hexdigits ! n)"
  shows "unhexlify_skip src p = Some p"
  using assms(2)
proof
  assume "\<exists>n < 16. c = hexdigits ! n"
  then obtain n where n: "n < 16" "c = hexdigits ! n" by auto
  then have "c \<noteq> 0" "0 \<le> sint c" "hexvals ! unat c = int n" using hexdigit_val by (auto simp: Let_def)
  then show ?thesis using assms(1) sint_u8 [of c] by (simp add: unhexlify_skip.simps [of src p] mem_simps)
qed (use assms(1) in \<open>simp add: unhexlify_skip.simps [of src p]\<close>)

lemma unhexlify_loop_hex:
  assumes "length bs \<le> k" "c + length bs \<le> length dst"
  shows "unhexlify_loop dst c k (pre @ concat (map hexpair bs) @ 0 # suf) (length pre) =
    Some (take c dst @ bs @ drop (c + length bs) dst, int (c + length bs))"
  using assms
proof (induction bs arbitrary: dst c k pre)
  case Nil
  then show ?case by (cases k) (simp_all add: rd_def nth_append)
next
  case (Cons b bs)
  define h l where "h = hexdigits ! unat (drop_bit 4 b)" and "l = hexdigits ! unat (b AND 0x0f)"
  have p: "hexpair b = [h, l]" by (simp add: hexpair_def h_def l_def)
  have d: "h \<noteq> 0" "l \<noteq> 0" "0 \<le> sint h" "0 \<le> sint l" "0 \<le> hexvals ! unat h" "0 \<le> hexvals ! unat l"
    using hexdigit_val nibbles [of b] by (auto simp: Let_def h_def l_def)
  then have u: "unat h < 128" "unat l < 128" using sint_u8 [of h] sint_u8 [of l] by auto
  let ?src = "pre @ concat (map hexpair (b # bs)) @ 0 # suf"
  have src: "?src = (pre @ [h, l]) @ concat (map hexpair bs) @ 0 # suf" by (simp add: p)
  obtain k' where k: "k = Suc k'" using Cons.prems by (cases k) auto
  have "unhexlify_skip ?src (length pre + 2) = Some (length pre + 2)"
  proof (rule unhexlify_skip_stop)
    show "rd ?src (length pre + 2) = Some (case bs of [] \<Rightarrow> 0 | b # _ \<Rightarrow> hexdigits ! unat (drop_bit 4 b))"
      by (cases bs) (simp_all add: p rd_def nth_append hexpair_def)
  qed (use nibbles in \<open>auto split: list.splits\<close>)
  then have "unhexlify_loop dst c k ?src (length pre) = unhexlify_loop (dst[c := b]) (c + 1) k' ?src (length pre + 2)"
    using d u Cons.prems unhex_byte [of b] unfolding src k h_def [symmetric] l_def [symmetric]
    by (simp add: mem_simps rd_def nth_append)
  also have "\<dots> = Some (take (c + 1) (dst[c := b]) @ bs @ drop (c + 1 + length bs) (dst[c := b]), int (c + 1 + length bs))"
    using Cons.IH [of k' "c + 1" "dst[c := b]" "pre @ [h, l]"] Cons.prems k unfolding src by simp
  finally show ?case
    using Cons.prems by (simp add: take_Suc_conv_app_nth)
qed

lemma unhexlify_hexlify:
  assumes "len \<le> length src" "2 * len + 1 \<le> length buf" "len \<le> n" "len \<le> length dst"
    and "hexlify buf src len = Some s"
  shows "unhexlify dst n s = Some (take len src @ drop len dst, int len)"
  using unhexlify_loop_hex [of "take len src" n 0 dst "[]" "drop (2 * len + 1) buf"] assms
  by (simp add: unhexlify_def hexlify_eq)

section \<open>Properties\<close>

text \<open>C33: \<open>bmemcpy_shift\<close> stays inside both buffers, copies exactly the requested bit range between
  two arbitrary bit positions and leaves every other bit of the destination as it was.\<close>

theorem bmemcpy_shift_exact:
  assumes "dst_start + nbits \<le> 8 * length dst" "src_start + nbits \<le> 8 * length src" "0 < nbits"
  shows "\<exists>d. bmemcpy_shift dst dst_start src src_start nbits = Some d \<and> length d = length dst \<and>
    (\<forall>n < 8 * length dst. bitn d n =
       (if dst_start \<le> n \<and> n < dst_start + nbits then bitn src (src_start + (n - dst_start)) else bitn dst n))"
  using bmemcpy_shift_copied [OF assms(1,2)] assms(3) bits_copied_bitn by fastforce

theorem bmemcpy_shift_exact_witness:
  "\<exists>d. bmemcpy_shift [0, 0, 0] 3 [0xff, 0xff, 0xff] 6 9 = Some d \<and> length d = length [0 :: u8, 0, 0] \<and>
    (\<forall>n < 24. bitn d n =
       (if 3 \<le> n \<and> n < 12 then bitn [0xff, 0xff, 0xff] (6 + (n - 3)) else bitn [0, 0, 0] n))"
  using bmemcpy_shift_exact [of 3 9 "[0, 0, 0]" 6 "[0xff, 0xff, 0xff]"] by simp

text \<open>C34: \<open>bmemcmp_s\<close> reads only the two windows and the sign of its result is the lexicographic
  order of their bits: negative, zero or positive as the first window is below, equal to or above
  the second.\<close>

theorem bmemcmp_s_sign:
  assumes "start + nbits \<le> 8 * length m1" "start + nbits \<le> 8 * length m2"
  shows "\<exists>r. bmemcmp_s m1 m2 start nbits = Some r \<and>
    (r < 0 \<longleftrightarrow> bits_less (\<lambda>j. bitn m1 (start + j)) (\<lambda>j. bitn m2 (start + j)) nbits) \<and>
    (r = 0 \<longleftrightarrow> bits_eq (\<lambda>j. bitn m1 (start + j)) (\<lambda>j. bitn m2 (start + j)) nbits) \<and>
    (r > 0 \<longleftrightarrow> bits_less (\<lambda>j. bitn m2 (start + j)) (\<lambda>j. bitn m1 (start + j)) nbits)"
  using bmemcmp_s_cmp [OF assms] unfolding bits_cmp_def .

theorem bmemcmp_s_sign_witness:
  "\<exists>r. bmemcmp_s [0x12, 0x34] [0x12, 0x38] 5 9 = Some r \<and>
    (r < 0 \<longleftrightarrow> bits_less (\<lambda>j. bitn [0x12, 0x34] (5 + j)) (\<lambda>j. bitn [0x12, 0x38] (5 + j)) 9) \<and>
    (r = 0 \<longleftrightarrow> bits_eq (\<lambda>j. bitn [0x12, 0x34] (5 + j)) (\<lambda>j. bitn [0x12, 0x38] (5 + j)) 9) \<and>
    (r > 0 \<longleftrightarrow> bits_less (\<lambda>j. bitn [0x12, 0x38] (5 + j)) (\<lambda>j. bitn [0x12, 0x34] (5 + j)) 9)"
  using bmemcmp_s_sign [of 5 9 "[0x12, 0x34]" "[0x12, 0x38]"] by simp

text \<open>C35: \<open>hamming_distance_64\<close> is the number of bits in which the first \<open>nbits\<close> bits of the two
  buffers differ, on a host of either byte order, and reads no 64 bit word past the last one that
  holds a bit of the range.  The folding steps of \<open>popcount_3\<close> never carry between bytes.\<close>

theorem hamming_distance_64_correct:
  assumes "8 * ((nbits + 63) div 64) \<le> length m1" "8 * ((nbits + 63) div 64) \<le> length m2"
  shows "hamming_distance_64 be m1 m2 nbits = Some (bits_dist (bitn m1) (bitn m2) 0 nbits)"
  by (rule hamming_distance_64_dist [OF assms])

theorem hamming_distance_64_correct_witness:
  "hamming_distance_64 False (replicate 16 0x5a) (replicate 16 0xff) 77 =
   Some (bits_dist (bitn (replicate 16 0x5a)) (bitn (replicate 16 0xff)) 0 77)"
  using hamming_distance_64_correct [of 77 "replicate 16 0x5a" "replicate 16 0xff" False] by simp

text \<open>C25: \<open>hamming_minimize\<close> writes into the window of the destination a bit string that is not
  above \<open>mx\<close>, returns its Hamming distance to \<open>target\<close>, and that distance is minimal: no bit string
  that is not above \<open>mx\<close> is nearer to \<open>target\<close>.\<close>

theorem hamming_minimize_optimal:
  assumes "s + nb \<le> 8 * length mx" "s + nb \<le> 8 * length target" "s + nb \<le> 8 * length dst" "0 < nb"
  shows "\<exists>d ret. hamming_minimize mx target dst s nb = Some (d, ret) \<and> length d = length dst \<and>
    (\<forall>m < 8 * length dst. m < s \<or> s + nb \<le> m \<longrightarrow> bitn d m = bitn dst m) \<and>
    \<not> bits_less (\<lambda>j. bitn mx (s + j)) (\<lambda>j. bitn d (s + j)) nb \<and>
    ret = bits_dist (bitn d) (bitn target) s nb \<and>
    (\<forall>e. \<not> bits_less (\<lambda>j. bitn mx (s + j)) (\<lambda>j. e (s + j)) nb \<longrightarrow> ret \<le> bits_dist e (bitn target) s nb)"
  using hamming_minimize_spec [OF assms(1-3)] assms(4) unfolding minimizes_def by blast

theorem hamming_minimize_optimal_witness:
  "\<exists>d ret. hamming_minimize [0x0f, 0x0f] [0xff, 0xf0] [0, 0] 4 10 = Some (d, ret) \<and>
    length d = length [0 :: u8, 0] \<and>
    (\<forall>m < 16. m < 4 \<or> 14 \<le> m \<longrightarrow> bitn d m = bitn [0, 0] m) \<and>
    \<not> bits_less (\<lambda>j. bitn [0x0f, 0x0f] (4 + j)) (\<lambda>j. bitn d (4 + j)) 10 \<and>
    ret = bits_dist (bitn d) (bitn [0xff, 0xf0]) 4 10 \<and>
    (\<forall>e. \<not> bits_less (\<lambda>j. bitn [0x0f, 0x0f] (4 + j)) (\<lambda>j. e (4 + j)) 10 \<longrightarrow>
       ret \<le> bits_dist e (bitn [0xff, 0xf0]) 4 10)"
  using hamming_minimize_optimal [of 4 10 "[0x0f, 0x0f]" "[0xff, 0xf0]" "[0, 0]"] by simp

text \<open>C36: \<open>unhexlify\<close> inverts \<open>hexlify\<close>: decoding the string that \<open>hexlify\<close> wrote gives back the
  encoded bytes and their number, for every source and every large enough buffer.\<close>

theorem unhexlify_inverts_hexlify:
  assumes "len \<le> length src" "2 * len + 1 \<le> length buf" "len \<le> n" "len \<le> length dst"
  shows "\<exists>str. hexlify buf src len = Some str \<and>
    unhexlify dst n str = Some (take len src @ drop len dst, int len)"
  using unhexlify_hexlify [OF assms] hexlify_eq [OF assms(1,2)] by blast

theorem unhexlify_inverts_hexlify_witness:
  "\<exists>str. hexlify (replicate 7 0) [0xde, 0xad, 0x42] 3 = Some str \<and>
    unhexlify (replicate 4 0) 4 str = Some (take 3 [0xde, 0xad, 0x42] @ drop 3 (replicate 4 0), int 3)"
  using unhexlify_inverts_hexlify [of 3 "[0xde, 0xad, 0x42]" "replicate 7 0" 4 "replicate 4 0"] by simp

text \<open>C37: On every string that holds a terminating zero, whatever its other characters (non-ASCII
  included), \<open>unhexlify\<close> ends, reads inside the string, writes inside the destination and returns -1
  or a count of at most \<open>len\<close>.\<close>

theorem unhexlify_memory_safe:
  assumes "0 \<in> set src" "len \<le> length dst"
  shows "\<exists>d r. unhexlify dst len src = Some (d, r) \<and> length d = length dst \<and> - 1 \<le> r \<and> r \<le> int len"
  by (rule unhexlify_safe [OF assms])

theorem unhexlify_memory_safe_witness:
  "\<exists>d r. unhexlify [0, 0] 2 [0x61, 0xe9, 0x20, 0x33, 0] = Some (d, r) \<and> length d = length [0 :: u8, 0] \<and>
    - 1 \<le> r \<and> r \<le> int 2"
  using unhexlify_memory_safe [of "[0x61, 0xe9, 0x20, 0x33, 0]" 2 "[0, 0]"] by simp

text \<open>
  A copy of no bits still reads and writes the byte that holds its start, so an empty range at
  the end of a buffer leaves it.
\<close>

lemma bmemcpy_empty_range_at_end: "bmemcpy (replicate 16 0) 0 (replicate 16 0) 0 128 0 = None"
  by code_simp

end
