(* ===== verification/Comparators.thy ===== *)
theory Comparators
  imports BitStrings "HOL-Library.Multiset"
begin

text \<open>
  Comparison functions in the style of \<open>memcmp\<close> and the sorting function of the C library that
  takes one.  The locale \<open>comparator\<close> is the contract between the comparison functions of the
  components (attributes, prefixes, node identifiers) and their users.
\<close>

text \<open>
  \<open>qsort\<close> with a comparison that may leave the objects it compares.
\<close>

fun qsort_insert :: "('a \<Rightarrow> 'a \<Rightarrow> int option) \<Rightarrow> 'a \<Rightarrow> 'a list \<Rightarrow> 'a list option" where
  "qsort_insert cmp x [] = Some [x]"
| "qsort_insert cmp x (y # ys) =
     do { r \<leftarrow> cmp x y;
          if r \<le> 0 then Some (x # y # ys)
          else do { zs \<leftarrow> qsort_insert cmp x ys; Some (y # zs) } }"

fun qsort :: "('a \<Rightarrow> 'a \<Rightarrow> int option) \<Rightarrow> 'a list \<Rightarrow> 'a list option" where
  "qsort cmp [] = Some []"
| "qsort cmp (x # xs) = do { ys \<leftarrow> qsort cmp xs; qsort_insert cmp x ys }"

text \<open>
  The interface of a comparison function, as \<open>qsort\<close> and the ordered containers rely on it: on the
  objects of \<open>dom\<close> its sign is antisymmetric and transitive.
\<close>

locale comparator =
  fixes dom :: "'a \<Rightarrow> bool" and cmp :: "'a \<Rightarrow> 'a \<Rightarrow> int"
  assumes antisym: "dom x \<Longrightarrow> dom y \<Longrightarrow> 0 < cmp x y \<longleftrightarrow> cmp y x < 0"
    and le_trans: "dom x \<Longrightarrow> dom y \<Longrightarrow> dom z \<Longrightarrow> cmp x y \<le> 0 \<Longrightarrow> cmp y z \<le> 0 \<Longrightarrow> cmp x z \<le> 0"
begin

lemma linear: "dom x \<Longrightarrow> dom y \<Longrightarrow> cmp x y \<le> 0 \<or> cmp y x \<le> 0"
  using antisym [of x y] by linarith

lemma qsort_insert_sorts:
  assumes "\<forall>y \<in> set (x # ys). dom (f y)" "\<forall>y \<in> set ys. c x y = Some (cmp (f x) (f y))"
    "sorted_wrt (\<lambda>a b. cmp (f a) (f b) \<le> 0) ys"
  shows "\<exists>zs. qsort_insert c x ys = Some zs \<and> mset zs = add_mset x (mset ys) \<and>
    sorted_wrt (\<lambda>a b. cmp (f a) (f b) \<le> 0) zs"
  using assms
proof (induction ys)
  case (Cons y ys)
  show ?case
  proof (cases "cmp (f x) (f y) \<le> 0")
    case True
    have "cmp (f x) (f z) \<le> 0" if "z \<in> set ys" for z
      using le_trans [of "f x" "f y" "f z"] True that Cons.prems by auto
    with True Cons.prems show ?thesis by auto
  next
    case False
    obtain zs where zs: "qsort_insert c x ys = Some zs" "mset zs = add_mset x (mset ys)"
        "sorted_wrt (\<lambda>a b. cmp (f a) (f b) \<le> 0) zs"
      using Cons by auto
    have "set zs = insert x (set ys)" using zs(2) by (metis set_mset_add_mset_insert set_mset_mset)
    moreover have "cmp (f y) (f x) \<le> 0" using False linear [of "f x" "f y"] Cons.prems by auto
    ultimately show ?thesis using zs False Cons.prems by auto
  qed
qed simp

lemma qsort_sorts:
  assumes "\<forall>x \<in> set xs. dom (f x)" "\<forall>x \<in> set xs. \<forall>y \<in> set xs. c x y = Some (cmp (f x) (f y))"
  shows "\<exists>ys. qsort c xs = Some ys \<and> mset ys = mset xs \<and> sorted_wrt (\<lambda>a b. cmp (f a) (f b) \<le> 0) ys"
  using assms
proof (induction xs)
  case (Cons x xs)
  then obtain ys where ys: "qsort c xs = Some ys" "mset ys = mset xs" "sorted_wrt (\<lambda>a b. cmp (f a) (f b) \<le> 0) ys"
    by auto
  have "set ys = set xs" using ys(2) by (metis set_mset_mset)
  with ys Cons.prems show ?case using qsort_insert_sorts [of x ys f c] by auto
qed simp

text \<open>The place of a new key in an ordered list.\<close>

lemma insert_position:
  assumes d: "\<forall>x \<in> insert k (set keys). dom x" and s: "sorted_wrt (\<lambda>a b. cmp a b < 0) keys"
    and new: "\<forall>x \<in> set keys. cmp x k \<noteq> 0"
  shows "sorted_wrt (\<lambda>a b. cmp a b < 0) (takeWhile (\<lambda>x. cmp x k < 0) keys @ k # dropWhile (\<lambda>x. cmp x k < 0) keys)"
proof -
  let ?t = "takeWhile (\<lambda>x. cmp x k < 0) keys" and ?d = "dropWhile (\<lambda>x. cmp x k < 0) keys"
  have "sorted_wrt (\<lambda>a b. cmp a b < 0) (?t @ ?d)" using s by simp
  note app = this [unfolded sorted_wrt_append]
  note td = app [THEN conjunct1] app [THEN conjunct2, THEN conjunct1] app [THEN conjunct2, THEN conjunct2]
  have after: "cmp k y < 0" if y: "y \<in> set ?d" for y
  proof -
    obtain z zs where zs: "?d = z # zs" using y by (cases ?d) auto
    have sub: "set ?d \<subseteq> set keys" by (auto dest: set_dropWhileD)
    then have z: "z \<in> set keys" "y \<in> set keys" using zs y by auto
    have "\<not> cmp z k < 0" using hd_dropWhile [of "\<lambda>x. cmp x k < 0" keys] zs by auto
    moreover have "cmp z k \<noteq> 0" using new z(1) by blast
    ultimately have "0 < cmp z k" by linarith
    then have kz: "cmp k z < 0" using antisym [of z k] d z(1) by simp
    show ?thesis
    proof (cases "y = z")
      case False
      then have "cmp z y \<le> 0" using td(2) y by (auto simp: zs dest: less_imp_le)
      then have le: "cmp k y \<le> 0" using le_trans [of k z y] kz d z by auto
      have "cmp y k \<noteq> 0" using new z(2) by blast
      moreover have "0 < cmp k y \<longleftrightarrow> cmp y k < 0" "0 < cmp y k \<longleftrightarrow> cmp k y < 0" using antisym d z(2) by simp_all
      ultimately show ?thesis using le by linarith
    qed (use kz in simp)
  qed
  have "\<forall>x \<in> set ?t. cmp x k < 0" by (auto dest: set_takeWhileD)
  moreover have "sorted_wrt (\<lambda>a b. cmp a b < 0) (t @ k # u)"
    if "sorted_wrt (\<lambda>a b. cmp a b < 0) t" "sorted_wrt (\<lambda>a b. cmp a b < 0) u" "\<forall>x \<in> set t. \<forall>y \<in> set u. cmp x y < 0"
      "\<And>y. y \<in> set u \<Longrightarrow> cmp k y < 0" "\<forall>x \<in> set t. cmp x k < 0" for t u
    using that by (simp add: sorted_wrt_append)
  ultimately show ?thesis using td after by blast
qed

end

lemma bytes_cmp_trans:
  "length xs = length ys \<Longrightarrow> length ys = length zs \<Longrightarrow> bytes_cmp xs ys \<le> 0 \<Longrightarrow> bytes_cmp ys zs \<le> 0 \<Longrightarrow> bytes_cmp xs zs \<le> 0"
proof (induction xs arbitrary: ys zs)
  case (Cons x xs)
  obtain y ys' z zs' where e: "ys = y # ys'" "zs = z # zs'" using Cons.prems(1,2) by (cases ys; cases zs) auto
  consider "x = y" "y = z" | "x = y" "y \<noteq> z" | "x \<noteq> y" "y = z" | "x \<noteq> y" "y \<noteq> z" by blast
  then show ?case
  proof cases
    case 1
    then show ?thesis using Cons.IH [of ys' zs'] Cons.prems by (simp add: e)
  next
    case 4
    then have "uint x < uint y" "uint y < uint z"
      using Cons.prems(3,4) by (auto simp: e word_uint_eq_iff)
    then show ?thesis by (auto simp: e)
  qed (use Cons.prems e in simp_all)
qed simp

lemma bytes_cmp_pos: "0 < bytes_cmp x y \<longleftrightarrow> bytes_cmp y x < 0"
  using bytes_cmp_antisym [of x y] by auto

interpretation bytes_order: comparator "\<lambda>x. length x = n" bytes_cmp for n
proof
  fix x y z :: bytes
  assume "length x = n" "length y = n" "length z = n" "bytes_cmp x y \<le> 0" "bytes_cmp y z \<le> 0"
  then show "bytes_cmp x z \<le> 0" by (intro bytes_cmp_trans [of x y z]) simp_all
qed (rule bytes_cmp_pos)

end
