(* ===== verification/Prefix.thy ===== *)
theory Prefix
  imports Bitops Comparators
begin

unbundle bit_operations_syntax

text \<open>
  Prefixes (\<open>prefix.c\<close>, \<open>prefix_utils.c\<close>, \<open>prefix_utils.h\<close>): the \<open>prefix\<close> structure, containment
  and comparison of prefixes, and their conversion from and to text.  \<open>inet_ntop\<close> and
  \<open>inet_pton\<close> belong to the system's library: the text of an address and the address of a text
  are parameters (\<open>ntop4\<close>, \<open>ntop6\<close>, \<open>pton4\<close>, \<open>pton6\<close>), and \<open>inet_text_ok\<close> states what their
  documentation promises.
\<close>

section \<open>The prefix structure\<close>

type_synonym in6_addr = bytes

record prefix =
  p_prefix :: in6_addr
  plen :: u8

definition ipv4_in_ipv6_prefix :: prefix where
  "ipv4_in_ipv6_prefix =
     \<lparr> p_prefix = [0x00,0x00, 0x00,0x00, 0x00,0x00, 0x00,0x00, 0x00,0x00, 0xff,0xff, 0,0,0,0], plen = 96 \<rparr>"

definition ipv6_ula_prefix :: prefix where
  "ipv6_ula_prefix = \<lparr> p_prefix = 0xfd # replicate 15 0, plen = 8 \<rparr>"

definition ipv6_ll_prefix :: prefix where
  "ipv6_ll_prefix = \<lparr> p_prefix = [0xfe, 0x80] @ replicate 14 0, plen = 10 \<rparr>"

definition ipv6_global_prefix :: prefix where
  "ipv6_global_prefix = \<lparr> p_prefix = 0x20 # replicate 15 0, plen = 3 \<rparr>"

definition prefix_contains :: "prefix \<Rightarrow> prefix \<Rightarrow> bool option" where
  "prefix_contains p1 p2 =
     (if plen p1 \<le> plen p2
      then do { r \<leftarrow> bmemcmp (p_prefix p1) 0 (p_prefix p2) 0 (unat (plen p1)); Some (r = 0) }
      else Some False)"

definition prefix_is_ipv4 :: "prefix \<Rightarrow> bool option" where
  "prefix_is_ipv4 p = prefix_contains ipv4_in_ipv6_prefix p"

definition prefix_is_ula :: "prefix \<Rightarrow> bool option" where
  "prefix_is_ula p = prefix_contains ipv6_ula_prefix p"

definition prefix_is_ipv6_ula :: "prefix \<Rightarrow> bool option" where
  "prefix_is_ipv6_ula p = prefix_contains ipv6_ula_prefix p"

definition prefix_is_ll :: "prefix \<Rightarrow> bool option" where
  "prefix_is_ll p = prefix_contains ipv6_ll_prefix p"

definition prefix_is_global :: "prefix \<Rightarrow> bool option" where
  "prefix_is_global p = prefix_contains ipv6_global_prefix p"

definition prefix_cmp :: "prefix \<Rightarrow> prefix \<Rightarrow> int option" where
  "prefix_cmp p1 p2 =
     (let i = uint (plen p2) - uint (plen p1)
      in if i \<noteq> 0 then Some i
         else bmemcmp (p_prefix p1) 0 (p_prefix p2) 0 (unat (plen p1)))"

definition prefix_af_length :: "prefix \<Rightarrow> int option" where
  "prefix_af_length p =
     do { v4 \<leftarrow> prefix_is_ipv4 p;
          Some (if v4 then uint (plen p) - 96 else uint (plen p)) }"

section \<open>C strings\<close>

text \<open>
  A C string in a buffer is the bytes before the first zero; a buffer without a zero holds none.
  \<open>put_str\<close> writes a string with its terminating zero.
\<close>

definition cstr :: "bytes \<Rightarrow> bytes option" where
  "cstr buf = (if 0 \<in> set buf then Some (takeWhile (\<lambda>c. c \<noteq> 0) buf) else None)"

definition put_str :: "bytes \<Rightarrow> nat \<Rightarrow> bytes \<Rightarrow> bytes option" where
  "put_str dst off str = memcpy_at dst off (str @ [0]) 0 (length str + 1)"

text \<open>\<open>%d\<close> of a non-negative number, and \<open>atoi\<close> of a string of digits.\<close>

fun dec :: "nat \<Rightarrow> bytes" where
  "dec n = (if n < 10 then [of_nat (n + 0x30)] else dec (n div 10) @ [of_nat (n mod 10 + 0x30)])"

declare dec.simps [simp del]

definition atoi :: "bytes \<Rightarrow> nat" where
  "atoi str = foldl (\<lambda>a c. 10 * a + (unat c - 0x30)) 0 str"

definition is_digit :: "u8 \<Rightarrow> bool" where
  "is_digit c \<longleftrightarrow> \<not> (c < 0x30 \<or> c > 0x39)"

section \<open>Addresses and text\<close>

definition INET6_ADDRSTRLEN :: nat where
  "INET6_ADDRSTRLEN = 46"

definition IN6_IS_ADDR_V4MAPPED :: "in6_addr \<Rightarrow> bool" where
  "IN6_IS_ADDR_V4MAPPED a \<longleftrightarrow> take 12 a = replicate 10 0 @ [0xff, 0xff]"

text \<open>
  \<open>inet_ntop\<close> for an address whose text is \<open>txt\<close>: the text is written when it fits into \<open>bufsize\<close>
  bytes with its terminating zero, otherwise the result is a null pointer.
\<close>

definition inet_ntop :: "bytes \<Rightarrow> bytes \<Rightarrow> nat \<Rightarrow> (bytes \<times> bool) option" where
  "inet_ntop txt dst bufsize =
     (if length txt + 1 \<le> bufsize then do { d \<leftarrow> put_str dst 0 txt; Some (d, True) } else Some (dst, False))"

definition addr_ntop ::
  "(bytes \<Rightarrow> bytes) \<Rightarrow> (bytes \<Rightarrow> bytes) \<Rightarrow> bytes \<Rightarrow> nat \<Rightarrow> in6_addr \<Rightarrow> (bytes \<times> bool) option" where
  "addr_ntop ntop4 ntop6 dst bufflen addr =
     (if IN6_IS_ADDR_V4MAPPED addr
      then inet_ntop (ntop4 (drop 12 addr)) dst bufflen
      else inet_ntop (ntop6 addr) dst bufflen)"

definition prefix_ntop ::
  "(bytes \<Rightarrow> bytes) \<Rightarrow> (bytes \<Rightarrow> bytes) \<Rightarrow> bytes \<Rightarrow> nat \<Rightarrow> in6_addr \<Rightarrow> u8 \<Rightarrow> (bytes \<times> bool) option" where
  "prefix_ntop ntop4 ntop6 dst bufflen addr pl =
     (if bufflen < 4 then Some (dst, False)
      else do {
        (dst, ok) \<leftarrow> addr_ntop ntop4 ntop6 dst (bufflen - 4) addr;
        if \<not> ok then Some (dst, False)
        else do {
          s \<leftarrow> cstr dst;
          dst \<leftarrow> (if pl \<ge> 96 \<and> IN6_IS_ADDR_V4MAPPED addr
                 then put_str dst (length s) (0x2f # dec (unat pl - 96))
                 else put_str dst (length s) (0x2f # dec (unat pl)));
          Some (dst, True) } })"

text \<open>The address of which only the first \<open>pl\<close> bits are kept, as \<open>prefix_ntopc\<close> builds it.\<close>

definition canonical_addr :: "in6_addr \<Rightarrow> u8 \<Rightarrow> in6_addr option" where
  "canonical_addr addr pl =
     (let bytes = unat pl div 8;
          rembit = unat pl mod 8
      in do { p \<leftarrow> memcpy_at (replicate 16 0) 0 addr 0 bytes;
              if rembit \<noteq> 0
              then do { b \<leftarrow> rd addr bytes; wr p bytes (push_bit (8 - rembit) 0xff AND b) }
              else Some p })"

definition prefix_ntopc ::
  "(bytes \<Rightarrow> bytes) \<Rightarrow> (bytes \<Rightarrow> bytes) \<Rightarrow> bytes \<Rightarrow> nat \<Rightarrow> in6_addr \<Rightarrow> u8 \<Rightarrow> (bytes \<times> bool) option" where
  "prefix_ntopc ntop4 ntop6 dst bufflen addr pl =
     do { p \<leftarrow> canonical_addr addr pl; prefix_ntop ntop4 ntop6 dst bufflen p pl }"

text \<open>
  \<open>prefix_pton\<close> on the string \<open>src\<close>; \<open>addr\<close> and \<open>pl\<close> are the objects behind the two result
  pointers, returned as they are left.  \<open>parsed_len\<close> is a \<open>uint8_t\<close>.
\<close>

definition prefix_pton ::
  "(bytes \<Rightarrow> bytes option) \<Rightarrow> (bytes \<Rightarrow> bytes option) \<Rightarrow> bytes \<Rightarrow> in6_addr \<Rightarrow> u8 \<Rightarrow> bool \<times> in6_addr \<times> u8" where
  "prefix_pton pton4 pton6 src addr pl =
     (let slash = 0x2f \<in> set src;
          host = takeWhile (\<lambda>c. c \<noteq> 0x2f) src;
          len = drop (length host + 1) src
      in if slash \<and> (length len = 0 \<or> length len > 3) then (False, addr, pl)
         else if slash \<and> \<not> list_all is_digit len then (False, addr, pl)
         else let parsed_len = (if slash then of_nat (atoi len) else 128 :: u8)
              in if length host \<ge> INET6_ADDRSTRLEN then (False, addr, pl)
                 else let pl = (if slash then pl else 128)
                      in (case pton6 host of
                            Some a \<Rightarrow>
                              if slash then (if parsed_len > 128 then (False, a, pl) else (True, a, parsed_len))
                              else (True, a, pl)
                          | None \<Rightarrow>
                              (case pton4 host of
                                 Some v4 \<Rightarrow>
                                   if slash \<and> parsed_len > 32 then (False, take 12 addr @ v4, pl)
                                   else (True, replicate 10 0 @ [0xff, 0xff] @ v4,
                                         if slash then parsed_len + 96 else pl)
                               | None \<Rightarrow> (False, addr, pl))))"

text \<open>
  What the documentation of \<open>inet_ntop\<close> and \<open>inet_pton\<close> promises on addresses of the right size:
  the texts fit into \<open>INET6_ADDRSTRLEN\<close> bytes, hold neither a zero nor a slash, and are read back;
  a dotted quad is not the text of an IPv6 address.
\<close>

definition inet_text_ok ::
  "(bytes \<Rightarrow> bytes) \<Rightarrow> (bytes \<Rightarrow> bytes) \<Rightarrow> (bytes \<Rightarrow> bytes option) \<Rightarrow> (bytes \<Rightarrow> bytes option) \<Rightarrow> bool" where
  "inet_text_ok ntop4 ntop6 pton4 pton6 \<longleftrightarrow>
     (\<forall>a. length a = 4 \<longrightarrow> length (ntop4 a) < INET6_ADDRSTRLEN \<and> 0 \<notin> set (ntop4 a) \<and>
        0x2f \<notin> set (ntop4 a) \<and> pton4 (ntop4 a) = Some a \<and> pton6 (ntop4 a) = None) \<and>
     (\<forall>a. length a = 16 \<longrightarrow> length (ntop6 a) < INET6_ADDRSTRLEN \<and> 0 \<notin> set (ntop6 a) \<and>
        0x2f \<notin> set (ntop6 a) \<and> pton6 (ntop6 a) = Some a)"

text \<open>A well-formed prefix, and the addresses it covers.\<close>

definition prefix_wf :: "prefix \<Rightarrow> bool" where
  "prefix_wf p \<longleftrightarrow> length (p_prefix p) = 16 \<and> plen p \<le> 128"

definition addr_in :: "in6_addr \<Rightarrow> prefix \<Rightarrow> bool" where
  "addr_in a p \<longleftrightarrow> length a = 16 \<and> bits_eq (bitn a) (bitn (p_prefix p)) (unat (plen p))"

text \<open>The text of an address and the number after the slash.\<close>

definition addr_text :: "(bytes \<Rightarrow> bytes) \<Rightarrow> (bytes \<Rightarrow> bytes) \<Rightarrow> in6_addr \<Rightarrow> bytes" where
  "addr_text ntop4 ntop6 addr = (if IN6_IS_ADDR_V4MAPPED addr then ntop4 (drop 12 addr) else ntop6 addr)"

definition len_text :: "in6_addr \<Rightarrow> u8 \<Rightarrow> nat" where
  "len_text addr pl = (if pl \<ge> 96 \<and> IN6_IS_ADDR_V4MAPPED addr then unat pl - 96 else unat pl)"

section \<open>Containment and comparison\<close>

lemma prefix_wfD: "prefix_wf p \<Longrightarrow> length (p_prefix p) = 16 \<and> unat (plen p) \<le> 128"
  by (simp add: prefix_wf_def word_le_nat_alt)

lemma bmemcmp_prefix:
  assumes "length a = 16" "length b = 16" "n \<le> 128"
  shows "\<exists>r. bmemcmp a 0 b 0 n = Some r \<and> bits_cmp r (bitn a) (bitn b) n"
  using bmemcmp_cmp [of 0 n a 0 b] assms by simp

lemma prefix_contains_eq:
  assumes "prefix_wf p" "prefix_wf q"
  shows "prefix_contains p q =
    Some (plen p \<le> plen q \<and> bits_eq (bitn (p_prefix p)) (bitn (p_prefix q)) (unat (plen p)))"
proof -
  obtain r where "bmemcmp (p_prefix p) 0 (p_prefix q) 0 (unat (plen p)) = Some r"
    "bits_cmp r (bitn (p_prefix p)) (bitn (p_prefix q)) (unat (plen p))"
    using bmemcmp_prefix [of "p_prefix p" "p_prefix q" "unat (plen p)"] assms [THEN prefix_wfD] by auto
  then show ?thesis by (simp add: prefix_contains_def bits_cmp_def)
qed

lemma prefix_cmp_eq:
  assumes "prefix_wf p" "prefix_wf q"
  shows "\<exists>r. prefix_cmp p q = Some r \<and>
    (r < 0 \<longleftrightarrow> plen q < plen p \<or> plen p = plen q \<and> bits_less (bitn (p_prefix p)) (bitn (p_prefix q)) (unat (plen p))) \<and>
    (r = 0 \<longleftrightarrow> plen p = plen q \<and> bits_eq (bitn (p_prefix p)) (bitn (p_prefix q)) (unat (plen p)))"
proof (cases "plen p = plen q")
  case True
  obtain r where "bmemcmp (p_prefix p) 0 (p_prefix q) 0 (unat (plen p)) = Some r"
    "bits_cmp r (bitn (p_prefix p)) (bitn (p_prefix q)) (unat (plen p))"
    using bmemcmp_prefix [of "p_prefix p" "p_prefix q" "unat (plen p)"] assms [THEN prefix_wfD] by auto
  with True show ?thesis by (auto simp: prefix_cmp_def bits_cmp_def)
next
  case False
  then have ne: "uint (plen q) - uint (plen p) \<noteq> 0" by (auto simp: word_uint_eq_iff)
  then have "prefix_cmp p q = Some (uint (plen q) - uint (plen p))"
    unfolding prefix_cmp_def Let_def by simp
  with False ne show ?thesis by (auto simp: word_less_def)
qed

interpretation prefix_order: comparator prefix_wf "\<lambda>p q. the (prefix_cmp p q)"
proof
  fix p q
  assume wf: "prefix_wf p" "prefix_wf q"
  let ?p = "bitn (p_prefix p)" and ?q = "bitn (p_prefix q)"
  show "0 < the (prefix_cmp p q) \<longleftrightarrow> the (prefix_cmp q p) < 0"
  proof (cases "plen p = plen q")
    case True
    then show ?thesis
      using prefix_cmp_eq [OF wf] prefix_cmp_eq [OF wf(2,1)] bits_trichotomy [of ?p ?q "unat (plen q)"]
        bits_eq_sym [of ?p ?q "unat (plen q)"] by auto
  next
    case False
    then show ?thesis using prefix_cmp_eq [OF wf] prefix_cmp_eq [OF wf(2,1)] by auto
  qed
next
  fix p q r
  assume wf: "prefix_wf p" "prefix_wf q" "prefix_wf r" and le: "the (prefix_cmp p q) \<le> 0" "the (prefix_cmp q r) \<le> 0"
  let ?le = "\<lambda>p q. plen q < plen p \<or> plen p = plen q \<and>
    (bits_less (bitn (p_prefix p)) (bitn (p_prefix q)) (unat (plen p)) \<or> bits_eq (bitn (p_prefix p)) (bitn (p_prefix q)) (unat (plen p)))"
  have *: "the (prefix_cmp x y) \<le> 0 \<longleftrightarrow> ?le x y" if "prefix_wf x" "prefix_wf y" for x y
    using prefix_cmp_eq [OF that] by (auto simp: le_less)
  have "?le p q" "?le q r" using le * wf by blast+
  then have "?le p r"
    by (elim disjE conjE) (auto intro: bits_less_trans bits_eq_trans bits_less_eq_trans)
  then show "the (prefix_cmp p r) \<le> 0" using * wf by blast
qed

section \<open>Decimal numbers\<close>

lemma atoi_snoc: "atoi (s @ [c]) = 10 * atoi s + (unat c - 0x30)"
  by (simp add: atoi_def)

lemma unat_digit: "d < 10 \<Longrightarrow> unat (of_nat (d + 0x30) :: u8) = d + 0x30"
  unfolding unat_of_nat by simp

lemma atoi_dec: "atoi (dec n) = n"
proof (induction n rule: dec.induct)
  case (1 n)
  show ?case
  proof (cases "n < 10")
    case True
    then show ?thesis
      using unat_digit [OF True] by (simp add: dec.simps [of n] atoi_def del: of_nat_add)
  next
    case False
    have "n mod 10 < 10" by simp
    from 1 [OF False] False show ?thesis
      using unat_digit [OF \<open>n mod 10 < 10\<close>] by (simp add: dec.simps [of n] atoi_snoc del: of_nat_add)
  qed
qed

lemma digit_char: "d < 10 \<Longrightarrow> is_digit (of_nat (d + 0x30))"
  unfolding is_digit_def word_less_nat_alt unat_digit by simp

lemma dec_digits: "list_all is_digit (dec n)"
proof (induction n rule: dec.induct)
  case (1 n)
  then show ?case
    using digit_char [of n] digit_char [of "n mod 10"] by (simp add: dec.simps [of n] del: of_nat_add)
qed

lemma length_dec: "n < 1000 \<Longrightarrow> 0 < length (dec n) \<and> length (dec n) \<le> 3"
proof -
  assume "n < 1000"
  then have "n div 10 div 10 < 10" by simp
  then show ?thesis
    by (simp add: dec.simps [of n] dec.simps [of "n div 10"] dec.simps [of "n div 10 div 10"])
qed

lemma digit_nonzero: "list_all is_digit s \<Longrightarrow> 0 \<notin> set s \<and> 0x2f \<notin> set s"
  by (induction s) (auto simp: is_digit_def)

section \<open>Text of prefixes\<close>

lemma canonical_addr_bits:
  assumes "length addr = 16" "pl \<le> 128"
  shows "\<exists>p. canonical_addr addr pl = Some p \<and> length p = 16 \<and> (\<forall>n < 128. bitn p n \<longleftrightarrow> n < unat pl \<and> bitn addr n)"
proof -
  define q r where "q = unat pl div 8" and "r = unat pl mod 8"
  have pl: "unat pl = 8 * q + r" "r < 8" "unat pl \<le> 128"
    using assms(2) by (simp_all add: q_def r_def word_le_nat_alt)
  then have q: "q \<le> 16" "r \<noteq> 0 \<Longrightarrow> q < 16" by auto
  obtain p where p: "memcpy_at (replicate 16 0) 0 addr 0 q = Some p"
    "bits_copied (replicate 16 0) 0 addr 0 (8 * q) p"
    using memcpy_copied [of 0 q "replicate 16 0" 0 addr] q assms(1) by auto
  have z: "\<not> bitn (replicate 16 0) n" if "n < 128" for n
    using that by (simp add: bitn_def less_mult_imp_div_less)
  have b: "length p = 16" "n < 128 \<Longrightarrow> bitn p n \<longleftrightarrow> n < 8 * q \<and> bitn addr n" for n
    using bits_copied_bitn [OF p(2)] z by auto
  show ?thesis
  proof (cases "r = 0")
    case True
    then show ?thesis
      using p(1) b pl by (simp add: canonical_addr_def q_def [symmetric] r_def [symmetric])
  next
    case False
    define v where "v = push_bit (8 - r) 0xff AND addr ! q"
    have v: "bit v (7 - j) \<longleftrightarrow> j < r \<and> bit (addr ! q) (7 - j)" if "j < 8" for j
      unfolding v_def bit_and_iff bit_push_ff using that pl(2) by auto
    have "bitn (p[q := v]) n \<longleftrightarrow> n < unat pl \<and> bitn addr n" if "n < 128" for n
    proof (cases "n div 8 = q")
      case True
      then have "n = 8 * q + n mod 8" by (metis mult_div_mod_eq)
      then have "n < unat pl \<longleftrightarrow> n mod 8 < r" using pl(1) by linarith
      with True v [of "n mod 8"] q(2) [OF False] b(1) show ?thesis
        by (simp add: bitn_update) (simp add: bitn_def)
    next
      case F: False
      then have "n < 8 * q \<longleftrightarrow> n < unat pl" using pl(1,2) by auto
      with F that b q(2) [OF False] show ?thesis by (simp add: bitn_update)
    qed
    then show ?thesis
      using p(1) b(1) False q(2) [OF False] assms(1)
      by (simp add: canonical_addr_def q_def [symmetric] r_def [symmetric] mem_simps v_def)
  qed
qed

lemma put_str_Some:
  "off + length s + 1 \<le> length dst \<Longrightarrow>
   put_str dst off s = Some (take off dst @ s @ 0 # drop (off + length s + 1) dst)"
  by (simp add: put_str_def memcpy_at_def)

lemma takeWhile_upto: "c \<notin> set s \<Longrightarrow> takeWhile (\<lambda>x. x \<noteq> c) (s @ c # r) = s"
  by (induction s) auto

lemma cstr_append: "0 \<notin> set s \<Longrightarrow> cstr (s @ 0 # r) = Some s"
  by (simp add: cstr_def takeWhile_upto)

lemma len_text_less: "len_text addr pl < 1000"
  using unsigned_less [of pl, where 'a = nat] by (auto simp: len_text_def)

lemma addr_text_ok:
  assumes "inet_text_ok ntop4 ntop6 pton4 pton6" "length addr = 16"
  shows "length (addr_text ntop4 ntop6 addr) < INET6_ADDRSTRLEN" "0 \<notin> set (addr_text ntop4 ntop6 addr)"
    "0x2f \<notin> set (addr_text ntop4 ntop6 addr)"
  using assms by (auto simp: inet_text_ok_def addr_text_def)

lemma prefix_ntop_eq:
  assumes "0 \<notin> set (addr_text ntop4 ntop6 addr)" "bufflen \<le> length dst"
  shows "prefix_ntop ntop4 ntop6 dst bufflen addr pl =
    Some (if length (addr_text ntop4 ntop6 addr) + 5 \<le> bufflen
      then (let t = addr_text ntop4 ntop6 addr @ 0x2f # dec (len_text addr pl)
            in t @ 0 # drop (length t + 1) dst, True)
      else (dst, False))"
proof -
  let ?t = "addr_text ntop4 ntop6 addr"
  have a: "addr_ntop ntop4 ntop6 dst n addr = inet_ntop ?t dst n" for n
    by (simp add: addr_ntop_def addr_text_def)
  have l: "(if pl \<ge> 96 \<and> IN6_IS_ADDR_V4MAPPED addr then put_str d k (c # dec (unat pl - 96))
      else put_str d k (c # dec (unat pl))) = put_str d k (c # dec (len_text addr pl))" for d k c
    by (simp add: len_text_def)
  show ?thesis
  proof (cases "length ?t + 5 \<le> bufflen")
    case True
    define d where "d = ?t @ 0 # drop (length ?t + 1) dst"
    have "inet_ntop ?t dst (bufflen - 4) = Some (d, True)"
      using True assms(2) by (simp add: inet_ntop_def put_str_Some d_def)
    moreover have "cstr d = Some ?t" unfolding d_def by (rule cstr_append [OF assms(1)])
    moreover have "put_str d (length ?t) (0x2f # dec (len_text addr pl)) =
        Some (?t @ (0x2f # dec (len_text addr pl)) @ 0 # drop (length ?t + length (dec (len_text addr pl)) + 2) dst)"
      using True assms(2) length_dec [OF len_text_less, of addr pl]
      by (subst put_str_Some) (auto simp: d_def add.commute)
    ultimately show ?thesis
      using True by (simp add: prefix_ntop_def a l Let_def)
  next
    case False
    then have "\<not> length ?t + 1 \<le> bufflen - 4" by simp
    then show ?thesis using False by (simp add: prefix_ntop_def a inet_ntop_def)
  qed
qed

lemma v4mapped_bits:
  "length addr = 16 \<Longrightarrow> IN6_IS_ADDR_V4MAPPED addr \<Longrightarrow> n = 95 \<Longrightarrow> bitn addr n"
proof -
  assume "length addr = 16" "IN6_IS_ADDR_V4MAPPED addr" "n = 95"
  then have "take 12 addr ! 11 = (replicate 10 0 @ [0xff, 0xff]) ! 11" by (simp add: IN6_IS_ADDR_V4MAPPED_def)
  then have "addr ! 11 = 0xff" by (simp add: nth_append)
  then show ?thesis using \<open>n = 95\<close> by (simp add: bitn_def)
qed

lemma v4mapped_split: "length addr = 16 \<Longrightarrow> IN6_IS_ADDR_V4MAPPED addr \<Longrightarrow> addr = replicate 10 0 @ [0xff, 0xff] @ drop 12 addr"
  unfolding IN6_IS_ADDR_V4MAPPED_def by (metis append.assoc append_take_drop_id)

lemma prefix_pton_text:
  assumes ok: "inet_text_ok ntop4 ntop6 pton4 pton6" and addr: "length addr = 16" "pl \<le> 128"
    and v4: "IN6_IS_ADDR_V4MAPPED addr \<Longrightarrow> 96 \<le> pl"
  shows "prefix_pton pton4 pton6 (addr_text ntop4 ntop6 addr @ 0x2f # dec (len_text addr pl)) a0 pl0 = (True, addr, pl)"
proof -
  let ?t = "addr_text ntop4 ntop6 addr" and ?n = "len_text addr pl"
  note t = addr_text_ok [OF ok addr(1)]
  have h: "takeWhile (\<lambda>c. c \<noteq> 0x2f) (?t @ 0x2f # dec ?n) = ?t" using t(3) by (rule takeWhile_upto)
  note d = length_dec [OF len_text_less, of addr pl]
  show ?thesis
  proof (cases "IN6_IS_ADDR_V4MAPPED addr")
    case True
    then have n: "?n = unat pl - 96" "?t = ntop4 (drop 12 addr)" using v4 by (simp_all add: len_text_def addr_text_def)
    have u: "96 \<le> unat pl" "unat pl \<le> 128" using v4 [OF True] addr(2) by (simp_all add: word_le_nat_alt)
    have p: "(of_nat ?n :: u8) = pl - 96" unfolding n using u by (simp add: of_nat_diff)
    have "unat (pl - 96) = unat pl - 96" using u by (simp add: unat_sub_if_size)
    then have "\<not> pl - 96 > 32" using u by (simp add: word_less_nat_alt)
    moreover have "pton6 ?t = None" "pton4 ?t = Some (drop 12 addr)"
      using ok addr(1) by (simp_all add: n(2) inet_text_ok_def)
    ultimately show ?thesis
      using t(1) d v4mapped_split [OF addr(1) True]
      by (simp add: prefix_pton_def h Let_def dec_digits atoi_dec p)
  next
    case False
    then have n: "?n = unat pl" "?t = ntop6 addr" by (simp_all add: len_text_def addr_text_def)
    have "pton6 ?t = Some addr" using ok addr(1) by (simp add: n(2) inet_text_ok_def)
    then show ?thesis
      using t(1) d addr(2) n(1) h by (simp add: prefix_pton_def Let_def dec_digits atoi_dec)
  qed
qed

section \<open>Properties\<close>

lemma flip_bit:
  assumes "n < 8 * length a"
  shows "\<exists>b. length b = length a \<and> (\<forall>m. bitn b m = (if m = n then \<not> bitn a n else bitn a m))"
proof -
  have i: "n div 8 < length a" using assms by (simp add: less_mult_imp_div_less mult.commute)
  define r where "r = 7 - n mod 8"
  define v where "v = a ! (n div 8) XOR push_bit r 1"
  have v: "bit v (7 - m mod 8) = (bit (a ! (n div 8)) (7 - m mod 8) \<noteq> (m mod 8 = n mod 8))" for m
  proof -
    have "n mod 8 < 8" "m mod 8 < 8" by simp_all
    then have "r = 7 - m mod 8 \<longleftrightarrow> m mod 8 = n mod 8" "r < 8" unfolding r_def by linarith+
    then show ?thesis by (auto simp: v_def bit_xor_iff push_bit_of_1 bit_exp_iff)
  qed
  have "bitn (a[n div 8 := v]) m = (if m = n then \<not> bitn a n else bitn a m)" for m
  proof (cases "m div 8 = n div 8")
    case True
    then have "m = n \<longleftrightarrow> m mod 8 = n mod 8" by (metis mult_div_mod_eq)
    with True i v [of m] show ?thesis by (simp add: bitn_update) (auto simp: bitn_def)
  qed (use i in \<open>auto simp: bitn_update\<close>)
  then show ?thesis by (intro exI [of _ "a[n div 8 := v]"]) simp
qed

text \<open>C30: \<open>prefix_contains\<close> decides inclusion: for well-formed prefixes it reads inside the addresses
  and is true exactly when every address covered by the second prefix is covered by the first.\<close>

theorem prefix_contains_inclusion:
  assumes "prefix_wf p" "prefix_wf q"
  shows "prefix_contains p q = Some (\<forall>a. addr_in a q \<longrightarrow> addr_in a p)"
proof -
  note wf = assms(1) [THEN prefix_wfD] assms(2) [THEN prefix_wfD]
  have "(\<forall>a. addr_in a q \<longrightarrow> addr_in a p) \<longleftrightarrow>
    plen p \<le> plen q \<and> bits_eq (bitn (p_prefix p)) (bitn (p_prefix q)) (unat (plen p))" (is "?l \<longleftrightarrow> ?r")
  proof
    assume ?r
    then show ?l
      unfolding addr_in_def word_le_nat_alt by (meson bits_eq_mono bits_eq_sym bits_eq_trans)
  next
    assume l: ?l
    have "addr_in (p_prefix q) q" using wf by (simp add: addr_in_def)
    with l have qp: "bits_eq (bitn (p_prefix q)) (bitn (p_prefix p)) (unat (plen p))" by (auto simp: addr_in_def)
    have "\<not> unat (plen q) < unat (plen p)"
    proof
      assume lt: "unat (plen q) < unat (plen p)"
      obtain b where b: "length b = 16" "\<And>m. bitn b m =
          (if m = unat (plen q) then \<not> bitn (p_prefix q) (unat (plen q)) else bitn (p_prefix q) m)"
        using flip_bit [of "unat (plen q)" "p_prefix q"] wf lt by auto
      then have "addr_in b q" by (simp add: addr_in_def bits_eq_def)
      with l have "bits_eq (bitn b) (bitn (p_prefix p)) (unat (plen p))" by (auto simp: addr_in_def)
      with lt qp b show False by (auto simp: bits_eq_def)
    qed
    with qp show ?r by (simp add: word_le_nat_alt bits_eq_sym)
  qed
  then show ?thesis by (simp add: prefix_contains_eq [OF assms])
qed

theorem prefix_contains_inclusion_witness:
  "prefix_contains ipv6_ula_prefix ipv6_ll_prefix =
   Some (\<forall>a. addr_in a ipv6_ll_prefix \<longrightarrow> addr_in a ipv6_ula_prefix)"
  by (rule prefix_contains_inclusion) (simp_all add: prefix_wf_def ipv6_ula_prefix_def ipv6_ll_prefix_def)

text \<open>C31: The text that \<open>prefix_ntopc\<close> writes is read back by \<open>prefix_pton\<close>: for every address and every
  length of at most 128, and any buffer of \<open>PREFIX_MAXBUFFLEN\<close> = 50 bytes, the conversion succeeds
  inside the buffer, and parsing its result gives the same length and the address of which the first
  \<open>pl\<close> bits are kept and the others are zero (IPv4-mapped prefixes included).\<close>

theorem prefix_text_round_trip:
  assumes "inet_text_ok ntop4 ntop6 pton4 pton6" "length addr = 16" "pl \<le> 128" "50 \<le> bufflen" "bufflen \<le> length dst"
  shows "\<exists>d str a. prefix_ntopc ntop4 ntop6 dst bufflen addr pl = Some (d, True) \<and> cstr d = Some str \<and>
    prefix_pton pton4 pton6 str a0 pl0 = (True, a, pl) \<and> length a = 16 \<and>
    (\<forall>n < 128. bitn a n \<longleftrightarrow> n < unat pl \<and> bitn addr n)"
proof -
  obtain a where a: "canonical_addr addr pl = Some a" "length a = 16"
      "\<forall>n < 128. bitn a n \<longleftrightarrow> n < unat pl \<and> bitn addr n"
    using canonical_addr_bits [OF assms(2,3)] by auto
  note t = addr_text_ok [OF assms(1) a(2)]
  have v4: "96 \<le> pl" if "IN6_IS_ADDR_V4MAPPED a"
    using v4mapped_bits [OF a(2) that refl] a(3) by (simp add: word_le_nat_alt)
  define s where "s = addr_text ntop4 ntop6 a @ 0x2f # dec (len_text a pl)"
  have "prefix_ntopc ntop4 ntop6 dst bufflen addr pl = Some (s @ 0 # drop (length s + 1) dst, True)"
    using t(1) assms(4) by (simp add: prefix_ntopc_def a(1) prefix_ntop_eq [OF t(2) assms(5)] s_def INET6_ADDRSTRLEN_def)
  moreover have "cstr (s @ 0 # drop (length s + 1) dst) = Some s"
    by (rule cstr_append) (use t(2) digit_nonzero [OF dec_digits] in \<open>simp add: s_def\<close>)
  moreover have "prefix_pton pton4 pton6 s a0 pl0 = (True, a, pl)"
    unfolding s_def by (rule prefix_pton_text [OF assms(1) a(2) assms(3) v4])
  ultimately show ?thesis using a by blast
qed

text \<open>
  A textual form that meets \<open>inet_text_ok\<close>: two letters for each byte.
\<close>

definition letters :: "bytes \<Rightarrow> bytes" where
  "letters a = concat (map (\<lambda>b. [0x41 + drop_bit 4 b, 0x41 + (b AND 0x0f)]) a)"

fun unletters :: "bytes \<Rightarrow> bytes" where
  "unletters (x # y # s) = (push_bit 4 (x - 0x41) OR (y - 0x41)) # unletters s"
| "unletters _ = []"

lemma unletters_letters: "unletters (letters a) = a"
proof -
  have "push_bit 4 (drop_bit 4 b) OR (b AND 0x0f) = b" for b :: u8
  proof -
    have "b AND 0x0f = take_bit 4 b" by (simp add: take_bit_eq_mask mask_eq_exp_minus_1)
    moreover have "push_bit 4 (drop_bit 4 b) OR take_bit 4 b = b"
      by (rule bit_eqI) (auto simp: bit_or_iff bit_push_bit_iff bit_drop_bit_eq bit_take_bit_iff)
    ultimately show ?thesis by simp
  qed
  then show ?thesis by (induction a) (simp_all add: letters_def)
qed

lemma length_letters: "length (letters a) = 2 * length a"
  by (induction a) (simp_all add: letters_def)

lemma letters_chars: "c \<in> set (letters a) \<Longrightarrow> 0x41 \<le> unat c"
proof (induction a)
  case (Cons b a)
  have "unat (0x41 + n :: u8) = 0x41 + unat n" if "unat n < 16" for n :: u8
    using that by (simp add: unat_word_ariths)
  with Cons nibbles [of b] show ?case by (auto simp: letters_def)
qed (simp add: letters_def)

lemma letters_ok:
  "inet_text_ok letters letters (\<lambda>s. if length s = 8 then Some (unletters s) else None)
     (\<lambda>s. if length s = 32 then Some (unletters s) else None)"
  using letters_chars [of 0] letters_chars [of "0x2f"]
  by (fastforce simp: inet_text_ok_def unletters_letters length_letters INET6_ADDRSTRLEN_def)

theorem prefix_text_round_trip_witness:
  "\<exists>d str a. prefix_ntopc letters letters (replicate 50 1) 50 (replicate 16 0xab) 77 = Some (d, True) \<and>
    cstr d = Some str \<and>
    prefix_pton (\<lambda>s. if length s = 8 then Some (unletters s) else None)
      (\<lambda>s. if length s = 32 then Some (unletters s) else None) str [] 0 = (True, a, 77) \<and> length a = 16 \<and>
    (\<forall>n < 128. bitn a n \<longleftrightarrow> n < unat (77 :: u8) \<and> bitn (replicate 16 0xab) n)"
  by (rule prefix_text_round_trip [OF letters_ok]) simp_all

text \<open>
  The parsed length is kept in eight bits, so a length that is a multiple of 256 too large is
  accepted.
\<close>

lemma prefix_pton_wraps:
  assumes "pton6 host = Some a" "0x2f \<notin> set host" "length host < INET6_ADDRSTRLEN"
  shows "prefix_pton pton4 pton6 (host @ [0x2f, 0x33, 0x30, 0x30]) a0 pl0 = (True, a, 44)"
proof -
  have h: "takeWhile (\<lambda>c. c \<noteq> 0x2f) (host @ [0x2f, 0x33, 0x30, 0x30]) = host"
    by (rule takeWhile_upto [OF assms(2)])
  show ?thesis using assms by (simp add: prefix_pton_def h is_digit_def atoi_def Let_def)
qed

end
