(* ===== verification/Tlv.thy ===== *)
theory Tlv
  imports Comparators
begin

unbundle bit_operations_syntax

text \<open>
  Type-length-value attributes (\<open>tlv.h\<close>, \<open>tlv.c\<close>).  An attribute is a position in a buffer: a
  header of four bytes, the type in the upper and the payload length in the lower half of a
  big-endian word, the payload, and padding to a multiple of four bytes.  A \<open>tlv_buf\<close> is a growing
  buffer with the position of its root attribute.  Null pointers are empty buffers or \<open>None\<close>
  arguments.  \<open>oom n\<close> says whether an allocation of \<open>n\<close> bytes fails.
\<close>

section \<open>Headers\<close>

definition TLV_ATTR_ID_MASK :: u32 where "TLV_ATTR_ID_MASK = 0xffff0000"

definition TLV_ATTR_LEN_MASK :: u32 where "TLV_ATTR_LEN_MASK = 0x0000ffff"

definition st_be32 :: "bytes \<Rightarrow> nat \<Rightarrow> u32 \<Rightarrow> bytes option" where
  "st_be32 buf i w = memcpy_at buf i (word_be 4 w) 0 4"

definition tlv_id :: "bytes \<Rightarrow> nat \<Rightarrow> u32 option" where
  "tlv_id buf attr = do { w \<leftarrow> ld_be32 buf attr; Some (drop_bit 16 (w AND TLV_ATTR_ID_MASK)) }"

definition tlv_len :: "bytes \<Rightarrow> nat \<Rightarrow> u32 option" where
  "tlv_len buf attr = do { w \<leftarrow> ld_be32 buf attr; Some (w AND TLV_ATTR_LEN_MASK) }"

definition tlv_data :: "nat \<Rightarrow> nat" where
  "tlv_data attr = attr + 4"

definition tlv_raw_len :: "bytes \<Rightarrow> nat \<Rightarrow> u32 option" where
  "tlv_raw_len buf attr = do { l \<leftarrow> tlv_len buf attr; Some (l + 4) }"

definition tlv_pad_len :: "bytes \<Rightarrow> nat \<Rightarrow> u32 option" where
  "tlv_pad_len buf attr = do { len \<leftarrow> tlv_raw_len buf attr; Some ((len + 4 - 1) AND NOT (4 - 1)) }"

definition tlv_next :: "bytes \<Rightarrow> nat \<Rightarrow> nat option" where
  "tlv_next buf attr = do { l \<leftarrow> tlv_pad_len buf attr; Some (attr + unat l) }"

definition tlv_init :: "bytes \<Rightarrow> nat \<Rightarrow> u32 \<Rightarrow> u32 \<Rightarrow> bytes option" where
  "tlv_init buf attr tid len =
     (let len = len - 4;
          len = len AND TLV_ATTR_LEN_MASK;
          len = len OR (push_bit 16 tid AND TLV_ATTR_ID_MASK)
      in st_be32 buf attr len)"

definition tlv_fill_pad :: "bytes \<Rightarrow> nat \<Rightarrow> bytes option" where
  "tlv_fill_pad buf attr =
     do { len \<leftarrow> tlv_pad_len buf attr;
          raw \<leftarrow> tlv_raw_len buf attr;
          let delta = unat len - unat raw;
          if delta > 0 then memcpy_at buf (attr + unat len - delta) (replicate delta 0) 0 delta
          else Some buf }"

definition tlv_set_raw_len :: "bytes \<Rightarrow> nat \<Rightarrow> u32 \<Rightarrow> bytes option" where
  "tlv_set_raw_len buf attr len =
     do { tid \<leftarrow> tlv_id buf attr;
          let len = len - 4;
          let len = len AND TLV_ATTR_LEN_MASK;
          let len = len OR (push_bit 16 tid AND TLV_ATTR_ID_MASK);
          st_be32 buf attr len }"

section \<open>Iteration\<close>

definition pad4 :: "nat \<Rightarrow> nat" where
  "pad4 n = (n + 3) div 4 * 4"

lemma tlv_raw_len_eq:
  "tlv_len buf attr = Some l \<Longrightarrow> unat l < 0x10000 \<and> tlv_raw_len buf attr = Some (l + 4) \<and> unat (l + 4) = unat l + 4"
proof -
  assume l: "tlv_len buf attr = Some l"
  have m: "TLV_ATTR_LEN_MASK = mask 16" by (simp add: TLV_ATTR_LEN_MASK_def mask_eq_exp_minus_1)
  have "unat l < 0x10000"
    using l unfolding tlv_len_def m by (auto simp: unat_and_mask bind_eq_Some_conv simp del: unsigned_and_eq)
  with l show ?thesis by (simp add: tlv_raw_len_def unat_word_ariths)
qed

lemma tlv_pad_len_eq:
  assumes "tlv_len buf attr = Some l"
  shows "\<exists>p. tlv_pad_len buf attr = Some p \<and> unat p = pad4 (unat l + 4)"
proof -
  note r = tlv_raw_len_eq [OF assms]
  have "tlv_pad_len buf attr = Some ((l + 4 + 4 - 1) AND NOT 3)"
    using r by (simp add: tlv_pad_len_def)
  moreover have "unat (l + 4 + 4 - 1) = unat l + 4 + 3"
  proof -
    have "l + 4 + 4 - 1 = l + 7" by simp
    then show ?thesis using r by (simp add: unat_word_ariths)
  qed
  ultimately show ?thesis using unat_align4 [of "l + 4 + 4 - 1"] by (simp add: pad4_def)
qed

lemma pad4_ge: "n \<le> pad4 n" "pad4 n < n + 4" "pad4 n mod 4 = 0"
  unfolding pad4_def by simp_all

text \<open>
  The positions \<open>tlv_for_each_in_buf\<close> visits from \<open>pos\<close> on, in a buffer that ends at \<open>e\<close>.
\<close>

function tlv_for_each_in_buf :: "bytes \<Rightarrow> nat \<Rightarrow> nat \<Rightarrow> nat list option" where
  "tlv_for_each_in_buf buf e pos =
     (if pos + 4 \<le> e
      then (case tlv_raw_len buf pos of
              None \<Rightarrow> None
            | Some raw \<Rightarrow>
                if raw \<ge> 4 \<and> pos + unat raw \<le> e
                then (case tlv_pad_len buf pos of
                        None \<Rightarrow> None
                      | Some pad \<Rightarrow>
                          (case tlv_for_each_in_buf buf e (pos + unat pad) of
                             None \<Rightarrow> None
                           | Some ps \<Rightarrow> Some (pos # ps)))
                else Some [])
      else Some [])"
  by pat_completeness auto
termination
proof (relation "measure (\<lambda>(buf, e, pos). e - pos)")
  fix buf e pos raw pad
  assume *: "pos + 4 \<le> e" "tlv_raw_len buf pos = Some raw" "tlv_pad_len buf pos = Some pad"
  then obtain l where "tlv_len buf pos = Some l" by (auto simp: tlv_raw_len_def bind_eq_Some_conv)
  from tlv_pad_len_eq [OF this] * show "((buf, e, pos + unat pad), (buf, e, pos)) \<in> measure (\<lambda>(buf, e, pos). e - pos)"
    using pad4_ge(1) [of "unat l + 4"] by auto
qed simp

declare tlv_for_each_in_buf.simps [simp del]

definition tlv_for_each_attr :: "bytes \<Rightarrow> nat \<Rightarrow> nat list option" where
  "tlv_for_each_attr buf attr =
     do { len \<leftarrow> tlv_len buf attr;
          tlv_for_each_in_buf buf (tlv_data attr + unat len) (tlv_data attr) }"

section \<open>Growing buffers\<close>

record tlv_buf =
  tb_head :: nat
  tb_buflen :: nat
  tb_buf :: bytes

definition tlv_buffer_grow :: "(nat \<Rightarrow> bool) \<Rightarrow> tlv_buf \<Rightarrow> nat \<Rightarrow> (tlv_buf \<times> bool) option" where
  "tlv_buffer_grow oom b minlen =
     (let delta = ((minlen div 256) + 1) * 256;
          len = tb_buflen b + delta
      in if length (tb_buf b) \<noteq> tb_buflen b then None
         else if oom len then Some (b\<lparr> tb_buflen := len, tb_buf := [] \<rparr>, False)
         else Some (b\<lparr> tb_buflen := len, tb_buf := tb_buf b @ replicate delta 0 \<rparr>, True))"

text \<open>The head is kept as an offset, so it need not be adjusted when the buffer moves.\<close>

definition tlv_buf_grow :: "(nat \<Rightarrow> bool) \<Rightarrow> tlv_buf \<Rightarrow> nat \<Rightarrow> tlv_buf option" where
  "tlv_buf_grow oom b required =
     do { (b, ok) \<leftarrow> tlv_buffer_grow oom b required; Some b }"

definition tlv_add :: "(nat \<Rightarrow> bool) \<Rightarrow> tlv_buf \<Rightarrow> nat \<Rightarrow> u32 \<Rightarrow> nat \<Rightarrow> (tlv_buf \<times> nat) option" where
  "tlv_add oom b pos tid payload =
     (let required = int (pos + 4 + payload) - int (tb_buflen b)
      in do { b \<leftarrow> (if required > 0 then tlv_buf_grow oom b (nat required) else Some b);
              buf \<leftarrow> tlv_init (tb_buf b) pos tid (of_nat (payload + 4));
              buf \<leftarrow> tlv_fill_pad buf pos;
              Some (b\<lparr> tb_buf := buf \<rparr>, pos) })"

definition tlv_buf_init :: "(nat \<Rightarrow> bool) \<Rightarrow> tlv_buf \<Rightarrow> u32 \<Rightarrow> tlv_buf option" where
  "tlv_buf_init oom b tid =
     do { (b, attr) \<leftarrow> tlv_add oom (b\<lparr> tb_head := 0 \<rparr>) 0 tid 0; Some b }"

definition tlv_buf_free :: "tlv_buf \<Rightarrow> tlv_buf" where
  "tlv_buf_free b = b\<lparr> tb_buf := [], tb_buflen := 0 \<rparr>"

definition tlv_new :: "(nat \<Rightarrow> bool) \<Rightarrow> tlv_buf \<Rightarrow> u32 \<Rightarrow> nat \<Rightarrow> (tlv_buf \<times> nat) option" where
  "tlv_new oom b tid payload =
     do { pos \<leftarrow> tlv_next (tb_buf b) (tb_head b);
          (b, attr) \<leftarrow> tlv_add oom b pos tid payload;
          l1 \<leftarrow> tlv_pad_len (tb_buf b) (tb_head b);
          l2 \<leftarrow> tlv_pad_len (tb_buf b) attr;
          buf \<leftarrow> tlv_set_raw_len (tb_buf b) (tb_head b) (l1 + l2);
          Some (b\<lparr> tb_buf := buf \<rparr>, attr) }"

definition tlv_put_raw :: "(nat \<Rightarrow> bool) \<Rightarrow> tlv_buf \<Rightarrow> bytes option \<Rightarrow> nat \<Rightarrow> (tlv_buf \<times> nat option) option" where
  "tlv_put_raw oom b ptr len =
     (case ptr of
        None \<Rightarrow> Some (b, None)
      | Some src \<Rightarrow>
          if len < 4 then Some (b, None)
          else do {
            pos \<leftarrow> tlv_next (tb_buf b) (tb_head b);
            (b, attr) \<leftarrow> tlv_add oom b pos 0 (len - 4);
            l1 \<leftarrow> tlv_pad_len (tb_buf b) (tb_head b);
            buf \<leftarrow> tlv_set_raw_len (tb_buf b) (tb_head b) (l1 + of_nat len);
            buf \<leftarrow> memcpy_at buf attr src 0 len;
            Some (b\<lparr> tb_buf := buf \<rparr>, Some attr) })"

definition tlv_put :: "(nat \<Rightarrow> bool) \<Rightarrow> tlv_buf \<Rightarrow> u32 \<Rightarrow> bytes option \<Rightarrow> nat \<Rightarrow> (tlv_buf \<times> nat) option" where
  "tlv_put oom b tid ptr len =
     do { (b, attr) \<leftarrow> tlv_new oom b tid len;
          (case ptr of
             None \<Rightarrow> Some (b, attr)
           | Some src \<Rightarrow> do { buf \<leftarrow> memcpy_at (tb_buf b) (tlv_data attr) src 0 len;
                             Some (b\<lparr> tb_buf := buf \<rparr>, attr) }) }"

definition tlv_nest_start :: "(nat \<Rightarrow> bool) \<Rightarrow> tlv_buf \<Rightarrow> u32 \<Rightarrow> nat \<Rightarrow> (tlv_buf \<times> nat) option" where
  "tlv_nest_start oom b tid len =
     (let offset = tb_head b
      in do { pos \<leftarrow> tlv_next (tb_buf b) (tb_head b);
              (b, attr) \<leftarrow> tlv_add oom b pos tid len;
              Some (b\<lparr> tb_head := attr \<rparr>, offset) })"

definition tlv_nest_end :: "tlv_buf \<Rightarrow> nat \<Rightarrow> tlv_buf option" where
  "tlv_nest_end b cookie =
     do { l1 \<leftarrow> tlv_pad_len (tb_buf b) cookie;
          l2 \<leftarrow> tlv_raw_len (tb_buf b) (tb_head b);
          buf \<leftarrow> tlv_set_raw_len (tb_buf b) cookie (l1 + l2);
          Some (b\<lparr> tb_buf := buf, tb_head := cookie \<rparr>) }"

section \<open>Comparison and sorting\<close>

type_synonym attr_ptr = "(bytes \<times> nat) option"

definition tlv_attr_equal :: "attr_ptr \<Rightarrow> attr_ptr \<Rightarrow> bool option" where
  "tlv_attr_equal a1 a2 =
     (case (a1, a2) of
        (None, None) \<Rightarrow> Some True
      | (Some (b1, o1), Some (b2, o2)) \<Rightarrow>
          do { l1 \<leftarrow> tlv_pad_len b1 o1;
               l2 \<leftarrow> tlv_pad_len b2 o2;
               if l1 \<noteq> l2 then Some False
               else do { r \<leftarrow> memcmp b1 o1 b2 o2 (unat l1); Some (r = 0) } }
      | _ \<Rightarrow> Some False)"

definition tlv_attr_cmp :: "attr_ptr \<Rightarrow> attr_ptr \<Rightarrow> int option" where
  "tlv_attr_cmp a1 a2 =
     (case (a1, a2) of
        (None, None) \<Rightarrow> Some 0
      | (None, Some _) \<Rightarrow> Some (-1)
      | (Some _, None) \<Rightarrow> Some 1
      | (Some (b1, o1), Some (b2, o2)) \<Rightarrow>
          do { r \<leftarrow> memcmp b1 o1 b2 o2 4;
               if r \<noteq> 0 then Some r
               else do { l \<leftarrow> tlv_raw_len b1 o1; memcmp b1 o1 b2 o2 (unat l) } })"

definition tlv_memdup :: "(nat \<Rightarrow> bool) \<Rightarrow> bytes \<Rightarrow> nat \<Rightarrow> bytes option option" where
  "tlv_memdup oom buf attr =
     do { l \<leftarrow> tlv_pad_len buf attr;
          if oom (unat l) then Some None
          else do { ret \<leftarrow> memcpy_at (replicate (unat l) 0) 0 buf attr (unat l); Some (Some ret) } }"

definition qsort_tlv_cmp :: "bytes \<Rightarrow> nat \<Rightarrow> nat \<Rightarrow> int option" where
  "qsort_tlv_cmp buf a1 a2 = tlv_attr_cmp (Some (buf, a1)) (Some (buf, a2))"

text \<open>The copy of the attributes in their new order into \<open>tmp\<close>, from position \<open>t\<close> on.\<close>

fun tlv_sort_copy :: "bytes \<Rightarrow> bytes \<Rightarrow> nat \<Rightarrow> nat list \<Rightarrow> (bytes \<times> nat) option" where
  "tlv_sort_copy data tmp t [] = Some (tmp, t)"
| "tlv_sort_copy data tmp t (a # al) =
     do { l \<leftarrow> tlv_pad_len data a;
          tmp \<leftarrow> memcpy_at tmp t data a (unat l);
          tlv_sort_copy data tmp (t + unat l) al }"

text \<open>\<open>base\<close> is the position of \<open>data\<close> in its buffer; the result is the buffer and the return value.\<close>

definition tlv_sort :: "bytes \<Rightarrow> nat \<Rightarrow> nat \<Rightarrow> (bytes \<times> bool) option" where
  "tlv_sort buf base len =
     do { al \<leftarrow> tlv_for_each_in_buf buf (base + len) base;
          if length al \<le> 1 then Some (buf, True)
          else do {
            al \<leftarrow> qsort (qsort_tlv_cmp buf) al;
            (tmp, t) \<leftarrow> tlv_sort_copy buf (replicate len 0) 0 al;
            if t \<noteq> len then Some (buf, False)
            else do { buf \<leftarrow> memcpy_at buf base tmp 0 len; Some (buf, True) } } }"

section \<open>The wire format\<close>

text \<open>
  The specification: an attribute is its type and its payload, a sequence of attributes is the
  concatenation of their encodings.
\<close>

type_synonym tlv = "u32 \<times> bytes"

definition tlv_ok :: "tlv \<Rightarrow> bool" where
  "tlv_ok a \<longleftrightarrow> fst a < 0x10000 \<and> length (snd a) < 0x10000"

definition tlv_hdr :: "u32 \<Rightarrow> nat \<Rightarrow> u32" where
  "tlv_hdr tid len = push_bit 16 tid OR of_nat len"

definition tlv_raw :: "tlv \<Rightarrow> bytes" where
  "tlv_raw a = word_be 4 (tlv_hdr (fst a) (length (snd a))) @ snd a"

definition tlv_enc :: "tlv \<Rightarrow> bytes" where
  "tlv_enc a = tlv_raw a @ replicate (pad4 (length (snd a)) - length (snd a)) 0"

definition tlvs_enc :: "tlv list \<Rightarrow> bytes" where
  "tlvs_enc ts = concat (map tlv_enc ts)"

text \<open>The attribute at a position, and those an iteration visits.\<close>

definition tlv_at :: "bytes \<Rightarrow> nat \<Rightarrow> tlv option" where
  "tlv_at buf pos =
     do { tid \<leftarrow> tlv_id buf pos;
          l \<leftarrow> tlv_len buf pos;
          if tlv_data pos + unat l \<le> length buf
          then Some (tid, take (unat l) (drop (tlv_data pos) buf)) else None }"

fun tlvs_at :: "bytes \<Rightarrow> nat list \<Rightarrow> tlv list option" where
  "tlvs_at buf [] = Some []"
| "tlvs_at buf (p # ps) = do { a \<leftarrow> tlv_at buf p; as \<leftarrow> tlvs_at buf ps; Some (a # as) }"

definition tlv_parse :: "bytes \<Rightarrow> nat \<Rightarrow> nat \<Rightarrow> tlv list option" where
  "tlv_parse buf base len =
     do { ps \<leftarrow> tlv_for_each_in_buf buf (base + len) base; tlvs_at buf ps }"

text \<open>
  A buffer whose head attribute, after the bytes \<open>pre\<close>, has the type \<open>tid\<close> and the payload \<open>pl\<close>.
\<close>

definition tb_holds :: "tlv_buf \<Rightarrow> bytes \<Rightarrow> u32 \<Rightarrow> bytes \<Rightarrow> bool" where
  "tb_holds b pre tid pl \<longleftrightarrow>
     tb_head b = length pre \<and> length pre mod 4 = 0 \<and> length pl mod 4 = 0 \<and> length pl < 0x10000 \<and> tid < 0x10000 \<and>
     length (tb_buf b) = tb_buflen b \<and> tb_buflen b mod 4 = 0 \<and>
     (\<exists>rest. tb_buf b = pre @ word_be 4 (tlv_hdr tid (length pl)) @ pl @ rest)"

fun tlv_offsets :: "nat \<Rightarrow> tlv list \<Rightarrow> nat list" where
  "tlv_offsets p [] = []"
| "tlv_offsets p (a # ts) = p # tlv_offsets (p + length (tlv_enc a)) ts"

definition tlv_cmp :: "tlv \<Rightarrow> tlv \<Rightarrow> int" where
  "tlv_cmp a b =
     (let r = bytes_cmp (take 4 (tlv_raw a)) (take 4 (tlv_raw b))
      in if r \<noteq> 0 then r else bytes_cmp (tlv_raw a) (tlv_raw b))"

text \<open>What a buffer holds at the position of an encoded attribute.\<close>

definition tlv_here :: "bytes \<Rightarrow> nat \<Rightarrow> tlv \<Rightarrow> bool" where
  "tlv_here buf p a \<longleftrightarrow> tlv_ok a \<and> tlv_len buf p = Some (of_nat (length (snd a))) \<and>
     p + length (tlv_enc a) \<le> length buf \<and> take (length (tlv_enc a)) (drop p buf) = tlv_enc a"

section \<open>Lemmas: headers\<close>

lemma be_word_hdr [simp]: "be_word (word_be 4 w) = (w :: u32)"
  using be_word_word_be [of 4 w] take_bit_word_eq_self [of 32 w] by simp

lemma ld_be32_append: "off = length pre \<Longrightarrow> ld_be32 (pre @ word_be 4 w @ rest) off = Some w"
  by (simp add: ld_be32_def)

lemma memcpy_at_append:
  "off = length xs \<Longrightarrow> length ys = n \<Longrightarrow> n \<le> length src \<Longrightarrow>
   memcpy_at (xs @ ys @ zs) off src 0 n = Some (xs @ take n src @ zs)"
  by (simp add: memcpy_at_def)

lemma st_be32_append: "off = length xs \<Longrightarrow> length ys = 4 \<Longrightarrow> st_be32 (xs @ ys @ zs) off w = Some (xs @ word_be 4 w @ zs)"
  using memcpy_at_append [of off xs ys 4 "word_be 4 w" zs] by (simp add: st_be32_def)

lemma not_bit_small: "unat (x :: 'a::len word) < 2 ^ n \<Longrightarrow> n \<le> k \<Longrightarrow> \<not> bit x k"
  using not_bit_nat [of "unat x" n k] by (auto simp: bit_unsigned_iff)

lemma tlv_hdr_fields:
  assumes "tid < 0x10000" "len < 0x10000"
  shows "drop_bit 16 (tlv_hdr tid len AND TLV_ATTR_ID_MASK) = tid"
    "tlv_hdr tid len AND TLV_ATTR_LEN_MASK = of_nat len"
proof -
  have t: "k < 16" if "bit tid k" for k
    using that assms(1) not_bit_small [of tid 16 k] by (force simp: word_less_nat_alt)
  have l: "\<not> bit (of_nat len :: u32) k" if "16 \<le> k" for k
    using that assms(2) by (intro not_bit_small [of _ 16]) (simp_all add: unat_of_nat)
  have m: "TLV_ATTR_ID_MASK = push_bit 16 (mask 16)" "TLV_ATTR_LEN_MASK = mask 16"
    by (simp_all add: TLV_ATTR_ID_MASK_def TLV_ATTR_LEN_MASK_def mask_eq_exp_minus_1)
  show "drop_bit 16 (tlv_hdr tid len AND TLV_ATTR_ID_MASK) = tid"
    unfolding m tlv_hdr_def
    by (rule bit_word_eqI) (use t l in \<open>auto simp: bit_simps dest: bit_imp_le_length\<close>)
  show "tlv_hdr tid len AND TLV_ATTR_LEN_MASK = of_nat len"
    unfolding m tlv_hdr_def
    by (rule bit_word_eqI) (use t l in \<open>auto simp: bit_simps simp flip: not_less\<close>)
qed

lemma tlv_hdr_build:
  assumes "tid < 0x10000" "len < 0x10000"
  shows "of_nat len AND TLV_ATTR_LEN_MASK OR (push_bit 16 tid AND TLV_ATTR_ID_MASK) = tlv_hdr tid len"
proof -
  have l: "\<not> bit (of_nat len :: u32) k" if "16 \<le> k" for k
    using that assms(2) by (intro not_bit_small [of _ 16]) (simp_all add: unat_of_nat)
  have m: "TLV_ATTR_ID_MASK = push_bit 16 (mask 16)" "TLV_ATTR_LEN_MASK = mask 16"
    by (simp_all add: TLV_ATTR_ID_MASK_def TLV_ATTR_LEN_MASK_def mask_eq_exp_minus_1)
  show ?thesis
    unfolding m tlv_hdr_def
    by (rule bit_word_eqI) (use l in \<open>auto simp: bit_simps\<close>)
qed

lemma tlv_fields:
  assumes "tid < 0x10000" "len < 0x10000" "off = length pre"
  shows "tlv_id (pre @ word_be 4 (tlv_hdr tid len) @ rest) off = Some tid"
    "tlv_len (pre @ word_be 4 (tlv_hdr tid len) @ rest) off = Some (of_nat len)"
    "tlv_raw_len (pre @ word_be 4 (tlv_hdr tid len) @ rest) off = Some (of_nat (len + 4))"
    "tlv_pad_len (pre @ word_be 4 (tlv_hdr tid len) @ rest) off = Some (of_nat (pad4 (len + 4)))"
    "tlv_next (pre @ word_be 4 (tlv_hdr tid len) @ rest) off = Some (off + pad4 (len + 4))"
proof -
  let ?b = "pre @ word_be 4 (tlv_hdr tid len) @ rest"
  show "tlv_id ?b off = Some tid" "tlv_len ?b off = Some (of_nat len)"
    using assms by (simp_all add: tlv_id_def tlv_len_def ld_be32_append tlv_hdr_fields del: drop_bit_and)
  then have l: "tlv_len ?b off = Some (of_nat len)" by simp
  then show "tlv_raw_len ?b off = Some (of_nat (len + 4))"
    by (simp add: tlv_raw_len_def add.commute)
  have u: "unat (of_nat len :: u32) = len" using assms(2) by (simp add: unat_of_nat)
  obtain p where p: "tlv_pad_len ?b off = Some p" "unat p = pad4 (len + 4)"
    using tlv_pad_len_eq [OF l] u by auto
  have "p = of_nat (pad4 (len + 4))" by (simp flip: p(2))
  with p show "tlv_pad_len ?b off = Some (of_nat (pad4 (len + 4)))" by simp
  show "tlv_next ?b off = Some (off + pad4 (len + 4))" using p by (simp add: tlv_next_def)
qed

lemma pad4_add4: "pad4 (n + 4) = pad4 n + 4"
proof -
  have "(n + 4 + 3) div 4 = (n + 3) div 4 + 1" by presburger
  then show ?thesis by (simp add: pad4_def)
qed

lemma pad4_aligned: "n mod 4 = 0 \<Longrightarrow> pad4 n = n"
proof -
  assume "n mod 4 = 0"
  then obtain k where "n = 4 * k" by (metis dvd_def mod_eq_0_iff_dvd)
  then show ?thesis by (simp add: pad4_def)
qed

lemma pad4_le: "n \<le> m \<Longrightarrow> m mod 4 = 0 \<Longrightarrow> pad4 n \<le> m"
proof -
  assume a: "n \<le> m" "m mod 4 = 0"
  then obtain k where "m = 4 * k" by (metis dvd_def mod_eq_0_iff_dvd)
  with a show ?thesis unfolding pad4_def by simp
qed

lemma unat_u32: "n < 0x100000000 \<Longrightarrow> unat (of_nat n :: u32) = n"
  by (simp add: unat_of_nat)

section \<open>Lemmas: building\<close>

lemma tlv_init_append:
  assumes "tid < 0x10000" "len < 0x10000" "off = length xs" "length ys = 4"
  shows "tlv_init (xs @ ys @ zs) off tid (of_nat (len + 4)) = Some (xs @ word_be 4 (tlv_hdr tid len) @ zs)"
  using assms tlv_hdr_build [of tid len] by (simp add: tlv_init_def Let_def st_be32_append)

lemma tlv_set_raw_len_append:
  assumes "tid < 0x10000" "len0 < 0x10000" "len < 0x10000" "off = length xs"
  shows "tlv_set_raw_len (xs @ word_be 4 (tlv_hdr tid len0) @ zs) off (of_nat (len + 4)) =
    Some (xs @ word_be 4 (tlv_hdr tid len) @ zs)"
  using assms tlv_hdr_build [of tid len]
  by (simp add: tlv_set_raw_len_def Let_def st_be32_append tlv_fields del: of_nat_add)
     (simp add: st_be32_append)

lemma tlv_fill_pad_append:
  assumes "tid < 0x10000" "len < 0x10000" "off = length xs" "length ys = len" "length ps = pad4 len - len"
  shows "tlv_fill_pad (xs @ word_be 4 (tlv_hdr tid len) @ ys @ ps @ zs) off =
    Some (xs @ word_be 4 (tlv_hdr tid len) @ ys @ replicate (pad4 len - len) 0 @ zs)"
proof -
  let ?h = "word_be 4 (tlv_hdr tid len)"
  have u: "unat (of_nat (len + 4) :: u32) = len + 4" "unat (of_nat (pad4 (len + 4)) :: u32) = pad4 len + 4"
    using assms(2) pad4_ge(2) [of len] unfolding pad4_add4 by (intro unat_u32; simp)+
  have "memcpy_at ((xs @ ?h @ ys) @ ps @ zs) (off + (pad4 len + 4) - (pad4 len - len)) (replicate (pad4 len - len) 0) 0 (pad4 len - len) =
      Some ((xs @ ?h @ ys) @ take (pad4 len - len) (replicate (pad4 len - len) 0) @ zs)"
    by (rule memcpy_at_append) (use assms pad4_ge(1) [of len] in auto)
  then have "memcpy_at (xs @ ?h @ ys @ ps @ zs) (off + (pad4 len + 4) - (pad4 len - len)) (replicate (pad4 len - len) 0) 0 (pad4 len - len) =
      Some (xs @ ?h @ ys @ replicate (pad4 len - len) 0 @ zs)" by simp
  moreover have "ps = []" if "pad4 len - len = 0" using that assms(5) by simp
  ultimately show ?thesis
    unfolding tlv_fill_pad_def tlv_fields [OF assms(1-3)] by (auto simp: u Let_def simp del: of_nat_add)
qed

lemma split_list3:
  assumes "a + b \<le> length r"
  obtains r1 r2 r3 where "r = r1 @ r2 @ r3" "length r1 = a" "length r2 = b"
proof
  show "r = take a r @ take b (drop a r) @ drop (a + b) r"
    by (metis append_take_drop_id drop_drop add.commute)
qed (use assms in auto)

text \<open>
  Adding an attribute at the aligned end of the used part: the buffer grows when needed, the header
  is written and the padding cleared.
\<close>

lemma tlv_add_append:
  assumes buf: "tb_buf b = xs @ rest" "length xs mod 4 = 0" "length (tb_buf b) = tb_buflen b" "tb_buflen b mod 4 = 0"
    and a: "tid < 0x10000" "len < 0x10000" "\<And>n. \<not> oom n"
  shows "\<exists>b' pl rest'. tlv_add oom b (length xs) tid len = Some (b', length xs) \<and> tb_head b' = tb_head b \<and>
    length (tb_buf b') = tb_buflen b' \<and> tb_buflen b' mod 4 = 0 \<and> length pl = len \<and>
    tb_buf b' = xs @ word_be 4 (tlv_hdr tid len) @ pl @ replicate (pad4 len - len) 0 @ rest'"
proof -
  define required where "required = int (length xs + 4 + len) - int (tb_buflen b)"
  define b1 where "b1 = (if required > 0 then
      b\<lparr> tb_buflen := tb_buflen b + ((nat required div 256) + 1) * 256,
         tb_buf := tb_buf b @ replicate (((nat required div 256) + 1) * 256) 0 \<rparr> else b)"
  have g: "(if required > 0 then tlv_buf_grow oom b (nat required) else Some b) = Some b1"
    using a(3) buf(3) by (simp add: b1_def tlv_buf_grow_def tlv_buffer_grow_def Let_def)
  have big: "length xs + 4 + len \<le> tb_buflen b1"
  proof (cases "required > 0")
    case True
    have "nat required \<le> ((nat required div 256) + 1) * 256" by simp
    with True show ?thesis unfolding b1_def required_def by simp
  qed (simp add: b1_def required_def)
  have al: "tb_buflen b1 mod 4 = 0" "length (tb_buf b1) = tb_buflen b1" "tb_head b1 = tb_head b"
    using buf(3,4) by (auto simp: b1_def mod_add_eq [symmetric] mod_mult_right_eq [symmetric])
  obtain rest1 where r1: "tb_buf b1 = xs @ rest1" using buf(1) by (cases "required > 0") (auto simp: b1_def)
  then have "length rest1 mod 4 = 0"
    using al(1,2) buf(2) by (metis add_cancel_right_left length_append mod_add_left_eq)
  then have "4 + pad4 len \<le> length rest1"
    using pad4_le [of "len + 4" "length rest1"] big al(2) r1 by (simp add: pad4_add4)
  then obtain h r2 where h: "rest1 = h @ r2" "length h = 4" "pad4 len \<le> length r2"
    by (intro that [of "take 4 rest1" "drop 4 rest1"]) simp_all
  moreover obtain pl ps zs where "r2 = pl @ ps @ zs" "length pl = len" "length ps = pad4 len - len"
    using split_list3 [of len "pad4 len - len" r2] h(3) pad4_ge(1) [of len] by auto
  ultimately show ?thesis
    using al tlv_init_append [OF a(1,2) refl h(2), of xs r2] tlv_fill_pad_append [OF a(1,2) refl, of pl ps xs zs] r1
    by (simp add: tlv_add_def required_def [symmetric] g del: of_nat_add)
       (rule exI [of _ pl], auto simp: pad4_ge(1))
qed

lemma aligned_sum: "a mod 4 = 0 \<Longrightarrow> b mod 4 = 0 \<Longrightarrow> (a + b) mod (4::nat) = 0"
  by (simp add: mod_add_eq [symmetric])

lemma tlv_enc_eq: "tlv_enc a = word_be 4 (tlv_hdr (fst a) (length (snd a))) @ snd a @ replicate (pad4 (length (snd a)) - length (snd a)) 0"
  by (simp add: tlv_enc_def tlv_raw_def)

lemma length_tlv_enc: "length (tlv_enc a) = 4 + pad4 (length (snd a))"
  using pad4_ge(1) [of "length (snd a)"] by (simp add: tlv_enc_eq)

lemma length_tlv_enc_mod: "length (tlv_enc a) mod 4 = 0"
  unfolding length_tlv_enc using pad4_ge(3) aligned_sum [of 4 "pad4 (length (snd a))"] by simp

lemma tlvs_enc_simps [simp]:
  "tlvs_enc [] = []" "tlvs_enc (a # ts) = tlv_enc a @ tlvs_enc ts" "tlvs_enc (ts @ us) = tlvs_enc ts @ tlvs_enc us"
  by (simp_all add: tlvs_enc_def)

lemma length_tlvs_enc_mod: "length (tlvs_enc ts) mod 4 = 0"
  by (induction ts) (simp_all add: aligned_sum length_tlv_enc_mod)

lemma tb_holds_next:
  assumes "tb_holds b pre tid pl"
  shows "tlv_next (tb_buf b) (tb_head b) = Some (length pre + 4 + length pl)"
  using assms tlv_fields(5) [of tid "length pl" "tb_head b" pre] pad4_aligned [of "length pl"]
  by (auto simp: tb_holds_def pad4_add4)

text \<open>
  The payload of the new attribute is what the buffer held; the caller fills it.
\<close>

lemma tlv_new_holds:
  assumes h: "tb_holds b pre tid pl" and a: "nid < 0x10000" "len < 0x10000" "\<And>n. \<not> oom n"
    and fit: "length pl + 4 + pad4 len < 0x10000"
  shows "\<exists>b' d rest. tlv_new oom b nid len = Some (b', length pre + 4 + length pl) \<and> length d = len \<and>
    tb_holds b' pre tid (pl @ tlv_enc (nid, d)) \<and>
    tb_buf b' = pre @ word_be 4 (tlv_hdr tid (length pl + 4 + pad4 len)) @ pl @ tlv_enc (nid, d) @ rest"
proof -
  define xs where "xs = pre @ word_be 4 (tlv_hdr tid (length pl)) @ pl"
  have hd: "tb_head b = length pre" "length pre mod 4 = 0" "length pl mod 4 = 0" "length pl < 0x10000" "tid < 0x10000"
    using h by (auto simp: tb_holds_def)
  obtain rest0 where "tb_buf b = xs @ rest0" using h by (auto simp: tb_holds_def xs_def)
  moreover have "length xs mod 4 = 0" "length xs = length pre + 4 + length pl"
    using hd aligned_sum [of "length pre + length pl" 4] aligned_sum [of "length pre" "length pl"] by (simp_all add: xs_def add.commute add.left_commute)
  ultimately obtain b1 d rest where b1: "tlv_add oom b (length xs) nid len = Some (b1, length xs)"
      "tb_head b1 = tb_head b" "length (tb_buf b1) = tb_buflen b1" "tb_buflen b1 mod 4 = 0" "length d = len"
      "tb_buf b1 = xs @ word_be 4 (tlv_hdr nid len) @ d @ replicate (pad4 len - len) 0 @ rest"
    using tlv_add_append [of b xs rest0 nid len oom] h a by (auto simp: tb_holds_def)
  have l1: "tlv_pad_len (tb_buf b1) (tb_head b1) = Some (of_nat (length pl + 4))"
    using tlv_fields(4) [of tid "length pl" "tb_head b1" pre] hd b1(2,6) pad4_aligned [OF hd(3)]
    by (simp add: xs_def pad4_add4 del: of_nat_add)
  have l2: "tlv_pad_len (tb_buf b1) (length xs) = Some (of_nat (pad4 len + 4))"
    using tlv_fields(4) [of nid len "length xs" xs] a b1(6) by (simp add: pad4_add4 del: of_nat_add)
  have l12: "(of_nat (length pl + 4) + of_nat (pad4 len + 4) :: u32) = of_nat ((length pl + 4 + pad4 len) + 4)"
    by simp
  define buf where "buf = pre @ word_be 4 (tlv_hdr tid (length pl + 4 + pad4 len)) @ pl @ tlv_enc (nid, d) @ rest"
  have set: "tlv_set_raw_len (tb_buf b1) (tb_head b1) (of_nat ((length pl + 4 + pad4 len) + 4)) = Some buf"
    using tlv_set_raw_len_append [of tid "length pl" "length pl + 4 + pad4 len" "tb_head b1" pre] hd fit b1
    by (simp add: xs_def buf_def tlv_enc_eq del: of_nat_add)
  have new: "tlv_new oom b nid len = Some (b1\<lparr> tb_buf := buf \<rparr>, length pre + 4 + length pl)"
    using b1(1) \<open>length xs = _\<close> l1 l2 set tb_holds_next [OF h] by (simp add: tlv_new_def l12 del: of_nat_add)
  have len: "length (pl @ tlv_enc (nid, d)) = length pl + 4 + pad4 len" "length buf = length (tb_buf b1)"
    using b1(5,6) pad4_ge(1) [of len] by (simp_all add: buf_def xs_def length_tlv_enc)
  have "tb_holds (b1\<lparr> tb_buf := buf \<rparr>) pre tid (pl @ tlv_enc (nid, d))"
    unfolding tb_holds_def len using b1(2-4) hd fit len(2) aligned_sum [OF hd(3) length_tlv_enc_mod, of "(nid, d)"]
      len(1) [unfolded length_append]
    by (simp add: buf_def)
  with new b1(5) show ?thesis
    by (intro exI [of _ "b1\<lparr> tb_buf := buf \<rparr>"] exI [of _ d] exI [of _ rest]) (simp add: buf_def)
qed

lemma tlv_put_holds:
  assumes h: "tb_holds b pre tid pl" and a: "nid < 0x10000" "length d < 0x10000" "\<And>n. \<not> oom n"
    and fit: "length pl + length (tlv_enc (nid, d)) < 0x10000"
  shows "\<exists>b'. tlv_put oom b nid (Some d) (length d) = Some (b', length pre + 4 + length pl) \<and>
    tb_holds b' pre tid (pl @ tlv_enc (nid, d))"
proof -
  obtain b1 d0 rest where b1: "tlv_new oom b nid (length d) = Some (b1, length pre + 4 + length pl)"
      "length d0 = length d" "tb_holds b1 pre tid (pl @ tlv_enc (nid, d0))"
      "tb_buf b1 = pre @ word_be 4 (tlv_hdr tid (length pl + 4 + pad4 (length d))) @ pl @ tlv_enc (nid, d0) @ rest"
    using tlv_new_holds [of b pre tid pl nid "length d" oom] h a fit by (auto simp: length_tlv_enc)
  define xs where "xs = pre @ word_be 4 (tlv_hdr tid (length pl + 4 + pad4 (length d))) @ pl @
    word_be 4 (tlv_hdr nid (length d))"
  define zs where "zs = replicate (pad4 (length d) - length d) 0 @ rest"
  have buf: "tb_buf b1 = xs @ d0 @ zs" using b1(2,4) by (simp add: xs_def zs_def tlv_enc_eq)
  have "memcpy_at (tb_buf b1) (tlv_data (length pre + 4 + length pl)) d 0 (length d) = Some (xs @ d @ zs)"
    unfolding buf by (subst memcpy_at_append) (simp_all add: tlv_data_def xs_def b1(2))
  moreover have "xs @ d @ zs = pre @ word_be 4 (tlv_hdr tid (length (pl @ tlv_enc (nid, d)))) @ (pl @ tlv_enc (nid, d)) @ rest"
    by (simp add: xs_def zs_def tlv_enc_eq add.assoc)
       (simp add: length_tlv_enc pad4_ge(1))
  moreover have "length (tlv_enc (nid, d)) = length (tlv_enc (nid, d0))" using b1(2) by (simp add: length_tlv_enc)
  ultimately show ?thesis
    using b1 by (auto simp: tlv_put_def tb_holds_def xs_def zs_def tlv_enc_eq)
qed

lemma tlv_buf_init_holds:
  assumes "length (tb_buf b) = tb_buflen b" "tb_buflen b mod 4 = 0" "tid < 0x10000" "\<And>n. \<not> oom n"
  shows "\<exists>b'. tlv_buf_init oom b tid = Some b' \<and> tb_holds b' [] tid []"
  using tlv_add_append [of "b\<lparr> tb_head := 0 \<rparr>" "[]" "tb_buf b" tid 0 oom] assms
  by (auto simp: tlv_buf_init_def tb_holds_def pad4_def)

section \<open>Lemmas: parsing\<close>

lemma tlv_at_append: "tlv_ok a \<Longrightarrow> tlv_at (pre @ tlv_enc a @ rest) (length pre) = Some a"
  using tlv_fields(1,2) [of "fst a" "length (snd a)" "length pre" pre]
  by (simp add: tlv_ok_def tlv_at_def tlv_enc_eq tlv_data_def unat_u32)

lemma tlv_for_each_enc:
  "list_all tlv_ok ts \<Longrightarrow>
   tlv_for_each_in_buf (pre @ tlvs_enc ts @ rest) (length pre + length (tlvs_enc ts)) (length pre) =
     Some (tlv_offsets (length pre) ts)"
proof (induction ts arbitrary: pre)
  case Nil
  then show ?case by (simp add: tlv_for_each_in_buf.simps)
next
  case (Cons a ts)
  then have a: "tlv_ok a" and IH: "tlv_for_each_in_buf ((pre @ tlv_enc a) @ tlvs_enc ts @ rest)
      (length (pre @ tlv_enc a) + length (tlvs_enc ts)) (length (pre @ tlv_enc a)) =
      Some (tlv_offsets (length (pre @ tlv_enc a)) ts)"
    using Cons.IH [of "pre @ tlv_enc a"] by simp_all
  let ?l = "length (snd a)"
  have f: "tlv_raw_len (pre @ tlv_enc a @ r) (length pre) = Some (of_nat (?l + 4))"
    "tlv_pad_len (pre @ tlv_enc a @ r) (length pre) = Some (of_nat (pad4 ?l + 4))" for r
    using tlv_fields(3,4) [of "fst a" ?l "length pre" pre] a
    by (simp_all add: tlv_ok_def tlv_enc_eq pad4_add4)
  have u: "unat (of_nat (?l + 4) :: u32) = ?l + 4" "unat (of_nat (pad4 ?l + 4) :: u32) = pad4 ?l + 4"
    using a pad4_ge(2) [of ?l] by (intro unat_u32; simp add: tlv_ok_def)+
  have "(of_nat (?l + 4) :: u32) \<ge> 4" unfolding word_le_nat_alt u by simp
  then show ?case
    using IH a f u pad4_ge(1) [of ?l]
    by (subst tlv_for_each_in_buf.simps) (simp add: length_tlv_enc add.assoc add.commute [of 4] del: of_nat_add)
qed

lemma tlvs_at_enc: "list_all tlv_ok ts \<Longrightarrow> tlvs_at (pre @ tlvs_enc ts @ rest) (tlv_offsets (length pre) ts) = Some ts"
proof (induction ts arbitrary: pre)
  case (Cons a ts)
  then show ?case using Cons.IH [of "pre @ tlv_enc a"] tlv_at_append [of a pre "tlvs_enc ts @ rest"] by simp
qed simp

lemma tlv_parse_enc:
  "list_all tlv_ok ts \<Longrightarrow> tlv_parse (pre @ tlvs_enc ts @ rest) (length pre) (length (tlvs_enc ts)) = Some ts"
  by (simp add: tlv_parse_def tlv_for_each_enc tlvs_at_enc)

lemma tlv_len_Some: "pos + 4 \<le> length buf \<Longrightarrow> \<exists>l. tlv_len buf pos = Some l"
  by (simp add: tlv_len_def ld_be32_def)

text \<open>The iteration over arbitrary bytes.\<close>

lemma tlv_for_each_safe:
  "e \<le> length buf \<Longrightarrow> \<exists>ps. tlv_for_each_in_buf buf e pos = Some ps \<and>
     (\<forall>p \<in> set ps. pos \<le> p \<and> (\<exists>l. tlv_len buf p = Some l \<and> p + 4 + unat l \<le> e)) \<and> sorted_wrt (<) ps"
proof (induction buf e pos rule: tlv_for_each_in_buf.induct)
  case (1 buf e pos)
  show ?case
  proof (cases "pos + 4 \<le> e")
    case True
    then obtain l where l: "tlv_len buf pos = Some l" using "1.prems" tlv_len_Some [of pos buf] by auto
    then have raw: "tlv_raw_len buf pos = Some (l + 4)" "unat (l + 4) = unat l + 4" using tlv_raw_len_eq by blast+
    obtain p where p: "tlv_pad_len buf pos = Some p" "unat p = pad4 (unat l + 4)" using tlv_pad_len_eq [OF l] by blast
    show ?thesis
    proof (cases "l + 4 \<ge> 4 \<and> pos + unat (l + 4) \<le> e")
      case T: True
      obtain ps where ps: "tlv_for_each_in_buf buf e (pos + unat p) = Some ps"
          "\<forall>q \<in> set ps. pos + unat p \<le> q \<and> (\<exists>l. tlv_len buf q = Some l \<and> q + 4 + unat l \<le> e)" "sorted_wrt (<) ps"
        using "1.IH" [OF True raw(1) T p(1) "1.prems"] by blast
      have "pos < pos + unat p" using p(2) pad4_ge(1) [of "unat l + 4"] by simp
      with ps True T raw p l show ?thesis
        by (subst tlv_for_each_in_buf.simps) (fastforce simp: add.assoc)
    next
      case False
      with True raw show ?thesis by (subst tlv_for_each_in_buf.simps) auto
    qed
  qed (simp add: tlv_for_each_in_buf.simps)
qed

lemma tlvs_at_safe:
  "e \<le> length buf \<Longrightarrow> \<forall>p \<in> set ps. \<exists>l. tlv_len buf p = Some l \<and> p + 4 + unat l \<le> e \<Longrightarrow>
   \<exists>ts. tlvs_at buf ps = Some ts \<and> length ts = length ps"
proof (induction ps)
  case (Cons p ps)
  then obtain l where l: "tlv_len buf p = Some l" "p + 4 + unat l \<le> e" by auto
  then obtain w where "ld_be32 buf p = Some w" by (auto simp: tlv_len_def bind_eq_Some_conv)
  with l Cons show ?case by (auto simp: tlv_at_def tlv_id_def tlv_data_def)
qed simp

section \<open>Lemmas: sorting\<close>

lemma take4_raw: "take 4 (tlv_raw a) = word_be 4 (tlv_hdr (fst a) (length (snd a)))"
  by (simp add: tlv_raw_def)

lemma word_be_inj:
  assumes "word_be 4 v = word_be 4 w"
  shows "v = (w :: u32)"
proof -
  have "be_word (word_be 4 v) = (be_word (word_be 4 w) :: u32)" by (simp only: assms)
  then show ?thesis by (simp only: be_word_hdr)
qed

lemma same_hdr_len:
  assumes "tlv_ok a" "tlv_ok b" "word_be 4 (tlv_hdr (fst a) (length (snd a))) = word_be 4 (tlv_hdr (fst b) (length (snd b)))"
  shows "length (snd a) = length (snd b)"
proof -
  have "(of_nat (length (snd a)) :: u32) = of_nat (length (snd b))"
    using word_be_inj [OF assms(3)] tlv_hdr_fields(2) [of "fst a" "length (snd a)"]
      tlv_hdr_fields(2) [of "fst b" "length (snd b)"] assms(1,2)
    by (simp add: tlv_ok_def)
  then have "unat (of_nat (length (snd a)) :: u32) = unat (of_nat (length (snd b)) :: u32)" by simp
  moreover have "length (snd a) < 0x100000000" "length (snd b) < 0x100000000" using assms(1,2) by (simp_all add: tlv_ok_def)
  ultimately show ?thesis by (simp only: unat_u32)
qed

lemma tlv_raw_length: "tlv_ok a \<Longrightarrow> tlv_ok b \<Longrightarrow> take 4 (tlv_raw a) = take 4 (tlv_raw b) \<Longrightarrow> length (tlv_raw a) = length (tlv_raw b)"
  using same_hdr_len [of a b] by (simp add: tlv_raw_def)

lemma bytes_cmp_hdr_0: "bytes_cmp (take 4 (tlv_raw a)) (take 4 (tlv_raw b)) = 0 \<longleftrightarrow> take 4 (tlv_raw a) = take 4 (tlv_raw b)"
  by (rule bytes_cmp_eq_0) (simp add: take4_raw)

interpretation tlv_order: comparator tlv_ok tlv_cmp
proof
  fix a b
  show "0 < tlv_cmp a b \<longleftrightarrow> tlv_cmp b a < 0"
    using bytes_cmp_antisym [of "take 4 (tlv_raw a)" "take 4 (tlv_raw b)"] bytes_cmp_antisym [of "tlv_raw a" "tlv_raw b"]
    by (auto simp: tlv_cmp_def Let_def)
next
  fix a b c
  assume ok: "tlv_ok a" "tlv_ok b" "tlv_ok c" and ab: "tlv_cmp a b \<le> 0" and bc: "tlv_cmp b c \<le> 0"
  have h: "bytes_cmp (take 4 (tlv_raw a)) (take 4 (tlv_raw b)) \<le> 0" "bytes_cmp (take 4 (tlv_raw b)) (take 4 (tlv_raw c)) \<le> 0"
    using ab bc by (auto simp: tlv_cmp_def Let_def split: if_splits)
  then have ac: "bytes_cmp (take 4 (tlv_raw a)) (take 4 (tlv_raw c)) \<le> 0"
    by (rule bytes_cmp_trans [rotated 2]) (simp_all add: take4_raw)
  show "tlv_cmp a c \<le> 0"
  proof (cases "take 4 (tlv_raw a) = take 4 (tlv_raw c)")
    case False
    then show ?thesis using ac bytes_cmp_hdr_0 [of a c] by (simp add: tlv_cmp_def Let_def)
  next
    case True
    then have "bytes_cmp (take 4 (tlv_raw a)) (take 4 (tlv_raw b)) = 0"
      using h bytes_cmp_antisym [of "take 4 (tlv_raw a)" "take 4 (tlv_raw b)"] by simp
    then have e: "take 4 (tlv_raw a) = take 4 (tlv_raw b)" by (simp add: bytes_cmp_hdr_0)
    then have f: "take 4 (tlv_raw b) = take 4 (tlv_raw c)" using True by simp
    have "bytes_cmp (tlv_raw a) (tlv_raw b) \<le> 0" using ab by (simp add: tlv_cmp_def e)
    moreover have "bytes_cmp (tlv_raw b) (tlv_raw c) \<le> 0" using bc by (simp add: tlv_cmp_def f)
    ultimately have "bytes_cmp (tlv_raw a) (tlv_raw c) \<le> 0"
      by (rule bytes_cmp_trans [OF tlv_raw_length [OF ok(1,2) e] tlv_raw_length [OF ok(2,3) f]])
    then show ?thesis using True by (simp add: tlv_cmp_def Let_def)
  qed
qed

lemma tlv_attr_cmp_eq:
  assumes "tlv_ok a" "tlv_ok b"
    and p: "tlv_len buf p = Some (of_nat (length (snd a)))" "take (length (tlv_raw a)) (drop p buf) = tlv_raw a" "p + length (tlv_raw a) \<le> length buf"
    and q: "take (length (tlv_raw b)) (drop q buf') = tlv_raw b" "q + length (tlv_raw b) \<le> length buf'"
  shows "tlv_attr_cmp (Some (buf, p)) (Some (buf', q)) = Some (tlv_cmp a b)"
proof -
  have l4: "4 \<le> length (tlv_raw a)" "4 \<le> length (tlv_raw b)" by (simp_all add: tlv_raw_def)
  have h: "take 4 (drop p buf) = take 4 (tlv_raw a)" "take 4 (drop q buf') = take 4 (tlv_raw b)"
    using p(2) q(1) l4 by (metis min.absorb1 take_take)+
  have m4: "memcmp buf p buf' q 4 = Some (bytes_cmp (take 4 (tlv_raw a)) (take 4 (tlv_raw b)))"
    using l4 p(3) q(2) by (simp add: memcmp_def h)
  show ?thesis
  proof (cases "bytes_cmp (take 4 (tlv_raw a)) (take 4 (tlv_raw b)) = 0")
    case False
    then show ?thesis using m4 by (simp add: tlv_attr_cmp_def tlv_cmp_def Let_def)
  next
    case True
    then have "take 4 (tlv_raw a) = take 4 (tlv_raw b)" by (simp add: bytes_cmp_hdr_0)
    then have len: "length (tlv_raw b) = length (tlv_raw a)" using tlv_raw_length [OF assms(1,2)] by simp
    have "unat (of_nat (length (snd a)) + 4 :: u32) = length (tlv_raw a)"
      using tlv_raw_len_eq [OF p(1)] assms(1) by (simp add: tlv_raw_def tlv_ok_def unat_u32)
    moreover have "tlv_raw_len buf p = Some (of_nat (length (snd a)) + 4)" using tlv_raw_len_eq [OF p(1)] by simp
    moreover have "memcmp buf p buf' q (length (tlv_raw a)) = Some (bytes_cmp (tlv_raw a) (tlv_raw b))"
      using p q len by (simp add: memcmp_def)
    ultimately show ?thesis using m4 True by (simp add: tlv_attr_cmp_def tlv_cmp_def)
  qed
qed

lemma tlv_cmp_eq_0:
  assumes "tlv_ok a" "tlv_ok b"
  shows "tlv_cmp a b = 0 \<longleftrightarrow> a = b"
proof
  assume z: "tlv_cmp a b = 0"
  then have h: "take 4 (tlv_raw a) = take 4 (tlv_raw b)"
    using bytes_cmp_hdr_0 [of a b] by (auto simp: tlv_cmp_def Let_def split: if_splits)
  have "tlv_raw a = tlv_raw b"
    using z h bytes_cmp_eq_0 [OF tlv_raw_length [OF assms h]] by (simp add: tlv_cmp_def)
  moreover have "tlv_hdr (fst a) (length (snd a)) = tlv_hdr (fst b) (length (snd b))"
    using h unfolding take4_raw by (rule word_be_inj)
  then have "fst a = fst b"
    using tlv_hdr_fields(1) [of "fst a" "length (snd a)"] tlv_hdr_fields(1) [of "fst b" "length (snd b)"] assms
    by (simp add: tlv_ok_def)
  ultimately show "a = b" using h by (simp add: tlv_raw_def prod_eq_iff)
qed (simp add: tlv_cmp_def)

lemma tlv_here_append: "tlv_ok a \<Longrightarrow> tlv_here (pre @ tlv_enc a @ rest) (length pre) a"
  using tlv_fields(2) [of "fst a" "length (snd a)" "length pre" pre] by (simp add: tlv_here_def tlv_ok_def tlv_enc_eq)

lemma tlv_here_raw: "tlv_here buf p a \<Longrightarrow> take (length (tlv_raw a)) (drop p buf) = tlv_raw a \<and> p + length (tlv_raw a) \<le> length buf"
proof -
  assume h: "tlv_here buf p a"
  have l: "length (tlv_raw a) \<le> length (tlv_enc a)" by (simp add: tlv_enc_def)
  have "take (length (tlv_raw a)) (drop p buf) = take (length (tlv_raw a)) (take (length (tlv_enc a)) (drop p buf))"
    using l by (simp add: min_def)
  also have "take (length (tlv_enc a)) (drop p buf) = tlv_enc a" using h by (simp add: tlv_here_def)
  also have "take (length (tlv_raw a)) (tlv_enc a) = tlv_raw a" by (simp add: tlv_enc_def)
  finally show ?thesis using h l by (simp add: tlv_here_def)
qed

lemma tlv_here_attr_cmp:
  assumes "tlv_here buf p a" "tlv_here buf' q b"
  shows "tlv_attr_cmp (Some (buf, p)) (Some (buf', q)) = Some (tlv_cmp a b)"
  by (rule tlv_attr_cmp_eq) (use assms tlv_here_raw [OF assms(1)] tlv_here_raw [OF assms(2)] in \<open>simp_all add: tlv_here_def\<close>)

lemma tlv_here_cmp:
  assumes "tlv_here buf p a" "tlv_here buf q b"
  shows "qsort_tlv_cmp buf p q = Some (tlv_cmp a b)"
  unfolding qsort_tlv_cmp_def by (rule tlv_here_attr_cmp [OF assms])

lemma tlv_here_pad_len:
  assumes "tlv_here buf p a"
  shows "\<exists>l. tlv_pad_len buf p = Some l \<and> unat l = length (tlv_enc a)"
proof -
  have h: "tlv_len buf p = Some (of_nat (length (snd a)))" "length (snd a) < 0x100000000"
    using assms by (simp_all add: tlv_here_def tlv_ok_def)
  obtain l where "tlv_pad_len buf p = Some l" "unat l = pad4 (unat (of_nat (length (snd a)) :: u32) + 4)"
    using tlv_pad_len_eq [OF h(1)] by blast
  then have "tlv_pad_len buf p = Some l" "unat l = length (tlv_enc a)"
    by (simp_all only: unat_u32 [OF h(2)] length_tlv_enc pad4_add4 add.commute)
  then show ?thesis by blast
qed

lemma tlv_offsets_here: "list_all tlv_ok ts \<Longrightarrow> list_all2 (tlv_here (pre @ tlvs_enc ts @ rest)) (tlv_offsets (length pre) ts) ts"
proof (induction ts arbitrary: pre)
  case (Cons a ts)
  then show ?case
    using tlv_here_append [of a pre "tlvs_enc ts @ rest"] Cons.IH [of "pre @ tlv_enc a"] by simp
qed simp

lemma tlv_sort_copy_eq:
  assumes "list_all2 (tlv_here data) al us" "length done = t" "t + length (tlvs_enc us) \<le> length tmp" "take t tmp = done"
  shows "\<exists>r. tlv_sort_copy data tmp t al = Some (done @ tlvs_enc us @ r, t + length (tlvs_enc us)) \<and>
    length (done @ tlvs_enc us @ r) = length tmp"
  using assms
proof (induction al us arbitrary: tmp t "done" rule: list_all2_induct)
  case Nil
  then show ?case using append_take_drop_id [of t tmp] by (intro exI [of _ "drop t tmp"]) simp
next
  case (Cons p al a us)
  obtain l where l: "tlv_pad_len data p = Some l" "unat l = length (tlv_enc a)"
    using tlv_here_pad_len [OF Cons.hyps(1)] by blast
  define tmp' where "tmp' = take t tmp @ tlv_enc a @ drop (t + length (tlv_enc a)) tmp"
  have m: "memcpy_at tmp t data p (unat l) = Some tmp'"
    using Cons.hyps(1) Cons.prems l(2) by (simp add: memcpy_at_def tlv_here_def tmp'_def)
  have "length tmp' = length tmp" using Cons.prems by (simp add: tmp'_def)
  moreover have "take (t + length (tlv_enc a)) tmp' = done @ tlv_enc a"
    using Cons.prems by (simp add: tmp'_def)
  ultimately show ?case
    using Cons.IH [of "done @ tlv_enc a" "t + length (tlv_enc a)" tmp'] Cons.prems l m by (simp add: add.assoc)
qed

lemma tlv_here_at: "tlv_here buf p a \<Longrightarrow> tlv_at buf p = Some a"
proof -
  assume h: "tlv_here buf p a"
  then have e: "buf = take p buf @ tlv_enc a @ drop (p + length (tlv_enc a)) buf"
    unfolding tlv_here_def by (metis append_take_drop_id drop_drop add.commute)
  have "length (take p buf) = p" using h by (simp add: tlv_here_def)
  with e show ?thesis using tlv_at_append [of a "take p buf"] h unfolding tlv_here_def by metis
qed

lemma tlv_here_map:
  "list_all2 (tlv_here buf) al ts \<Longrightarrow>
   (\<forall>p \<in> set al. tlv_here buf p (the (tlv_at buf p))) \<and> map (\<lambda>p. the (tlv_at buf p)) al = ts"
  by (induction rule: list_all2_induct) (auto simp: tlv_here_at)

lemma tlv_sort_enc:
  assumes ok: "list_all tlv_ok ts"
  shows "\<exists>us. tlv_sort (pre @ tlvs_enc ts @ rest) (length pre) (length (tlvs_enc ts)) = Some (pre @ tlvs_enc us @ rest, True) \<and>
    mset us = mset ts \<and> sorted_wrt (\<lambda>a b. tlv_cmp a b \<le> 0) us"
proof -
  let ?buf = "pre @ tlvs_enc ts @ rest" and ?al = "tlv_offsets (length pre) ts"
  define f where "f p = the (tlv_at ?buf p)" for p
  have here: "list_all2 (tlv_here ?buf) ?al ts" by (rule tlv_offsets_here [OF ok])
  then have f: "\<forall>p \<in> set ?al. tlv_here ?buf p (f p)" and map: "map f ?al = ts"
    using tlv_here_map [of ?buf ?al ts] unfolding f_def by auto
  have each: "tlv_for_each_in_buf ?buf (length pre + length (tlvs_enc ts)) (length pre) = Some ?al"
    by (rule tlv_for_each_enc [OF ok])
  have la: "length ?al = length ts" using map length_map by metis
  show ?thesis
  proof (cases "length ts \<le> 1")
    case True
    then have "sorted_wrt (\<lambda>a b. tlv_cmp a b \<le> 0) ts" by (cases ts) auto
    with True each la show ?thesis by (intro exI [of _ ts]) (simp add: tlv_sort_def)
  next
    case False
    have "\<forall>p \<in> set ?al. tlv_ok (f p)" using f by (simp add: tlv_here_def)
    moreover have "\<forall>p \<in> set ?al. \<forall>q \<in> set ?al. qsort_tlv_cmp ?buf p q = Some (tlv_cmp (f p) (f q))"
      using f tlv_here_cmp by blast
    ultimately obtain ys where ys: "qsort (qsort_tlv_cmp ?buf) ?al = Some ys" "mset ys = mset ?al"
        "sorted_wrt (\<lambda>p q. tlv_cmp (f p) (f q) \<le> 0) ys"
      using tlv_order.qsort_sorts [of ?al f "qsort_tlv_cmp ?buf"] by blast
    define us where "us = map f ys"
    have us: "mset us = mset ts" unfolding us_def using ys(2) map by (metis mset_map)
    have "length (tlvs_enc us) = length (tlvs_enc ts)"
    proof -
      have "length (tlvs_enc xs) = sum_mset (image_mset (length \<circ> tlv_enc) (mset xs))" for xs
        by (induction xs) simp_all
      then show ?thesis using us by simp
    qed
    moreover have "list_all2 (tlv_here ?buf) ys us"
      using f ys(2) unfolding us_def by (auto simp: list_all2_map2 list_all2_same dest: mset_eq_setD)
    ultimately have "tlv_sort_copy ?buf (replicate (length (tlvs_enc ts)) 0) 0 ys = Some (tlvs_enc us, length (tlvs_enc ts))"
      using tlv_sort_copy_eq [of ?buf ys us "[]" 0 "replicate (length (tlvs_enc ts)) 0"] by auto
    moreover have "memcpy_at ?buf (length pre) (tlvs_enc us) 0 (length (tlvs_enc ts)) = Some (pre @ tlvs_enc us @ rest)"
      using memcpy_at_append [of "length pre" pre "tlvs_enc ts"] \<open>length (tlvs_enc us) = _\<close> by simp
    moreover have "sorted_wrt (\<lambda>a b. tlv_cmp a b \<le> 0) us"
      using ys(3) by (simp add: us_def sorted_wrt_map)
    ultimately show ?thesis
      using us ys(1) each la False by (intro exI [of _ us]) (simp add: tlv_sort_def)
  qed
qed

lemma tlv_put_raw_aligned:
  assumes h: "tb_holds b pre tid pl" and a: "length src mod 4 = 0" "4 \<le> length src" "\<And>n. \<not> oom n"
    and fit: "length pl + length src < 0x10000"
  shows "\<exists>b'. tlv_put_raw oom b (Some src) (length src) = Some (b', Some (length pre + 4 + length pl)) \<and>
    tb_holds b' pre tid (pl @ src)"
proof -
  define n where "n = length src - 4"
  have n: "length src = n + 4" "n mod 4 = 0" "n < 0x10000" "pad4 n = n"
    using a(1,2) fit pad4_aligned [of n] by (auto simp: n_def mod_if)
  define xs where "xs = pre @ word_be 4 (tlv_hdr tid (length pl)) @ pl"
  have hd: "tb_head b = length pre" "length pre mod 4 = 0" "length pl mod 4 = 0" "length pl < 0x10000" "tid < 0x10000"
    using h by (auto simp: tb_holds_def)
  obtain rest0 where "tb_buf b = xs @ rest0" using h by (auto simp: tb_holds_def xs_def)
  moreover have xl: "length xs mod 4 = 0" "length xs = length pre + 4 + length pl"
    using hd aligned_sum [of "length pre + length pl" 4] aligned_sum [of "length pre" "length pl"] by (simp_all add: xs_def add.commute add.left_commute)
  ultimately obtain b1 d rest where b1: "tlv_add oom b (length xs) 0 n = Some (b1, length xs)"
      "tb_head b1 = tb_head b" "length (tb_buf b1) = tb_buflen b1" "tb_buflen b1 mod 4 = 0" "length d = n"
      "tb_buf b1 = xs @ word_be 4 (tlv_hdr 0 n) @ d @ rest"
    using tlv_add_append [of b xs rest0 0 n oom] h a n by (auto simp: tb_holds_def)
  have l1: "tlv_pad_len (tb_buf b1) (tb_head b1) = Some (of_nat (length pl + 4))"
    using tlv_fields(4) [of tid "length pl" "tb_head b1" pre] hd b1(2,6) pad4_aligned [OF hd(3)]
    by (simp add: xs_def pad4_add4 del: of_nat_add)
  have l2: "(of_nat (length pl + 4) + of_nat (n + 4) :: u32) = of_nat ((length pl + (n + 4)) + 4)" by simp
  define ys where "ys = pre @ word_be 4 (tlv_hdr tid (length pl + (n + 4))) @ pl"
  have set: "tlv_set_raw_len (tb_buf b1) (tb_head b1) (of_nat ((length pl + (n + 4)) + 4)) =
      Some (ys @ (word_be 4 (tlv_hdr 0 n) @ d) @ rest)"
    using tlv_set_raw_len_append [of tid "length pl" "length pl + (n + 4)" "tb_head b1" pre] hd fit b1 n
    by (simp add: xs_def ys_def del: of_nat_add)
  have "memcpy_at (ys @ (word_be 4 (tlv_hdr 0 n) @ d) @ rest) (length xs) src 0 (n + 4) = Some (ys @ src @ rest)"
    by (subst memcpy_at_append) (simp_all add: ys_def xs_def b1(5) n(1))
  then have put: "tlv_put_raw oom b (Some src) (length src) =
      Some (b1\<lparr> tb_buf := ys @ src @ rest \<rparr>, Some (length pre + 4 + length pl))"
    using b1(1) xl(2) l1 set tb_holds_next [OF h] n by (simp add: tlv_put_raw_def l2 del: of_nat_add)
  have "tb_holds (b1\<lparr> tb_buf := ys @ src @ rest \<rparr>) pre tid (pl @ src)"
    using b1 hd fit n aligned_sum [OF hd(3) a(1)]
    by (simp add: tb_holds_def ys_def xs_def)
  with put show ?thesis by blast
qed

lemma tlv_put_raw_holds:
  assumes h: "tb_holds b pre tid pl" and a: "tlv_ok a" "\<And>n. \<not> oom n"
    and fit: "length pl + length (tlv_enc a) < 0x10000"
  shows "\<exists>b'. tlv_put_raw oom b (Some (tlv_enc a)) (length (tlv_enc a)) = Some (b', Some (length pre + 4 + length pl)) \<and>
    tb_holds b' pre tid (pl @ tlv_enc a)"
  using tlv_put_raw_aligned [OF h length_tlv_enc_mod _ a(2) fit] by (simp add: length_tlv_enc)

section \<open>Properties\<close>

text \<open>A sequence of \<open>tlv_put\<close> calls.\<close>

fun tlv_put_all :: "(nat \<Rightarrow> bool) \<Rightarrow> tlv_buf \<Rightarrow> tlv list \<Rightarrow> tlv_buf option" where
  "tlv_put_all oom b [] = Some b"
| "tlv_put_all oom b ((tid, d) # ts) =
     do { (b, attr) \<leftarrow> tlv_put oom b tid (Some d) (length d); tlv_put_all oom b ts }"

lemma tlv_put_all_holds:
  assumes "tb_holds b pre tid pl" "list_all tlv_ok ts" "\<And>n. \<not> oom n" "length pl + length (tlvs_enc ts) < 0x10000"
  shows "\<exists>b'. tlv_put_all oom b ts = Some b' \<and> tb_holds b' pre tid (pl @ tlvs_enc ts)"
  using assms
proof (induction ts arbitrary: b pl)
  case (Cons a ts)
  obtain i d where a: "a = (i, d)" by (cases a)
  obtain b1 where b1: "tlv_put oom b i (Some d) (length d) = Some (b1, length pre + 4 + length pl)"
      "tb_holds b1 pre tid (pl @ tlv_enc a)"
    using tlv_put_holds [of b pre tid pl i d oom] Cons.prems by (auto simp: a tlv_ok_def)
  obtain b' where "tlv_put_all oom b1 ts = Some b'" "tb_holds b' pre tid ((pl @ tlv_enc a) @ tlvs_enc ts)"
    using Cons.IH [OF b1(2) _ Cons.prems(3)] Cons.prems(2,4) by auto
  then show ?case by (simp add: a b1(1))
qed auto

text \<open>C22: What is put into an attribute buffer is what the iteration over it finds: starting from an
  empty \<open>tlv_buf\<close>, for every sequence of attributes whose encoding fits the 16 bit length of the root
  attribute, the puts stay inside the growing buffer and \<open>tlv_for_each_attr\<close> on the root then visits
  exactly these attributes, in order, with their types and payloads.\<close>

theorem tlv_put_then_iterate:
  assumes "list_all tlv_ok ts" "length (tlvs_enc ts) < 0x10000" "tid < 0x10000" "\<And>n. \<not> oom n"
  shows "\<exists>b0 b ps. tlv_buf_init oom \<lparr> tb_head = 0, tb_buflen = 0, tb_buf = [] \<rparr> tid = Some b0 \<and>
    tlv_put_all oom b0 ts = Some b \<and> tlv_id (tb_buf b) (tb_head b) = Some tid \<and>
    tlv_for_each_attr (tb_buf b) (tb_head b) = Some ps \<and> tlvs_at (tb_buf b) ps = Some ts"
proof -
  obtain b0 where b0: "tlv_buf_init oom \<lparr> tb_head = 0, tb_buflen = 0, tb_buf = [] \<rparr> tid = Some b0" "tb_holds b0 [] tid []"
    using tlv_buf_init_holds [of "\<lparr> tb_head = 0, tb_buflen = 0, tb_buf = [] \<rparr>" tid oom] assms by auto
  obtain b where b: "tlv_put_all oom b0 ts = Some b" "tb_holds b [] tid (tlvs_enc ts)"
    using tlv_put_all_holds [OF b0(2) assms(1)] assms by auto
  obtain rest where buf: "tb_head b = 0" "tb_buf b = word_be 4 (tlv_hdr tid (length (tlvs_enc ts))) @ tlvs_enc ts @ rest"
    using b(2) by (auto simp: tb_holds_def)
  let ?h = "word_be 4 (tlv_hdr tid (length (tlvs_enc ts)))"
  have "tlv_for_each_attr (tb_buf b) (tb_head b) = Some (tlv_offsets 4 ts)"
    using tlv_for_each_enc [OF assms(1), of ?h rest] tlv_fields(2) [of tid "length (tlvs_enc ts)" 0 "[]"] assms(2,3)
    by (simp add: tlv_for_each_attr_def buf tlv_data_def unat_u32)
  moreover have "tlvs_at (tb_buf b) (tlv_offsets 4 ts) = Some ts"
    using tlvs_at_enc [OF assms(1), of ?h rest] by (simp add: buf)
  moreover have "tlv_id (tb_buf b) (tb_head b) = Some tid"
    using tlv_fields(1) [of tid "length (tlvs_enc ts)" 0 "[]"] assms(2,3) by (simp add: buf)
  ultimately show ?thesis using b0 b by blast
qed

theorem tlv_put_then_iterate_witness:
  "\<exists>b0 b ps. tlv_buf_init (\<lambda>_. False) \<lparr> tb_head = 0, tb_buflen = 0, tb_buf = [] \<rparr> 7 = Some b0 \<and>
    tlv_put_all (\<lambda>_. False) b0 [(2, [1, 2, 3]), (65535, [])] = Some b \<and> tlv_id (tb_buf b) (tb_head b) = Some 7 \<and>
    tlv_for_each_attr (tb_buf b) (tb_head b) = Some ps \<and> tlvs_at (tb_buf b) ps = Some [(2, [1, 2, 3]), (65535, [])]"
  by (rule tlv_put_then_iterate) (simp_all add: tlv_ok_def length_tlv_enc pad4_def)

text \<open>C24: The iteration over untrusted bytes is safe: for any contents of the buffer and any range inside
  it, \<open>tlv_for_each_in_buf\<close> ends, reads only the range, and every attribute it visits lies in the range
  with its header and its whole payload, at strictly increasing positions.\<close>

theorem tlv_iteration_safe:
  assumes "base + len \<le> length buf"
  shows "\<exists>ps ts. tlv_for_each_in_buf buf (base + len) base = Some ps \<and> sorted_wrt (<) ps \<and>
    (\<forall>p \<in> set ps. base \<le> p \<and> (\<exists>l. tlv_len buf p = Some l \<and> p + 4 + unat l \<le> base + len)) \<and>
    tlvs_at buf ps = Some ts \<and> length ts = length ps"
proof -
  obtain ps where ps: "tlv_for_each_in_buf buf (base + len) base = Some ps" "sorted_wrt (<) ps"
      "\<forall>p \<in> set ps. base \<le> p \<and> (\<exists>l. tlv_len buf p = Some l \<and> p + 4 + unat l \<le> base + len)"
    using tlv_for_each_safe [OF assms, of base] by blast
  moreover obtain ts where "tlvs_at buf ps = Some ts" "length ts = length ps"
    using tlvs_at_safe [OF assms, of ps] ps(3) by blast
  ultimately show ?thesis by blast
qed

theorem tlv_iteration_safe_witness:
  "\<exists>ps ts. tlv_for_each_in_buf [0, 1, 0, 2, 9, 9, 7, 7, 0xff, 0xff, 0xff, 0xff] (0 + 12) 0 = Some ps \<and> sorted_wrt (<) ps \<and>
    (\<forall>p \<in> set ps. 0 \<le> p \<and> (\<exists>l. tlv_len [0, 1, 0, 2, 9, 9, 7, 7, 0xff, 0xff, 0xff, 0xff] p = Some l \<and> p + 4 + unat l \<le> 0 + 12)) \<and>
    tlvs_at [0, 1, 0, 2, 9, 9, 7, 7, 0xff, 0xff, 0xff, 0xff] ps = Some ts \<and> length ts = length ps"
  by (rule tlv_iteration_safe) simp

text \<open>C32: \<open>tlv_sort\<close> on the encoding of a sequence of attributes succeeds, stays inside its buffers, and
  leaves in their place the encoding of a permutation of them that is ordered by \<open>tlv_attr_cmp\<close>.\<close>

theorem tlv_sort_correct:
  assumes "list_all tlv_ok ts"
  shows "\<exists>us. tlv_sort (pre @ tlvs_enc ts @ rest) (length pre) (length (tlvs_enc ts)) = Some (pre @ tlvs_enc us @ rest, True) \<and>
    mset us = mset ts \<and> sorted_wrt (\<lambda>a b. tlv_cmp a b \<le> 0) us"
  by (rule tlv_sort_enc [OF assms])

theorem tlv_sort_correct_witness:
  "\<exists>us. tlv_sort ([9] @ tlvs_enc [(5, [1]), (3, [8, 8]), (5, [0])] @ [4]) (length [9 :: u8]) (length (tlvs_enc [(5, [1]), (3, [8, 8]), (5, [0])])) =
      Some ([9] @ tlvs_enc us @ [4], True) \<and>
    mset us = mset [(5, [1]), (3, [8, 8]), (5, [0])] \<and> sorted_wrt (\<lambda>a b. tlv_cmp a b \<le> 0) us"
  by (rule tlv_sort_correct) (simp add: tlv_ok_def)

text \<open>
  An unpadded last attribute that is not the last one after sorting makes the copies leave the
  temporary buffer: a range of nine bytes with a four byte and a five byte attribute.
\<close>

lemma tlv_sort_overruns: "tlv_sort [0, 1, 0, 0, 0, 0, 0, 1, 7] 0 9 = None"
  by code_simp

end
