(* ===== verification/Btrie.thy ===== *)
theory Btrie
  imports BitStrings "HOL-Library.Sublist" "HOL-Library.Multiset"
begin

unbundle bit_operations_syntax

text \<open>
  The compressed binary trie (\<open>btrie.c\<close>, \<open>btrie.h\<close>) with 32 bit blocks.  A trie is a tree of nodes;
  a null child is \<open>Null\<close>.  A node pointer is the path of child indices from the root, so the parent
  of a node is the path without its last step.  \<open>elements\<close> is the list of elements a node holds;
  a \<open>btrie_element\<close> pointer into it is a cursor: the path and the number of elements of the node
  before the next one (0 for the list head, \<open>i + 1\<close> for its \<open>i\<close>-th element).  Keys are byte buffers in
  network order, read by 32 bit big-endian loads; a load outside the key is \<open>None\<close>.  The argument
  \<open>mem\<close> of an insertion is the number of allocations that succeed during it.
\<close>

section \<open>Nodes\<close>

datatype 'a btrie =
    Null
  | Node (elements: "'a list") (bplen: nat) (bkey: u32) (child0: "'a btrie") (child1: "'a btrie")

type_synonym path = "bool list"

definition child :: "bool \<Rightarrow> 'a btrie \<Rightarrow> 'a btrie" where
  "child d t = (case t of Null \<Rightarrow> Null | Node es n k c0 c1 \<Rightarrow> if d then c1 else c0)"

fun node_at :: "'a btrie \<Rightarrow> path \<Rightarrow> 'a btrie" where
  "node_at t [] = t"
| "node_at t (d # p) = node_at (child d t) p"

definition set_child :: "bool \<Rightarrow> 'a btrie \<Rightarrow> 'a btrie \<Rightarrow> 'a btrie" where
  "set_child d c t =
     (case t of Null \<Rightarrow> Null | Node es n k c0 c1 \<Rightarrow> if d then Node es n k c0 c else Node es n k c c1)"

fun set_at :: "'a btrie \<Rightarrow> path \<Rightarrow> 'a btrie \<Rightarrow> 'a btrie" where
  "set_at t [] s = s"
| "set_at t (d # p) s = set_child d (set_at (child d t) p s) t"

definition set_elements :: "'a list \<Rightarrow> 'a btrie \<Rightarrow> 'a btrie" where
  "set_elements es t = (case t of Null \<Rightarrow> Null | Node _ n k c0 c1 \<Rightarrow> Node es n k c0 c1)"

definition index :: "nat \<Rightarrow> nat" where "index i = i div 32"

definition remain :: "nat \<Rightarrow> nat" where "remain i = i mod 32"

definition nthbit :: "u32 \<Rightarrow> nat \<Rightarrow> bool" where
  "nthbit k i \<longleftrightarrow> k AND drop_bit i 0x80000000 \<noteq> 0"

definition kmask :: "nat \<Rightarrow> u32" where
  "kmask len = (let i = 31 - len in push_bit i (drop_bit i 0xffffffff))"

text \<open>\<open>ntohk(key[i])\<close>\<close>

definition keyword :: "bytes \<Rightarrow> nat \<Rightarrow> u32 option" where
  "keyword key i = ld_be32 key (4 * i)"

definition btrie_init :: "'a btrie" where
  "btrie_init = Node [] 0 0 Null Null"

definition btrie_empty :: "'a btrie \<Rightarrow> bool" where
  "btrie_empty root \<longleftrightarrow> elements root = [] \<and> child0 root = Null \<and> child0 root = Null"

section \<open>Lookup\<close>

text \<open>The test at the head of the loop of \<open>btrie_node_lookup\<close>: the node covers the key.\<close>

definition node_matches :: "nat \<Rightarrow> u32 \<Rightarrow> bytes \<Rightarrow> nat \<Rightarrow> bool option" where
  "node_matches n k key pl =
     (if \<not> n \<le> pl then Some False
      else if n = 0 then Some True
      else do { w \<leftarrow> keyword key (index (n - 1));
                Some ((w XOR k) AND kmask (remain (n - 1)) = 0) })"

definition keybit :: "bytes \<Rightarrow> nat \<Rightarrow> bool option" where
  "keybit key i = do { w \<leftarrow> keyword key (index i); Some (nthbit w (remain i)) }"

text \<open>
  \<open>btrie_node_lookup\<close> from a node: \<open>Some (Some p)\<close> is the node at the path \<open>p\<close> below it,
  \<open>Some None\<close> its parent.
\<close>

fun node_lookup :: "'a btrie \<Rightarrow> bytes \<Rightarrow> nat \<Rightarrow> path option option" where
  "node_lookup Null key pl = None"
| "node_lookup (Node es n k c0 c1) key pl =
     do { m \<leftarrow> node_matches n k key pl;
          if \<not> m then Some None
          else if n = pl then Some (Some [])
          else do {
            b \<leftarrow> keybit key n;
            if b
            then (if c1 \<noteq> Null
                  then do { r \<leftarrow> node_lookup c1 key pl;
                            Some (case r of None \<Rightarrow> Some [] | Some p \<Rightarrow> Some (True # p)) }
                  else Some (Some []))
            else (if c0 \<noteq> Null
                  then do { r \<leftarrow> node_lookup c0 key pl;
                            Some (case r of None \<Rightarrow> Some [] | Some p \<Rightarrow> Some (False # p)) }
                  else Some (Some [])) } }"

definition btrie_node_lookup :: "'a btrie \<Rightarrow> bytes \<Rightarrow> nat \<Rightarrow> path option" where
  "btrie_node_lookup root key pl =
     do { r \<leftarrow> node_lookup root key pl; (case r of None \<Rightarrow> None | Some p \<Rightarrow> Some p) }"

section \<open>Insertion and deletion\<close>

function btrie_delete_maybe :: "'a btrie \<Rightarrow> path \<Rightarrow> 'a btrie" where
  "btrie_delete_maybe t p =
     (case node_at t p of
        Null \<Rightarrow> t
      | Node es n k c0 c1 \<Rightarrow>
          if es = [] \<and> p \<noteq> [] \<and> (c0 = Null \<or> c1 = Null)
          then (let obj = (if c0 \<noteq> Null then c0 else c1)
                in if obj \<noteq> Null \<and> remain n = 0 then t
                   else (let t = set_at t p obj
                         in if obj \<noteq> Null then t else btrie_delete_maybe t (butlast p)))
          else t)"
  by pat_completeness auto
termination
  by (relation "measure (\<lambda>(t, p). length p)") auto

text \<open>
  \<open>btrie_add_leaf\<close> below a node of length \<open>parent_plen\<close>: the chain of new nodes as a subtree and the
  path from its top to the node of the key; \<open>Inl\<close> is the chain built when an allocation failed and
  the path to the empty slot below it.
\<close>

function btrie_add_leaf ::
  "nat \<Rightarrow> nat \<Rightarrow> bytes \<Rightarrow> nat \<Rightarrow> (('a btrie \<times> path) + ('a btrie \<times> path)) option" where
  "btrie_add_leaf mem parent_plen key pl =
     (case mem of
        0 \<Rightarrow> Some (Inl (Null, []))
      | Suc mem \<Rightarrow>
          (let next_i = index parent_plen;
               idx = index (pl - 1)
           in case keyword key next_i of
                None \<Rightarrow> None
              | Some w \<Rightarrow>
                  if idx = next_i then Some (Inr (Node [] pl w Null Null, []))
                  else (let n = (next_i + 1) * 32
                        in case keyword key (next_i + 1) of
                             None \<Rightarrow> None
                           | Some w1 \<Rightarrow>
                               (let b = (w1 AND 0x80000000 \<noteq> 0)
                                in case btrie_add_leaf mem n key pl of
                                     None \<Rightarrow> None
                                   | Some (Inl (c, p)) \<Rightarrow>
                                       Some (Inl (set_child b c (Node [] n w Null Null), b # p))
                                   | Some (Inr (c, p)) \<Rightarrow>
                                       Some (Inr (set_child b c (Node [] n w Null Null), b # p))))))"
  by pat_completeness auto
termination
  by (relation "measure (\<lambda>(mem, parent_plen, key, pl). mem)") auto

function longest_match_loop :: "u32 \<Rightarrow> u32 \<Rightarrow> u32 \<Rightarrow> nat \<Rightarrow> nat" where
  "longest_match_loop diff no_mask no_maxmask match_len =
     (if no_mask \<noteq> no_maxmask
      then (let no_mask = drop_bit 1 no_mask
            in if no_mask \<noteq> 0 \<and> diff AND NOT no_mask = 0
               then longest_match_loop diff no_mask no_maxmask (match_len + 1)
               else match_len)
      else match_len)"
  by pat_completeness auto
termination
proof (relation "measure (\<lambda>(diff, no_mask, no_maxmask, match_len). unat no_mask)")
  fix diff no_mask no_maxmask :: u32 and match_len :: nat and nm
  assume nm: "nm = drop_bit 1 no_mask" "nm \<noteq> 0 \<and> diff AND NOT nm = 0"
  then have "no_mask \<noteq> 0" by auto
  then have "unat no_mask \<noteq> 0" by (simp add: unsigned_eq_0_iff)
  then show "((diff, nm, no_maxmask, match_len + 1), (diff, no_mask, no_maxmask, match_len))
      \<in> measure (\<lambda>(diff, no_mask, no_maxmask, match_len). unat no_mask)"
    using unat_drop [of 1 no_mask] by (simp add: nm(1))
qed simp

definition btrie_longest_match_node :: "nat \<Rightarrow> u32 \<Rightarrow> bytes \<Rightarrow> nat \<Rightarrow> nat \<Rightarrow> nat option" where
  "btrie_longest_match_node n k key pl min_match =
     (let max_match = (if pl < n then pl else n);
          no_mask = NOT (kmask (remain (min_match - 1)));
          no_maxmask = NOT (kmask (remain (max_match - 1)))
      in do { w \<leftarrow> keyword key (index (min_match - 1));
              Some (longest_match_loop (w XOR k) no_mask no_maxmask min_match) })"

text \<open>
  The results of the functions that add a node: \<open>Inr\<close> is the new subtree and the path to the node in
  it; \<open>Inl\<close> is the subtree left by a failed allocation and the path at which \<open>btrie_delete_maybe\<close> is
  then called (\<open>None\<close> when it is not called).
\<close>

definition failed_at :: "bool \<Rightarrow> 'a btrie \<times> path \<Rightarrow> 'a btrie \<Rightarrow> 'a btrie \<times> path option" where
  "failed_at d r node =
     (case r of (c, p) \<Rightarrow> (set_child d c node, Some (if c = Null then [] else d # butlast p)))"

definition btrie_solve_conflict ::
  "nat \<Rightarrow> 'a btrie \<Rightarrow> bytes \<Rightarrow> nat \<Rightarrow> nat \<Rightarrow> (('a btrie \<times> path option) + ('a btrie \<times> path)) option" where
  "btrie_solve_conflict mem current key pl min_match =
     do { match_len \<leftarrow> btrie_longest_match_node (bplen current) (bkey current) key pl min_match;
          (case mem of
             0 \<Rightarrow> Some (Inl (current, None))
           | Suc mem \<Rightarrow>
               do { w \<leftarrow> keyword key (index (match_len - 1));
                    let d = nthbit (bkey current) (remain match_len);
                    let node = set_child d current (Node [] match_len w Null Null);
                    if match_len = pl then Some (Inr (node, []))
                    else do {
                      r \<leftarrow> btrie_add_leaf mem match_len key pl;
                      (case r of
                         Inl f \<Rightarrow> Some (Inl (failed_at (\<not> d) f node))
                       | Inr (c, p) \<Rightarrow> Some (Inr (set_child (\<not> d) c node, (\<not> d) # p))) } }) }"

definition btrie_node_add ::
  "nat \<Rightarrow> 'a btrie \<Rightarrow> bytes \<Rightarrow> nat \<Rightarrow> (('a btrie \<times> path option) + ('a btrie \<times> path)) option" where
  "btrie_node_add mem n key pl =
     do { b \<leftarrow> keybit key (bplen n);
          let next = child b n;
          if next \<noteq> Null
          then do { r \<leftarrow> btrie_solve_conflict mem next key pl (bplen n + 1);
                    (case r of
                       Inl (c, p) \<Rightarrow> Some (Inl (set_child b c n, map_option ((#) b) p))
                     | Inr (c, p) \<Rightarrow> Some (Inr (set_child b c n, b # p))) }
          else do { r \<leftarrow> btrie_add_leaf mem (bplen n) key pl;
                    (case r of
                       Inl f \<Rightarrow> Some (Inl (failed_at b f n))
                     | Inr (c, p) \<Rightarrow> Some (Inr (set_child b c n, b # p))) } }"

text \<open>\<open>btrie_node_goc\<close>: the trie and the path of the node, \<open>None\<close> for a null result.\<close>

definition btrie_node_goc ::
  "nat \<Rightarrow> 'a btrie \<Rightarrow> bytes \<Rightarrow> nat \<Rightarrow> bool \<Rightarrow> ('a btrie \<times> path option) option" where
  "btrie_node_goc mem root key pl create =
     do { p \<leftarrow> btrie_node_lookup root key pl;
          let node = node_at root p;
          if bplen node = pl then Some (root, Some p)
          else if create
          then do { r \<leftarrow> btrie_node_add mem node key pl;
                    (case r of
                       Inl (n, None) \<Rightarrow> Some (set_at root p n, None)
                     | Inl (n, Some q) \<Rightarrow> Some (btrie_delete_maybe (set_at root p n) (p @ q), None)
                     | Inr (n, q) \<Rightarrow> Some (set_at root p n, Some (p @ q))) }
          else Some (root, None) }"

definition btrie_add :: "nat \<Rightarrow> 'a btrie \<Rightarrow> 'a \<Rightarrow> bytes \<Rightarrow> nat \<Rightarrow> ('a btrie \<times> int) option" where
  "btrie_add mem root e key pl =
     do { (root, n) \<leftarrow> btrie_node_goc mem root key pl True;
          (case n of
             None \<Rightarrow> Some (root, -1)
           | Some p \<Rightarrow>
               Some (set_at root p (set_elements (elements (node_at root p) @ [e]) (node_at root p)), 0)) }"

text \<open>\<open>btrie_remove\<close> of the element \<open>e\<close> whose node is at the path \<open>p\<close>.\<close>

definition btrie_remove :: "'a btrie \<Rightarrow> path \<Rightarrow> 'a \<Rightarrow> 'a btrie" where
  "btrie_remove root p e =
     (let node = set_elements (remove1 e (elements (node_at root p))) (node_at root p);
          root = set_at root p node
      in if elements node = [] then btrie_delete_maybe root p else root)"

text \<open>
  The bit string of a node whose parent has the bit string \<open>pre\<close>: the blocks before its own are
  those of the parent, its own block is in its key.  \<open>kbits\<close> is the bit string of a key.
\<close>

definition nbits :: "bool list \<Rightarrow> nat \<Rightarrow> u32 \<Rightarrow> bool list" where
  "nbits pre n k =
     take (32 * index (n - 1)) pre @ map (\<lambda>r. bit k (31 - r)) [0 ..< n - 32 * index (n - 1)]"

definition kbits :: "bytes \<Rightarrow> nat \<Rightarrow> bool list" where
  "kbits key n = map (bitn key) [0 ..< n]"

definition key_ok :: "bytes \<Rightarrow> nat \<Rightarrow> bool" where
  "key_ok key pl \<longleftrightarrow> 4 * ((pl + 31) div 32) \<le> length key"

text \<open>
  Well-formed tries: below a node, every node extends the bit string of its parent by at least the
  bit of its side, and stays in the block in which the parent's string ends.  The root has no side.
\<close>

definition hd_ok :: "bool list \<Rightarrow> bool option \<Rightarrow> nat \<Rightarrow> u32 \<Rightarrow> bool" where
  "hd_ok pre D n k \<longleftrightarrow>
     (case D of
        None \<Rightarrow> pre = [] \<and> n = 0
      | Some d \<Rightarrow> length pre < n \<and> n \<le> 32 * (index (length pre) + 1) \<and> prefix (pre @ [d]) (nbits pre n k))"

fun wfx :: "bool list \<Rightarrow> bool option \<Rightarrow> 'a btrie \<Rightarrow> bool" where
  "wfx pre D Null \<longleftrightarrow> D \<noteq> None"
| "wfx pre D (Node es n k c0 c1) \<longleftrightarrow>
     hd_ok pre D n k \<and> wfx (nbits pre n k) (Some False) c0 \<and> wfx (nbits pre n k) (Some True) c1"

abbreviation btrie_wf :: "'a btrie \<Rightarrow> bool" where
  "btrie_wf t \<equiv> wfx [] None t"

text \<open>The contents: the elements with the bit strings of their keys, in the order of a walk.\<close>

fun entries :: "bool list \<Rightarrow> 'a btrie \<Rightarrow> (bool list \<times> 'a) list" where
  "entries pre Null = []"
| "entries pre (Node es n k c0 c1) =
     map (Pair (nbits pre n k)) es @ entries (nbits pre n k) c0 @ entries (nbits pre n k) c1"

text \<open>The comparison with the masked block decides whether the node's string starts the key.\<close>

definition on_key :: "bool option \<Rightarrow> bool list \<Rightarrow> bytes \<Rightarrow> nat \<Rightarrow> bool" where
  "on_key D pre key pl \<longleftrightarrow> (case D of None \<Rightarrow> True | Some d \<Rightarrow> prefix (pre @ [d]) (kbits key pl))"

text \<open>The string before a node on a path, and the side of the node.\<close>

fun pbits :: "bool list \<Rightarrow> 'a btrie \<Rightarrow> path \<Rightarrow> bool list" where
  "pbits pre t [] = pre"
| "pbits pre t (d # p) = pbits (nbits pre (bplen t) (bkey t)) (child d t) p"

definition side :: "bool option \<Rightarrow> path \<Rightarrow> bool option" where
  "side D p = (if p = [] then D else Some (last p))"

definition bits_at :: "bool list \<Rightarrow> 'a btrie \<Rightarrow> path \<Rightarrow> bool list" where
  "bits_at pre t p = nbits (pbits pre t p) (bplen (node_at t p)) (bkey (node_at t p))"

fun on_path :: "'a btrie \<Rightarrow> path \<Rightarrow> bool" where
  "on_path t [] = True"
| "on_path t (d # p) = (t \<noteq> Null \<and> on_path (child d t) p)"

text \<open>
  The node a lookup returns: its string starts the key, and it is the last such node.
\<close>

definition deepest :: "bool list \<Rightarrow> 'a btrie \<Rightarrow> path \<Rightarrow> bytes \<Rightarrow> nat \<Rightarrow> bool" where
  "deepest pre t p key pl \<longleftrightarrow>
     node_at t p \<noteq> Null \<and> prefix (bits_at pre t p) (kbits key pl) \<and>
     (bplen (node_at t p) = pl \<or>
      bplen (node_at t p) < pl \<and>
      (let c = child (bitn key (bplen (node_at t p))) (node_at t p)
       in c = Null \<or> \<not> prefix (nbits (bits_at pre t p) (bplen c) (bkey c)) (kbits key pl)))"

section \<open>Iteration\<close>

text \<open>
  A cursor \<open>(p, i)\<close> is the position before the \<open>i\<close>-th element of the node at \<open>p\<close>.  The iterators
  return the next element with the cursor after it; \<open>None\<close> is a null pointer.
\<close>

type_synonym cursor = "path \<times> nat"

definition next_element :: "'a btrie \<Rightarrow> cursor \<Rightarrow> (cursor \<times> 'a) option" where
  "next_element t c =
     (case c of (p, i) \<Rightarrow>
        if i < length (elements (node_at t p)) then Some ((p, i + 1), elements (node_at t p) ! i) else None)"

definition btrie_next :: "'a btrie \<Rightarrow> cursor \<Rightarrow> (cursor \<times> 'a) option" where
  "btrie_next t prev = next_element t prev"

definition btrie_first :: "'a btrie \<Rightarrow> bytes \<Rightarrow> nat \<Rightarrow> (cursor \<times> 'a) option option" where
  "btrie_first root key len =
     do { (root, n) \<leftarrow> btrie_node_goc 0 root key len False;
          Some (case n of None \<Rightarrow> None | Some p \<Rightarrow> btrie_next root (p, 0)) }"

function btrie_next_up :: "'a btrie \<Rightarrow> cursor \<Rightarrow> (cursor \<times> 'a) option" where
  "btrie_next_up t (p, i) =
     (case next_element t (p, i) of
        Some r \<Rightarrow> Some r
      | None \<Rightarrow> if p \<noteq> [] then btrie_next_up t (butlast p, 0) else None)"
  by pat_completeness auto
termination
  by (relation "measure (\<lambda>(t, p, i). length p)") auto

definition btrie_first_up :: "'a btrie \<Rightarrow> bytes \<Rightarrow> nat \<Rightarrow> (cursor \<times> 'a) option option" where
  "btrie_first_up root key len =
     do { p \<leftarrow> btrie_node_lookup root key len; Some (btrie_next_up root (p, 0)) }"

fun tsize :: "'a btrie \<Rightarrow> nat" where
  "tsize Null = 0"
| "tsize (Node es n k c0 c1) = 1 + tsize c0 + tsize c1"

text \<open>
  The labels of \<open>btrie_next_down\<close> and the loop over them.  \<open>todo\<close> bounds the nodes on the right
  of a path that are still to be visited.
\<close>

datatype down_label = L_next | L_right | L_up

fun todo :: "'a btrie \<Rightarrow> path \<Rightarrow> nat" where
  "todo t [] = 0"
| "todo t (d # p) = (if d then 2 else 5 * tsize (child True t) + 4) + todo (child d t) p"

lemma child_Null [simp]: "child d Null = Null"
  by (simp add: child_def)

lemma node_at_append: "node_at t (p @ q) = node_at (node_at t p) q"
  by (induction p arbitrary: t) auto

lemma todo_append: "todo t (p @ q) = todo t p + todo (node_at t p) q"
  by (induction p arbitrary: t) auto

lemma tsize_child: "t \<noteq> Null \<Longrightarrow> tsize t = 1 + tsize (child False t) + tsize (child True t)"
  by (cases t) (auto simp: child_def)

function next_down_loop :: "'a btrie \<Rightarrow> nat \<Rightarrow> down_label \<Rightarrow> path \<Rightarrow> nat \<Rightarrow> (cursor \<times> 'a) option" where
  "next_down_loop t len L_next p i =
     (case next_element t (p, i) of
        Some r \<Rightarrow> Some r
      | None \<Rightarrow>
          if child False (node_at t p) \<noteq> Null then next_down_loop t len L_next (p @ [False]) 0
          else if node_at t p = Null then None
          else next_down_loop t len L_right p 0)"
| "next_down_loop t len L_right p i =
     (if child True (node_at t p) \<noteq> Null then next_down_loop t len L_next (p @ [True]) 0
      else next_down_loop t len L_up p 0)"
| "next_down_loop t len L_up p i =
     (if p = [] \<or> bplen (node_at t (butlast p)) < len then None
      else if \<not> last p then next_down_loop t len L_right (butlast p) 0
      else next_down_loop t len L_up (butlast p) 0)"
  by pat_completeness auto
termination
proof (relation "measure (\<lambda>(t, len, l, p, i). todo t p +
    (case l of L_next \<Rightarrow> 5 * tsize (node_at t p) | L_right \<Rightarrow> 5 * tsize (child True (node_at t p)) + 3 | L_up \<Rightarrow> 0))")
  fix t :: "'a btrie" and len p i
  assume "child False (node_at t p) \<noteq> Null"
  then have "node_at t p \<noteq> Null" by auto
  from tsize_child [OF this]
  show "((t, len, L_next, p @ [False], 0), t, len, L_next, p, i) \<in> measure (\<lambda>(t, len, l, p, i). todo t p +
    (case l of L_next \<Rightarrow> 5 * tsize (node_at t p) | L_right \<Rightarrow> 5 * tsize (child True (node_at t p)) + 3 | L_up \<Rightarrow> 0))"
    by (simp add: todo_append node_at_append)
next
  fix t :: "'a btrie" and len p i
  assume "node_at t p \<noteq> Null"
  from tsize_child [OF this]
  show "((t, len, L_right, p, 0), t, len, L_next, p, i) \<in> measure (\<lambda>(t, len, l, p, i). todo t p +
    (case l of L_next \<Rightarrow> 5 * tsize (node_at t p) | L_right \<Rightarrow> 5 * tsize (child True (node_at t p)) + 3 | L_up \<Rightarrow> 0))"
    by simp
next
  fix t :: "'a btrie" and len p and i :: nat
  assume "\<not> (p = [] \<or> bplen (node_at t (butlast p)) < len)" "\<not> last p"
  then have "p = butlast p @ [False]" by (metis (full_types) append_butlast_last_id)
  then have "todo t p = todo t (butlast p) + todo (node_at t (butlast p)) [False]" by (metis todo_append)
  then show "((t, len, L_right, butlast p, 0), t, len, L_up, p, i) \<in> measure (\<lambda>(t, len, l, p, i). todo t p +
    (case l of L_next \<Rightarrow> 5 * tsize (node_at t p) | L_right \<Rightarrow> 5 * tsize (child True (node_at t p)) + 3 | L_up \<Rightarrow> 0))"
    by simp
next
  fix t :: "'a btrie" and len p and i :: nat
  assume "\<not> (p = [] \<or> bplen (node_at t (butlast p)) < len)" "\<not> \<not> last p"
  then have "p = butlast p @ [True]" by (metis (full_types) append_butlast_last_id)
  then have "todo t p = todo t (butlast p) + todo (node_at t (butlast p)) [True]" by (metis todo_append)
  then show "((t, len, L_up, butlast p, 0), t, len, L_up, p, i) \<in> measure (\<lambda>(t, len, l, p, i). todo t p +
    (case l of L_next \<Rightarrow> 5 * tsize (node_at t p) | L_right \<Rightarrow> 5 * tsize (child True (node_at t p)) + 3 | L_up \<Rightarrow> 0))"
    by simp
qed (auto simp: todo_append node_at_append)

definition btrie_next_down :: "'a btrie \<Rightarrow> nat \<Rightarrow> cursor \<Rightarrow> (cursor \<times> 'a) option" where
  "btrie_next_down t len prev = next_down_loop t len L_next (fst prev) (snd prev)"

function skip_down_loop :: "'a btrie \<Rightarrow> nat \<Rightarrow> path \<Rightarrow> cursor option" where
  "skip_down_loop t len p =
     (if p \<noteq> [] \<and> bplen (node_at t (butlast p)) \<ge> len
      then if last p then skip_down_loop t len (butlast p)
           else if child True (node_at t (butlast p)) \<noteq> Null
           then (case btrie_next_down t len (butlast p @ [True], 0) of
                   None \<Rightarrow> None
                 | Some ((q, i), e) \<Rightarrow> Some (q, 0))
           else skip_down_loop t len (butlast p)
      else None)"
  by pat_completeness auto
termination
  by (relation "measure (\<lambda>(t, len, p). length p)") auto

text \<open>\<open>__btrie_skip_down\<close>: the result is the list head of the node to continue at.\<close>

definition btrie_skip_down :: "'a btrie \<Rightarrow> nat \<Rightarrow> cursor \<Rightarrow> cursor option" where
  "btrie_skip_down t len prev = skip_down_loop t len (fst prev)"

text \<open>The comparison of a child with the first \<open>n\<close> bits of a key.\<close>

definition child_matches :: "u32 \<Rightarrow> bytes \<Rightarrow> nat \<Rightarrow> nat \<Rightarrow> bool option" where
  "child_matches k key i n =
     do { w \<leftarrow> keyword key i; Some ((w XOR k) AND kmask (remain (n - 1)) = 0) }"

definition btrie_first_down_node :: "'a btrie \<Rightarrow> bytes \<Rightarrow> nat \<Rightarrow> path option option" where
  "btrie_first_down_node root key len =
     do { p \<leftarrow> btrie_node_lookup root key len;
          let node = node_at root p;
          if bplen node = len then Some (Some p)
          else do {
            b \<leftarrow> keybit key (bplen node);
            let c = child b node;
            if c = Null \<or> len \<ge> bplen c then Some None
            else do { m \<leftarrow> child_matches (bkey c) key (index (bplen node)) len;
                      Some (if m then Some (p @ [b]) else None) } } }"

definition btrie_first_down :: "'a btrie \<Rightarrow> bytes \<Rightarrow> nat \<Rightarrow> (cursor \<times> 'a) option option" where
  "btrie_first_down root key len =
     do { n \<leftarrow> btrie_first_down_node root key len;
          Some (case n of None \<Rightarrow> None | Some p \<Rightarrow> btrie_next_down root len (p, 0)) }"

function next_updown_loop :: "'a btrie \<Rightarrow> bytes \<Rightarrow> nat \<Rightarrow> path \<Rightarrow> nat \<Rightarrow> (cursor \<times> 'a) option option" where
  "next_updown_loop t key len p i =
     (case next_element t (p, i) of
        Some r \<Rightarrow> Some (Some r)
      | None \<Rightarrow>
          (case keybit key (bplen (node_at t p)) of
             None \<Rightarrow> None
           | Some b \<Rightarrow>
               let c = child b (node_at t p)
               in if c = Null then Some None
                  else if bplen c \<ge> len
                  then (case child_matches (bkey c) key (index (len - 1)) len of
                          None \<Rightarrow> None
                        | Some m \<Rightarrow> Some (if m then btrie_next_down t len (p @ [b], 0) else None))
                  else (case child_matches (bkey c) key (index (bplen c - 1)) (bplen c) of
                          None \<Rightarrow> None
                        | Some m \<Rightarrow> if m then next_updown_loop t key len (p @ [b]) 0 else Some None)))"
  by pat_completeness auto
termination
proof (relation "measure (\<lambda>(t, key, len, p, i). tsize (node_at t p))")
  fix t :: "'a btrie" and key len p i b c
  assume "c = child b (node_at t p)" "\<not> c = Null"
  then have "node_at t p \<noteq> Null" by auto
  from tsize_child [OF this]
  show "((t, key, len, p @ [b], 0), t, key, len, p, i) \<in> measure (\<lambda>(t, key, len, p, i). tsize (node_at t p))"
    by (cases b) (simp_all add: node_at_append)
qed simp

definition btrie_next_updown :: "'a btrie \<Rightarrow> bytes \<Rightarrow> nat \<Rightarrow> cursor \<Rightarrow> (cursor \<times> 'a) option option" where
  "btrie_next_updown t key len prev =
     (if bplen (node_at t (fst prev)) \<ge> len then Some (btrie_next_down t len prev)
      else next_updown_loop t key len (fst prev) (snd prev))"

definition btrie_first_updown :: "'a btrie \<Rightarrow> bytes \<Rightarrow> nat \<Rightarrow> (cursor \<times> 'a) option option" where
  "btrie_first_updown root key len = btrie_next_updown root key len ([], 0)"

text \<open>
  The elements a \<open>for\<close> loop over an iterator visits, from the first result on.
\<close>

inductive visits :: "('c \<Rightarrow> ('c \<times> 'a) option) \<Rightarrow> ('c \<times> 'a) option \<Rightarrow> 'a list \<Rightarrow> bool"
  for nxt where
  stop: "visits nxt None []"
| step: "visits nxt (nxt c) es \<Longrightarrow> visits nxt (Some (c, e)) (e # es)"

fun up_elements :: "'a btrie \<Rightarrow> path \<Rightarrow> 'a list" where
  "up_elements t [] = elements t"
| "up_elements t (d # p) = up_elements (child d t) p @ elements t"

text \<open>The entries on the way up from a node, with their strings.\<close>

fun up_entries :: "bool list \<Rightarrow> 'a btrie \<Rightarrow> path \<Rightarrow> (bool list \<times> 'a) list" where
  "up_entries pre t [] = map (Pair (nbits pre (bplen t) (bkey t))) (elements t)"
| "up_entries pre t (d # p) =
     up_entries (nbits pre (bplen t) (bkey t)) (child d t) p @ map (Pair (nbits pre (bplen t) (bkey t))) (elements t)"

text \<open>The same for iterators whose step may fail; a visit never fails.\<close>

inductive visits_safe :: "('c \<Rightarrow> ('c \<times> 'a) option option) \<Rightarrow> ('c \<times> 'a) option option \<Rightarrow> 'a list \<Rightarrow> bool"
  for nxt where
  stop_safe: "visits_safe nxt (Some None) []"
| step_safe: "visits_safe nxt (nxt c) es \<Longrightarrow> visits_safe nxt (Some (Some (c, e))) (e # es)"

text \<open>The up-down iteration, step by step along the key.\<close>

definition related :: "bytes \<Rightarrow> nat \<Rightarrow> bool list \<times> 'a \<Rightarrow> bool" where
  "related key pl be \<longleftrightarrow> prefix (fst be) (kbits key pl) \<or> prefix (kbits key pl) (fst be)"

definition leaf_ok :: "nat \<Rightarrow> bytes \<Rightarrow> nat \<Rightarrow> nat \<Rightarrow> ('a btrie \<times> path) + ('a btrie \<times> path) \<Rightarrow> bool" where
  "leaf_ok mem key pl m r \<longleftrightarrow>
    (case r of
       Inl (c, q) \<Rightarrow> mem \<le> index (pl - 1) - index m \<and> wfx (kbits key m) (Some (bitn key m)) c \<and> entries (kbits key m) c = [] \<and>
         (if q = [] then c = Null else on_path c (butlast q))
     | Inr (c, q) \<Rightarrow> wfx (kbits key m) (Some (bitn key m)) c \<and> entries (kbits key m) c = [] \<and>
         node_at c q \<noteq> Null \<and> bplen (node_at c q) = pl \<and> bits_at (kbits key m) c q = kbits key pl)"

definition add_ok ::
  "'a btrie \<Rightarrow> bool list \<Rightarrow> bool option \<Rightarrow> bytes \<Rightarrow> nat \<Rightarrow> ('a btrie \<times> path option) + ('a btrie \<times> path) \<Rightarrow> bool" where
  "add_ok s b D key pl r \<longleftrightarrow>
    (case r of
       Inl (c, q) \<Rightarrow> wfx b D c \<and> mset (entries b c) = mset (entries b s) \<and> (\<forall>p. q = Some p \<longrightarrow> on_path c p)
     | Inr (c, q) \<Rightarrow> wfx b D c \<and> mset (entries b c) = mset (entries b s) \<and>
         node_at c q \<noteq> Null \<and> bplen (node_at c q) = pl \<and> bits_at b c q = kbits key pl)"

section \<open>Lemmas: words\<close>

lemma first_bit: "i < 32 \<Longrightarrow> drop_bit i (0x80000000 :: u32) = push_bit (31 - i) 1"
proof -
  assume "i < 32"
  have e: "(0x80000000 :: u32) = push_bit 31 1" by simp
  show ?thesis using \<open>i < 32\<close> unfolding e
    by (intro bit_word_eqI) (simp only: bit_drop_bit_eq comp_apply bit_push_bit_iff bit_1_iff; auto)
qed

lemma nthbit_bit: "i < 32 \<Longrightarrow> nthbit k i \<longleftrightarrow> bit k (31 - i)"
  unfolding nthbit_def first_bit by (simp add: bit_iff_and_push_bit_not_eq_0)

lemma bit_kmask: "r < 32 \<Longrightarrow> bit (kmask r) j \<longleftrightarrow> 31 - r \<le> j \<and> j < 32"
proof -
  have m: "(0xffffffff :: u32) = mask 32" by (simp add: mask_eq_exp_minus_1)
  show "r < 32 \<Longrightarrow> ?thesis" unfolding kmask_def Let_def m by (auto simp: bit_simps)
qed

lemma masked_eq: "r < 32 \<Longrightarrow> (w XOR k) AND kmask r = 0 \<longleftrightarrow> (\<forall>j \<le> r. bit w (31 - j) = bit k (31 - j))"
proof -
  assume r: "r < 32"
  have "(w XOR k) AND kmask r = 0 \<longleftrightarrow> (\<forall>j < 32. 31 - r \<le> j \<longrightarrow> bit w j = bit k j)"
  proof
    assume "(w XOR k) AND kmask r = 0"
    then have "bit ((w XOR k) AND kmask r) j = False" for j by simp
    then show "\<forall>j < 32. 31 - r \<le> j \<longrightarrow> bit w j = bit k j" using r by (auto simp: bit_and_iff bit_xor_iff bit_kmask)
  next
    assume "\<forall>j < 32. 31 - r \<le> j \<longrightarrow> bit w j = bit k j"
    then show "(w XOR k) AND kmask r = 0"
      by (intro bit_word_eqI) (use r in \<open>auto simp: bit_and_iff bit_xor_iff bit_kmask\<close>)
  qed
  also have "\<dots> \<longleftrightarrow> (\<forall>j \<le> r. bit w (31 - j) = bit k (31 - j))"
  proof
    assume a: "\<forall>j \<le> r. bit w (31 - j) = bit k (31 - j)"
    show "\<forall>j < 32. 31 - r \<le> j \<longrightarrow> bit w j = bit k j"
    proof (intro allI impI)
      fix j :: nat assume "j < 32" "31 - r \<le> j"
      then have "31 - j \<le> r" "31 - (31 - j) = j" by auto
      with a show "bit w j = bit k j" by metis
    qed
  qed (use r in auto)
  finally show ?thesis .
qed

lemma keyword_bits:
  assumes "4 * i + 4 \<le> length key"
  shows "\<exists>w. keyword key i = Some w \<and> (\<forall>j < 32. bit w (31 - j) = bitn key (32 * i + j))"
proof -
  define bs where "bs = take 4 (drop (4 * i) key)"
  have l: "length bs = 4" using assms by (simp add: bs_def)
  have "bit (be_word bs :: u32) (31 - j) = bitn key (32 * i + j)" if "j < 32" for j
  proof -
    define q r where "q = j div 8" and "r = j mod 8"
    have qr: "j = 8 * q + r" "q < 4" "r < 8" using that by (simp_all add: q_def r_def)
    have e: "31 - j = 8 * (3 - q) + (7 - r)" using qr by simp
    have "bit (be_word bs :: u32) (8 * (3 - q) + s) = bit (rev bs ! (3 - q)) s" if "s < 8" for s
      using bit_be_word [of bs "8 * (3 - q) + s", where 'a = 32] l qr that by simp
    from this [of "7 - r"] have "bit (be_word bs :: u32) (31 - j) = bit (rev bs ! (3 - q)) (7 - r)"
      unfolding e by simp
    also have "rev bs ! (3 - q) = key ! (4 * i + q)" using qr l assms by (simp add: rev_nth bs_def)
    also have "bit (key ! (4 * i + q)) (7 - r) = bitn key (32 * i + j)"
      using bitn_block [of r key "4 * i + q"] qr by (simp add: algebra_simps)
    finally show ?thesis .
  qed
  then show ?thesis using assms by (simp add: keyword_def ld_be32_def bs_def)
qed

lemma key_ok_keyword: "key_ok key pl \<Longrightarrow> i < pl \<Longrightarrow> 4 * index i + 4 \<le> length key"
proof -
  assume "key_ok key pl" "i < pl"
  moreover have "index i + 1 \<le> (pl + 31) div 32"
    using \<open>i < pl\<close> div_le_mono [of "i + 32" "pl + 31" 32] by (simp add: index_def)
  ultimately show ?thesis by (simp add: key_ok_def)
qed

lemma index_remain: "32 * index i + remain i = i" "remain i < 32"
  by (simp_all add: index_def remain_def)

lemma keybit_eq: "key_ok key pl \<Longrightarrow> i < pl \<Longrightarrow> keybit key i = Some (bitn key i)"
  using keyword_bits [OF key_ok_keyword, of key pl i] index_remain [of i]
  by (auto simp: keybit_def nthbit_bit)

lemma kbits_simps [simp]: "length (kbits key n) = n" "i < n \<Longrightarrow> kbits key n ! i = bitn key i"
  "take m (kbits key n) = kbits key (min m n)"
  by (simp_all add: kbits_def take_map min_def)

lemma prefix_take: "prefix xs ys \<longleftrightarrow> take (length xs) ys = xs"
  by (metis append_eq_conv_conj prefix_def take_is_prefix)

lemma prefix_kbits: "prefix xs (kbits key n) \<longleftrightarrow> length xs \<le> n \<and> xs = kbits key (length xs)"
proof (cases "length xs \<le> n")
  case True
  then show ?thesis by (auto simp: prefix_take min_def)
next
  case False
  then show ?thesis using prefix_length_le [of xs "kbits key n"] by auto
qed

lemma prefix_nth: "prefix xs ys \<longleftrightarrow> length xs \<le> length ys \<and> (\<forall>i < length xs. xs ! i = ys ! i)"
  by (auto simp: prefix_take list_eq_iff_nth_eq min_def dest: prefix_length_le)

section \<open>Lemmas: bit strings of nodes\<close>

lemma same_index: "p < n \<Longrightarrow> n \<le> 32 * (index p + 1) \<Longrightarrow> index (n - 1) = index p"
  unfolding index_def using mult_div_mod_eq [of 32 p] by (intro div_nat_eqI) simp_all

lemma length_nbits:
  assumes "hd_ok pre D n k"
  shows "length (nbits pre n k) = n"
proof (cases D)
  case (Some d)
  then have "index (n - 1) = index (length pre)" "length pre < n"
    using assms same_index by (auto simp: hd_ok_def)
  moreover have "32 * index (length pre) \<le> length pre" by (simp add: index_def)
  ultimately show ?thesis by (simp add: nbits_def)
qed (use assms in \<open>simp add: hd_ok_def nbits_def index_def\<close>)

lemma nbits_nth:
  assumes "hd_ok pre (Some d) n k" "i < n"
  shows "nbits pre n k ! i = (if i < 32 * index (length pre) then pre ! i else bit k (31 - remain i))"
proof -
  let ?q = "index (length pre)"
  have e: "index (n - 1) = ?q" "length pre < n" "n \<le> 32 * (?q + 1)" using assms same_index by (auto simp: hd_ok_def)
  have q: "32 * ?q \<le> length pre" by (simp add: index_def)
  have "remain i = i - 32 * ?q" if "32 * ?q \<le> i"
  proof -
    have "i div 32 = ?q" by (rule div_nat_eqI) (use that assms(2) e in auto)
    then show ?thesis unfolding remain_def using minus_mult_div_eq_mod [of i 32] by simp
  qed
  moreover have "[0 ..< n - 32 * ?q] ! (i - 32 * ?q) = i - 32 * ?q" if "32 * ?q \<le> i"
    by (subst nth_upt) (use that assms(2) in auto)
  ultimately show ?thesis
    using e q assms(2) by (cases "i < 32 * ?q") (simp_all add: nbits_def nth_append)
qed

lemma node_matches_eq:
  assumes h: "hd_ok pre D n k" and key: "key_ok key pl" and on: "on_key D pre key pl"
  shows "node_matches n k key pl = Some (prefix (nbits pre n k) (kbits key pl))"
proof (cases D)
  case None
  then show ?thesis using h by (simp add: hd_ok_def node_matches_def nbits_def index_def)
next
  case (Some d)
  let ?q = "index (length pre)"
  have e: "index (n - 1) = ?q" "length pre < n" "n \<le> 32 * (?q + 1)" using h Some same_index by (auto simp: hd_ok_def)
  have len: "length (nbits pre n k) = n" by (rule length_nbits [OF h])
  show ?thesis
  proof (cases "n \<le> pl")
    case False
    then show ?thesis using prefix_length_le [of "nbits pre n k" "kbits key pl"] len by (auto simp: node_matches_def)
  next
    case True
    obtain w where w: "keyword key ?q = Some w" "\<forall>j < 32. bit w (31 - j) = bitn key (32 * ?q + j)"
      using keyword_bits [OF key_ok_keyword [OF key, of "length pre"]] e(2) True by auto
    have pre: "\<forall>i < length pre. pre ! i = bitn key i"
    proof (intro allI impI)
      fix i assume "i < length pre"
      with on Some e(2) True show "pre ! i = bitn key i"
        using nth_append [of pre "[d]" i] by (auto simp: on_key_def prefix_nth less_Suc_eq)
    qed
    define r where "r = remain (n - 1)"
    have r: "n = 32 * ?q + r + 1" "r < 32" using index_remain [of "n - 1"] e by (auto simp: r_def)
    have "(w XOR k) AND kmask r = 0 \<longleftrightarrow> (\<forall>j \<le> r. bitn key (32 * ?q + j) = bit k (31 - j))"
      using w(2) r(2) by (simp add: masked_eq)
    also have "\<dots> \<longleftrightarrow> prefix (nbits pre n k) (kbits key pl)"
    proof
      assume a: "\<forall>j \<le> r. bitn key (32 * ?q + j) = bit k (31 - j)"
      show "prefix (nbits pre n k) (kbits key pl)"
        unfolding prefix_nth len
      proof (intro conjI allI impI)
        fix i assume i: "i < n"
        show "nbits pre n k ! i = kbits key pl ! i"
        proof (cases "i < 32 * ?q")
          case T: True
          have "32 * ?q \<le> length pre" by (simp add: index_def)
          with T i True pre h Some show ?thesis by (simp add: nbits_nth)
        next
          case F: False
          then have "index i = ?q" unfolding index_def [of i] by (intro div_nat_eqI) (use i e(3) in auto)
          then have "i = 32 * ?q + remain i" using index_remain [of i] by simp
          moreover have "remain i \<le> r" using \<open>i = _\<close> i r by linarith
          ultimately have "bitn key i = bit k (31 - remain i)" using a by metis
          with F i True h Some show ?thesis by (simp add: nbits_nth)
        qed
      qed (use True in simp)
    next
      assume a: "prefix (nbits pre n k) (kbits key pl)"
      show "\<forall>j \<le> r. bitn key (32 * ?q + j) = bit k (31 - j)"
      proof (intro allI impI)
        fix j assume j: "j \<le> r"
        then have i: "32 * ?q + j < n" using r by simp
        have "nbits pre n k ! (32 * ?q + j) = bitn key (32 * ?q + j)"
          using a i True len by (auto simp: prefix_nth)
        moreover have "remain (32 * ?q + j) = j" using j r by (simp add: remain_def)
        ultimately show "bitn key (32 * ?q + j) = bit k (31 - j)"
          using nbits_nth [OF h [unfolded Some] i] by simp
      qed
    qed
    finally show ?thesis using True e w(1) by (simp add: node_matches_def r_def)
  qed
qed

section \<open>Lemmas: paths\<close>

lemma child_simps [simp]: "child False (Node es n k c0 c1) = c0" "child True (Node es n k c0 c1) = c1"
  by (simp_all add: child_def)

lemma child_Node: "child d (Node es n k c0 c1) = (if d then c1 else c0)"
  by (simp add: child_def)

lemma btrie_child_induct [case_names Null Node]:
  assumes "P Null" "\<And>es n k c0 c1. (\<And>d. P (child d (Node es n k c0 c1))) \<Longrightarrow> P (Node es n k c0 c1)"
  shows "P t"
  by (induction t) (use assms in \<open>auto simp: child_Node\<close>)

lemma wfx_child: "wfx pre D t \<Longrightarrow> t \<noteq> Null \<Longrightarrow> wfx (nbits pre (bplen t) (bkey t)) (Some d) (child d t)"
  by (cases t; cases d) auto

lemma wfx_hd: "wfx pre D t \<Longrightarrow> t \<noteq> Null \<Longrightarrow> hd_ok pre D (bplen t) (bkey t)"
  by (cases t) auto

lemma bits_at_simps [simp]: "bits_at pre t [] = nbits pre (bplen t) (bkey t)"
  "bits_at pre t (d # p) = bits_at (nbits pre (bplen t) (bkey t)) (child d t) p"
  by (simp_all add: bits_at_def)

lemma side_Cons [simp]: "side D (d # p) = side (Some d) p" "side D [] = D"
  by (simp_all add: side_def)

lemma wfx_node_at: "wfx pre D t \<Longrightarrow> on_path t p \<Longrightarrow> wfx (pbits pre t p) (side D p) (node_at t p)"
  by (induction p arbitrary: pre D t) (auto intro: wfx_child)

lemma node_at_Null [simp]: "node_at Null p = Null"
  by (induction p) auto

lemma on_path_node_at: "node_at t p \<noteq> Null \<Longrightarrow> on_path t p"
proof (induction p arbitrary: t)
  case (Cons d p)
  then have "t \<noteq> Null" by auto
  with Cons show ?case by simp
qed simp

lemma pbits_append: "pbits pre t (p @ q) = pbits (pbits pre t p) (node_at t p) q"
  by (induction p arbitrary: pre t) auto

lemma prefix_pbits:
  "wfx pre D t \<Longrightarrow> node_at t p \<noteq> Null \<Longrightarrow> prefix (pbits pre t p) (bits_at pre t p)"
proof (induction p arbitrary: pre D t)
  case Nil
  then have "hd_ok pre D (bplen t) (bkey t)" by (auto intro: wfx_hd)
  then show ?case by (auto simp: hd_ok_def split: option.splits dest: append_prefixD)
next
  case (Cons d p)
  then have "t \<noteq> Null" by auto
  with Cons.IH [OF wfx_child [OF Cons.prems(1), of d]] Cons.prems(2) show ?case by simp
qed

lemma entries_prefix: "wfx pre D t \<Longrightarrow> be \<in> set (entries pre t) \<Longrightarrow> prefix (nbits pre (bplen t) (bkey t)) (fst be)"
proof (induction t arbitrary: pre D be)
  case (Node es n k c0 c1)
  have "prefix (nbits pre n k) (nbits (nbits pre n k) (bplen c) (bkey c))" if "wfx (nbits pre n k) (Some d) c" "c \<noteq> Null" for c :: "'a btrie" and d
    using wfx_hd [OF that] by (auto simp: hd_ok_def dest: append_prefixD)
  moreover have "c \<noteq> Null" if "be \<in> set (entries pre' c)" for c :: "'a btrie" and pre' using that by auto
  ultimately show ?case
    using Node by (auto, (meson prefix_order.trans)+)
qed simp

lemma entries_side: "wfx pre (Some d) t \<Longrightarrow> be \<in> set (entries pre t) \<Longrightarrow> prefix (pre @ [d]) (fst be)"
proof -
  assume a: "wfx pre (Some d) t" "be \<in> set (entries pre t)"
  then have "t \<noteq> Null" by auto
  then have "prefix (pre @ [d]) (nbits pre (bplen t) (bkey t))" using wfx_hd [OF a(1)] by (simp add: hd_ok_def)
  then show ?thesis using entries_prefix [OF a] by (rule prefix_order.trans)
qed

section \<open>Lemmas: lookup\<close>

lemma node_lookup_eq:
  "t \<noteq> Null \<Longrightarrow> node_lookup t key pl =
     do { m \<leftarrow> node_matches (bplen t) (bkey t) key pl;
          if \<not> m then Some None
          else if bplen t = pl then Some (Some [])
          else do {
            b \<leftarrow> keybit key (bplen t);
            if child b t \<noteq> Null
            then do { r \<leftarrow> node_lookup (child b t) key pl;
                      Some (case r of None \<Rightarrow> Some [] | Some p \<Rightarrow> Some (b # p)) }
            else Some (Some []) } }"
proof (cases t)
  case (Node es n k c0 c1)
  consider "keybit key n = None" | "keybit key n = Some True" | "keybit key n = Some False"
    by (metis (full_types) option.exhaust)
  then show ?thesis by cases (cases "node_matches n k key pl"; simp add: Node)+
qed simp

declare node_lookup.simps(2) [simp del]

lemma node_lookup_deepest:
  assumes "wfx pre D t" "t \<noteq> Null" "key_ok key pl" "on_key D pre key pl"
  shows "\<exists>r. node_lookup t key pl = Some r \<and>
    (case r of None \<Rightarrow> \<not> prefix (nbits pre (bplen t) (bkey t)) (kbits key pl) | Some p \<Rightarrow> deepest pre t p key pl)"
  using assms
proof (induction t arbitrary: pre D rule: btrie_child_induct)
  case (Node es n k c0 c1)
  let ?t = "Node es n k c0 c1"
  have h: "hd_ok pre D n k" using Node.prems by simp
  note m = node_matches_eq [OF h Node.prems(3,4)]
  have len: "length (nbits pre n k) = n" by (rule length_nbits [OF h])
  show ?case
  proof (cases "prefix (nbits pre n k) (kbits key pl)")
    case False
    then show ?thesis using m by (subst node_lookup_eq) simp_all
  next
    case True
    show ?thesis
    proof (cases "n = pl")
      case T: True
      then show ?thesis using m True by (subst node_lookup_eq) (simp_all add: deepest_def)
    next
      case False
      then have n: "n < pl" using prefix_length_le [OF True] len by simp
      define b where "b = bitn key n"
      have kb: "keybit key n = Some b" using keybit_eq [OF Node.prems(3) n] by (simp add: b_def)
      have on: "on_key (Some b) (nbits pre n k) key pl"
        using True n len by (auto simp: on_key_def prefix_nth nth_append b_def less_Suc_eq)
      show ?thesis
      proof (cases "child b ?t = Null")
        case N: True
        then show ?thesis using m True False n kb by (subst node_lookup_eq) (simp_all add: deepest_def b_def)
      next
        case C: False
        obtain r where r: "node_lookup (child b ?t) key pl = Some r"
            "case r of None \<Rightarrow> \<not> prefix (nbits (nbits pre n k) (bplen (child b ?t)) (bkey (child b ?t))) (kbits key pl)
             | Some p \<Rightarrow> deepest (nbits pre n k) (child b ?t) p key pl"
          using Node.IH [OF wfx_child [OF Node.prems(1,2), of b, simplified] C Node.prems(3) on] by auto
        show ?thesis
          using m True False n kb C r by (subst node_lookup_eq; cases r) (simp_all add: deepest_def b_def)
      qed
    qed
  qed
qed simp

section \<open>Lemmas: contents and lookups\<close>

lemma other_side:
  assumes "prefix (b @ [d]) x" "prefix b (kbits key pl)" "length b < pl" "d \<noteq> bitn key (length b)"
  shows "\<not> prefix x (kbits key pl)" "\<not> prefix (kbits key pl) x"
proof -
  have "x ! length b = d" "length b < length x" using assms(1) by (auto simp: prefix_def)
  then show "\<not> prefix x (kbits key pl)" "\<not> prefix (kbits key pl) x"
    using assms(3,4) by (auto simp: prefix_nth)
qed

lemma path_on_key:
  assumes "wfx pre D t" "node_at t (d # p) \<noteq> Null" "prefix (bits_at pre t (d # p)) (kbits key pl)"
  shows "prefix (nbits pre (bplen t) (bkey t)) (kbits key pl)" "bplen t < pl" "d = bitn key (bplen t)"
    "length (nbits pre (bplen t) (bkey t)) = bplen t"
proof -
  let ?b = "nbits pre (bplen t) (bkey t)"
  have t: "t \<noteq> Null" using assms(2) by auto
  show len: "length ?b = bplen t" using length_nbits [OF wfx_hd [OF assms(1) t]] .
  have c: "child d t \<noteq> Null" using assms(2) by auto
  note wc = wfx_child [OF assms(1) t, of d]
  have "prefix (?b @ [d]) (nbits ?b (bplen (child d t)) (bkey (child d t)))"
    using wfx_hd [OF wc c] by (simp add: hd_ok_def)
  also have "prefix \<dots> (bits_at pre t (d # p))"
  proof -
    have "prefix (bits_at ?b (child d t) []) (bits_at ?b (child d t) r)" if "node_at (child d t) r \<noteq> Null" for r
      using that
    proof (induction r rule: rev_induct)
      case (snoc e r)
      then have "node_at (child d t) r \<noteq> Null" by (auto simp: node_at_append)
      moreover have "prefix (bits_at ?b (child d t) r) (bits_at ?b (child d t) (r @ [e]))"
        using prefix_pbits [OF wc snoc.prems] by (simp add: bits_at_def pbits_append)
      ultimately show ?case using snoc.IH prefix_order.trans by blast
    qed simp
    from this [of p] assms(2) show ?thesis by simp
  qed
  finally have bd: "prefix (?b @ [d]) (kbits key pl)" using assms(3) by (rule prefix_order.trans)
  then show "prefix ?b (kbits key pl)" by (rule append_prefixD)
  show "bplen t < pl" using prefix_length_le [OF bd] len by simp
  then show "d = bitn key (bplen t)" using bd len by (auto simp: prefix_nth nth_append)
qed

lemma filter_entries_child:
  assumes "wfx b (Some d) c" "\<And>x. prefix (b @ [d]) x \<Longrightarrow> \<not> P x"
  shows "filter (\<lambda>be. P (fst be)) (entries b c) = []"
  using entries_side [OF assms(1)] assms(2) by (auto simp: filter_empty_conv)

lemma entries_eq:
  "t \<noteq> Null \<Longrightarrow> entries pre t = map (Pair (nbits pre (bplen t) (bkey t))) (elements t) @
     entries (nbits pre (bplen t) (bkey t)) (child False t) @ entries (nbits pre (bplen t) (bkey t)) (child True t)"
  by (cases t) simp_all

text \<open>
  The entries whose string is related to the key, along the path of a lookup: those of the node,
  then those of the child on the side of the key.
\<close>

lemma filter_entries_step:
  assumes "wfx pre D t" "t \<noteq> Null" "b = nbits pre (bplen t) (bkey t)" "prefix b (kbits key pl)" "bplen t < pl"
    and "\<And>x. P x \<Longrightarrow> prefix x (kbits key pl) \<or> prefix (kbits key pl) x"
  shows "filter (\<lambda>be. P (fst be)) (entries pre t) =
    (if P b then map (Pair b) (elements t) else []) @
    filter (\<lambda>be. P (fst be)) (entries b (child (bitn key (bplen t)) t))"
proof -
  have len: "length b = bplen t" using length_nbits [OF wfx_hd [OF assms(1,2)]] assms(3) by simp
  have "filter (\<lambda>be. P (fst be)) (entries b (child d t)) = []" if "d \<noteq> bitn key (bplen t)" for d
  proof (rule filter_entries_child)
    show "wfx b (Some d) (child d t)" using wfx_child [OF assms(1,2), of d] assms(3) by simp
    have l: "length b < pl" "d \<noteq> bitn key (length b)" using that assms(5) len by auto
    show "\<not> P x" if "prefix (b @ [d]) x" for x
      using other_side [OF that assms(4) l] assms(6) by blast
  qed
  then show ?thesis
    using entries_eq [OF assms(2), of pre] assms(3) by (cases "bitn key (bplen t)") (auto simp: filter_map comp_def)
qed

lemma deepest_exact:
  assumes "wfx pre D t" "deepest pre t p key pl"
  shows "filter (\<lambda>be. fst be = kbits key pl) (entries pre t) =
    (if bplen (node_at t p) = pl then map (Pair (kbits key pl)) (elements (node_at t p)) else [])"
  using assms
proof (induction p arbitrary: pre D t)
  case Nil
  define b where "b = nbits pre (bplen t) (bkey t)"
  have t: "t \<noteq> Null" and b: "prefix b (kbits key pl)" using Nil.prems by (auto simp: deepest_def b_def)
  have len: "length b = bplen t" using length_nbits [OF wfx_hd [OF Nil.prems(1) t]] by (simp add: b_def)
  show ?case
  proof (cases "bplen t = pl")
    case True
    then have bk: "b = kbits key pl" using b len by (auto simp: prefix_kbits)
    have "filter (\<lambda>be. fst be = kbits key pl) (entries b (child d t)) = []" for d
    proof (rule filter_entries_child)
      show "wfx b (Some d) (child d t)" using wfx_child [OF Nil.prems(1) t, of d] by (simp add: b_def)
      show "\<not> x = kbits key pl" if "prefix (b @ [d]) x" for x using prefix_length_le [OF that] bk by auto
    qed
    then show ?thesis using True entries_eq [OF t, of pre] bk by (auto simp: b_def [symmetric] filter_map comp_def)
  next
    case False
    let ?c = "child (bitn key (bplen t)) t"
    have lt: "bplen t < pl" and c: "?c = Null \<or> \<not> prefix (nbits b (bplen ?c) (bkey ?c)) (kbits key pl)"
      using Nil.prems False by (auto simp: deepest_def Let_def b_def)
    have "filter (\<lambda>be. fst be = kbits key pl) (entries b ?c) = []"
      using c entries_prefix [OF wfx_child [OF Nil.prems(1) t], of _ "bitn key (bplen t)"]
      by (auto simp: filter_empty_conv b_def)
    moreover have "b \<noteq> kbits key pl" using len lt by auto
    ultimately show ?thesis
      using filter_entries_step [OF Nil.prems(1) t b_def b lt, of "\<lambda>x. x = kbits key pl"] False by simp
  qed
next
  case (Cons d p)
  note pk = path_on_key [OF Cons.prems(1)] 
  have n: "node_at t (d # p) \<noteq> Null" "prefix (bits_at pre t (d # p)) (kbits key pl)" using Cons.prems(2) by (auto simp: deepest_def)
  have t: "t \<noteq> Null" using n(1) by auto
  note k = path_on_key [OF Cons.prems(1) n]
  have "deepest (nbits pre (bplen t) (bkey t)) (child d t) p key pl" using Cons.prems(2) by (simp add: deepest_def)
  with Cons.IH [OF wfx_child [OF Cons.prems(1) t]]
  have "filter (\<lambda>be. fst be = kbits key pl) (entries (nbits pre (bplen t) (bkey t)) (child d t)) =
      (if bplen (node_at t (d # p)) = pl then map (Pair (kbits key pl)) (elements (node_at t (d # p))) else [])" by simp
  moreover have "nbits pre (bplen t) (bkey t) \<noteq> kbits key pl" using k(2,4) by auto
  ultimately show ?case
    using filter_entries_step [OF Cons.prems(1) t refl k(1,2), of "\<lambda>x. x = kbits key pl"] k(3) by simp
qed

lemma btrie_lookup_deepest:
  assumes "btrie_wf t" "key_ok key pl"
  shows "\<exists>p. btrie_node_lookup t key pl = Some p \<and> deepest [] t p key pl"
proof -
  have t: "t \<noteq> Null" using assms(1) by auto
  obtain r where r: "node_lookup t key pl = Some r"
      "case r of None \<Rightarrow> \<not> prefix (nbits [] (bplen t) (bkey t)) (kbits key pl) | Some p \<Rightarrow> deepest [] t p key pl"
    using node_lookup_deepest [OF assms(1) t assms(2)] by (auto simp: on_key_def)
  moreover have "nbits [] (bplen t) (bkey t) = []"
    using wfx_hd [OF assms(1) t] by (simp add: hd_ok_def nbits_def index_def)
  ultimately show ?thesis by (cases r) (auto simp: btrie_node_lookup_def)
qed

section \<open>Lemmas: iterators\<close>

lemma visits_det: "visits nxt r es \<Longrightarrow> visits nxt r es' \<Longrightarrow> es = es'"
proof (induction arbitrary: es' rule: visits.induct)
  case stop
  then show ?case by cases auto
next
  case (step c es e)
  from step.prems show ?case by cases (use step.IH in auto)
qed

text \<open>An iterator that first runs through the elements of a node.\<close>

lemma visits_elements:
  assumes "\<And>i. i < length (elements (node_at t p)) \<Longrightarrow> nxt (p, i) = next_element t (p, i)"
    and "visits nxt (nxt (p, length (elements (node_at t p)))) es" "i \<le> length (elements (node_at t p))"
  shows "visits nxt (nxt (p, i)) (drop i (elements (node_at t p)) @ es)"
  using assms(3)
proof (induction "length (elements (node_at t p)) - i" arbitrary: i)
  case 0
  then show ?case using assms(2) by simp
next
  case (Suc n)
  then have i: "i < length (elements (node_at t p))" by simp
  have "visits nxt (nxt (p, i + 1)) (drop (i + 1) (elements (node_at t p)) @ es)" using Suc by simp
  then have "visits nxt (Some ((p, i + 1), elements (node_at t p) ! i)) (elements (node_at t p) ! i # drop (i + 1) (elements (node_at t p)) @ es)"
    by (rule visits.step)
  moreover have "nxt (p, i) = Some ((p, i + 1), elements (node_at t p) ! i)" using assms(1) [OF i] i by (simp add: next_element_def)
  moreover have "drop i (elements (node_at t p)) = elements (node_at t p) ! i # drop (i + 1) (elements (node_at t p))"
    using Cons_nth_drop_Suc [OF i] by simp
  ultimately show ?case by simp
qed

lemma next_element_end: "next_element t (p, length (elements (node_at t p))) = None"
  by (simp add: next_element_def)

lemma next_element_Some: "i < length (elements (node_at t p)) \<Longrightarrow> next_element t (p, i) \<noteq> None"
  by (simp add: next_element_def)

declare btrie_next_up.simps [simp del] next_down_loop.simps [simp del] next_updown_loop.simps [simp del]
  skip_down_loop.simps [simp del] btrie_delete_maybe.simps [simp del] btrie_add_leaf.simps [simp del]
  longest_match_loop.simps [simp del]

lemma visits_next: "visits (btrie_next t) (btrie_next t (p, 0)) (elements (node_at t p))"
  using visits_elements [of t p "btrie_next t" "[]" 0] by (simp add: btrie_next_def next_element_end visits.stop)

lemma up_elements_snoc: "up_elements t (p @ [d]) = elements (node_at t (p @ [d])) @ up_elements t p"
  by (induction p arbitrary: t) auto

lemma next_up_element: "i < length (elements (node_at t p)) \<Longrightarrow> btrie_next_up t (p, i) = next_element t (p, i)"
  by (simp add: btrie_next_up.simps [of t p i] next_element_def)

lemma next_up_end:
  "btrie_next_up t (p, length (elements (node_at t p))) = (if p = [] then None else btrie_next_up t (butlast p, 0))"
  by (simp add: btrie_next_up.simps [of t p "length (elements (node_at t p))"] next_element_end)

lemma visits_next_up: "visits (btrie_next_up t) (btrie_next_up t (p, 0)) (up_elements t p)"
proof (induction p rule: rev_induct)
  case Nil
  have "visits (btrie_next_up t) (btrie_next_up t ([], 0)) (drop 0 (elements (node_at t [])) @ [])"
    by (rule visits_elements) (use next_up_element [of _ t "[]"] next_up_end [of t "[]"] in \<open>simp_all add: visits.stop\<close>)
  then show ?case by simp
next
  case (snoc d p)
  have "visits (btrie_next_up t) (btrie_next_up t (p @ [d], 0)) (drop 0 (elements (node_at t (p @ [d]))) @ up_elements t p)"
    by (rule visits_elements) (use snoc next_up_element [of _ t "p @ [d]"] next_up_end [of t "p @ [d]"] in simp_all)
  then show ?case by (simp add: up_elements_snoc)
qed

lemma up_entries_elements: "map snd (up_entries pre t p) = up_elements t p"
  by (induction p arbitrary: pre t) (auto simp: comp_def)

lemma deepest_below:
  assumes "wfx pre D t" "deepest pre t [] key pl" "bplen t < pl" "P (nbits pre (bplen t) (bkey t))"
    and "\<And>x. P x \<Longrightarrow> prefix x (kbits key pl)"
  shows "filter (\<lambda>be. P (fst be)) (entries pre t) = map (Pair (nbits pre (bplen t) (bkey t))) (elements t)"
proof -
  define b where "b = nbits pre (bplen t) (bkey t)"
  have t: "t \<noteq> Null" and b: "prefix b (kbits key pl)" using assms(2) by (auto simp: deepest_def b_def)
  let ?c = "child (bitn key (bplen t)) t"
  have c: "?c = Null \<or> \<not> prefix (nbits b (bplen ?c) (bkey ?c)) (kbits key pl)"
    using assms(2,3) by (auto simp: deepest_def Let_def b_def)
  have "filter (\<lambda>be. P (fst be)) (entries b ?c) = []"
  proof (cases "?c = Null")
    case False
    have "\<not> P (fst be)" if "be \<in> set (entries b ?c)" for be
      using c False entries_prefix [OF wfx_child [OF assms(1) t, of "bitn key (bplen t)"], folded b_def, OF that]
        assms(5) prefix_order.trans by blast
    then show ?thesis by (simp add: filter_empty_conv)
  qed simp
  then show ?thesis
    using filter_entries_step [OF assms(1) t b_def b assms(3), of P] assms(4,5) by (auto simp: b_def)
qed

lemma deepest_up:
  assumes "wfx pre D t" "deepest pre t p key pl"
  shows "mset (up_entries pre t p) = mset (filter (\<lambda>be. prefix (fst be) (kbits key pl)) (entries pre t))"
  using assms
proof (induction p arbitrary: pre D t)
  case Nil
  define b where "b = nbits pre (bplen t) (bkey t)"
  have t: "t \<noteq> Null" and b: "prefix b (kbits key pl)" using Nil.prems by (auto simp: deepest_def b_def)
  have len: "length b = bplen t" using length_nbits [OF wfx_hd [OF Nil.prems(1) t]] by (simp add: b_def)
  show ?case
  proof (cases "bplen t = pl")
    case False
    then have "bplen t < pl" using prefix_length_le [OF b] len by simp
    with deepest_below [OF Nil.prems this, of "\<lambda>x. prefix x (kbits key pl)"] b show ?thesis by (simp add: b_def)
  next
    case True
    have "filter (\<lambda>be. prefix (fst be) (kbits key pl)) (entries b (child d t)) = []" for d
    proof (rule filter_entries_child)
      show "wfx b (Some d) (child d t)" using wfx_child [OF Nil.prems(1) t, of d] by (simp add: b_def)
      show "\<not> prefix x (kbits key pl)" if "prefix (b @ [d]) x" for x
        using prefix_length_le [OF that] prefix_length_le [of x "kbits key pl"] len True by auto
    qed
    then show ?thesis using b unfolding entries_eq [OF t, of pre] b_def [symmetric] up_entries.simps
      by (simp add: filter_map comp_def del: mset_filter)
  qed
next
  case (Cons d p)
  have n: "node_at t (d # p) \<noteq> Null" "prefix (bits_at pre t (d # p)) (kbits key pl)" using Cons.prems(2) by (auto simp: deepest_def)
  have t: "t \<noteq> Null" using n(1) by auto
  note k = path_on_key [OF Cons.prems(1) n]
  have "deepest (nbits pre (bplen t) (bkey t)) (child d t) p key pl" using Cons.prems(2) by (simp add: deepest_def)
  with Cons.IH [OF wfx_child [OF Cons.prems(1) t]] show ?case
    using filter_entries_step [OF Cons.prems(1) t refl k(1,2), of "\<lambda>x. prefix x (kbits key pl)"] k(1,3) by simp
qed

lemma up_entries_sorted:
  "wfx pre D t \<Longrightarrow> node_at t p \<noteq> Null \<Longrightarrow>
   sorted_wrt (\<lambda>x y. length (fst y) \<le> length (fst x)) (up_entries pre t p) \<and>
   (\<forall>be \<in> set (up_entries pre t p). bplen t \<le> length (fst be))"
proof (induction p arbitrary: pre D t)
  case Nil
  then have "length (nbits pre (bplen t) (bkey t)) = bplen t" using length_nbits [OF wfx_hd] by auto
  then show ?case by (auto simp: sorted_wrt_map)
next
  case (Cons d p)
  then have t: "t \<noteq> Null" "child d t \<noteq> Null" by auto
  have len: "length (nbits pre (bplen t) (bkey t)) = bplen t" using length_nbits [OF wfx_hd [OF Cons.prems(1) t(1)]] .
  note wc = wfx_child [OF Cons.prems(1) t(1), of d]
  have "bplen t < bplen (child d t)" using wfx_hd [OF wc t(2)] len by (simp add: hd_ok_def)
  with Cons.IH [OF wc] Cons.prems(2) len show ?case
    by (fastforce simp: sorted_wrt_append sorted_wrt_map)
qed

lemma node_at_child: "node_at t (q @ [d]) = child d (node_at t q)"
  by (simp add: node_at_append)

lemma next_down_element:
  "i < length (elements (node_at t q)) \<Longrightarrow> btrie_next_down t len (q, i) = next_element t (q, i)"
  by (simp add: btrie_next_down_def next_down_loop.simps(1) [of t len q i] next_element_def)

lemma next_down_end:
  "node_at t q \<noteq> Null \<Longrightarrow> btrie_next_down t len (q, length (elements (node_at t q))) =
     (if child False (node_at t q) \<noteq> Null then btrie_next_down t len (q @ [False], 0)
      else next_down_loop t len L_right q 0)"
  by (simp add: btrie_next_down_def next_down_loop.simps(1) [of t len q "length (elements (node_at t q))"] next_element_end)

lemma next_down_right:
  "next_down_loop t len L_right q i =
     (if child True (node_at t q) \<noteq> Null then btrie_next_down t len (q @ [True], 0) else next_down_loop t len L_up q 0)"
  by (simp add: btrie_next_down_def next_down_loop.simps(2))

lemma next_down_up:
  "len \<le> bplen (node_at t q) \<Longrightarrow>
   next_down_loop t len L_up (q @ [d]) i = next_down_loop t len (if d then L_up else L_right) q 0"
  by (simp add: next_down_loop.simps(3) [of t len "q @ [d]" i])

lemma visits_safe_elements:
  assumes "\<And>i. i < length (elements (node_at t p)) \<Longrightarrow> nxt (p, i) = Some (next_element t (p, i))"
    and "visits_safe nxt (nxt (p, length (elements (node_at t p)))) es" "i \<le> length (elements (node_at t p))"
  shows "visits_safe nxt (nxt (p, i)) (drop i (elements (node_at t p)) @ es)"
  using assms(3)
proof (induction "length (elements (node_at t p)) - i" arbitrary: i)
  case 0
  then show ?case using assms(2) by simp
next
  case (Suc x)
  then have i: "i < length (elements (node_at t p))" by simp
  have "visits_safe nxt (nxt (p, Suc i)) (drop (Suc i) (elements (node_at t p)) @ es)"
    using Suc.hyps(1) [of "Suc i"] Suc.hyps(2) i by simp
  then have "visits_safe nxt (Some (Some ((p, Suc i), elements (node_at t p) ! i))) (elements (node_at t p) ! i # drop (Suc i) (elements (node_at t p)) @ es)"
    by (rule visits_safe.step_safe)
  then show ?case using i assms(1) by (simp add: next_element_def Cons_nth_drop_Suc [symmetric])
qed

lemma visits_safe_visits:
  assumes "visits_safe (\<lambda>c. Some (nxt c)) r es"
  shows "\<exists>r'. r = Some r' \<and> visits nxt r' es"
  using assms by (induction rule: visits_safe.induct) (auto intro: visits.intros)

text \<open>The walk below a node visits its subtree and goes on with what the step up yields.\<close>

lemma visits_subtree:
  assumes "wfx pre D (node_at t q)" "node_at t q \<noteq> Null" "len \<le> bplen (node_at t q)"
    and "visits_safe nxt (Some (next_down_loop t len L_up q 0)) es"
    and nxt: "\<And>q i. len \<le> bplen (node_at t q) \<Longrightarrow> nxt (q, i) = Some (btrie_next_down t len (q, i))"
  shows "visits_safe nxt (Some (btrie_next_down t len (q, 0))) (map snd (entries pre (node_at t q)) @ es)"
  using assms(1-4)
proof (induction "node_at t q" arbitrary: q pre D es rule: btrie_child_induct)
  case (Node es' n k c0 c1)
  define b where "b = nbits pre n k"
  have n: "node_at t q = Node es' n k c0 c1" using Node.hyps(2) by simp
  note sub = Node.prems(1,3) [unfolded n]
  have w: "wfx b (Some False) c0" "wfx b (Some True) c1" "len \<le> n" "length b = n"
    using sub length_nbits by (auto simp: b_def)
  have at: "node_at t (q @ [False]) = c0" "node_at t (q @ [True]) = c1" using n by (simp_all add: node_at_child)
  have up: "next_down_loop t len L_up (q @ [d]) i = next_down_loop t len (if d then L_up else L_right) q 0" for d i
    by (rule next_down_up) (use n w(3) in simp)
  have below: "len \<le> bplen c" if "wfx b (Some d) c" "c \<noteq> Null" for d c
    using wfx_hd [OF that] w(3,4) by (simp add: hd_ok_def)
  have r: "visits_safe nxt (Some (next_down_loop t len L_right q 0)) (map snd (entries b c1) @ es)"
  proof (cases "c1 = Null")
    case True
    then show ?thesis using Node.prems(4) n by (simp add: next_down_right)
  next
    case False
    then show ?thesis using Node.hyps(1) [of True "q @ [True]" b "Some True" es] at w below [OF w(2) False] Node.prems(4) n up [of True 0]
      by (simp add: next_down_right)
  qed
  have l: "visits_safe nxt (Some (btrie_next_down t len (q, length es')))
    (map snd (entries b c0) @ map snd (entries b c1) @ es)"
  proof (cases "c0 = Null")
    case True
    then show ?thesis using r n next_down_end [of t q len] by simp
  next
    case False
    then show ?thesis
      using Node.hyps(1) [of False "q @ [False]" b "Some False" "map snd (entries b c1) @ es"] at w below [OF w(1) False] r n
        up [of False 0] next_down_end [of t q len] by simp
  qed
  have "visits_safe nxt (nxt (q, 0))
      (drop 0 (elements (node_at t q)) @ map snd (entries b c0) @ map snd (entries b c1) @ es)"
    by (rule visits_safe_elements) (use l n nxt [of q] w(3) next_down_element [of _ t q len] in simp_all)
  then show ?case using n nxt [of q 0] w(3) by (simp add: n b_def [symmetric] comp_def)
qed simp

lemma next_down_stop:
  "q = [] \<or> bplen (node_at t (butlast q)) < len \<Longrightarrow> next_down_loop t len L_up q i = None"
  by (auto simp: next_down_loop.simps(3) [of t len q i])

lemma visits_subtree_all:
  assumes "wfx pre D (node_at t q)" "node_at t q \<noteq> Null" "len \<le> bplen (node_at t q)"
    and "q = [] \<or> bplen (node_at t (butlast q)) < len"
    and "\<And>q i. len \<le> bplen (node_at t q) \<Longrightarrow> nxt (q, i) = Some (btrie_next_down t len (q, i))"
  shows "visits_safe nxt (Some (btrie_next_down t len (q, 0))) (map snd (entries pre (node_at t q)))"
  using visits_subtree [OF assms(1-3), of nxt "[]"] assms(5) next_down_stop [OF assms(4)] by (simp add: stop_safe)

text \<open>A comparison of the first bits of a child's block.\<close>

lemma hd_ok_shorter:
  assumes "hd_ok pre (Some d) n k" "length pre < m" "m \<le> n"
  shows "hd_ok pre (Some d) m k" "prefix (nbits pre m k) (nbits pre n k)"
proof -
  have e: "index (n - 1) = index (length pre)" "index (m - 1) = index (length pre)"
    using assms same_index by (auto simp: hd_ok_def)
  have "[0 ..< n - 32 * index (length pre)] =
      [0 ..< m - 32 * index (length pre)] @ [m - 32 * index (length pre) ..< n - 32 * index (length pre)]"
    using assms(3) by (metis diff_le_mono le0 upt_add_eq_append le_add_diff_inverse)
  then show p: "prefix (nbits pre m k) (nbits pre n k)" unfolding nbits_def e by simp
  have "length (nbits pre m k) = m"
    using assms(2) unfolding nbits_def e by (auto simp: index_def)
  then have "prefix (pre @ [d]) (nbits pre m k)"
    using prefix_length_prefix [OF _ p, of "pre @ [d]"] assms by (auto simp: hd_ok_def)
  then show "hd_ok pre (Some d) m k" using assms by (auto simp: hd_ok_def)
qed

lemma child_matches_eq:
  assumes "hd_ok pre (Some d) n k" "key_ok key pl" "prefix (pre @ [d]) (kbits key pl)" "length pre < m" "m \<le> n" "m \<le> pl"
    and "i = index (length pre) \<or> i = index (m - 1)"
  shows "child_matches k key i m = Some (prefix (nbits pre m k) (kbits key pl))"
proof -
  have "index (m - 1) = index (length pre)" using assms(1,4,5) same_index by (auto simp: hd_ok_def)
  with node_matches_eq [OF hd_ok_shorter(1) [OF assms(1,4,5)] assms(2)] assms show ?thesis
    by (auto simp: on_key_def node_matches_def child_matches_def)
qed

lemma prefix_whole_key:
  assumes "hd_ok pre (Some d) n k" "length pre < pl" "pl \<le> n"
  shows "prefix (nbits pre pl k) (kbits key pl) \<longleftrightarrow> prefix (kbits key pl) (nbits pre n k)"
proof -
  note s = hd_ok_shorter [OF assms]
  have l: "length (nbits pre pl k) = length (kbits key pl)" using length_nbits [OF s(1)] by simp
  show ?thesis
  proof
    assume "prefix (nbits pre pl k) (kbits key pl)"
    then have "nbits pre pl k = kbits key pl" using l by (simp add: prefix_kbits)
    then show "prefix (kbits key pl) (nbits pre n k)" using s(2) by simp
  next
    assume "prefix (kbits key pl) (nbits pre n k)"
    with s(2) l show "prefix (nbits pre pl k) (kbits key pl)" using prefix_length_prefix by fastforce
  qed
qed

text \<open>The entries below the key, from a node on the path of the key.\<close>

lemma path_down:
  assumes "wfx pre D t" "node_at t p \<noteq> Null" "prefix (bits_at pre t p) (kbits key pl)"
  shows "filter (\<lambda>be. prefix (kbits key pl) (fst be)) (entries pre t) =
    filter (\<lambda>be. prefix (kbits key pl) (fst be)) (entries (pbits pre t p) (node_at t p))"
  using assms
proof (induction p arbitrary: pre D t)
  case (Cons d p)
  have t: "t \<noteq> Null" using Cons.prems(2) by auto
  note k = path_on_key [OF Cons.prems]
  have "\<not> prefix (kbits key pl) (nbits pre (bplen t) (bkey t))" using k(2,4) prefix_length_le by fastforce
  with Cons.IH [OF wfx_child [OF Cons.prems(1) t, of d]] Cons.prems(2,3) show ?case
    using filter_entries_step [OF Cons.prems(1) t refl k(1,2), of "prefix (kbits key pl)"] k(3) by simp
qed simp

lemma entries_below_key:
  assumes "wfx b D c" "c \<noteq> Null" "prefix (kbits key pl) (nbits b (bplen c) (bkey c))"
  shows "filter (\<lambda>be. prefix (kbits key pl) (fst be)) (entries b c) = entries b c"
  using entries_prefix [OF assms(1)] assms(3) prefix_order.trans by (fastforce simp: filter_id_conv)

lemma entries_off_key:
  assumes "wfx b D c" "\<not> prefix (kbits key pl) (nbits b (bplen c) (bkey c))"
    and "\<not> prefix (nbits b (bplen c) (bkey c)) (kbits key pl)"
  shows "filter (\<lambda>be. prefix (fst be) (kbits key pl) \<or> prefix (kbits key pl) (fst be)) (entries b c) = []"
    "filter (\<lambda>be. prefix (kbits key pl) (fst be)) (entries b c) = []"
proof -
  have "\<not> prefix (kbits key pl) (fst be) \<and> \<not> prefix (fst be) (kbits key pl)" if "be \<in> set (entries b c)" for be
    using entries_prefix [OF assms(1) that] assms(2,3) prefix_same_cases prefix_order.trans by blast
  then show "filter (\<lambda>be. prefix (fst be) (kbits key pl) \<or> prefix (kbits key pl) (fst be)) (entries b c) = []"
    "filter (\<lambda>be. prefix (kbits key pl) (fst be)) (entries b c) = []"
    by (auto simp: filter_empty_conv)
qed

lemma parent_shorter:
  assumes "btrie_wf t" "node_at t (q @ [d]) \<noteq> Null"
  shows "bplen (node_at t q) < bplen (node_at t (q @ [d]))"
proof -
  have n: "node_at t q \<noteq> Null" "child d (node_at t q) \<noteq> Null" using assms(2) by (auto simp: node_at_child)
  note w = wfx_node_at [OF assms(1) on_path_node_at [OF n(1)]]
  show ?thesis using wfx_hd [OF wfx_child [OF w n(1), of d] n(2)] length_nbits [OF wfx_hd [OF w n(1)]]
    by (simp add: hd_ok_def node_at_child)
qed

lemma prefix_snoc_key: "prefix b (kbits key pl) \<Longrightarrow> length b < pl \<Longrightarrow> prefix (b @ [bitn key (length b)]) (kbits key pl)"
  by (auto simp: prefix_nth nth_append less_Suc_eq)

lemma first_down_node:
  assumes "btrie_wf t" "key_ok key pl"
  shows "\<exists>r. btrie_first_down_node t key pl = Some r \<and>
    (case r of None \<Rightarrow> filter (\<lambda>be. prefix (kbits key pl) (fst be)) (entries [] t) = []
     | Some q \<Rightarrow> node_at t q \<noteq> Null \<and> pl \<le> bplen (node_at t q) \<and> (q = [] \<or> bplen (node_at t (butlast q)) < pl) \<and>
        filter (\<lambda>be. prefix (kbits key pl) (fst be)) (entries [] t) = entries (pbits [] t q) (node_at t q))"
proof -
  obtain p where p: "btrie_node_lookup t key pl = Some p" "deepest [] t p key pl" using btrie_lookup_deepest [OF assms] by blast
  define n b where "n = node_at t p" and "b = bits_at [] t p"
  have n: "n \<noteq> Null" "prefix b (kbits key pl)" using p(2) by (auto simp: deepest_def n_def b_def)
  have w: "wfx (pbits [] t p) (side None p) n" using wfx_node_at [OF assms(1) on_path_node_at] n(1) by (simp add: n_def)
  have len: "length b = bplen n" using length_nbits [OF wfx_hd [OF w n(1)]] by (simp add: b_def n_def bits_at_def)
  note pd = path_down [OF assms(1), of p key pl, folded n_def b_def, OF n]
  show ?thesis
  proof (cases "bplen n = pl")
    case True
    then have "prefix (kbits key pl) b" using n(2) len by (simp add: prefix_kbits)
    then have "filter (\<lambda>be. prefix (kbits key pl) (fst be)) (entries [] t) = entries (pbits [] t p) n"
      using entries_below_key [OF w n(1)] pd by (simp add: b_def n_def bits_at_def)
    moreover have "p = [] \<or> bplen (node_at t (butlast p)) < pl"
      using parent_shorter [OF assms(1), of "butlast p" "last p"] True n(1) by (cases "p = []") (simp_all add: n_def)
    ultimately show ?thesis using p(1) True n(1) by (simp add: btrie_first_down_node_def n_def [symmetric])
  next
    case False
    then have lt: "bplen n < pl" using prefix_length_le [OF n(2)] len by simp
    define d where "d = bitn key (bplen n)"
    define c where "c = child d n"
    have kb: "keybit key (bplen n) = Some d" using keybit_eq [OF assms(2) lt] by (simp add: d_def)
    have wc: "wfx b (Some d) c" using wfx_child [OF w n(1), of d] by (simp add: c_def b_def n_def bits_at_def)
    have nc: "c = Null \<or> \<not> prefix (nbits b (bplen c) (bkey c)) (kbits key pl)"
      using p(2) False by (auto simp: deepest_def Let_def n_def [symmetric] b_def [symmetric] c_def d_def)
    have "\<not> prefix (kbits key pl) b" using lt len prefix_length_le by fastforce
    then have fc: "filter (\<lambda>be. prefix (kbits key pl) (fst be)) (entries [] t) = filter (\<lambda>be. prefix (kbits key pl) (fst be)) (entries b c)"
      using pd filter_entries_step [OF w n(1) _ n(2) lt, of "prefix (kbits key pl)"] by (simp add: b_def n_def bits_at_def c_def d_def)
    have bd: "prefix (b @ [d]) (kbits key pl)" using prefix_snoc_key [OF n(2)] len lt by (simp add: d_def)
    have r: "btrie_first_down_node t key pl =
        (if c = Null \<or> pl \<ge> bplen c then Some None
         else do { m \<leftarrow> child_matches (bkey c) key (index (bplen n)) pl; Some (if m then Some (p @ [d]) else None) })"
      using p(1) False kb by (simp add: btrie_first_down_node_def n_def [symmetric] c_def [symmetric] Let_def)
    show ?thesis
    proof (cases "c = Null \<or> pl \<ge> bplen c")
      case True
      have "filter (\<lambda>be. prefix (kbits key pl) (fst be)) (entries b c) = []"
      proof (cases "c = Null")
        case False
        then have "length (nbits b (bplen c) (bkey c)) \<le> pl" using True length_nbits [OF wfx_hd [OF wc]] by auto
        then have "\<not> prefix (kbits key pl) (nbits b (bplen c) (bkey c))" using nc False by (auto simp: prefix_def)
        then show ?thesis using entries_off_key(2) [OF wc] nc False by blast
      qed simp
      then show ?thesis using r True fc by simp
    next
      case big: False
      then have h: "hd_ok b (Some d) (bplen c) (bkey c)" "length b < pl" "pl \<le> bplen c" using wfx_hd [OF wc] lt len by auto
      have m: "child_matches (bkey c) key (index (bplen n)) pl = Some (prefix (kbits key pl) (nbits b (bplen c) (bkey c)))"
        using child_matches_eq [OF h(1) assms(2) bd h(2,3)] len by (simp add: prefix_whole_key [OF h])
      have "node_at t (p @ [d]) = c" "pbits [] t (p @ [d]) = b" by (simp_all add: node_at_child c_def n_def pbits_append b_def bits_at_def)
      then show ?thesis using r big fc m entries_below_key [OF wc, of key pl] entries_off_key(2) [OF wc, of key pl] nc lt
        by (auto simp: n_def)
    qed
  qed
qed

lemma first_down_visits:
  assumes "btrie_wf t" "key_ok key pl"
  shows "\<exists>r. btrie_first_down t key pl = Some r \<and>
    visits (btrie_next_down t pl) r (map snd (filter (\<lambda>be. prefix (kbits key pl) (fst be)) (entries [] t)))"
proof -
  obtain r where r: "btrie_first_down_node t key pl = Some r" and c: "case r of None \<Rightarrow> filter (\<lambda>be. prefix (kbits key pl) (fst be)) (entries [] t) = []
     | Some q \<Rightarrow> node_at t q \<noteq> Null \<and> pl \<le> bplen (node_at t q) \<and> (q = [] \<or> bplen (node_at t (butlast q)) < pl) \<and>
        filter (\<lambda>be. prefix (kbits key pl) (fst be)) (entries [] t) = entries (pbits [] t q) (node_at t q)"
    using first_down_node [OF assms] by blast
  show ?thesis
  proof (cases r)
    case None
    then show ?thesis using r c by (simp add: btrie_first_down_def visits.stop)
  next
    case (Some q)
    note q = c [unfolded Some option.case]
    have "visits_safe (\<lambda>c. Some (btrie_next_down t pl c)) (Some (btrie_next_down t pl (q, 0))) (map snd (entries (pbits [] t q) (node_at t q)))"
      using visits_subtree_all [OF wfx_node_at [OF assms(1) on_path_node_at], of q pl "\<lambda>c. Some (btrie_next_down t pl c)"] q by simp
    from visits_safe_visits [OF this] show ?thesis using r q Some by (simp add: btrie_first_down_def)
  qed
qed

lemma updown_element:
  "i < length (elements (node_at t q)) \<Longrightarrow> bplen (node_at t q) < pl \<Longrightarrow> btrie_next_updown t key pl (q, i) = Some (next_element t (q, i))"
  by (simp add: btrie_next_updown_def next_updown_loop.simps [of t key pl q i] next_element_def)

lemma updown_visits:
  assumes "wfx pre D (node_at t q)" "node_at t q \<noteq> Null" "key_ok key pl" "bplen (node_at t q) < pl"
    and "prefix (nbits pre (bplen (node_at t q)) (bkey (node_at t q))) (kbits key pl)"
  shows "visits_safe (btrie_next_updown t key pl) (btrie_next_updown t key pl (q, 0))
    (map snd (filter (related key pl) (entries pre (node_at t q))))"
  using assms(1,2,4,5)
proof (induction "node_at t q" arbitrary: q pre D rule: btrie_child_induct)
  case (Node es n k c0 c1)
  define nd b where "nd = node_at t q" and "b = nbits pre (bplen (node_at t q)) (bkey (node_at t q))"
  note P = Node.prems [folded nd_def b_def]
  define d where "d = bitn key (bplen nd)"
  define c where "c = child d nd"
  let ?nx = "btrie_next_updown t key pl" and ?e = "length (elements nd)"
  have len: "length b = bplen nd" using length_nbits [OF wfx_hd [OF P(1,2)]] by (simp add: b_def nd_def)
  have kb: "keybit key (bplen nd) = Some d" using keybit_eq [OF assms(3) P(3)] by (simp add: d_def)
  have wc: "wfx b (Some d) c" using wfx_child [OF P(1,2), of d] by (simp add: c_def b_def nd_def)
  have bd: "prefix (b @ [d]) (kbits key pl)" using prefix_snoc_key [OF P(4)] len P(3) by (simp add: d_def)
  have at: "node_at t (q @ [d]) = c" by (simp add: node_at_child c_def nd_def)
  have fs: "filter (related key pl) (entries pre nd) = map (Pair b) (elements nd) @ filter (related key pl) (entries b c)"
    using filter_entries_step [OF P(1,2) b_def [folded nd_def] P(4,3), of "\<lambda>x. prefix x (kbits key pl) \<or> prefix (kbits key pl) x"] P(4)
    by (simp add: related_def [abs_def] c_def d_def)
  have e: "?nx (q, ?e) = (if c = Null then Some None
      else if bplen c \<ge> pl then (case child_matches (bkey c) key (index (pl - 1)) pl of None \<Rightarrow> None
        | Some m \<Rightarrow> Some (if m then btrie_next_down t pl (q @ [d], 0) else None))
      else (case child_matches (bkey c) key (index (bplen c - 1)) (bplen c) of None \<Rightarrow> None
        | Some m \<Rightarrow> if m then ?nx (q @ [d], 0) else Some None))"
    using P(3) kb at next_element_end [of t q]
    by (simp add: btrie_next_updown_def next_updown_loop.simps [of t key pl q] nd_def [symmetric] c_def [symmetric] Let_def split: option.split)
  have "visits_safe ?nx (?nx (q, ?e)) (map snd (filter (related key pl) (entries b c)))"
  proof (cases "c = Null")
    case False
    note h = wfx_hd [OF wc False]
    have lc: "length b < bplen c" "length (nbits b (bplen c) (bkey c)) = bplen c" using h length_nbits [OF h] by (auto simp: hd_ok_def)
    show ?thesis
    proof (cases "bplen c \<ge> pl")
      case True
      have m: "child_matches (bkey c) key (index (pl - 1)) pl = Some (prefix (kbits key pl) (nbits b (bplen c) (bkey c)))"
        using child_matches_eq [OF h assms(3) bd _ True order_refl] prefix_whole_key [OF h _ True] len P(3) by simp
      show ?thesis
      proof (cases "prefix (kbits key pl) (nbits b (bplen c) (bkey c))")
        case pk: True
        have "filter (related key pl) (entries b c) = entries b c"
          using entries_prefix [OF wc] pk prefix_order.trans by (fastforce simp: filter_id_conv related_def)
        moreover have "visits_safe ?nx (Some (btrie_next_down t pl (q @ [d], 0))) (map snd (entries b (node_at t (q @ [d]))))"
          by (rule visits_subtree_all [where D = "Some d"]) (use at wc False True P(3) in \<open>auto simp: btrie_next_updown_def nd_def\<close>)
        ultimately show ?thesis using e False True m pk at by simp
      next
        case np: False
        have "\<not> prefix (nbits b (bplen c) (bkey c)) (kbits key pl)"
          using np True lc(2) by (auto simp: prefix_kbits)
        from entries_off_key(1) [OF wc np this] show ?thesis
          using e False True m np by (simp add: related_def [abs_def] stop_safe)
      qed
    next
      case short: False
      have m: "child_matches (bkey c) key (index (bplen c - 1)) (bplen c) = Some (prefix (nbits b (bplen c) (bkey c)) (kbits key pl))"
        using child_matches_eq [OF h assms(3) bd lc(1) order_refl] short by simp
      show ?thesis
      proof (cases "prefix (nbits b (bplen c) (bkey c)) (kbits key pl)")
        case True
        then show ?thesis using Node.hyps(1) [of d "q @ [d]" b "Some d"] Node.hyps(2) at wc False short e m by (simp add: c_def nd_def)
      next
        case np: False
        have "\<not> prefix (kbits key pl) (nbits b (bplen c) (bkey c))" using prefix_length_le lc(2) short by fastforce
        from entries_off_key(1) [OF wc this np] show ?thesis
          using e False short m np by (simp add: related_def [abs_def] stop_safe)
      qed
    qed
  qed (use e in \<open>simp add: stop_safe\<close>)
  then have "visits_safe ?nx (?nx (q, 0)) (drop 0 (elements (node_at t q)) @ map snd (filter (related key pl) (entries b c)))"
    by (intro visits_safe_elements) (use updown_element [of _ t q pl key] P(3) in \<open>simp_all add: nd_def\<close>)
  then show ?case using fs by (simp add: nd_def comp_def)
qed simp

lemma first_updown_visits:
  assumes "btrie_wf t" "key_ok key pl"
  shows "visits_safe (btrie_next_updown t key pl) (btrie_first_updown t key pl)
    (map snd (filter (related key pl) (entries [] t)))"
proof -
  have "t \<noteq> Null" using assms(1) by auto
  with wfx_hd [OF assms(1)] have t: "t \<noteq> Null" "bplen t = 0" by (auto simp: hd_ok_def)
  then have n: "nbits [] (bplen t) (bkey t) = []" by (simp add: nbits_def index_def)
  show ?thesis
  proof (cases "pl = 0")
    case True
    have "filter (related key pl) (entries [] t) = entries [] t" using True by (simp add: filter_id_conv related_def kbits_def)
    moreover have "visits_safe (btrie_next_updown t key pl) (Some (btrie_next_down t pl ([], 0))) (map snd (entries [] (node_at t [])))"
      by (rule visits_subtree_all [where D = None]) (use assms(1) t True in \<open>auto simp: btrie_next_updown_def\<close>)
    ultimately show ?thesis using True by (simp add: btrie_first_updown_def btrie_next_updown_def)
  next
    case False
    then show ?thesis using updown_visits [of "[]" None t "[]" key pl] assms t n by (simp add: btrie_first_updown_def)
  qed
qed

section \<open>Lemmas: insertion and deletion\<close>

lemma set_child_simps:
  "t \<noteq> Null \<Longrightarrow> elements (set_child d c t) = elements t" "t \<noteq> Null \<Longrightarrow> bplen (set_child d c t) = bplen t"
  "t \<noteq> Null \<Longrightarrow> bkey (set_child d c t) = bkey t" "set_child d c t = Null \<longleftrightarrow> t = Null"
  "t \<noteq> Null \<Longrightarrow> child d' (set_child d c t) = (if d' = d then c else child d' t)"
  by (cases t; auto simp: set_child_def child_def)+

lemma entries_set_child:
  assumes "t \<noteq> Null"
  shows "mset (entries pre (set_child d c t)) + mset (entries (nbits pre (bplen t) (bkey t)) (child d t)) =
    mset (entries pre t) + mset (entries (nbits pre (bplen t) (bkey t)) c)"
  using assms by (cases t; cases d) (simp_all add: set_child_def child_def)

lemma wfx_set_child:
  "wfx pre D t \<Longrightarrow> t \<noteq> Null \<Longrightarrow> wfx (nbits pre (bplen t) (bkey t)) (Some d) c \<Longrightarrow> wfx pre D (set_child d c t)"
  by (cases t; cases d) (simp_all add: set_child_def)

lemma entries_set_at:
  "on_path t p \<Longrightarrow> mset (entries pre (set_at t p s)) + mset (entries (pbits pre t p) (node_at t p)) =
    mset (entries pre t) + mset (entries (pbits pre t p) s)"
proof (induction p arbitrary: pre t)
  case (Cons d p)
  then have t: "t \<noteq> Null" by simp
  let ?b = "nbits pre (bplen t) (bkey t)"
  note e = entries_set_child [OF t, of pre d "set_at (child d t) p s"]
  note ih = Cons.IH [of "child d t" ?b]
  have "mset (entries ?b (set_at (child d t) p s)) + mset (entries (pbits ?b (child d t) p) (node_at (child d t) p)) =
      mset (entries ?b (child d t)) + mset (entries (pbits ?b (child d t) p) s)"
    using ih Cons.prems by simp
  from arg_cong2 [OF e this, of "(+)"] show ?case by (simp add: ac_simps)
qed simp

lemma wfx_set_at:
  "wfx pre D t \<Longrightarrow> on_path t p \<Longrightarrow> wfx (pbits pre t p) (side D p) s \<Longrightarrow> wfx pre D (set_at t p s)"
  by (induction p arbitrary: pre D t) (auto intro!: wfx_set_child intro: wfx_child)

text \<open>A subtree may hang from any ancestor in the block in which its parent ends.\<close>

lemma nbits_cong:
  assumes "32 * index (n - 1) \<le> length b" "prefix b b'"
  shows "nbits b' n k = nbits b n k"
  using assms by (auto simp: nbits_def prefix_def)

lemma entries_cong: "(c \<noteq> Null \<Longrightarrow> nbits b' (bplen c) (bkey c) = nbits b (bplen c) (bkey c)) \<Longrightarrow> entries b' c = entries b c"
  by (cases c) auto

lemma wfx_cong:
  "c \<noteq> Null \<Longrightarrow> nbits b' (bplen c) (bkey c) = nbits b (bplen c) (bkey c) \<Longrightarrow> hd_ok b' D' (bplen c) (bkey c) \<Longrightarrow>
   wfx b D c \<Longrightarrow> wfx b' D' c"
  by (cases c) auto

lemma lift_subtree:
  assumes "hd_ok pre (Some d) n k" "remain n \<noteq> 0" "wfx (nbits pre n k) (Some d') c" "c \<noteq> Null"
  shows "entries (nbits pre n k) c = entries pre c" "wfx pre (Some d) c"
proof -
  let ?b = "nbits pre n k"
  have b: "length ?b = n" "prefix (pre @ [d]) ?b" "length pre < n" "n \<le> 32 * (index (length pre) + 1)"
    using assms(1) length_nbits [OF assms(1)] by (auto simp: hd_ok_def)
  have "n \<noteq> 32 * (index (length pre) + 1)" using assms(2) by (auto simp: remain_def)
  with b(3,4) have "32 * index (length pre) \<le> n" "n < 32 * (index (length pre) + 1)" by (auto simp: index_def)
  then have i: "index n = index (length pre)" unfolding index_def [of n] by (intro div_nat_eqI) simp_all
  note h = wfx_hd [OF assms(3,4)]
  have c: "n < bplen c" "bplen c \<le> 32 * (index (length pre) + 1)" "prefix (?b @ [d']) (nbits ?b (bplen c) (bkey c))"
    using h i b(1) by (auto simp: hd_ok_def)
  have "index (bplen c - 1) = index (length pre)" using same_index [of "length pre" "bplen c"] b(3) c by simp
  then have e: "nbits ?b (bplen c) (bkey c) = nbits pre (bplen c) (bkey c)"
    using nbits_cong [of "bplen c" pre ?b] append_prefixD [OF b(2)] by (simp add: index_def)
  show "entries ?b c = entries pre c" by (rule entries_cong) (rule e)
  have "prefix (pre @ [d]) (nbits pre (bplen c) (bkey c))" using b(2) append_prefixD [OF c(3)] e prefix_order.trans by metis
  then have "hd_ok pre (Some d) (bplen c) (bkey c)" using b(3) c(1,2) by (simp add: hd_ok_def)
  then show "wfx pre (Some d) c" by (rule wfx_cong [OF assms(4) e [symmetric] _ assms(3)])
qed

lemma delete_maybe_step:
  assumes "wfx pre (Some d) s" "s = Node [] n k c0 c1" "c0 = Null \<or> c1 = Null" "o' = (if c0 \<noteq> Null then c0 else c1)"
    and "o' = Null \<or> remain n \<noteq> 0"
  shows "wfx pre (Some d) o'" "entries pre o' = entries pre s"
proof -
  have w: "hd_ok pre (Some d) n k" "wfx (nbits pre n k) (Some False) c0" "wfx (nbits pre n k) (Some True) c1"
    using assms(1,2) by auto
  show "wfx pre (Some d) o'"
  proof (cases "o' = Null")
    case False
    then show ?thesis using assms(4,5) lift_subtree(2) [OF w(1) _ w(2)] lift_subtree(2) [OF w(1) _ w(3)] by auto
  qed simp
  show "entries pre o' = entries pre s"
    using assms(2-5) lift_subtree(1) [OF w(1) _ w(2)] lift_subtree(1) [OF w(1) _ w(3)]
    by (cases "c0 = Null"; cases "c1 = Null") auto
qed

lemma on_path_set_at: "on_path t p \<Longrightarrow> on_path (set_at t p s) (butlast p)"
proof (induction p arbitrary: t)
  case (Cons d p)
  then show ?case by (cases "p = []") (auto simp: set_child_simps)
qed simp

lemma delete_maybe:
  "btrie_wf t \<Longrightarrow> on_path t p \<Longrightarrow> btrie_wf (btrie_delete_maybe t p) \<and>
   mset (entries [] (btrie_delete_maybe t p)) = mset (entries [] t)"
proof (induction "length p" arbitrary: t p rule: less_induct)
  case less
  let ?s = "node_at t p"
  show ?case
  proof (cases "\<exists>n k c0 c1. ?s = Node [] n k c0 c1 \<and> p \<noteq> [] \<and> (c0 = Null \<or> c1 = Null) \<and>
      \<not> ((if c0 \<noteq> Null then c0 else c1) \<noteq> Null \<and> remain n = 0)")
    case False
    then have "btrie_delete_maybe t p = t"
      by (cases ?s) (fastforce simp: btrie_delete_maybe.simps [of t p] Let_def)+
    then show ?thesis using less.prems by simp
  next
    case True
    then obtain n k c0 c1 where s: "?s = Node [] n k c0 c1" "p \<noteq> []" "c0 = Null \<or> c1 = Null"
        "\<not> ((if c0 \<noteq> Null then c0 else c1) \<noteq> Null \<and> remain n = 0)" by blast
    define o' where "o' = (if c0 \<noteq> Null then c0 else c1)"
    have w: "wfx (pbits [] t p) (Some (last p)) ?s" using wfx_node_at [OF less.prems] s(2) by (simp add: side_def)
    note st = delete_maybe_step [OF w s(1,3) o'_def] 
    have st': "wfx (pbits [] t p) (Some (last p)) o'" "entries (pbits [] t p) o' = entries (pbits [] t p) ?s"
      using st s(4) by (auto simp: o'_def)
    let ?t = "set_at t p o'"
    have t: "btrie_wf ?t" "mset (entries [] ?t) = mset (entries [] t)"
      using wfx_set_at [OF less.prems] entries_set_at [OF less.prems(2), of "[]" o'] st' s(2) by (auto simp: side_def)
    have r: "btrie_delete_maybe t p = (if o' \<noteq> Null then ?t else btrie_delete_maybe ?t (butlast p))"
      using s by (auto simp: btrie_delete_maybe.simps [of t p] Let_def o'_def split: if_splits)
    have "on_path ?t (butlast p)" by (rule on_path_set_at [OF less.prems(2)])
    then show ?thesis using less.hyps [of "butlast p" ?t] t r s(2) by auto
  qed
qed

text \<open>The chain of new nodes down to a key.\<close>

lemma keyword_key:
  assumes "key_ok key pl" "i < pl"
  obtains w where "keyword key (index i) = Some w" "\<And>j. j < 32 \<Longrightarrow> bit w (31 - j) = bitn key (32 * index i + j)"
  using keyword_bits [OF key_ok_keyword [OF assms]] by blast

lemma nbits_key:
  assumes "keyword key (index m) = Some w" "\<And>j. j < 32 \<Longrightarrow> bit w (31 - j) = bitn key (32 * index m + j)"
    and "m < n" "n \<le> 32 * (index m + 1)"
  shows "nbits (kbits key m) n w = kbits key n" "hd_ok (kbits key m) (Some (bitn key m)) n w"
proof -
  have i: "index (n - 1) = index m" using same_index assms(3,4) by blast
  have q: "32 * index m \<le> m" by (simp add: index_def)
  show e: "nbits (kbits key m) n w = kbits key n"
  proof (rule nth_equalityI)
    show l: "length (nbits (kbits key m) n w) = length (kbits key n)" using assms(3) q unfolding nbits_def i by simp
    fix r assume "r < length (nbits (kbits key m) n w)"
    then have r: "r < n" using l by simp
    show "nbits (kbits key m) n w ! r = kbits key n ! r"
    proof (cases "r < 32 * index m")
      case True
      then show ?thesis using r q unfolding nbits_def i by (simp add: nth_append)
    next
      case False
      then have "[0 ..< n - 32 * index m] ! (r - 32 * index m) = r - 32 * index m" using r by (subst nth_upt) auto
      with False show ?thesis using r q assms(2) [of "r - 32 * index m"] assms(4) unfolding nbits_def i by (simp add: nth_append)
    qed
  qed
  have "prefix (kbits key m @ [bitn key m]) (kbits key n)" using prefix_snoc_key [of "kbits key m" key n] assms(3)
    by (simp add: prefix_nth)
  then show "hd_ok (kbits key m) (Some (bitn key m)) n w" using assms(3,4) e by (simp add: hd_ok_def)
qed

lemma add_leaf:
  assumes "key_ok key pl" "m < pl"
  shows "\<exists>r :: ('a btrie \<times> path) + ('a btrie \<times> path). btrie_add_leaf mem m key pl = Some r \<and> leaf_ok mem key pl m r"
  using assms(2)
proof (induction mem arbitrary: m)
  case 0
  then show ?case by (simp add: btrie_add_leaf.simps [of 0] leaf_ok_def)
next
  case (Suc mem)
  obtain w where w: "keyword key (index m) = Some w" "\<And>j. j < 32 \<Longrightarrow> bit w (31 - j) = bitn key (32 * index m + j)"
    using keyword_key [OF assms(1) Suc.prems] by blast
  show ?case
  proof (cases "index (pl - 1) = index m")
    case True
    have "pl \<le> 32 * (index m + 1)" using True by (simp add: index_def)
    note nb = nbits_key [OF w Suc.prems this]
    then show ?thesis using True w(1) by (simp add: btrie_add_leaf.simps [of "Suc mem"] Let_def leaf_ok_def)
  next
    case False
    define n where "n = (index m + 1) * 32"
    have n: "m < n" "n \<le> 32 * (index m + 1)" "index n = index m + 1" by (simp_all add: n_def index_def)
    have "index m \<le> index (pl - 1)" unfolding index_def by (rule div_le_mono) (use Suc.prems in simp)
    then have ip: "index m < index (pl - 1)" using False by simp
    then have "n \<le> pl - 1" unfolding n_def index_def by (simp add: less_eq_div_iff_mult_less_eq)
    then have npl: "n < pl" using Suc.prems by simp
    obtain w1 where w1: "keyword key (index n) = Some w1" "\<And>j. j < 32 \<Longrightarrow> bit w1 (31 - j) = bitn key (32 * index n + j)"
      using keyword_key [OF assms(1) npl] by blast
    have b: "w1 AND 0x80000000 \<noteq> 0 \<longleftrightarrow> bitn key n"
      using w1(2) [of 0] n(3) nthbit_bit [of 0 w1] by (simp add: nthbit_def n_def mult.commute)
    note nb = nbits_key [OF w n(1,2)]
    obtain r :: "('a btrie \<times> path) + ('a btrie \<times> path)" where r: "btrie_add_leaf mem n key pl = Some r" "leaf_ok mem key pl n r"
      using Suc.IH [OF npl] by blast
    define f where "f = (\<lambda>(c :: 'a btrie, p). (set_child (bitn key n) c (Node [] n w Null Null), bitn key n # p))"
    have e: "btrie_add_leaf (Suc mem) m key pl = Some (map_sum f f r)"
      using False w(1) w1(1) n(3) b r(1)
      by (cases r) (auto simp: btrie_add_leaf.simps [of "Suc mem" m] Let_def n_def f_def)
    have "leaf_ok (Suc mem) key pl m (map_sum f f r)"
      using r(2) nb ip n(3)
      by (cases "bitn key n"; cases r) (auto simp: leaf_ok_def f_def set_child_def split: if_splits)
    then show ?thesis using e by blast
  qed
qed

text \<open>The longest match of a key with a node whose string does not start the key.\<close>

lemma drop_mask: "r < 31 \<Longrightarrow> drop_bit 1 (NOT (kmask r)) = NOT (kmask (r + 1))"
  by (rule bit_word_eqI) (auto simp: bit_drop_bit_eq bit_not_iff bit_kmask)

lemma mask_inj: "r < 32 \<Longrightarrow> s < 32 \<Longrightarrow> NOT (kmask r) = NOT (kmask s) \<longleftrightarrow> r = s"
proof
  assume rs: "r < 32" "s < 32" and e: "NOT (kmask r) = NOT (kmask s)"
  then have k: "kmask r = kmask s" by (metis bit.double_compl)
  have "bit (kmask r) (31 - r) = bit (kmask s) (31 - r)" "bit (kmask r) (31 - s) = bit (kmask s) (31 - s)" using k by simp_all
  then show "r = s" using rs by (auto simp: bit_kmask)
qed simp

lemma mask_full: "r < 32 \<Longrightarrow> NOT (kmask r) = 0 \<longleftrightarrow> r = 31"
proof -
  assume "r < 32"
  moreover have "kmask 31 = - 1" by (simp add: kmask_def)
  ultimately show ?thesis using mask_inj [of r 31] by simp
qed

lemma longest_match_loop:
  assumes "r \<le> R" "R < 32" "\<And>j. j \<le> r \<Longrightarrow> bit w (31 - j) = bit k (31 - j)"
  shows "\<exists>r'. longest_match_loop (w XOR k) (NOT (kmask r)) (NOT (kmask R)) (q + r + 1) = q + r' + 1 \<and> r \<le> r' \<and> r' \<le> R \<and>
    (\<forall>j \<le> r'. bit w (31 - j) = bit k (31 - j)) \<and>
    (r' = R \<or> r' + 1 = 31 \<or> bit w (31 - (r' + 1)) \<noteq> bit k (31 - (r' + 1)))"
  using assms(1,3)
proof (induction "R - r" arbitrary: r)
  case 0
  then have "r = R" by simp
  then show ?case using 0 by (intro exI [of _ r]) (simp add: longest_match_loop.simps)
next
  case (Suc x)
  have r: "r < R" "r < 31" using Suc.hyps(2) assms(2) by auto
  have n: "NOT (kmask r) \<noteq> NOT (kmask R)" using mask_inj [of r R] r assms(2) by simp
  define A where "A \<longleftrightarrow> (\<forall>j \<le> r + 1. bit w (31 - j) = bit k (31 - j))"
  have step: "longest_match_loop (w XOR k) (NOT (kmask r)) (NOT (kmask R)) (q + r + 1) =
    (if r + 1 \<noteq> 31 \<and> A
     then longest_match_loop (w XOR k) (NOT (kmask (r + 1))) (NOT (kmask R)) (q + (r + 1) + 1) else q + r + 1)"
    using n r drop_mask [of r] mask_full [of "r + 1"] masked_eq [of "r + 1" w k, folded A_def]
    by (simp add: longest_match_loop.simps [of "w XOR k" "NOT (kmask r)"] Let_def)
  show ?case
  proof (cases "r + 1 \<noteq> 31 \<and> A")
    case True
    then obtain r' where "longest_match_loop (w XOR k) (NOT (kmask (r + 1))) (NOT (kmask R)) (q + (r + 1) + 1) = q + r' + 1 \<and> r + 1 \<le> r' \<and> r' \<le> R \<and>
      (\<forall>j \<le> r'. bit w (31 - j) = bit k (31 - j)) \<and> (r' = R \<or> r' + 1 = 31 \<or> bit w (31 - (r' + 1)) \<noteq> bit k (31 - (r' + 1)))"
      using Suc.hyps(1) [of "r + 1"] Suc.hyps(2) r by (force simp: A_def)
    then show ?thesis using step True by (intro exI [of _ r']) auto
  next
    case False
    then have "r + 1 = 31 \<or> bit w (31 - (r + 1)) \<noteq> bit k (31 - (r + 1))"
      using Suc.prems(2) by (auto simp: A_def le_Suc_eq)
    then show ?thesis using step False r Suc.prems(2) by (intro exI [of _ r]) auto
  qed
qed

lemma longest_match_node:
  assumes h: "hd_ok (kbits key m) (Some (bitn key m)) n k" and key: "key_ok key pl" "m < pl"
    and no: "\<not> prefix (nbits (kbits key m) n k) (kbits key pl)"
  defines "b \<equiv> nbits (kbits key m) n k"
  shows "\<exists>L. btrie_longest_match_node n k key pl (m + 1) = Some L \<and> m < L \<and> L < n \<and> L \<le> pl \<and>
    prefix (kbits key L) b \<and> (L < pl \<longrightarrow> b ! L \<noteq> bitn key L)"
proof -
  let ?q = "index m"
  note no = no [folded b_def]
  define M where "M = (if pl < n then pl else n)"
  obtain w where w: "keyword key ?q = Some w" "\<And>j. j < 32 \<Longrightarrow> bit w (31 - j) = bitn key (32 * ?q + j)"
    using keyword_key [OF key] by blast
  have n: "m < n" "n \<le> 32 * (?q + 1)" "prefix (kbits key m @ [bitn key m]) b" "length b = n"
    using h length_nbits [OF h] by (auto simp: hd_ok_def b_def)
  have M: "m < M" "M \<le> n" "M \<le> pl" using n key by (auto simp: M_def)
  have i: "index (M - 1) = ?q" using same_index [of m M] M n by simp
  define r R where "r = remain m" and "R = remain (M - 1)"
  have mr: "m = 32 * ?q + r" "r < 32" "M = 32 * ?q + R + 1" "R < 32"
    using index_remain [of m] index_remain [of "M - 1"] i M(1) by (simp_all add: r_def R_def)
  have bk: "b ! (32 * ?q + j) = bit k (31 - j)" if "32 * ?q + j < n" for j
  proof -
    have "remain (32 * ?q + j) = j" using that n(2) by (simp add: remain_def)
    then show ?thesis using nbits_nth [OF h that] by (simp add: b_def index_def)
  qed
  have low: "b ! j = bitn key j" if "j \<le> m" for j
    using n(3) that by (auto simp: prefix_nth nth_append less_Suc_eq le_less dest!: spec [of _ j])
  have agree: "bit w (31 - j) = bit k (31 - j)" if "j \<le> r" for j
    using w(2) [of j] bk [of j] low [of "32 * ?q + j"] that mr n(1) by simp
  obtain r' where r': "longest_match_loop (w XOR k) (NOT (kmask r)) (NOT (kmask R)) (32 * ?q + r + 1) = 32 * ?q + r' + 1"
      "r \<le> r'" "r' \<le> R" "\<forall>j \<le> r'. bit w (31 - j) = bit k (31 - j)"
      "r' = R \<or> r' + 1 = 31 \<or> bit w (31 - (r' + 1)) \<noteq> bit k (31 - (r' + 1))"
    using longest_match_loop [of r R w k "32 * ?q"] agree mr M(1) by auto
  define L where "L = 32 * ?q + r' + 1"
  have L: "m < L" "L \<le> M" using r' mr by (auto simp: L_def)
  have eq: "b ! j = bitn key j" if "j < L" for j
  proof (cases "j \<le> m")
    case False
    then obtain j' where j': "j = 32 * ?q + j'" using mr(1) nat_le_iff_add [of "32 * ?q" j] by auto
    then show ?thesis using that r'(3,4) bk [of j'] w(2) [of j'] mr(4) L(2) M(2) by (simp add: L_def)
  qed (rule low)
  have full: "L < n" if "j < n \<longrightarrow> True" for j :: nat
  proof (rule ccontr)
    assume "\<not> L < n"
    then have "L = n" "n \<le> pl" using L(2) M by auto
    then show False using no eq n(4) by (auto simp: prefix_nth)
  qed
  have "prefix (kbits key L) b" using eq L(2) M(2) n(4) by (simp add: prefix_nth)
  moreover have "b ! L \<noteq> bitn key L" if "L < pl"
  proof (cases "r' = R")
    case True
    then show ?thesis using that full mr(3) by (auto simp: L_def M_def split: if_splits)
  next
    case False
    show ?thesis
    proof
      assume e: "b ! L = bitn key L"
      have "b ! L = bit k (31 - (r' + 1))" "bitn key L = bit w (31 - (r' + 1))"
        using bk [of "r' + 1"] w(2) [of "r' + 1"] full False r'(3) mr(4) by (simp_all add: L_def)
      then have "r' + 1 = 31" using r'(5) False e by simp
      then have "R = 31" using False r'(3) mr(4) by simp
      then have "n = L + 1" "n = M" using mr(3) M(2) n(2) \<open>r' + 1 = 31\<close> by (simp_all add: L_def)
      then show False using no eq e M(3) n(4) by (auto simp: prefix_nth less_Suc_eq)
    qed
  qed
  moreover have "btrie_longest_match_node n k key pl (m + 1) = Some L"
    using w(1) r'(1) index_remain(1) [of m]
    by (simp add: btrie_longest_match_node_def Let_def M_def [symmetric] r_def R_def L_def)
  ultimately show ?thesis using L M(3) full by auto
qed

lemma solve_conflict:
  fixes s :: "'a btrie"
  assumes w: "wfx (kbits key m) (Some (bitn key m)) s" and s: "s \<noteq> Null" and key: "key_ok key pl" "m < pl"
    and no: "\<not> prefix (nbits (kbits key m) (bplen s) (bkey s)) (kbits key pl)"
  shows "\<exists>r. btrie_solve_conflict mem s key pl (m + 1) = Some r \<and> add_ok s (kbits key m) (Some (bitn key m)) key pl r \<and>
    (isl r \<longrightarrow> mem \<le> index (pl - 1) - index m + 1)"
proof -
  let ?B = "kbits key m" and ?n = "bplen s" and ?k = "bkey s"
  let ?b = "nbits ?B ?n ?k"
  note h = wfx_hd [OF w s]
  obtain L where L: "btrie_longest_match_node ?n ?k key pl (m + 1) = Some L" "m < L" "L < ?n" "L \<le> pl"
      "prefix (kbits key L) ?b" "L < pl \<longrightarrow> ?b ! L \<noteq> bitn key L"
    using longest_match_node [OF h key no] by blast
  have n: "?n \<le> 32 * (index m + 1)" using h by (simp add: hd_ok_def)
  have iL: "index (L - 1) = index m" "index L = index m" "index (?n - 1) = index m"
    using same_index [of m L] same_index [of m "L + 1"] same_index [of m ?n] L(2,3) n by simp_all
  obtain u where u: "keyword key (index m) = Some u" "\<And>j. j < 32 \<Longrightarrow> bit u (31 - j) = bitn key (32 * index m + j)"
    using keyword_key [OF key] by blast
  have nb: "nbits ?B L u = kbits key L" "hd_ok ?B (Some (bitn key m)) L u"
    using nbits_key [OF u L(2)] L(3) n by auto
  define d where "d = nthbit ?k (remain L)"
  have d: "d = ?b ! L" using nbits_nth [OF h L(3)] iL(2) index_remain [of L] index_remain [of m]
    by (auto simp: d_def nthbit_bit index_def)
  have e: "nbits (kbits key L) ?n ?k = ?b"
    using nbits_cong [of ?n ?B "kbits key L"] iL(3) L(2) by (simp add: index_def prefix_kbits)
  have "prefix (kbits key L @ [d]) ?b" using L(3,5) length_nbits [OF h] d by (auto simp: prefix_nth nth_append less_Suc_eq)
  then have "hd_ok (kbits key L) (Some d) ?n ?k" using L(3) n iL(2) e by (simp add: hd_ok_def)
  then have ws: "wfx (kbits key L) (Some d) s" by (rule wfx_cong [OF s e _ w])
  have es: "entries (kbits key L) s = entries ?B s" by (rule entries_cong) (rule e)
  define nd where "nd = set_child d s (Node [] L u Null Null)"
  have nd: "wfx ?B (Some (bitn key m)) nd" "entries ?B nd = entries ?B s" "nd \<noteq> Null" "bplen nd = L" "bkey nd = u" "child (\<not> d) nd = Null"
    using nb ws es by (cases d; simp add: nd_def set_child_def)+
  show ?thesis
  proof (cases mem)
    case 0
    then show ?thesis using L(1) w by (simp add: btrie_solve_conflict_def add_ok_def)
  next
    case (Suc mem')
    have "btrie_solve_conflict mem s key pl (m + 1) = Some (Inr (nd, []))" if "L = pl"
      using L(1) u(1) iL(1) Suc that d_def nd_def by (simp add: btrie_solve_conflict_def Let_def)
    moreover have "add_ok s ?B (Some (bitn key m)) key pl (Inr (nd, []))" if "L = pl"
      using nd nb that by (simp add: add_ok_def)
    note whole = calculation this
    show ?thesis
    proof (cases "L = pl")
      case True
      with whole show ?thesis by auto
    next
      case False
      then have Lp: "L < pl" using L(4) by simp
      then have dk: "bitn key L = (\<not> d)" using L(6) d by auto
      obtain r :: "('a btrie \<times> path) + ('a btrie \<times> path)" where r: "btrie_add_leaf mem' L key pl = Some r" "leaf_ok mem' key pl L r"
        using add_leaf [OF key(1) Lp] by blast
      have put: "wfx ?B (Some (bitn key m)) (set_child (\<not> d) c nd)" "mset (entries ?B (set_child (\<not> d) c nd)) = mset (entries ?B s)"
        if "wfx (kbits key L) (Some (\<not> d)) c" "entries (kbits key L) c = []" for c
        using wfx_set_child [OF nd(1,3), of "\<not> d" c] entries_set_child [OF nd(3), of ?B "\<not> d" c] that nd nb by simp_all
      show ?thesis
      proof (cases r)
        case (Inl f)
        then obtain c q where f: "r = Inl (c, q)" by (cases f) auto
        then show ?thesis using L(1) u(1) iL Suc False r put nd dk
          by (auto simp: btrie_solve_conflict_def d_def [symmetric] nd_def [symmetric] add_ok_def leaf_ok_def failed_at_def
              set_child_simps split: if_splits)
      next
        case (Inr f)
        then obtain c q where f: "r = Inr (c, q)" by (cases f) auto
        then show ?thesis using L(1) u(1) iL Suc False r put nd dk nb
          by (auto simp: btrie_solve_conflict_def d_def [symmetric] nd_def [symmetric] add_ok_def leaf_ok_def set_child_simps)
      qed
    qed
  qed
qed

lemma node_add:
  fixes n :: "'a btrie"
  assumes w: "wfx pre D n" and n: "n \<noteq> Null" and key: "key_ok key pl" "bplen n < pl"
    and b: "nbits pre (bplen n) (bkey n) = kbits key (bplen n)"
    and no: "let c = child (bitn key (bplen n)) n in
      c = Null \<or> \<not> prefix (nbits (kbits key (bplen n)) (bplen c) (bkey c)) (kbits key pl)"
  shows "\<exists>r. btrie_node_add mem n key pl = Some r \<and> add_ok n pre D key pl r \<and>
    (isl r \<longrightarrow> mem \<le> index (pl - 1) - index (bplen n) + 1)"
proof -
  let ?m = "bplen n"
  define d where "d = bitn key ?m"
  let ?c = "child d n"
  have kb: "keybit key ?m = Some d" using keybit_eq [OF key] by (simp add: d_def)
  have wc: "wfx (kbits key ?m) (Some d) ?c" using wfx_child [OF w n, of d] b by simp
  have put: "wfx pre D (set_child d c n)" "mset (entries pre (set_child d c n)) = mset (entries pre n)"
    if "wfx (kbits key ?m) (Some d) c" "mset (entries (kbits key ?m) c) = mset (entries (kbits key ?m) ?c)" for c
    using wfx_set_child [OF w n, of d c] entries_set_child [OF n, of pre d c] that b by simp_all
  show ?thesis
  proof (cases "?c = Null")
    case False
    then obtain r where r: "btrie_solve_conflict mem ?c key pl (?m + 1) = Some r" "add_ok ?c (kbits key ?m) (Some d) key pl r"
        "isl r \<longrightarrow> mem \<le> index (pl - 1) - index ?m + 1"
      using solve_conflict [OF wc [unfolded d_def] _ key, of mem] no by (auto simp: d_def Let_def)
    show ?thesis
    proof (cases r)
      case (Inl f)
      then obtain c q where f: "r = Inl (c, q)" by (cases f) auto
      then show ?thesis using kb False r put n
        by (auto simp: btrie_node_add_def Let_def add_ok_def set_child_simps)
    next
      case (Inr f)
      then obtain c q where f: "r = Inr (c, q)" by (cases f) auto
      then show ?thesis using kb False r put n b by (auto simp: btrie_node_add_def Let_def add_ok_def set_child_simps)
    qed
  next
    case True
    obtain r :: "('a btrie \<times> path) + ('a btrie \<times> path)" where r: "btrie_add_leaf mem ?m key pl = Some r" "leaf_ok mem key pl ?m r"
      using add_leaf [OF key] by blast
    show ?thesis
    proof (cases r)
      case (Inl f)
      then obtain c q where f: "r = Inl (c, q)" by (cases f) auto
      then show ?thesis using kb True r put n
        by (auto simp: btrie_node_add_def Let_def add_ok_def leaf_ok_def failed_at_def d_def set_child_simps split: if_splits)
    next
      case (Inr f)
      then obtain c q where f: "r = Inr (c, q)" by (cases f) auto
      then show ?thesis using kb True r put n b
        by (auto simp: btrie_node_add_def Let_def add_ok_def leaf_ok_def d_def set_child_simps)
    qed
  qed
qed

lemma set_at_props:
  assumes "on_path t p"
  shows "node_at (set_at t p s) (p @ q) = node_at s q" "pbits pre (set_at t p s) (p @ q) = pbits (pbits pre t p) s q"
    "on_path (set_at t p s) (p @ q) = on_path s q"
  using assms
proof (induction p arbitrary: t pre)
  case (Cons d p)
  { case 1 then show ?case using Cons.IH(1) [of "child d t"] by (simp add: set_child_simps) }
  { case 2 then show ?case using Cons.IH(2) [of "child d t"] by (simp add: set_child_simps) }
  { case 3 then show ?case using Cons.IH(3) [of "child d t"] by (simp add: set_child_simps) }
qed simp_all

lemma node_goc:
  assumes "btrie_wf t" "key_ok key pl"
  shows "\<exists>t' np. btrie_node_goc mem t key pl True = Some (t', np) \<and> btrie_wf t' \<and> mset (entries [] t') = mset (entries [] t) \<and>
    (case np of None \<Rightarrow> mem \<le> index (pl - 1) + 1 | Some p \<Rightarrow> node_at t' p \<noteq> Null \<and> bits_at [] t' p = kbits key pl)"
proof -
  obtain p where p: "btrie_node_lookup t key pl = Some p" "deepest [] t p key pl" using btrie_lookup_deepest [OF assms] by blast
  define n where "n = node_at t p"
  have n: "n \<noteq> Null" "prefix (bits_at [] t p) (kbits key pl)" using p(2) by (auto simp: deepest_def n_def)
  have op: "on_path t p" using on_path_node_at n(1) by (simp add: n_def)
  have w: "wfx (pbits [] t p) (side None p) n" using wfx_node_at [OF assms(1) op] by (simp add: n_def)
  have b: "bits_at [] t p = kbits key (bplen n)" "bplen n \<le> pl"
    using n(2) length_nbits [OF wfx_hd [OF w n(1)]] by (auto simp: prefix_kbits bits_at_def n_def)
  show ?thesis
  proof (cases "bplen n = pl")
    case True
    then show ?thesis using p(1) assms(1) n(1) b by (simp add: btrie_node_goc_def n_def [symmetric])
  next
    case False
    then have lt: "bplen n < pl" using b(2) by simp
    have no: "let c = child (bitn key (bplen n)) n in c = Null \<or> \<not> prefix (nbits (kbits key (bplen n)) (bplen c) (bkey c)) (kbits key pl)"
      using p(2) False b(1) by (simp add: deepest_def n_def [symmetric])
    obtain r where r: "btrie_node_add mem n key pl = Some r" "add_ok n (pbits [] t p) (side None p) key pl r"
        "isl r \<longrightarrow> mem \<le> index (pl - 1) - index (bplen n) + 1"
      using node_add [OF w n(1) assms(2) lt _ no] b(1) by (auto simp: bits_at_def n_def)
    have put: "btrie_wf (set_at t p c)" "mset (entries [] (set_at t p c)) = mset (entries [] t)"
      if "wfx (pbits [] t p) (side None p) c" "mset (entries (pbits [] t p) c) = mset (entries (pbits [] t p) n)" for c
      using wfx_set_at [OF assms(1) op that(1)] entries_set_at [OF op, of "[]" c] that(2) by (simp_all add: n_def)
    show ?thesis
    proof (cases r)
      case (Inl f)
      then obtain c q where f: "r = Inl (c, q)" by (cases f) auto
      have c: "wfx (pbits [] t p) (side None p) c" "mset (entries (pbits [] t p) c) = mset (entries (pbits [] t p) n)" "\<forall>q'. q = Some q' \<longrightarrow> on_path c q'"
        using r(2) f by (auto simp: add_ok_def)
      show ?thesis using p(1) False r(1,3) f put [OF c(1,2)] c(3) delete_maybe [OF put(1) [OF c(1,2)], of "p @ the q"] set_at_props(3) [OF op, of c "the q"]
        by (cases q) (auto simp: btrie_node_goc_def n_def [symmetric])
    next
      case (Inr f)
      then obtain c q where f: "r = Inr (c, q)" by (cases f) auto
      then show ?thesis using p(1) False r put [of c] set_at_props(1) [OF op, of c q] set_at_props(2) [OF op, of "[]" c q]
        by (auto simp: btrie_node_goc_def n_def [symmetric] add_ok_def bits_at_def)
    qed
  qed
qed

lemma set_elements_simps:
  "n \<noteq> Null \<Longrightarrow> set_elements es n \<noteq> Null" "n \<noteq> Null \<Longrightarrow> elements (set_elements es n) = es"
  "wfx pre D n \<Longrightarrow> wfx pre D (set_elements es n)"
  "n \<noteq> Null \<Longrightarrow> mset (entries pre (set_elements es n)) + mset (map (Pair (nbits pre (bplen n) (bkey n))) (elements n)) =
     mset (entries pre n) + mset (map (Pair (nbits pre (bplen n) (bkey n))) es)"
  by (cases n; simp add: set_elements_def)+

lemma set_elements_at:
  fixes es :: "'a list"
  assumes "btrie_wf t" "node_at t p \<noteq> Null"
  defines "t' \<equiv> set_at t p (set_elements es (node_at t p))"
  shows "btrie_wf t'" "mset (entries [] t') + mset (map (Pair (bits_at [] t p)) (elements (node_at t p))) =
      mset (entries [] t) + mset (map (Pair (bits_at [] t p)) es)" "on_path t' p"
proof -
  note op = on_path_node_at [OF assms(2)]
  note w = wfx_node_at [OF assms(1) op]
  show "btrie_wf t'" using wfx_set_at [OF assms(1) op set_elements_simps(3) [OF w]] by (simp add: t'_def)
  show "mset (entries [] t') + mset (map (Pair (bits_at [] t p)) (elements (node_at t p))) =
      mset (entries [] t) + mset (map (Pair (bits_at [] t p)) es)"
    using arg_cong2 [OF entries_set_at [OF op, of "[]" "set_elements es (node_at t p)"]
        set_elements_simps(4) [OF assms(2), of "pbits [] t p" es], of "(+)"]
    by (simp add: t'_def bits_at_def ac_simps)
  show "on_path t' p" using set_at_props(3) [OF op, of "set_elements es (node_at t p)" "[]"] by (simp add: t'_def)
qed

lemma add_entry:
  assumes "btrie_wf t" "key_ok key pl"
  shows "\<exists>t' r. btrie_add mem t e key pl = Some (t', r) \<and> btrie_wf t' \<and>
    (r = 0 \<and> mset (entries [] t') = add_mset (kbits key pl, e) (mset (entries [] t)) \<or>
     r = -1 \<and> mem \<le> (pl - 1) div 32 + 1 \<and> mset (entries [] t') = mset (entries [] t))"
proof -
  obtain t' np where g: "btrie_node_goc mem t key pl True = Some (t', np)" "btrie_wf t'" "mset (entries [] t') = mset (entries [] t)"
      "case np of None \<Rightarrow> mem \<le> index (pl - 1) + 1 | Some p \<Rightarrow> node_at t' p \<noteq> Null \<and> bits_at [] t' p = kbits key pl"
    using node_goc [OF assms] by blast
  show ?thesis
  proof (cases np)
    case None
    then show ?thesis using g by (simp add: btrie_add_def index_def)
  next
    case (Some p)
    then have n: "node_at t' p \<noteq> Null" "bits_at [] t' p = kbits key pl" using g(4) by auto
    show ?thesis using g(1,3) Some set_elements_at(1,2) [OF g(2) n(1), of "elements (node_at t' p) @ [e]"] n(2)
      by (simp add: btrie_add_def)
  qed
qed

lemma remove_entry:
  assumes "btrie_wf t" "node_at t p \<noteq> Null" "e \<in> set (elements (node_at t p))"
  shows "btrie_wf (btrie_remove t p e)"
    "add_mset (bits_at [] t p, e) (mset (entries [] (btrie_remove t p e))) = mset (entries [] t)"
proof -
  let ?n = "node_at t p" and ?es = "remove1 e (elements (node_at t p))"
  let ?t = "set_at t p (set_elements ?es ?n)"
  note s = set_elements_at [OF assms(1,2), of ?es]
  have "add_mset e (mset ?es) = mset (elements ?n)" using assms(3) by simp
  then have "mset (map (Pair (bits_at [] t p)) (elements ?n)) = add_mset (bits_at [] t p, e) (mset (map (Pair (bits_at [] t p)) ?es))"
    by (metis image_mset_add_mset mset_map)
  with s(2) have m: "add_mset (bits_at [] t p, e) (mset (entries [] ?t)) = mset (entries [] t)" by simp
  have r: "btrie_remove t p e = (if ?es = [] then btrie_delete_maybe ?t p else ?t)"
    using assms(2) by (simp add: btrie_remove_def Let_def set_elements_simps)
  show "btrie_wf (btrie_remove t p e)" using r s(1) delete_maybe [OF s(1,3)] by auto
  show "add_mset (bits_at [] t p, e) (mset (entries [] (btrie_remove t p e))) = mset (entries [] t)"
    using r m delete_maybe [OF s(1,3)] by auto
qed

section \<open>Properties\<close>

text \<open>C1: \<open>btrie_add\<close> on a well-formed trie never reads outside the key, keeps the trie well-formed and, when it
  returns 0, adds exactly one entry with the bits of the key; when an allocation fails it returns -1
  and the contents are unchanged.  One node for each word of the key and one more are enough.\<close>

theorem btrie_add_correct:
  assumes "btrie_wf t" "key_ok key pl"
  shows "\<exists>t' r. btrie_add mem t e key pl = Some (t', r) \<and> btrie_wf t' \<and>
    (r = 0 \<and> mset (entries [] t') = add_mset (kbits key pl, e) (mset (entries [] t)) \<or>
     r = -1 \<and> mem \<le> (pl - 1) div 32 + 1 \<and> mset (entries [] t') = mset (entries [] t))"
  by (rule add_entry [OF assms])

theorem btrie_add_correct_witness:
  "\<exists>t' r. btrie_add 2 btrie_init (7 :: nat) [0x20, 1, 2, 3] 16 = Some (t', r) \<and> btrie_wf t' \<and>
    (r = 0 \<and> mset (entries [] t') = {#(kbits [0x20, 1, 2, 3] 16, 7)#} \<or> r = -1 \<and> (2 :: nat) \<le> 1 \<and> mset (entries [] t') = {#})"
  using btrie_add_correct [of "btrie_init :: nat btrie" "[0x20, 1, 2, 3]" 16 2 7]
  by (simp add: btrie_init_def hd_ok_def key_ok_def)

text \<open>C3: \<open>btrie_remove\<close> keeps the trie well-formed and removes exactly the entry of the element; the nodes
  that \<open>btrie_delete_maybe\<close> frees or splices out hold no entry.\<close>

theorem btrie_remove_correct:
  assumes "btrie_wf t" "node_at t p \<noteq> Null" "e \<in> set (elements (node_at t p))"
  shows "btrie_wf (btrie_remove t p e) \<and>
    add_mset (bits_at [] t p, e) (mset (entries [] (btrie_remove t p e))) = mset (entries [] t)"
  using remove_entry [OF assms] by simp

theorem btrie_remove_correct_witness:
  "btrie_wf (btrie_remove (Node [7 :: nat] 0 0 Null Null) [] 7) \<and>
    add_mset ([], 7) (mset (entries [] (btrie_remove (Node [7 :: nat] 0 0 Null Null) [] 7))) = {#([], 7)#}"
  using btrie_remove_correct [of "Node [7 :: nat] 0 0 Null Null" "[]" 7]
  by (simp add: hd_ok_def nbits_def)

text \<open>C16: The iteration over a key visits exactly the elements stored under that key, in the order of
  insertion.\<close>

theorem btrie_for_each_exact:
  assumes "btrie_wf t" "key_ok key pl"
  shows "\<exists>r. btrie_first t key pl = Some r \<and>
    visits (btrie_next t) r (map snd (filter (\<lambda>be. fst be = kbits key pl) (entries [] t)))"
proof -
  obtain p where p: "btrie_node_lookup t key pl = Some p" "deepest [] t p key pl" using btrie_lookup_deepest [OF assms] by blast
  show ?thesis
    using p(1) deepest_exact [OF assms(1) p(2)] visits_next [of t p]
    by (auto simp: btrie_first_def btrie_node_goc_def comp_def visits.stop)
qed

theorem btrie_for_each_exact_witness:
  "\<exists>r. btrie_first (Node [7 :: nat] 0 0 Null Null) [] 0 = Some r \<and> visits (btrie_next (Node [7] 0 0 Null Null)) r [7]"
  using btrie_for_each_exact [of "Node [7 :: nat] 0 0 Null Null" "[]" 0]
  by (simp add: hd_ok_def key_ok_def nbits_def kbits_def)

text \<open>C14: The upward iteration from a key visits exactly the elements whose key is a prefix of it, the longest
  prefixes first.\<close>

theorem btrie_for_each_up_correct:
  assumes "btrie_wf t" "key_ok key pl"
  shows "\<exists>r bes. btrie_first_up t key pl = Some r \<and> visits (btrie_next_up t) r (map snd bes) \<and>
    mset bes = mset (filter (\<lambda>be. prefix (fst be) (kbits key pl)) (entries [] t)) \<and>
    sorted_wrt (\<lambda>x y. length (fst y) \<le> length (fst x)) bes"
proof -
  obtain p where p: "btrie_node_lookup t key pl = Some p" "deepest [] t p key pl" using btrie_lookup_deepest [OF assms] by blast
  have "visits (btrie_next_up t) (btrie_next_up t (p, 0)) (map snd (up_entries [] t p))"
    using visits_next_up [of t p] by (simp add: up_entries_elements)
  then show ?thesis
    using p(1) deepest_up [OF assms(1) p(2)] up_entries_sorted [OF assms(1), of p] p(2)
    by (auto simp: btrie_first_up_def deepest_def intro!: exI [of _ "up_entries [] t p"])
qed

theorem btrie_for_each_up_correct_witness:
  "\<exists>r bes. btrie_first_up (Node [7 :: nat] 0 0 Null Null) [0x20, 1, 2, 3] 16 = Some r \<and>
    visits (btrie_next_up (Node [7] 0 0 Null Null)) r (map snd bes) \<and> mset bes = {#([], 7)#} \<and>
    sorted_wrt (\<lambda>x y. length (fst y) \<le> length (fst x)) bes"
  using btrie_for_each_up_correct [of "Node [7 :: nat] 0 0 Null Null" "[0x20, 1, 2, 3]" 16]
  by (simp add: hd_ok_def key_ok_def nbits_def)

text \<open>C12: The downward iteration from a key visits exactly the elements whose key extends it, in the order of
  the trie, and stops.\<close>

theorem btrie_for_each_down_correct:
  assumes "btrie_wf t" "key_ok key pl"
  shows "\<exists>r. btrie_first_down t key pl = Some r \<and>
    visits (btrie_next_down t pl) r (map snd (filter (\<lambda>be. prefix (kbits key pl) (fst be)) (entries [] t)))"
  by (rule first_down_visits [OF assms])

theorem btrie_for_each_down_correct_witness:
  "\<exists>r. btrie_first_down (Node [7 :: nat] 0 0 Null Null) [] 0 = Some r \<and>
    visits (btrie_next_down (Node [7] 0 0 Null Null) 0) r [7]"
  using btrie_for_each_down_correct [of "Node [7 :: nat] 0 0 Null Null" "[]" 0]
  by (simp add: hd_ok_def key_ok_def nbits_def kbits_def)

text \<open>C2: The up-down iteration visits exactly the elements whose key overlaps the given one, as a prefix or
  as an extension, and never reads outside the key.\<close>

theorem btrie_for_each_updown_correct:
  assumes "btrie_wf t" "key_ok key pl"
  shows "visits_safe (btrie_next_updown t key pl) (btrie_first_updown t key pl)
    (map snd (filter (related key pl) (entries [] t)))"
  by (rule first_updown_visits [OF assms])

theorem btrie_for_each_updown_correct_witness:
  "visits_safe (btrie_next_updown (Node [7 :: nat] 0 0 Null Null) [0x20, 1, 2, 3] 16)
    (btrie_first_updown (Node [7] 0 0 Null Null) [0x20, 1, 2, 3] 16) [7]"
  using btrie_for_each_updown_correct [of "Node [7 :: nat] 0 0 Null Null" "[0x20, 1, 2, 3]" 16]
  by (simp add: hd_ok_def key_ok_def nbits_def related_def)

end
