(* ===== verification/BtrieAvail.thy ===== *)
theory BtrieAvail
  imports Btrie
begin

text \<open>
  The rest of the binary trie of src/src/btrie.c: the key of an element, the longest match, and the
  iteration over the available keys, those that neither contain nor are contained in a stored key.

  \<open>&__bt_all_available\<close> is \<open>Avail_all\<close>, a null pointer is \<open>Avail_none\<close> and any other node is the path to
  it.  The loops on labels, as that of \<open>__btrie_next_available\<close>, are partial recursive functions;
  \<open>None\<close> is an access outside the key or a loop that does not end.  Key lengths are natural numbers.
\<close>

unbundle bit_operations_syntax

section \<open>The key of an element\<close>

text \<open>\<open>key[i] = htonk(w)\<close>\<close>

definition put_keyword :: "bytes \<Rightarrow> nat \<Rightarrow> u32 \<Rightarrow> bytes option" where
  "put_keyword key i w = memcpy_at key (4 * i) (word_be 4 w) 0 4"

fun get_key_up :: "'a btrie \<Rightarrow> nat \<Rightarrow> path \<Rightarrow> bytes \<Rightarrow> bytes option" where
  "get_key_up t 0 p key = Some key"
| "get_key_up t (Suc h) p key =
     (let node = node_at t (butlast p)
      in if bplen node = 0 then Some key
         else do { key \<leftarrow> (if remain (bplen node) = 0 then put_keyword key (index (bplen node - 1)) (bkey node)
                            else Some key);
                   get_key_up t h (butlast p) key })"

text \<open>\<open>btrie_get_key\<close> of an element of the node at \<open>p\<close>; the loop goes up at most the length of \<open>p\<close> times.\<close>

definition btrie_get_key :: "'a btrie \<Rightarrow> path \<Rightarrow> bytes \<Rightarrow> bytes option" where
  "btrie_get_key t p key =
     (let node = node_at t p
      in if bplen node = 0 then Some key
         else do { key \<leftarrow> put_keyword key (index (bplen node - 1)) (bkey node AND kmask (remain (bplen node - 1)));
                   get_key_up t (length p) p key })"

section \<open>Available keys\<close>

definition btrie_longest_match :: "'a btrie \<Rightarrow> bytes \<Rightarrow> nat \<Rightarrow> (path \<times> nat) option" where
  "btrie_longest_match root key len =
     do { p \<leftarrow> btrie_node_lookup root key len;
          let node = node_at root p;
          if bplen node = len then Some (p, bplen node)
          else do {
            b \<leftarrow> keybit key (bplen node);
            let c = child b node;
            if c = Null then Some (p, bplen node)
            else do { m \<leftarrow> btrie_longest_match_node (bplen c) (bkey c) key len (bplen node + 1);
                      Some (p @ [b], m) } } }"

definition btrie_keyleft :: "bytes \<Rightarrow> nat \<Rightarrow> bytes option" where
  "btrie_keyleft key len =
     do { w \<leftarrow> keyword key (index len);
          put_keyword key (index len) (w AND NOT (drop_bit (remain len) 0x80000000)) }"

definition btrie_keyright :: "bytes \<Rightarrow> nat \<Rightarrow> bytes option" where
  "btrie_keyright key len =
     do { w \<leftarrow> keyword key (index len);
          put_keyword key (index len) (w OR drop_bit (remain len) 0x80000000) }"

datatype avail = Avail_none | Avail_all | Avail_at path

datatype bt_avail_mod = BT_AVAILMOD_NODE | BT_AVAILMOD_LEFT | BT_AVAILMOD_RIGHT | BT_AVAILMOD_UP

partial_function (option) next_available_loop ::
  "'a btrie \<Rightarrow> path \<Rightarrow> bytes \<Rightarrow> nat \<Rightarrow> nat \<Rightarrow> bt_avail_mod \<Rightarrow> (avail \<times> bytes \<times> nat) option" where [code]:
  "next_available_loop t prev key len contain_len m =
     (let node = node_at t prev
      in case m of
        BT_AVAILMOD_NODE \<Rightarrow>
          if len = bplen node
          then if elements node = []
               then if child False node = Null \<and> child True node = Null then Some (Avail_at prev, key, len)
                    else next_available_loop t prev key len contain_len BT_AVAILMOD_LEFT
               else next_available_loop t prev key len contain_len BT_AVAILMOD_UP
          else next_available_loop t prev key len contain_len BT_AVAILMOD_LEFT
      | BT_AVAILMOD_LEFT \<Rightarrow>
          do { key \<leftarrow> btrie_keyleft key len;
               if len = bplen node
               then if child False node \<noteq> Null
                    then next_available_loop t (prev @ [False]) key (len + 1) contain_len BT_AVAILMOD_NODE
                    else Some (Avail_at prev, key, len + 1)
               else if \<not> nthbit (bkey node) (remain len)
               then next_available_loop t prev key (len + 1) contain_len BT_AVAILMOD_NODE
               else Some (Avail_at prev, key, len + 1) }
      | BT_AVAILMOD_RIGHT \<Rightarrow>
          do { key \<leftarrow> btrie_keyright key len;
               if len = bplen node
               then if child True node \<noteq> Null
                    then next_available_loop t (prev @ [True]) key (len + 1) contain_len BT_AVAILMOD_NODE
                    else Some (Avail_at prev, key, len + 1)
               else if nthbit (bkey node) (remain len)
               then next_available_loop t prev key (len + 1) contain_len BT_AVAILMOD_NODE
               else Some (Avail_at prev, key, len + 1) }
      | BT_AVAILMOD_UP \<Rightarrow>
          if len = contain_len then Some (Avail_none, key, len)
          else let len = len - 1
               in do { last_bit \<leftarrow> keybit key len;
                       let prev = (if prev \<noteq> [] \<and> bplen (node_at t (butlast prev)) = len then butlast prev else prev);
                       if last_bit then next_available_loop t prev key len contain_len BT_AVAILMOD_UP
                       else next_available_loop t prev key len contain_len BT_AVAILMOD_RIGHT })"

definition next_available ::
  "'a btrie \<Rightarrow> avail \<Rightarrow> bytes \<Rightarrow> nat \<Rightarrow> nat \<Rightarrow> bt_avail_mod \<Rightarrow> (avail \<times> bytes \<times> nat) option" where
  "next_available t prev key len contain_len m =
     (case prev of
        Avail_none \<Rightarrow> None
      | Avail_all \<Rightarrow> Some (Avail_none, key, len)
      | Avail_at p \<Rightarrow> next_available_loop t p key len contain_len m)"

definition btrie_next_available ::
  "'a btrie \<Rightarrow> avail \<Rightarrow> bytes \<Rightarrow> nat \<Rightarrow> nat \<Rightarrow> (avail \<times> bytes \<times> nat) option" where
  "btrie_next_available t prev iter_key iter_len contain_len =
     next_available t prev iter_key iter_len contain_len BT_AVAILMOD_UP"

text \<open>The loop of \<open>btrie_longest_match_available\<close> from \<open>check\<close> to the root.\<close>

fun check_up :: "'a btrie \<Rightarrow> nat \<Rightarrow> nat \<Rightarrow> path \<Rightarrow> path \<Rightarrow> nat \<Rightarrow> (path \<times> nat) option" where
  "check_up t contain_len h check node match_len =
     (let n = node_at t check
      in if elements n \<noteq> [] \<and> bplen n \<le> contain_len then None
         else (let (node, match_len) =
                 (if elements n \<noteq> []
                  then (if bplen (node_at t (butlast check)) = bplen n - 1 then butlast check else check, bplen n - 1)
                  else (node, match_len))
               in case h of 0 \<Rightarrow> Some (node, match_len)
                  | Suc h \<Rightarrow> check_up t contain_len h (butlast check) node match_len))"

text \<open>The result is \<open>Some None\<close> for a null pointer.\<close>

definition btrie_longest_match_available ::
  "'a btrie \<Rightarrow> bytes \<Rightarrow> nat \<Rightarrow> nat \<Rightarrow> (path \<times> nat) option option" where
  "btrie_longest_match_available root contain_key contain_len first_len =
     do { (node, match_len) \<leftarrow> btrie_longest_match root contain_key first_len;
          let check = (if bplen (node_at root node) > match_len then butlast node else node);
          Some (check_up root contain_len (length check) check node match_len) }"

definition btrie_first_available_from ::
  "'a btrie \<Rightarrow> bytes \<Rightarrow> nat \<Rightarrow> bytes \<Rightarrow> nat \<Rightarrow> nat \<Rightarrow> (avail \<times> bytes \<times> nat) option" where
  "btrie_first_available_from root iter_key iter_len contain_key contain_len first_len =
     (let first_len = (if first_len < contain_len then contain_len else first_len)
      in do { iter_key \<leftarrow> (if first_len \<noteq> 0
                             then memcpy_at iter_key 0 contain_key 0 ((first_len - 1) div 8 + 1) else Some iter_key);
              r \<leftarrow> btrie_longest_match_available root contain_key contain_len first_len;
              (case r of
                 None \<Rightarrow> Some (Avail_none, iter_key, iter_len)
               | Some (node, iter_len) \<Rightarrow>
                   if iter_len < contain_len then Some (Avail_all, iter_key, contain_len)
                   else if iter_len < first_len
                   then do { b \<leftarrow> keybit contain_key iter_len;
                             next_available root (Avail_at node) iter_key iter_len contain_len
                               (if b then BT_AVAILMOD_RIGHT else BT_AVAILMOD_LEFT) }
                   else next_available root (Avail_at node) iter_key iter_len contain_len BT_AVAILMOD_NODE) })"

definition btrie_first_available ::
  "'a btrie \<Rightarrow> bytes \<Rightarrow> nat \<Rightarrow> bytes \<Rightarrow> nat \<Rightarrow> (avail \<times> bytes \<times> nat) option" where
  "btrie_first_available root iter_key iter_len contain_key contain_len =
     btrie_first_available_from root iter_key iter_len contain_key contain_len contain_len"

definition btrie_first_available_loop ::
  "'a btrie \<Rightarrow> bytes \<Rightarrow> nat \<Rightarrow> bytes \<Rightarrow> nat \<Rightarrow> nat \<Rightarrow> (avail \<times> bytes \<times> nat) option" where
  "btrie_first_available_loop root iter_key iter_len contain_key contain_len first_len =
     btrie_first_available_from root iter_key iter_len contain_key contain_len first_len"

fun rewind :: "'a btrie \<Rightarrow> nat \<Rightarrow> nat \<Rightarrow> path \<Rightarrow> path" where
  "rewind t contain_len 0 p = p"
| "rewind t contain_len (Suc h) p =
     (if bplen (node_at t (butlast p)) \<ge> contain_len then rewind t contain_len h (butlast p) else p)"

definition btrie_next_available_loop ::
  "'a btrie \<Rightarrow> avail \<Rightarrow> bytes \<Rightarrow> nat \<Rightarrow> nat \<Rightarrow> (avail \<times> bytes \<times> nat) option" where
  "btrie_next_available_loop t prev iter_key iter_len contain_len =
     (case prev of
        Avail_none \<Rightarrow> None
      | Avail_all \<Rightarrow> Some (Avail_all, iter_key, iter_len)
      | Avail_at p \<Rightarrow>
          do { (p2, key, len) \<leftarrow> next_available t prev iter_key iter_len contain_len BT_AVAILMOD_UP;
               if p2 = Avail_none
               then next_available t (Avail_at (rewind t contain_len (length p) p)) key contain_len contain_len
                      BT_AVAILMOD_NODE
               else Some (p2, key, len) })"

text \<open>\<open>btrie_for_each_available\<close>: the keys of the iteration from a node on.\<close>

partial_function (option) available_visits ::
  "'a btrie \<Rightarrow> nat \<Rightarrow> avail \<Rightarrow> bytes \<Rightarrow> nat \<Rightarrow> (bytes \<times> nat) list option" where [code]:
  "available_visits t contain_len node key len =
     (if node = Avail_none then Some []
      else do { (node, key', len') \<leftarrow> btrie_next_available t node key len contain_len;
                ks \<leftarrow> available_visits t contain_len node key' len';
                Some ((key, len) # ks) })"

definition btrie_for_each_available :: "'a btrie \<Rightarrow> bytes \<Rightarrow> bytes \<Rightarrow> nat \<Rightarrow> (bytes \<times> nat) list option" where
  "btrie_for_each_available t iter_key contain_key contain_len =
     do { (node, key, len) \<leftarrow> btrie_first_available t iter_key 0 contain_key contain_len;
          available_visits t contain_len node key len }"

section \<open>Available space\<close>

definition BTRIE_AVAILABLE_ALL :: u64 where "BTRIE_AVAILABLE_ALL = 0x8000000000000000"

text \<open>Shifts of a 64-bit word; a shift by 64 or more is undefined.\<close>

definition shl64 :: "u64 \<Rightarrow> nat \<Rightarrow> u64 option" where
  "shl64 w n = (if n < 64 then Some (push_bit n w) else None)"

definition shr64 :: "u64 \<Rightarrow> nat \<Rightarrow> u64 option" where
  "shr64 w n = (if n < 64 then Some (drop_bit n w) else None)"

datatype space_label = S_node | S_right | S_up

text \<open>The space on the edge to a node, below the first \<open>next_len\<close> bits.\<close>

definition edge_space :: "nat \<Rightarrow> nat \<Rightarrow> nat \<Rightarrow> nat \<Rightarrow> u64 option" where
  "edge_space n len target_len next_len =
     (if next_len < n
      then (let mx = (if n > target_len then len + 63 else n);
                left = next_len - len + 1;
                right = 64 - (mx - len + 1)
            in do { a \<leftarrow> shl64 0xffffffffffffffff left;
                    b \<leftarrow> shr64 a (left + right);
                    shl64 b right })
      else Some 0)"

partial_function (option) available_space_loop ::
  "'a btrie \<Rightarrow> nat \<Rightarrow> nat \<Rightarrow> path \<Rightarrow> nat \<Rightarrow> u64 \<Rightarrow> space_label \<Rightarrow> u64 option" where [code]:
  "available_space_loop t len target_len p next_len cnt l =
     (let node = node_at t p
      in case l of
        S_node \<Rightarrow>
          do { s \<leftarrow> edge_space (bplen node) len target_len next_len;
               let cnt = cnt + s;
               if elements node \<noteq> [] \<or> bplen node \<ge> target_len
               then available_space_loop t len target_len p next_len cnt S_up
               else if child False node \<noteq> Null
               then available_space_loop t len target_len (p @ [False]) (bplen node + 1) cnt S_node
               else do { s \<leftarrow> shr64 BTRIE_AVAILABLE_ALL (bplen node + 1 - len);
                         available_space_loop t len target_len p next_len (cnt + s) S_right } }
      | S_right \<Rightarrow>
          if child True node \<noteq> Null
          then available_space_loop t len target_len (p @ [True]) (bplen node + 1) cnt S_node
          else do { s \<leftarrow> shr64 BTRIE_AVAILABLE_ALL (bplen node + 1 - len);
                    available_space_loop t len target_len p next_len (cnt + s) S_up }
      | S_up \<Rightarrow>
          if p = [] \<or> bplen (node_at t (butlast p)) < len then Some cnt
          else available_space_loop t len target_len (butlast p) next_len cnt (if last p then S_up else S_right))"

definition btrie_available_space :: "'a btrie \<Rightarrow> bytes \<Rightarrow> nat \<Rightarrow> nat \<Rightarrow> u64 option" where
  "btrie_available_space root key len target_len =
     do { r \<leftarrow> btrie_longest_match_available root key len len;
          (case r of
             None \<Rightarrow> Some 0
           | Some (node, next_len) \<Rightarrow>
               if next_len < len then Some BTRIE_AVAILABLE_ALL
               else (let target_len = (if int target_len - int len > 63 then len + 63 else target_len)
                     in available_space_loop root len target_len node next_len 0 S_node)) }"

end
