(* ===== verification/BtrieFree.thy ===== *)
theory BtrieFree
  imports BtrieAvail
begin

text \<open>
  The iteration over the available keys of src/src/btrie.c ends, stays inside the key, and gives in
  increasing order disjoint keys that cover exactly what no stored key covers.
\<close>

unbundle bit_operations_syntax

text \<open>
  The free keys of a trie in increasing order: \<open>edge_free b r fs\<close> are those below \<open>b\<close>, when the only
  node below \<open>b\<close> is at \<open>b @ r\<close> and \<open>fs\<close> are those below it; \<open>free pre t\<close> are those below the node \<open>t\<close>.
\<close>

fun edge_free :: "bool list \<Rightarrow> bool list \<Rightarrow> bool list list \<Rightarrow> bool list list" where
  "edge_free b [] fs = fs"
| "edge_free b (x # r) fs =
     (if x then (b @ [False]) # edge_free (b @ [True]) r fs else edge_free (b @ [False]) r fs @ [b @ [True]])"

fun free_below :: "bool list \<Rightarrow> 'a btrie \<Rightarrow> bool list list" where
  "free_below pre Null = [pre]"
| "free_below pre (Node es n k c0 c1) =
     (let w = nbits pre n k
      in if es \<noteq> [] then []
         else if c0 = Null \<and> c1 = Null then [w]
         else (if c0 = Null then [w @ [False]] else edge_free (w @ [False]) (drop (n + 1) (nbits w (bplen c0) (bkey c0))) (free_below w c0)) @
              (if c1 = Null then [w @ [True]] else edge_free (w @ [True]) (drop (n + 1) (nbits w (bplen c1) (bkey c1))) (free_below w c1)))"

text \<open>The free keys below the position \<open>b\<close> on the edge to the node \<open>t\<close> or at it.\<close>

definition free_from :: "bool list \<Rightarrow> 'a btrie \<Rightarrow> bool list \<Rightarrow> bool list list" where
  "free_from pre t b = edge_free b (drop (length b) (nbits pre (bplen t) (bkey t))) (free_below pre t)"

definition free_side :: "bool list \<Rightarrow> bool \<Rightarrow> 'a btrie \<Rightarrow> bool list list" where
  "free_side w d c = (if c = Null then [w @ [d]] else free_from w c (w @ [d]))"

text \<open>A position: a bit string on the edge to the node at a path, or at the node.\<close>

definition pos_ok :: "'a btrie \<Rightarrow> path \<Rightarrow> bool list \<Rightarrow> bool" where
  "pos_ok t p b \<longleftrightarrow> node_at t p \<noteq> Null \<and> prefix b (bits_at [] t p) \<and>
     (p \<noteq> [] \<longrightarrow> bplen (node_at t (butlast p)) < length b)"

text \<open>The keys that the iteration gives from a result on.\<close>

fun yields :: "'a btrie \<Rightarrow> nat \<Rightarrow> nat \<Rightarrow> (avail \<times> bytes \<times> nat) option \<Rightarrow> bool list list \<Rightarrow> bool" where
  "yields t K cl r [] \<longleftrightarrow> (\<exists>key len. r = Some (Avail_none, key, len))"
| "yields t K cl r (x # xs) \<longleftrightarrow>
     (\<exists>p key. r = Some (Avail_at p, key, length x) \<and> length key = K \<and> kbits key (length x) = x \<and>
        yields t K cl (next_available_loop t p key (length x) cl BT_AVAILMOD_UP) xs)"

definition up_yields :: "'a btrie \<Rightarrow> nat \<Rightarrow> nat \<Rightarrow> path \<Rightarrow> bool list \<Rightarrow> bool list list \<Rightarrow> bool" where
  "up_yields t K cl p b R \<longleftrightarrow>
     (\<forall>key. length key = K \<longrightarrow> kbits key (length b) = b \<longrightarrow> yields t K cl (next_available_loop t p key (length b) cl BT_AVAILMOD_UP) R)"

definition fits :: "'a btrie \<Rightarrow> nat \<Rightarrow> bool" where
  "fits t n \<longleftrightarrow> (\<forall>p. node_at t p \<noteq> Null \<longrightarrow> bplen (node_at t p) \<le> n)"

text \<open>The next position on the side \<open>d\<close> of a position, if there is a node below it.\<close>

definition goes :: "'a btrie \<Rightarrow> path \<Rightarrow> bool list \<Rightarrow> bool \<Rightarrow> bool" where
  "goes t p b d \<longleftrightarrow> (if length b = bplen (node_at t p) then child d (node_at t p) \<noteq> Null else bits_at [] t p ! length b = d)"

definition next_path :: "'a btrie \<Rightarrow> path \<Rightarrow> bool list \<Rightarrow> bool \<Rightarrow> path" where
  "next_path t p b d = (if length b = bplen (node_at t p) then p @ [d] else p)"

definition dir_free :: "'a btrie \<Rightarrow> path \<Rightarrow> bool list \<Rightarrow> bool \<Rightarrow> bool list list" where
  "dir_free t p b d =
     (if goes t p b d
      then free_from (pbits [] t (next_path t p b d)) (node_at t (next_path t p b d)) (b @ [d]) else [b @ [d]])"

definition inner :: "'a btrie \<Rightarrow> path \<Rightarrow> bool list \<Rightarrow> bool" where
  "inner t p b \<longleftrightarrow> (length b = bplen (node_at t p) \<longrightarrow> elements (node_at t p) = [] \<and>
    \<not> (child False (node_at t p) = Null \<and> child True (node_at t p) = Null))"

text \<open>The free keys are in increasing order and disjoint: each is on the left of the next ones.\<close>

definition left_of :: "bool list \<Rightarrow> bool list \<Rightarrow> bool" where
  "left_of x y \<longleftrightarrow> (\<exists>c. prefix (c @ [False]) x \<and> prefix (c @ [True]) y)"

text \<open>A stored key of the subtree at a path starts the string \<open>x\<close>.\<close>

definition stored_at :: "'a btrie \<Rightarrow> path \<Rightarrow> bool list \<Rightarrow> bool" where
  "stored_at t p x \<longleftrightarrow> (\<exists>e \<in> set (entries (pbits [] t p) (node_at t p)). prefix (fst e) x)"

section \<open>Lemmas: starting inside the container\<close>

text \<open>A key below which nothing is stored and that is below no stored key.\<close>

definition key_free :: "'a btrie \<Rightarrow> nat \<Rightarrow> bool list \<Rightarrow> bool" where
  "key_free t n b \<longleftrightarrow> (\<forall>x. prefix b x \<longrightarrow> n \<le> length x \<longrightarrow> \<not> stored_at t [] x)"

text \<open>No node above the node at a path holds an element.\<close>

definition clear_path :: "'a btrie \<Rightarrow> path \<Rightarrow> bool" where
  "clear_path t p \<longleftrightarrow> (\<forall>i < length p. elements (node_at t (take i p)) = [])"

definition own_clear :: "'a btrie \<Rightarrow> path \<Rightarrow> bool list \<Rightarrow> bool" where
  "own_clear t p b \<longleftrightarrow> clear_path t p \<and> (length b = bplen (node_at t p) \<longrightarrow> elements (node_at t p) = [])"

section \<open>Lemmas: writing a key\<close>

lemma put_keyword_bits:
  assumes "4 * i + 4 \<le> length key"
  shows "\<exists>key'. put_keyword key i w = Some key' \<and> length key' = length key \<and>
    (\<forall>j. bitn key' j = (if index j = i then bit w (31 - remain j) else bitn key j))"
proof -
  let ?key = "take (4 * i) key @ word_be 4 w @ drop (4 * i + 4) key"
  have p: "put_keyword key i w = Some ?key"
    using assms by (simp add: put_keyword_def memcpy_at_def)
  have "bitn ?key j = (if index j = i then bit w (31 - remain j) else bitn key j)" for j
  proof -
    define q r where "q = j div 8" and "r = j mod 8"
    have qr: "j = 8 * q + r" "r < 8" by (simp_all add: q_def r_def)
    have ix: "index j = q div 4" unfolding index_def q_def by (simp add: div_mult2_eq [symmetric])
    show ?thesis
    proof (cases "q div 4 = i")
      case True
      define s where "s = q mod 4"
      have s: "q = 4 * i + s" "s < 4" using True by (auto simp: s_def)
      have "?key ! q = word_be 4 w ! s" using assms s by (simp add: nth_append)
      then have "bitn ?key j = bit (word_be 4 w ! s) (7 - r)" using bitn_block [OF qr(2), of ?key q] qr(1) by simp
      also have "\<dots> = bit w (8 * (3 - s) + (7 - r))" using s qr by (simp add: bit_word_be)
      also have "8 * (3 - s) + (7 - r) = 31 - remain j"
      proof -
        have "j = 32 * i + (8 * s + r)" using qr s by simp
        moreover have "8 * s + r < 32" using s(2) qr(2) by linarith
        ultimately have "remain j = 8 * s + r" unfolding remain_def by (simp only: mod_mult_self4 mod_less)
        then show ?thesis using s qr by simp
      qed
      finally show ?thesis using True ix by simp
    next
      case False
      have "?key ! q = key ! q"
      proof (cases "q < 4 * i")
        case F: False
        then have "4 * i + 4 \<le> q" using False div_nat_eqI [of 4 i q] by (cases "q < 4 * (i + 1)") simp_all
        then have "\<not> q - 4 * i < 4" "q - (4 * i + 4) + (4 * i + 4) = q" by auto
        then show ?thesis using assms F \<open>4 * i + 4 \<le> q\<close> by (simp add: nth_append add.commute)
      qed (use assms in \<open>simp add: nth_append\<close>)
      then show ?thesis using False ix by (simp add: bitn_def q_def)
    qed
  qed
  then show ?thesis using p assms by auto
qed

lemma key_room: "4 dvd length key \<Longrightarrow> len < 8 * length key \<Longrightarrow> 4 * index len + 4 \<le> length key"
proof -
  assume "4 dvd length key" "len < 8 * length key"
  then obtain k where k: "length key = 4 * k" "len < k * 32" by (auto elim!: dvdE)
  then have "len div 32 < k" by (intro less_mult_imp_div_less)
  then show ?thesis using k(1) by (simp add: index_def)
qed

lemma key_step_bits:
  assumes "4 dvd length key" "len < 8 * length key"
  shows "\<exists>key'. btrie_keyleft key len = Some key' \<and> length key' = length key \<and> kbits key' (len + 1) = kbits key len @ [False]"
    and "\<exists>key'. btrie_keyright key len = Some key' \<and> length key' = length key \<and> kbits key' (len + 1) = kbits key len @ [True]"
proof -
  have room: "4 * index len + 4 \<le> length key" by (rule key_room [OF assms])
  obtain w where w: "keyword key (index len) = Some w" "\<And>j. j < 32 \<Longrightarrow> bit w (31 - j) = bitn key (32 * index len + j)"
    using keyword_bits [OF room] by blast
  have fb: "drop_bit (remain len) (0x80000000 :: u32) = push_bit (31 - remain len) 1" by (rule first_bit [OF index_remain(2)])
  have step: "\<exists>key'. put_keyword key (index len) v = Some key' \<and> length key' = length key \<and> kbits key' (len + 1) = kbits key len @ [b]"
    if v: "\<And>j. j < 32 \<Longrightarrow> bit v (31 - j) = (if j = remain len then b else bit w (31 - j))" for v b
  proof -
    obtain key' where k: "put_keyword key (index len) v = Some key'" "length key' = length key"
      "\<And>j. bitn key' j = (if index j = index len then bit v (31 - remain j) else bitn key j)"
      using put_keyword_bits [OF room] by blast
    have "bitn key' j = (if j = len then b else bitn key j)" for j
    proof (cases "index j = index len")
      case True
      then have "j = len \<longleftrightarrow> remain j = remain len" using index_remain(1) by metis
      moreover have "bitn key' j = (if remain j = remain len then b else bit w (31 - remain j))"
        using True k(3) [of j] v [OF index_remain(2), of j] by simp
      moreover have "bit w (31 - remain j) = bitn key j"
        using w(2) [OF index_remain(2), of j] index_remain(1) [of j] True by simp
      ultimately show ?thesis by simp
    qed (use k(3) in auto)
    then have "kbits key' (len + 1) = kbits key len @ [b]" by (simp add: kbits_def)
    with k show ?thesis by blast
  qed
  have pb: "bit (push_bit m 1 :: u32) n = (n = m)" if "m < 32" for m n
    using that by (auto simp only: bit_push_bit_iff bit_1_iff) auto
  have m: "31 - remain len < 32" by simp
  have j: "31 - j = 31 - remain len \<longleftrightarrow> j = remain len" if "j < 32" for j using that index_remain(2) [of len] by auto
  have "bit (w AND NOT (push_bit (31 - remain len) 1)) (31 - j) = (if j = remain len then False else bit w (31 - j))" if "j < 32" for j
    using that j [OF that] by (auto simp only: bit_and_iff bit_not_iff pb [OF m]) auto
  from step [OF this] show "\<exists>key'. btrie_keyleft key len = Some key' \<and> length key' = length key \<and> kbits key' (len + 1) = kbits key len @ [False]"
    using w(1) by (simp add: btrie_keyleft_def fb)
  have "bit (w OR push_bit (31 - remain len) 1) (31 - j) = (if j = remain len then True else bit w (31 - j))" if "j < 32" for j
    using that j [OF that] by (auto simp only: bit_or_iff pb [OF m]) auto
  from step [OF this] show "\<exists>key'. btrie_keyright key len = Some key' \<and> length key' = length key \<and> kbits key' (len + 1) = kbits key len @ [True]"
    using w(1) by (simp add: btrie_keyright_def fb)
qed

lemma free_below_eq:
  "t \<noteq> Null \<Longrightarrow> hd_ok pre D (bplen t) (bkey t) \<Longrightarrow> w = nbits pre (bplen t) (bkey t) \<Longrightarrow> free_below pre t =
     (if elements t \<noteq> [] then [] else if child False t = Null \<and> child True t = Null then [w]
      else free_side w False (child False t) @ free_side w True (child True t))"
  using length_nbits [of pre D "bplen t" "bkey t"]
  by (cases t) (simp_all add: free_side_def free_from_def Let_def)

lemma kbits_Suc: "kbits key (n + 1) = kbits key n @ [bitn key n]"
  by (simp add: kbits_def)

lemma keybit_at:
  assumes "4 dvd length key" "n < 8 * length key"
  shows "keybit key n = Some (bitn key n)"
  using keyword_bits [OF key_room [OF assms]] index_remain [of n] by (auto simp: keybit_def nthbit_bit)

text \<open>One step up from a position whose last bit is \<open>d\<close>.\<close>

lemma up_step:
  assumes "4 dvd K" "length b < 8 * K" "cl \<le> length b" "length key = K" "kbits key (length b + 1) = b @ [d]"
    and q: "q = (if p \<noteq> [] \<and> bplen (node_at t (butlast p)) = length b then butlast p else p)"
  shows "next_available_loop t p key (length b + 1) cl BT_AVAILMOD_UP =
    next_available_loop t q key (length b) cl (if d then BT_AVAILMOD_UP else BT_AVAILMOD_RIGHT)"
proof -
  have "keybit key (length b) = Some d"
    using keybit_at [of key "length b"] assms(1,2,4,5) kbits_Suc [of key "length b"] by simp
  then show ?thesis using assms(3) q by (subst next_available_loop.simps) (simp add: Let_def)
qed

lemma nthbit_node:
  assumes "btrie_wf t" "pos_ok t p b" "length b < bplen (node_at t p)"
  shows "nthbit (bkey (node_at t p)) (remain (length b)) = bits_at [] t p ! length b"
proof -
  let ?s = "node_at t p"
  have s: "?s \<noteq> Null" using assms(2) by (simp add: pos_ok_def)
  have w: "wfx (pbits [] t p) (side None p) ?s" by (rule wfx_node_at [OF assms(1) on_path_node_at [OF s]])
  have h: "hd_ok (pbits [] t p) (side None p) (bplen ?s) (bkey ?s)" by (rule wfx_hd [OF w s])
  then have p: "p \<noteq> []" using assms(3) by (auto simp: hd_ok_def)
  then have sd: "side None p = Some (last p)" by (simp add: side_def)
  have "length (pbits [] t p) < length b"
  proof -
    obtain q d where q: "p = q @ [d]" using p by (metis rev_exhaust)
    have "node_at t q \<noteq> Null" using s by (auto simp: q node_at_append)
    then have "length (bits_at [] t q) = bplen (node_at t q)"
      using length_nbits [OF wfx_hd [OF wfx_node_at [OF assms(1) on_path_node_at]]] by (simp add: bits_at_def)
    moreover have "pbits [] t p = bits_at [] t q" by (simp add: q pbits_append bits_at_def)
    ultimately show ?thesis using assms(2) p by (simp add: pos_ok_def q)
  qed
  then have "32 * index (length (pbits [] t p)) \<le> length b" by (simp add: index_def)
  then show ?thesis using nbits_nth [OF h [unfolded sd] assms(3)] nthbit_bit [OF index_remain(2)] by (simp add: bits_at_def)
qed

lemma length_bits_at:
  assumes "btrie_wf t" "node_at t p \<noteq> Null"
  shows "length (bits_at [] t p) = bplen (node_at t p)"
  using length_nbits [OF wfx_hd [OF wfx_node_at [OF assms(1) on_path_node_at [OF assms(2)]] assms(2)]]
  by (simp add: bits_at_def)

lemma pos_ok_bits:
  assumes "btrie_wf t" "pos_ok t p b"
  shows "length b \<le> bplen (node_at t p)" "length b = bplen (node_at t p) \<Longrightarrow> b = bits_at [] t p"
    "length b < bplen (node_at t p) \<Longrightarrow> prefix (b @ [bits_at [] t p ! length b]) (bits_at [] t p)"
proof -
  have l: "length (bits_at [] t p) = bplen (node_at t p)" using length_bits_at [OF assms(1)] assms(2) by (simp add: pos_ok_def)
  have p: "prefix b (bits_at [] t p)" using assms(2) by (simp add: pos_ok_def)
  show "length b \<le> bplen (node_at t p)" using prefix_length_le [OF p] l by simp
  show "length b = bplen (node_at t p) \<Longrightarrow> b = bits_at [] t p" using p l by (auto simp: prefix_def)
  show "length b < bplen (node_at t p) \<Longrightarrow> prefix (b @ [bits_at [] t p ! length b]) (bits_at [] t p)"
    using p l by (auto simp: prefix_nth nth_append less_Suc_eq)
qed

lemma pos_ok_next:
  assumes "btrie_wf t" "pos_ok t p b" "goes t p b d"
  shows "pos_ok t (next_path t p b d) (b @ [d])"
proof (cases "length b = bplen (node_at t p)")
  case True
  have s: "node_at t p \<noteq> Null" using assms(2) by (simp add: pos_ok_def)
  have b: "b = bits_at [] t p" by (rule pos_ok_bits(2) [OF assms(1,2) True])
  have c: "child d (node_at t p) \<noteq> Null" using assms(3) True by (simp add: goes_def)
  have w: "wfx (bits_at [] t p) (Some d) (child d (node_at t p))"
    using wfx_child [OF wfx_node_at [OF assms(1) on_path_node_at [OF s]] s] by (simp add: bits_at_def)
  have "prefix (b @ [d]) (nbits b (bplen (child d (node_at t p))) (bkey (child d (node_at t p))))"
    using wfx_hd [OF w c] b by (simp add: hd_ok_def)
  moreover have "bits_at [] t (p @ [d]) = nbits b (bplen (child d (node_at t p))) (bkey (child d (node_at t p)))"
    by (simp add: b bits_at_def pbits_append node_at_append)
  ultimately show ?thesis using True c by (simp add: pos_ok_def next_path_def node_at_append)
next
  case False
  then have "length b < bplen (node_at t p)" using pos_ok_bits(1) [OF assms(1,2)] by simp
  from pos_ok_bits(3) [OF assms(1,2) this] show ?thesis
    using assms(2,3) False by (auto simp: pos_ok_def next_path_def goes_def)
qed

lemma up_from_next:
  assumes "btrie_wf t" "pos_ok t p b" "4 dvd K" "length b < 8 * K" "cl \<le> length b" "length key = K"
    "kbits key (length b + 1) = b @ [d]" "q = p \<or> q = next_path t p b d"
  shows "next_available_loop t q key (length b + 1) cl BT_AVAILMOD_UP =
    next_available_loop t p key (length b) cl (if d then BT_AVAILMOD_UP else BT_AVAILMOD_RIGHT)"
proof (rule up_step [OF assms(3-7)])
  have "p \<noteq> [] \<Longrightarrow> bplen (node_at t (butlast p)) < length b" using assms(2) by (simp add: pos_ok_def)
  then show "p = (if q \<noteq> [] \<and> bplen (node_at t (butlast q)) = length b then butlast q else q)"
    using assms(8) by (auto simp: next_path_def split: if_splits)
qed

lemma dir_step:
  assumes "btrie_wf t" "pos_ok t p b" "4 dvd K" "length b < 8 * K" "length key = K" "kbits key (length b) = b"
  obtains key' where "length key' = K" "kbits key' (length b + 1) = b @ [d]"
    "next_available_loop t p key (length b) cl (if d then BT_AVAILMOD_RIGHT else BT_AVAILMOD_LEFT) =
       (if goes t p b d then next_available_loop t (next_path t p b d) key' (length b + 1) cl BT_AVAILMOD_NODE
        else Some (Avail_at p, key', length b + 1))"
proof -
  have k: "4 dvd length key" "length b < 8 * length key" using assms(3-5) by simp_all
  obtain key' where key': "(if d then btrie_keyright key (length b) else btrie_keyleft key (length b)) = Some key'"
      "length key' = K" "kbits key' (length b + 1) = b @ [d]"
    using key_step_bits [OF k] assms(5,6) by (cases d) auto
  have lt: "length b < bplen (node_at t p)" if "length b \<noteq> bplen (node_at t p)"
    using that pos_ok_bits(1) [OF assms(1,2)] by simp
  have "next_available_loop t p key (length b) cl (if d then BT_AVAILMOD_RIGHT else BT_AVAILMOD_LEFT) =
       (if goes t p b d then next_available_loop t (next_path t p b d) key' (length b + 1) cl BT_AVAILMOD_NODE
        else Some (Avail_at p, key', length b + 1))"
    using key'(1) nthbit_node [OF assms(1,2) lt]
    by (subst next_available_loop.simps) (cases d; auto simp: goes_def next_path_def Let_def)
  then show ?thesis using that key'(2,3) by blast
qed

lemma free_from_dirs:
  assumes "btrie_wf t" "pos_ok t p b" "length b = bplen (node_at t p) \<Longrightarrow> elements (node_at t p) = [] \<and>
    \<not> (child False (node_at t p) = Null \<and> child True (node_at t p) = Null)"
  shows "free_from (pbits [] t p) (node_at t p) b = dir_free t p b False @ dir_free t p b True"
proof -
  let ?s = "node_at t p" and ?w = "bits_at [] t p"
  have s: "?s \<noteq> Null" using assms(2) by (simp add: pos_ok_def)
  have w: "?w = nbits (pbits [] t p) (bplen ?s) (bkey ?s)" by (simp add: bits_at_def)
  have h: "hd_ok (pbits [] t p) (side None p) (bplen ?s) (bkey ?s)" by (rule wfx_hd [OF wfx_node_at [OF assms(1) on_path_node_at [OF s]] s])
  have l: "length ?w = bplen ?s" by (rule length_bits_at [OF assms(1) s])
  show ?thesis
  proof (cases "length b = bplen ?s")
    case True
    have b: "b = ?w" by (rule pos_ok_bits(2) [OF assms(1,2) True])
    have "free_below (pbits [] t p) ?s = free_side ?w False (child False ?s) @ free_side ?w True (child True ?s)"
      using free_below_eq [OF s h w] assms(3) [OF True] by auto
    moreover have "dir_free t p b d = free_side ?w d (child d ?s)" for d
      using True by (simp add: dir_free_def goes_def next_path_def free_side_def b pbits_append node_at_append bits_at_def)
    ultimately show ?thesis using True l b by (simp add: free_from_def w [symmetric])
  next
    case False
    then have lt: "length b < length ?w" using pos_ok_bits(1) [OF assms(1,2)] l by simp
    have d: "drop (length b) ?w = ?w ! length b # drop (length b + 1) ?w" using lt by (simp add: Cons_nth_drop_Suc)
    show ?thesis
      using False d by (auto simp: free_from_def w [symmetric] dir_free_def goes_def next_path_def)
  qed
qed

lemma yields_dir:
  assumes wf: "btrie_wf t" and pos: "pos_ok t p b" and K: "4 dvd K" "length b < 8 * K" "cl \<le> length b"
    and key: "length key = K" "kbits key (length b) = b"
    and node: "\<And>key R. goes t p b d \<Longrightarrow> up_yields t K cl (next_path t p b d) (b @ [d]) R \<Longrightarrow> length key = K \<Longrightarrow>
        kbits key (length b + 1) = b @ [d] \<Longrightarrow>
        yields t K cl (next_available_loop t (next_path t p b d) key (length b + 1) cl BT_AVAILMOD_NODE) (dir_free t p b d @ R)"
    and rest: "\<And>key. length key = K \<Longrightarrow> kbits key (length b) = b \<Longrightarrow>
        yields t K cl (next_available_loop t p key (length b) cl (if d then BT_AVAILMOD_UP else BT_AVAILMOD_RIGHT)) R"
  shows "yields t K cl (next_available_loop t p key (length b) cl (if d then BT_AVAILMOD_RIGHT else BT_AVAILMOD_LEFT)) (dir_free t p b d @ R)"
proof -
  have ret: "yields t K cl (next_available_loop t q key (length b + 1) cl BT_AVAILMOD_UP) R"
    if "length key = K" "kbits key (length b + 1) = b @ [d]" "q = p \<or> q = next_path t p b d" for key q
  proof -
    have "kbits key (length b) = b" using that(2) kbits_Suc [of key "length b"] by simp
    then show ?thesis using rest [OF that(1)] up_from_next [OF wf pos K that] by simp
  qed
  obtain key' where key': "length key' = K" "kbits key' (length b + 1) = b @ [d]"
    "next_available_loop t p key (length b) cl (if d then BT_AVAILMOD_RIGHT else BT_AVAILMOD_LEFT) =
       (if goes t p b d then next_available_loop t (next_path t p b d) key' (length b + 1) cl BT_AVAILMOD_NODE
        else Some (Avail_at p, key', length b + 1))"
    by (rule dir_step [OF wf pos K(1,2) key])
  show ?thesis
  proof (cases "goes t p b d")
    case True
    have "up_yields t K cl (next_path t p b d) (b @ [d]) R" unfolding up_yields_def using ret by simp
    then show ?thesis using node [OF True _ key'(1,2)] key'(3) True by simp
  next
    case False
    then show ?thesis using key' ret [OF key'(1,2)] by (simp add: dir_free_def)
  qed
qed

lemma pos_induct [consumes 3, case_names stored leaf inner]:
  assumes wf: "btrie_wf t" and K: "fits t n" and pos: "pos_ok t p b"
    and "\<And>p b. pos_ok t p b \<Longrightarrow> b = bits_at [] t p \<Longrightarrow> length b = bplen (node_at t p) \<Longrightarrow> elements (node_at t p) \<noteq> [] \<Longrightarrow>
      free_from (pbits [] t p) (node_at t p) b = [] \<Longrightarrow> P p b"
    and "\<And>p b. pos_ok t p b \<Longrightarrow> length b = bplen (node_at t p) \<Longrightarrow> elements (node_at t p) = [] \<Longrightarrow>
      child False (node_at t p) = Null \<Longrightarrow> child True (node_at t p) = Null \<Longrightarrow> free_from (pbits [] t p) (node_at t p) b = [b] \<Longrightarrow> P p b"
    and "\<And>p b. pos_ok t p b \<Longrightarrow> inner t p b \<Longrightarrow> length b < n \<Longrightarrow>
      (\<And>d. goes t p b d \<Longrightarrow> pos_ok t (next_path t p b d) (b @ [d]) \<Longrightarrow> P (next_path t p b d) (b @ [d])) \<Longrightarrow>
      free_from (pbits [] t p) (node_at t p) b = dir_free t p b False @ dir_free t p b True \<Longrightarrow> P p b"
  shows "P p b"
  using pos
proof (induction "n - length b" arbitrary: p b rule: less_induct)
  case less
  let ?s = "node_at t p"
  have s: "?s \<noteq> Null" using less.prems by (simp add: pos_ok_def)
  have h: "hd_ok (pbits [] t p) (side None p) (bplen ?s) (bkey ?s)" by (rule wfx_hd [OF wfx_node_at [OF wf on_path_node_at [OF s]] s])
  have fb: "free_from (pbits [] t p) ?s b = free_below (pbits [] t p) ?s" "b = bits_at [] t p" if "length b = bplen ?s"
    using that length_bits_at [OF wf s] pos_ok_bits(2) [OF wf less.prems] by (simp_all add: free_from_def bits_at_def)
  show ?case
  proof (cases "inner t p b")
    case False
    then consider "length b = bplen ?s" "elements ?s \<noteq> []"
      | "length b = bplen ?s" "elements ?s = []" "child False ?s = Null" "child True ?s = Null" by (auto simp: inner_def)
    then show ?thesis
      by cases (use assms(4,5) [OF less.prems] fb free_below_eq [OF s h refl] in \<open>simp_all add: bits_at_def\<close>)
  next
    case True
    have lt: "length b < n"
    proof (cases "length b = bplen ?s")
      case T: True
      then obtain d where c: "child d ?s \<noteq> Null" using True by (auto simp: inner_def)
      then have "pos_ok t (p @ [d]) (b @ [d])" using pos_ok_next [OF wf less.prems, of d] T by (simp add: goes_def next_path_def)
      then have "length b < bplen (node_at t (p @ [d]))" using pos_ok_bits(1) [OF wf] by fastforce
      moreover have "node_at t (p @ [d]) \<noteq> Null" using c by (simp add: node_at_append)
      ultimately show ?thesis using K unfolding fits_def by (meson less_le_trans)
    next
      case False
      then have "length b < bplen ?s" using pos_ok_bits(1) [OF wf less.prems] by simp
      also have "\<dots> \<le> n" using K s by (simp add: fits_def)
      finally show ?thesis .
    qed
    show ?thesis
      by (rule assms(6) [OF less.prems True lt])
        (use less.hyps lt free_from_dirs [OF wf less.prems] True in \<open>auto simp: inner_def\<close>)
  qed
qed

lemma yields_node:
  assumes wf: "btrie_wf t" and K: "4 dvd K" "fits t (8 * K)" and pos: "pos_ok t p b"
  shows "cl \<le> length b \<Longrightarrow> up_yields t K cl p b R \<Longrightarrow> length key = K \<Longrightarrow> kbits key (length b) = b \<Longrightarrow>
    yields t K cl (next_available_loop t p key (length b) cl BT_AVAILMOD_NODE) (free_from (pbits [] t p) (node_at t p) b @ R)"
  using wf K(2) pos
proof (induction arbitrary: R key rule: pos_induct)
  case (stored p b)
  then have "next_available_loop t p key (length b) cl BT_AVAILMOD_NODE = next_available_loop t p key (length b) cl BT_AVAILMOD_UP"
    by (subst next_available_loop.simps) simp
  then show ?case using stored by (simp add: up_yields_def)
next
  case (leaf p b)
  then have "next_available_loop t p key (length b) cl BT_AVAILMOD_NODE = Some (Avail_at p, key, length b)"
    by (subst next_available_loop.simps) simp
  then show ?case using leaf by (simp add: up_yields_def)
next
  case (inner p b)
  have dir: "yields t K cl (next_available_loop t (next_path t p b d) key (length b + 1) cl BT_AVAILMOD_NODE) (dir_free t p b d @ R)"
    if "goes t p b d" "up_yields t K cl (next_path t p b d) (b @ [d]) R" "length key = K" "kbits key (length b + 1) = b @ [d]" for d key R
    using inner.IH [OF that(1) pos_ok_next [OF wf inner.hyps(1) that(1)] _ that(2,3)] inner.prems(1) that(1,4)
    by (simp add: dir_free_def)
  have right: "yields t K cl (next_available_loop t p key (length b) cl BT_AVAILMOD_RIGHT) (dir_free t p b True @ R)"
    if "length key = K" "kbits key (length b) = b" for key
    using yields_dir [OF wf inner.hyps(1) K(1) inner.hyps(3) inner.prems(1) that, of True R] dir inner.prems(2) by (simp add: up_yields_def)
  have left: "yields t K cl (next_available_loop t p key (length b) cl BT_AVAILMOD_LEFT) (dir_free t p b False @ dir_free t p b True @ R)"
    using yields_dir [OF wf inner.hyps(1) K(1) inner.hyps(3) inner.prems(1,3,4), of False "dir_free t p b True @ R"] dir right by simp
  have "next_available_loop t p key (length b) cl BT_AVAILMOD_NODE = next_available_loop t p key (length b) cl BT_AVAILMOD_LEFT"
    using inner.hyps(2) by (subst next_available_loop.simps) (auto simp: Let_def inner_def)
  then show ?case using left inner.hyps(4) by simp
qed

lemma free_from_ext:
  assumes "btrie_wf t" "fits t n" "pos_ok t p b"
  shows "\<forall>y \<in> set (free_from (pbits [] t p) (node_at t p) b). prefix b y \<and> length y \<le> n"
  using assms
proof (induction rule: pos_induct)
  case (leaf p b)
  then show ?case using assms(2) by (auto simp: fits_def pos_ok_def)
next
  case (inner p b)
  have "\<forall>y \<in> set (dir_free t p b d). prefix (b @ [d]) y \<and> length y \<le> n" for d
    using inner.IH [of d] pos_ok_next [OF assms(1) inner.hyps(1), of d] inner.hyps(3) by (auto simp: dir_free_def)
  then show ?case using inner.hyps(4) by (auto dest: append_prefixD)
qed simp

lemma free_from_sorted:
  assumes "btrie_wf t" "fits t n" "pos_ok t p b"
  shows "sorted_wrt left_of (free_from (pbits [] t p) (node_at t p) b)"
  using assms
proof (induction rule: pos_induct)
  case (inner p b)
  have ext: "prefix (b @ [d]) y" if "y \<in> set (dir_free t p b d)" for d y
    using that free_from_ext [OF assms(1,2) pos_ok_next [OF assms(1) inner.hyps(1), of d]] by (auto simp: dir_free_def split: if_splits)
  have "sorted_wrt left_of (dir_free t p b d)" for d
    using inner.IH [of d] pos_ok_next [OF assms(1) inner.hyps(1), of d] by (auto simp: dir_free_def)
  moreover have "left_of y z" if "y \<in> set (dir_free t p b False)" "z \<in> set (dir_free t p b True)" for y z
    using ext that by (auto simp: left_of_def)
  ultimately show ?case using inner.hyps(4) by (simp add: sorted_wrt_append)
qed simp_all

lemma stored_at_dir:
  assumes wf: "btrie_wf t" and pos: "pos_ok t p b" and inner: "inner t p b" and x: "prefix (b @ [d]) x"
  shows "stored_at t p x \<longleftrightarrow> goes t p b d \<and> stored_at t (next_path t p b d) x"
proof (cases "length b = bplen (node_at t p)")
  case True
  let ?s = "node_at t p"
  have s: "?s \<noteq> Null" using pos by (simp add: pos_ok_def)
  have w: "b = nbits (pbits [] t p) (bplen ?s) (bkey ?s)" using pos_ok_bits(2) [OF wf pos True] by (simp add: bits_at_def)
  note wc = wfx_child [OF wfx_node_at [OF wf on_path_node_at [OF s]] s, folded w]
  have "\<not> prefix (fst e) x" if "e \<in> set (entries b (child (\<not> d) ?s))" for e
  proof
    assume "prefix (fst e) x"
    with entries_side [OF wc that] have "prefix (b @ [\<not> d]) x" by (rule prefix_order.trans)
    with x show False by (auto simp: prefix_def)
  qed
  then have "stored_at t p x \<longleftrightarrow> (\<exists>e \<in> set (entries b (child d ?s)). prefix (fst e) x)"
    using entries_eq [OF s, of "pbits [] t p"] inner True w by (cases d) (auto simp: stored_at_def inner_def)
  then show ?thesis using True w by (auto simp: goes_def next_path_def stored_at_def pbits_append node_at_append)
next
  case False
  then have lt: "length b < bplen (node_at t p)" using pos_ok_bits(1) [OF wf pos] by simp
  note pb = pos_ok_bits(3) [OF wf pos lt]
  have s: "node_at t p \<noteq> Null" using pos by (simp add: pos_ok_def)
  have "\<not> stored_at t p x" if "bits_at [] t p ! length b \<noteq> d"
  proof
    assume "stored_at t p x"
    then obtain e where e: "e \<in> set (entries (pbits [] t p) (node_at t p))" "prefix (fst e) x" by (auto simp: stored_at_def)
    have "prefix (bits_at [] t p) (fst e)"
      using entries_prefix [OF wfx_node_at [OF wf on_path_node_at [OF s]] e(1)] by (simp add: bits_at_def)
    with pb e(2) have "prefix (b @ [bits_at [] t p ! length b]) x" by (meson prefix_order.trans)
    with x that show False by (auto simp: prefix_def)
  qed
  then show ?thesis using False by (auto simp: goes_def next_path_def)
qed

lemma free_from_cover:
  assumes "btrie_wf t" "fits t n" "pos_ok t p b" "prefix b x" "n \<le> length x"
  shows "(\<exists>y \<in> set (free_from (pbits [] t p) (node_at t p) b). prefix y x) \<longleftrightarrow> \<not> stored_at t p x"
  using assms(1,2,3,4)
proof (induction rule: pos_induct)
  case (stored p b)
  have s: "node_at t p \<noteq> Null" using stored.hyps(1) by (simp add: pos_ok_def)
  have "stored_at t p x" using entries_eq [OF s, of "pbits [] t p"] stored.hyps(2,4) stored.prems
    by (auto simp: stored_at_def bits_at_def neq_Nil_conv)
  then show ?case using stored.hyps(5) by simp
next
  case (leaf p b)
  have s: "node_at t p \<noteq> Null" using leaf.hyps(1) by (simp add: pos_ok_def)
  have "\<not> stored_at t p x" using entries_eq [OF s, of "pbits [] t p"] leaf.hyps by (auto simp: stored_at_def)
  then show ?case using leaf.hyps(6) leaf.prems by simp
next
  case (inner p b)
  define d where "d = x ! length b"
  have d: "prefix (b @ [d]) x" using inner.prems inner.hyps(3) assms(5) by (auto simp: d_def prefix_nth nth_append less_Suc_eq)
  have ext: "prefix (b @ [e]) y" if "y \<in> set (dir_free t p b e)" for e y
    using that free_from_ext [OF assms(1,2) pos_ok_next [OF assms(1) inner.hyps(1), of e]] by (auto simp: dir_free_def split: if_splits)
  have no: "\<not> prefix y x" if "y \<in> set (dir_free t p b (\<not> d))" for y
  proof
    assume "prefix y x"
    with ext [OF that] have "prefix (b @ [\<not> d]) x" by (rule prefix_order.trans)
    with d show False by (auto simp: prefix_def)
  qed
  have "(\<exists>y \<in> set (dir_free t p b d). prefix y x) \<longleftrightarrow> \<not> stored_at t p x"
    using stored_at_dir [OF assms(1) inner.hyps(1,2) d] inner.IH [of d] pos_ok_next [OF assms(1) inner.hyps(1), of d] d
    by (auto simp: dir_free_def)
  then show ?case using inner.hyps(4) no by (cases d) auto
qed

section \<open>Lemmas: the first available key\<close>

lemma longest_match_pos:
  assumes wf: "btrie_wf t" and key: "key_ok key len"
  shows "\<exists>p m. btrie_longest_match t key len = Some (p, m) \<and> m \<le> len \<and> pos_ok t p (kbits key m) \<and>
    (m < len \<longrightarrow> \<not> goes t p (kbits key m) (bitn key m))"
proof -
  have t: "t \<noteq> Null" using wf by auto
  obtain p where p: "btrie_node_lookup t key len = Some p" "deepest [] t p key len"
  proof -
    obtain r where r: "node_lookup t key len = Some r"
        "case r of None \<Rightarrow> \<not> prefix (nbits [] (bplen t) (bkey t)) (kbits key len) | Some p \<Rightarrow> deepest [] t p key len"
      using node_lookup_deepest [OF wf t key] by (auto simp: on_key_def)
    have "nbits [] (bplen t) (bkey t) = []" using wfx_hd [OF wf t] by (simp add: hd_ok_def nbits_def)
    then show ?thesis using r that by (cases r) (auto simp: btrie_node_lookup_def)
  qed
  let ?s = "node_at t p"
  have s: "?s \<noteq> Null" "prefix (bits_at [] t p) (kbits key len)" using p(2) by (auto simp: deepest_def)
  have l: "length (bits_at [] t p) = bplen ?s" by (rule length_bits_at [OF wf s(1)])
  have b: "bits_at [] t p = kbits key (bplen ?s)" "bplen ?s \<le> len" using s(2) l by (auto simp: prefix_kbits)
  have pos: "pos_ok t p (kbits key (bplen ?s))"
  proof -
    have "bplen (node_at t (butlast p)) < bplen ?s" if ne: "p \<noteq> []"
    proof -
      obtain q d where q: "p = q @ [d]" using ne by (cases p rule: rev_cases) auto
      have n: "node_at t q \<noteq> Null" using s(1) by (auto simp: q node_at_append)
      have "wfx (bits_at [] t q) (Some d) (child d (node_at t q))"
        using wfx_child [OF wfx_node_at [OF wf on_path_node_at [OF n]] n] by (simp add: bits_at_def)
      then have "hd_ok (bits_at [] t q) (Some d) (bplen ?s) (bkey ?s)" using wfx_hd s(1) by (auto simp: q node_at_append)
      then show ?thesis using length_bits_at [OF wf n] by (simp add: q hd_ok_def)
    qed
    then show ?thesis using s(1) b(1) by (simp add: pos_ok_def)
  qed
  show ?thesis
  proof (cases "bplen ?s = len")
    case True
    then show ?thesis using p(1) pos by (auto simp: btrie_longest_match_def Let_def)
  next
    case False
    then have lt: "bplen ?s < len" using b(2) by simp
    let ?d = "bitn key (bplen ?s)"
    have kb: "keybit key (bplen ?s) = Some ?d" by (rule keybit_eq [OF key lt])
    show ?thesis
    proof (cases "child ?d ?s = Null")
      case True
      then show ?thesis using p(1) kb False pos lt by (auto simp: btrie_longest_match_def Let_def goes_def)
    next
      case c: False
      let ?c = "child ?d ?s"
      have wc: "wfx (bits_at [] t p) (Some ?d) ?c"
        using wfx_child [OF wfx_node_at [OF wf on_path_node_at [OF s(1)]] s(1)] by (simp add: bits_at_def)
      have h: "hd_ok (kbits key (bplen ?s)) (Some ?d) (bplen ?c) (bkey ?c)" using wfx_hd [OF wc c] b(1) by simp
      have no: "\<not> prefix (nbits (kbits key (bplen ?s)) (bplen ?c) (bkey ?c)) (kbits key len)"
        using p(2) c lt b(1) by (auto simp: deepest_def Let_def)
      obtain L where L: "btrie_longest_match_node (bplen ?c) (bkey ?c) key len (bplen ?s + 1) = Some L" "bplen ?s < L"
          "L < bplen ?c" "L \<le> len" "prefix (kbits key L) (nbits (kbits key (bplen ?s)) (bplen ?c) (bkey ?c))"
          "L < len \<longrightarrow> nbits (kbits key (bplen ?s)) (bplen ?c) (bkey ?c) ! L \<noteq> bitn key L"
        using longest_match_node [OF h key lt no] by blast
      have n: "node_at t (p @ [?d]) = ?c" by (simp add: node_at_append)
      have ba: "bits_at [] t (p @ [?d]) = nbits (kbits key (bplen ?s)) (bplen ?c) (bkey ?c)"
        using b(1) by (simp add: bits_at_def pbits_append node_at_append)
      have "pos_ok t (p @ [?d]) (kbits key L)" using c L(2,5) n ba by (simp add: pos_ok_def)
      moreover have "L < len \<longrightarrow> \<not> goes t (p @ [?d]) (kbits key L) (bitn key L)" using L(3,6) n ba by (auto simp: goes_def)
      ultimately show ?thesis using p(1) kb False c L(1,4) by (auto simp: btrie_longest_match_def Let_def)
    qed
  qed
qed

declare check_up.simps [simp del]

lemma check_up_all:
  assumes "\<And>i. i \<le> length q \<Longrightarrow> bplen (node_at t (take i q)) \<le> cl"
  shows "check_up t cl (length q) q node m =
    (if \<exists>i \<le> length q. elements (node_at t (take i q)) \<noteq> [] then None else Some (node, m))"
  using assms
proof (induction "length q" arbitrary: q)
  case 0
  then show ?case by (subst check_up.simps) simp
next
  case (Suc h)
  have b: "take i (butlast q) = take i q" if "i \<le> h" for i using that Suc.hyps(2) by (simp add: take_butlast)
  have q: "take (Suc h) q = q" using Suc.hyps(2) by simp
  have le: "bplen (node_at t q) \<le> cl" using Suc.prems [of "Suc h"] Suc.hyps(2) q by simp
  have IH: "check_up t cl h (butlast q) node m =
      (if \<exists>i \<le> h. elements (node_at t (take i q)) \<noteq> [] then None else Some (node, m))"
  proof -
    have l: "h = length (butlast q)" using Suc.hyps(2) by simp
    have "bplen (node_at t (take i (butlast q))) \<le> cl" if "i \<le> length (butlast q)" for i
      using Suc.prems [of i] b [of i] that l Suc.hyps(2) by simp
    from Suc.hyps(1) [OF l this] show ?thesis using b unfolding l [symmetric] by (auto cong: ex_cong)
  qed
  show ?case
  proof (cases "elements (node_at t q) \<noteq> []")
    case True
    then show ?thesis using le Suc.hyps(2) q by (subst check_up.simps) (auto simp: Let_def)
  next
    case False
    then show ?thesis using IH Suc.hyps(2) [symmetric] q by (subst check_up.simps) (auto simp: Let_def le_Suc_eq)
  qed
qed

lemma child_longer:
  assumes "btrie_wf t" "node_at t (q @ [d]) \<noteq> Null"
  shows "node_at t q \<noteq> Null" "bplen (node_at t q) < bplen (node_at t (q @ [d]))"
    "wfx (bits_at [] t q) (Some d) (node_at t (q @ [d]))"
proof -
  show n: "node_at t q \<noteq> Null" using assms(2) by (auto simp: node_at_append)
  show w: "wfx (bits_at [] t q) (Some d) (node_at t (q @ [d]))"
    using wfx_child [OF wfx_node_at [OF assms(1) on_path_node_at [OF n]] n] by (simp add: bits_at_def node_at_append)
  show "bplen (node_at t q) < bplen (node_at t (q @ [d]))"
    using wfx_hd [OF w assms(2)] length_bits_at [OF assms(1) n] by (simp add: hd_ok_def)
qed

lemma bplen_take:
  assumes "btrie_wf t"
  shows "node_at t p \<noteq> Null \<Longrightarrow> i \<le> length p \<Longrightarrow> bplen (node_at t (take i p)) \<le> bplen (node_at t p)"
proof (induction p rule: rev_induct)
  case (snoc d q)
  then show ?case using child_longer [OF assms snoc.prems(1)] by (cases "i = length (q @ [d])") auto
qed simp

lemma stored_at_child:
  assumes wf: "btrie_wf t" and n: "node_at t (q @ [d]) \<noteq> Null" and x: "prefix (bits_at [] t q @ [d]) x"
  shows "stored_at t q x \<longleftrightarrow> elements (node_at t q) \<noteq> [] \<or> stored_at t (q @ [d]) x"
proof -
  let ?s = "node_at t q" and ?w = "bits_at [] t q"
  note c = child_longer [OF wf n]
  have w: "nbits (pbits [] t q) (bplen ?s) (bkey ?s) = ?w" by (simp add: bits_at_def)
  have wc: "wfx ?w (Some e) (child e ?s)" for e
    using wfx_child [OF wfx_node_at [OF wf on_path_node_at [OF c(1)]] c(1)] by (simp add: bits_at_def)
  have no: "\<not> prefix (fst e) x" if "e \<in> set (entries ?w (child (\<not> d) ?s))" for e
  proof
    assume "prefix (fst e) x"
    with entries_side [OF wc that] have "prefix (?w @ [\<not> d]) x" by (rule prefix_order.trans)
    with x show False by (auto simp: prefix_def)
  qed
  have px: "prefix ?w x" using x by (rule append_prefixD)
  have "stored_at t q x \<longleftrightarrow> elements ?s \<noteq> [] \<or> (\<exists>e \<in> set (entries ?w (child d ?s)). prefix (fst e) x)"
    using entries_eq [OF c(1), of "pbits [] t q"] no px unfolding stored_at_def w
    by (cases d; cases "elements ?s") auto
  then show ?thesis by (simp add: stored_at_def pbits_append node_at_append bits_at_def)
qed

lemma stored_on_path:
  assumes wf: "btrie_wf t"
  shows "pos_ok t p b \<Longrightarrow> prefix b x \<Longrightarrow>
    stored_at t [] x \<longleftrightarrow> (\<exists>i < length p. elements (node_at t (take i p)) \<noteq> []) \<or> stored_at t p x"
proof (induction p arbitrary: b rule: rev_induct)
  case (snoc d q)
  have n: "node_at t (q @ [d]) \<noteq> Null" using snoc.prems(1) by (simp add: pos_ok_def)
  note c = child_longer [OF wf n]
  have lq: "length (bits_at [] t q) = bplen (node_at t q)" by (rule length_bits_at [OF wf c(1)])
  have lb: "bplen (node_at t q) < length b" using snoc.prems(1) by (simp add: pos_ok_def)
  have "prefix (bits_at [] t q @ [d]) (bits_at [] t (q @ [d]))"
    using wfx_hd [OF c(3) n] by (simp add: hd_ok_def bits_at_def pbits_append)
  moreover have "prefix b (bits_at [] t (q @ [d]))" using snoc.prems(1) by (simp add: pos_ok_def)
  ultimately have wb: "prefix (bits_at [] t q @ [d]) b" using lq lb by (auto intro: prefix_length_prefix)
  then have x: "prefix (bits_at [] t q @ [d]) x" using snoc.prems(2) by (rule prefix_order.trans)
  have pq: "pos_ok t q (bits_at [] t q)"
  proof -
    have "bplen (node_at t (butlast q)) < bplen (node_at t q)" if "q \<noteq> []"
      using that child_longer(2) [OF wf, of "butlast q" "last q"] c(1) by simp
    then show ?thesis using c(1) lq by (simp add: pos_ok_def)
  qed
  have "stored_at t [] x \<longleftrightarrow> (\<exists>i < length q. elements (node_at t (take i q)) \<noteq> []) \<or> stored_at t q x"
    by (rule snoc.IH [OF pq append_prefixD [OF x]])
  moreover have "(\<exists>i < length (q @ [d]). elements (node_at t (take i (q @ [d]))) \<noteq> []) \<longleftrightarrow>
      (\<exists>i < length q. elements (node_at t (take i q)) \<noteq> []) \<or> elements (node_at t q) \<noteq> []"
    by (simp add: Ex_less_Suc disj_commute cong: conj_cong)
  ultimately show ?case using stored_at_child [OF wf n x] by simp
qed simp

lemma copy_container:
  assumes "length key = K" "length stk = K" "cl \<le> 8 * K"
  obtains k where "(if cl \<noteq> 0 then memcpy_at stk 0 key 0 ((cl - 1) div 8 + 1) else Some stk) = Some k"
    "length k = K" "kbits k cl = kbits key cl"
proof (cases "cl = 0")
  case True
  then show ?thesis using that [of stk] assms(2) by (simp add: kbits_def)
next
  case False
  have "(cl - 1) div 8 + 1 \<le> K" using False assms(3) by (simp add: Suc_le_eq less_mult_imp_div_less mult.commute)
  then obtain d where d: "memcpy_at stk 0 key 0 ((cl - 1) div 8 + 1) = Some d" "bits_copied stk 0 key 0 (8 * ((cl - 1) div 8 + 1)) d"
    using memcpy_copied [of 0 "(cl - 1) div 8 + 1" stk 0 key] assms by auto
  have "cl - 1 < 8 * ((cl - 1) div 8 + 1)" using dividend_less_times_div [of 8 "cl - 1"] by simp
  then have "j < 8 * ((cl - 1) div 8 + 1)" if "j < cl" for j using that by linarith
  then have "kbits d cl = kbits key cl" using d(2) by (simp add: kbits_def bits_copied_def)
  then show ?thesis using that [of d] d False assms by (simp add: bits_copied_def)
qed

text \<open>
  The search from the container: a stored key on the way covers it, or nothing stored is below it, or
  there is a position for it.
\<close>

lemma match_available:
  assumes wf: "btrie_wf t" and ko: "key_ok key cl"
  obtains p m E where "btrie_longest_match_available t key cl cl = Some (if E then None else Some (p, m))" "m \<le> cl"
    "pos_ok t p (kbits key m)" "m < cl \<longrightarrow> \<not> goes t p (kbits key m) (bitn key m)"
    "E \<longleftrightarrow> (\<exists>i < length p. elements (node_at t (take i p)) \<noteq> []) \<or> (m = bplen (node_at t p) \<and> elements (node_at t p) \<noteq> [])"
proof -
  obtain p m where pm: "btrie_longest_match t key cl = Some (p, m)" "m \<le> cl" "pos_ok t p (kbits key m)"
      "m < cl \<longrightarrow> \<not> goes t p (kbits key m) (bitn key m)"
    using longest_match_pos [OF wf ko] by blast
  have n: "node_at t p \<noteq> Null" using pm(3) by (simp add: pos_ok_def)
  have mb: "m \<le> bplen (node_at t p)" using pos_ok_bits(1) [OF wf pm(3)] by simp
  define q where "q = (if bplen (node_at t p) > m then butlast p else p)"
  have par: "p \<noteq> []" "node_at t (butlast p) \<noteq> Null" "bplen (node_at t (butlast p)) < m" if "bplen (node_at t p) > m"
  proof -
    show "p \<noteq> []" using wfx_hd [OF wf] n that by (cases p) (auto simp: hd_ok_def)
    then show "node_at t (butlast p) \<noteq> Null" "bplen (node_at t (butlast p)) < m"
      using child_longer(1) [OF wf, of "butlast p" "last p"] n pm(3) by (auto simp: pos_ok_def)
  qed
  have "bplen (node_at t (take i q)) \<le> cl" if "i \<le> length q" for i
  proof (cases "bplen (node_at t p) > m")
    case True
    then show ?thesis using bplen_take [OF wf par(2), of i] par(3) that pm(2) by (simp add: q_def)
  next
    case False
    then show ?thesis using bplen_take [OF wf n, of i] that pm(2) by (simp add: q_def)
  qed
  then have lma: "btrie_longest_match_available t key cl cl =
      Some (if \<exists>i \<le> length q. elements (node_at t (take i q)) \<noteq> [] then None else Some (p, m))"
    using pm(1) check_up_all [of q t cl p m] by (simp add: btrie_longest_match_available_def Let_def q_def)
  have tb: "take i (butlast p) = take i p" if "i \<le> length p - 1" for i
  proof (cases p rule: rev_cases)
    case (snoc r d)
    then show ?thesis using that by simp
  qed simp
  have "(\<exists>i \<le> length q. elements (node_at t (take i q)) \<noteq> []) \<longleftrightarrow>
      (\<exists>i < length p. elements (node_at t (take i p)) \<noteq> []) \<or> (m = bplen (node_at t p) \<and> elements (node_at t p) \<noteq> [])"
  proof (cases "bplen (node_at t p) > m")
    case True
    have "i \<le> length p - 1 \<longleftrightarrow> i < length p" for i using par(1) [OF True] by (cases p) auto
    then show ?thesis using True tb by (auto simp: q_def)
  next
    case False
    then show ?thesis using mb by (auto simp: q_def le_less)
  qed
  then show ?thesis using that lma pm(2-4) by blast
qed

lemma first_available_cases:
  assumes wf: "btrie_wf t" and K: "4 dvd K" and key: "length key = K" "length stk = K" "cl \<le> 8 * K"
  obtains
    (none) k n where "btrie_first_available t stk nz key cl = Some (Avail_none, k, n)"
      "\<And>x. prefix (kbits key cl) x \<Longrightarrow> stored_at t [] x"
  | (all) k where "btrie_first_available t stk nz key cl = Some (Avail_all, k, cl)" "length k = K" "kbits k cl = kbits key cl"
      "\<And>x. prefix (kbits key cl) x \<Longrightarrow> \<not> stored_at t [] x"
  | (some) p k where "btrie_first_available t stk nz key cl = next_available_loop t p k cl cl BT_AVAILMOD_NODE"
      "length k = K" "kbits k cl = kbits key cl" "pos_ok t p (kbits key cl)"
      "\<And>x. prefix (kbits key cl) x \<Longrightarrow> stored_at t [] x \<longleftrightarrow> stored_at t p x"
proof -
  have ko: "key_ok key cl" using K key by (auto simp: key_ok_def elim!: dvdE)
  obtain p m E where pm: "btrie_longest_match_available t key cl cl = Some (if E then None else Some (p, m))" "m \<le> cl"
    "pos_ok t p (kbits key m)" "m < cl \<longrightarrow> \<not> goes t p (kbits key m) (bitn key m)"
    "E \<longleftrightarrow> (\<exists>i < length p. elements (node_at t (take i p)) \<noteq> []) \<or> (m = bplen (node_at t p) \<and> elements (node_at t p) \<noteq> [])"
    by (rule match_available [OF wf ko])
  obtain k where k: "(if cl \<noteq> 0 then memcpy_at stk 0 key 0 ((cl - 1) div 8 + 1) else Some stk) = Some k"
      "length k = K" "kbits k cl = kbits key cl" by (rule copy_container [OF key])
  have n: "node_at t p \<noteq> Null" using pm(3) by (simp add: pos_ok_def)
  have "prefix (kbits key m) (kbits key cl)" using pm(2) by (simp add: prefix_kbits)
  then have px: "prefix (kbits key m) x" if "prefix (kbits key cl) x" for x using that by (rule prefix_order.trans)
  have first: "btrie_first_available t stk nz key cl =
    (if E then Some (Avail_none, k, nz) else if m < cl then Some (Avail_all, k, cl) else next_available_loop t p k cl cl BT_AVAILMOD_NODE)"
    using k(1) pm(1,2)
    by (auto simp: btrie_first_available_def btrie_first_available_from_def next_available_def Let_def split: if_splits)
  have path: "stored_at t [] x \<longleftrightarrow> (\<exists>i < length p. elements (node_at t (take i p)) \<noteq> []) \<or> stored_at t p x"
    if "prefix (kbits key cl) x" for x by (rule stored_on_path [OF wf pm(3) px [OF that]])
  show ?thesis
  proof (cases E)
    case True
    have "stored_at t p x" if "m = bplen (node_at t p)" "elements (node_at t p) \<noteq> []" "prefix (kbits key cl) x" for x
      using entries_eq [OF n, of "pbits [] t p"] that(2) px [OF that(3)] pos_ok_bits(2) [OF wf pm(3)] that(1)
      by (auto simp: stored_at_def bits_at_def neq_Nil_conv)
    then show ?thesis by (intro none) (use first True path pm(5) in auto)
  next
    case F: False
    then have st: "stored_at t [] x \<longleftrightarrow> stored_at t p x" if "prefix (kbits key cl) x" for x using path [OF that] pm(5) by blast
    show ?thesis
    proof (cases "m < cl")
      case False
      then have "m = cl" using pm(2) by simp
      show ?thesis by (rule some [of p k]) (use first F False k st pm(3) \<open>m = cl\<close> in auto)
    next
      case True
      have "\<not> stored_at t p x" if "prefix (kbits key cl) x" for x
      proof
        assume s: "stored_at t p x"
        have "prefix (kbits key (m + 1)) (kbits key cl)" using True by (simp add: prefix_kbits)
        then have x: "prefix (kbits key m @ [bitn key m]) x" using that by (metis kbits_Suc prefix_order.trans)
        have "\<not> (m = bplen (node_at t p) \<and> elements (node_at t p) = [] \<and>
            child False (node_at t p) = Null \<and> child True (node_at t p) = Null)"
          using s entries_eq [OF n, of "pbits [] t p"] by (auto simp: stored_at_def)
        then have "inner t p (kbits key m)" using pm(5) F by (auto simp: inner_def)
        then show False using stored_at_dir [OF wf pm(3) _ x] s pm(4) True by simp
      qed
      then show ?thesis by (intro all [of k]) (use first F True k st in auto)
    qed
  qed
qed

lemma available_visits_yields:
  "yields t K cl (Some (node, key, len)) L \<Longrightarrow> \<exists>ks. available_visits t cl node key len = Some ks \<and>
     map (\<lambda>(k, n). kbits k n) ks = L \<and> (\<forall>(k, n) \<in> set ks. length k = K)"
proof (induction L arbitrary: node key len)
  case Nil
  then show ?case by (subst available_visits.simps) simp
next
  case (Cons x L)
  then obtain p where p: "node = Avail_at p" "len = length x" "length key = K" "kbits key (length x) = x"
    "yields t K cl (next_available_loop t p key (length x) cl BT_AVAILMOD_UP) L" by auto
  then obtain n' k' l' where r: "next_available_loop t p key (length x) cl BT_AVAILMOD_UP = Some (n', k', l')"
    by (cases L) auto
  obtain ks where ks: "available_visits t cl n' k' l' = Some ks" "map (\<lambda>(k, n). kbits k n) ks = L" "\<forall>(k, n) \<in> set ks. length k = K"
    using Cons.IH [of n' k' l'] p(5) r by auto
  have "available_visits t cl node key len = Some ((key, len) # ks)"
    using p(1,2) r ks(1) by (subst available_visits.simps) (simp add: btrie_next_available_def next_available_def)
  then show ?case using ks p by auto
qed

lemma up_yields_end: "length b = cl \<Longrightarrow> up_yields t K cl p b []"
  unfolding up_yields_def by (subst next_available_loop.simps) (auto simp: Let_def)

lemma for_each_available:
  assumes wf: "btrie_wf t" and K: "4 dvd K" "fits t (8 * K)" and key: "length key = K" "length stk = K" "cl \<le> 8 * K"
  obtains ks where "btrie_for_each_available t stk key cl = Some ks" "sorted_wrt left_of (map (\<lambda>(k, n). kbits k n) ks)"
    "\<And>k n. (k, n) \<in> set ks \<Longrightarrow> length k = K \<and> n \<le> 8 * K \<and> prefix (kbits key cl) (kbits k n)"
    "\<And>x. prefix (kbits key cl) x \<Longrightarrow> 8 * K \<le> length x \<Longrightarrow>
      (\<exists>(k, n) \<in> set ks. prefix (kbits k n) x) \<longleftrightarrow> \<not> (\<exists>e \<in> set (entries [] t). prefix (fst e) x)"
proof -
  have st: "stored_at t [] x \<longleftrightarrow> (\<exists>e \<in> set (entries [] t). prefix (fst e) x)" for x by (simp add: stored_at_def)
  show ?thesis
    using wf K(1) key
  proof (cases rule: first_available_cases [where nz = 0])
    case (none k n)
    then have "btrie_for_each_available t stk key cl = Some []"
      by (simp add: btrie_for_each_available_def available_visits.simps)
    then show ?thesis using that [of "[]"] none(2) st by auto
  next
    case (all k)
    then have "btrie_for_each_available t stk key cl = Some [(k, cl)]"
      by (simp add: btrie_for_each_available_def available_visits.simps btrie_next_available_def next_available_def)
    then show ?thesis using that [of "[(k, cl)]"] all(2-4) st key(3) by auto
  next
    case (some p k)
    let ?F = "free_from (pbits [] t p) (node_at t p) (kbits key cl)"
    have "yields t K cl (btrie_first_available t stk 0 key cl) ?F"
      using yields_node [OF wf K some(4), of cl "[]" k] up_yields_end [of "kbits key cl" cl t K p] some(1-3) by simp
    moreover obtain n' k' l' where r: "btrie_first_available t stk 0 key cl = Some (n', k', l')"
      using calculation by (cases ?F) auto
    ultimately obtain ks where ks: "available_visits t cl n' k' l' = Some ks" "map (\<lambda>(k, n). kbits k n) ks = ?F"
        "\<forall>(k, n) \<in> set ks. length k = K" using available_visits_yields by metis
    have mem: "kbits k n \<in> set ?F" if "(k, n) \<in> set ks" for k n unfolding ks(2) [symmetric] using that by force
    have ex: "(\<exists>(k, n) \<in> set ks. P (kbits k n)) \<longleftrightarrow> (\<exists>y \<in> set ?F. P y)" for P unfolding ks(2) [symmetric] by force
    show ?thesis
    proof (rule that [of ks])
      show "btrie_for_each_available t stk key cl = Some ks" using r ks(1) by (simp add: btrie_for_each_available_def)
      show "sorted_wrt left_of (map (\<lambda>(k, n). kbits k n) ks)" unfolding ks(2) by (rule free_from_sorted [OF wf K(2) some(4)])
      show "length k = K \<and> n \<le> 8 * K \<and> prefix (kbits key cl) (kbits k n)" if "(k, n) \<in> set ks" for k n
        using free_from_ext [OF wf K(2) some(4)] mem [OF that] ks(3) that by fastforce
      show "(\<exists>(k, n) \<in> set ks. prefix (kbits k n) x) \<longleftrightarrow> \<not> (\<exists>e \<in> set (entries [] t). prefix (fst e) x)"
        if "prefix (kbits key cl) x" "8 * K \<le> length x" for x
        using ex [of "\<lambda>y. prefix y x"] free_from_cover [OF wf K(2) some(4) that] some(5) [OF that(1)] st by simp
    qed
  qed
qed

lemma clear_next: "own_clear t p b \<Longrightarrow> clear_path t (next_path t p b d)"
  by (auto simp: own_clear_def clear_path_def next_path_def less_Suc_eq)

lemma free_from_free:
  assumes "btrie_wf t" "fits t n" "pos_ok t p b" "clear_path t p" "y \<in> set (free_from (pbits [] t p) (node_at t p) b)"
  shows "key_free t n y"
  unfolding key_free_def
proof (intro allI impI)
  fix x assume x: "prefix y x" "n \<le> length x"
  have "prefix b y" using free_from_ext [OF assms(1-3)] assms(5) by blast
  then have b: "prefix b x" using x(1) by (rule prefix_order.trans)
  then show "\<not> stored_at t [] x"
    using free_from_cover [OF assms(1-3) b x(2)] stored_on_path [OF assms(1,3) b] assms(4,5) x(1)
    by (auto simp: clear_path_def)
qed

lemma dir_free_free:
  assumes wf: "btrie_wf t" and f: "fits t n" and pos: "pos_ok t p b" and c: "own_clear t p b" and y: "y \<in> set (dir_free t p b d)"
  shows "key_free t n y"
proof (cases "goes t p b d")
  case True
  then show ?thesis using free_from_free [OF wf f pos_ok_next [OF wf pos True] clear_next [OF c]] y by (simp add: dir_free_def)
next
  case False
  then have e: "y = b @ [d]" using y by (simp add: dir_free_def)
  show ?thesis
    unfolding key_free_def
  proof (intro allI impI)
    fix x assume x: "prefix y x" "n \<le> length x"
    have b: "prefix b x" using x(1) by (auto simp: e dest: append_prefixD)
    have n: "node_at t p \<noteq> Null" using pos by (simp add: pos_ok_def)
    have "\<not> stored_at t p x"
    proof
      assume s: "stored_at t p x"
      have "\<not> (length b = bplen (node_at t p) \<and> child False (node_at t p) = Null \<and> child True (node_at t p) = Null)"
        using s entries_eq [OF n, of "pbits [] t p"] c by (auto simp: stored_at_def own_clear_def)
      then have "inner t p b" using c by (auto simp: inner_def own_clear_def)
      then show False using stored_at_dir [OF wf pos _ x(1) [unfolded e]] s False by simp
    qed
    then show "\<not> stored_at t [] x" using stored_on_path [OF wf pos b] c by (auto simp: own_clear_def clear_path_def)
  qed
qed

lemma yields_right:
  assumes wf: "btrie_wf t" and K: "4 dvd K" "fits t (8 * K)" and pos: "pos_ok t p b" "length b < 8 * K" "cl \<le> length b"
    and up: "up_yields t K cl p b R" and key: "length key = K" "kbits key (length b) = b"
  shows "yields t K cl (next_available_loop t p key (length b) cl BT_AVAILMOD_RIGHT) (dir_free t p b True @ R)"
proof -
  have "yields t K cl (next_available_loop t (next_path t p b d) k (length b + 1) cl BT_AVAILMOD_NODE) (dir_free t p b d @ R')"
    if "goes t p b d" "up_yields t K cl (next_path t p b d) (b @ [d]) R'" "length k = K" "kbits k (length b + 1) = b @ [d]" for d k R'
    using yields_node [OF wf K pos_ok_next [OF wf pos(1) that(1)] _ that(2,3)] that(1,4) pos(3) by (simp add: dir_free_def)
  then show ?thesis
    using yields_dir [OF wf pos(1) K(1) pos(2,3) key, of True R] up by (simp add: up_yields_def)
qed

lemma yields_left:
  assumes wf: "btrie_wf t" and K: "4 dvd K" "fits t (8 * K)" and pos: "pos_ok t p b" "length b < 8 * K" "cl \<le> length b"
    and up: "up_yields t K cl p b R" and key: "length key = K" "kbits key (length b) = b"
  shows "yields t K cl (next_available_loop t p key (length b) cl BT_AVAILMOD_LEFT) (dir_free t p b False @ dir_free t p b True @ R)"
proof -
  have "yields t K cl (next_available_loop t (next_path t p b d) k (length b + 1) cl BT_AVAILMOD_NODE) (dir_free t p b d @ R')"
    if "goes t p b d" "up_yields t K cl (next_path t p b d) (b @ [d]) R'" "length k = K" "kbits k (length b + 1) = b @ [d]" for d k R'
    using yields_node [OF wf K pos_ok_next [OF wf pos(1) that(1)] _ that(2,3)] that(1,4) pos(3) by (simp add: dir_free_def)
  then show ?thesis
    using yields_dir [OF wf pos(1) K(1) pos(2,3) key, of False "dir_free t p b True @ R"] yields_right [OF wf K pos up] by simp
qed

lemma clear_butlast: "clear_path t p \<Longrightarrow> p \<noteq> [] \<Longrightarrow> clear_path t (butlast p) \<and> elements (node_at t (butlast p)) = []"
proof (cases p rule: rev_cases)
  case (snoc q d)
  then show "clear_path t p \<Longrightarrow> ?thesis" by (auto simp: clear_path_def less_Suc_eq)
qed simp

lemma pos_up:
  assumes wf: "btrie_wf t" and pos: "pos_ok t p (b @ [d])" and cl: "clear_path t p"
  defines "q \<equiv> if p \<noteq> [] \<and> bplen (node_at t (butlast p)) = length b then butlast p else p"
  shows "pos_ok t q b" "own_clear t q b"
proof -
  have b: "prefix b (bits_at [] t p)" using pos by (auto simp: pos_ok_def dest: append_prefixD)
  have n: "node_at t p \<noteq> Null" using pos by (simp add: pos_ok_def)
  have lt: "length b < bplen (node_at t p)" using pos_ok_bits(1) [OF wf pos] by simp
  have "pos_ok t q b \<and> own_clear t q b"
  proof (cases "p \<noteq> [] \<and> bplen (node_at t (butlast p)) = length b")
    case True
    obtain r e where p: "p = r @ [e]" using True by (cases p rule: rev_cases) auto
    note c = child_longer [OF wf n [unfolded p]]
    have "prefix (bits_at [] t r) (bits_at [] t p)"
      using wfx_hd [OF c(3) n [unfolded p]] by (auto simp: p hd_ok_def bits_at_def pbits_append dest: append_prefixD)
    moreover have "length b = length (bits_at [] t r)" using True length_bits_at [OF wf c(1)] by (simp add: p)
    ultimately have "prefix b (bits_at [] t r)" using prefix_length_prefix [OF b] by simp
    moreover have "r \<noteq> [] \<Longrightarrow> bplen (node_at t (butlast r)) < bplen (node_at t r)"
      using child_longer(2) [OF wf, of "butlast r" "last r"] c(1) by simp
    ultimately have "pos_ok t r b" using True c(1) by (simp add: pos_ok_def p)
    then show ?thesis using True clear_butlast [OF cl] by (simp add: q_def p own_clear_def)
  next
    case False
    then have "pos_ok t p b" using pos n b by (auto simp: pos_ok_def less_Suc_eq)
    moreover have "q = p" using False by (auto simp: q_def)
    ultimately show ?thesis using cl lt by (simp add: own_clear_def)
  qed
  then show "pos_ok t q b" "own_clear t q b" by auto
qed

lemma up_free:
  assumes wf: "btrie_wf t" and K: "4 dvd K" "fits t (8 * K)"
  shows "pos_ok t p b \<Longrightarrow> clear_path t p \<Longrightarrow> cl \<le> length b \<Longrightarrow> \<exists>R. up_yields t K cl p b R \<and> (\<forall>y \<in> set R. key_free t (8 * K) y \<and> length y \<le> 8 * K)"
proof (induction b arbitrary: p rule: rev_induct)
  case Nil
  then show ?case using up_yields_end [of "[]" cl t K p] by auto
next
  case (snoc d b)
  show ?case
  proof (cases "cl = length (b @ [d])")
    case True
    then show ?thesis using up_yields_end [of "b @ [d]" cl t K p] by auto
  next
    case False
    then have cl: "cl \<le> length b" using snoc.prems(3) by simp
    define q where "q = (if p \<noteq> [] \<and> bplen (node_at t (butlast p)) = length b then butlast p else p)"
    have q: "pos_ok t q b" "own_clear t q b" using pos_up [OF wf snoc.prems(1,2)] by (simp_all add: q_def)
    have lt: "length b < 8 * K"
      using pos_ok_bits(1) [OF wf snoc.prems(1)] K(2) snoc.prems(1) by (fastforce simp: fits_def pos_ok_def)
    obtain R where R: "up_yields t K cl q b R" "\<forall>y \<in> set R. key_free t (8 * K) y \<and> length y \<le> 8 * K"
      using snoc.IH [OF q(1) _ cl] q(2) by (auto simp: own_clear_def)
    let ?R = "if d then R else dir_free t q b True @ R"
    have "up_yields t K cl p (b @ [d]) ?R"
      unfolding up_yields_def
    proof (intro allI impI)
      fix key assume key: "length key = K" "kbits key (length (b @ [d])) = b @ [d]"
      then have kb: "kbits key (length b) = b" "kbits key (length b + 1) = b @ [d]" using kbits_Suc [of key "length b"] by auto
      have "next_available_loop t p key (length (b @ [d])) cl BT_AVAILMOD_UP =
          next_available_loop t q key (length b) cl (if d then BT_AVAILMOD_UP else BT_AVAILMOD_RIGHT)"
        using up_step [OF K(1) lt cl key(1) kb(2) q_def] by simp
      then show "yields t K cl (next_available_loop t p key (length (b @ [d])) cl BT_AVAILMOD_UP) ?R"
        using R(1) yields_right [OF wf K q(1) lt cl R(1) key(1) kb(1)] key(1) kb(1) by (simp add: up_yields_def)
    qed
    moreover have "key_free t (8 * K) y \<and> length y \<le> 8 * K" if "y \<in> set (dir_free t q b True)" for y
      using dir_free_free [OF wf K(2) q that] that free_from_ext [OF wf K(2) pos_ok_next [OF wf q(1)]] lt
      by (auto simp: dir_free_def split: if_splits)
    ultimately show ?thesis using R(2) by (intro exI [of _ ?R]) auto
  qed
qed

text \<open>The check on the way up: the topmost node with an element decides where to start.\<close>

lemma check_up_cases:
  assumes "\<And>i. i \<le> length q \<Longrightarrow> bplen (node_at t (take i q)) = 0 \<longleftrightarrow> i = 0"
    and "check_up t cl (length q) q node m = Some (node', m')"
  shows "(node' = node \<and> m' = m \<and> (\<forall>i \<le> length q. elements (node_at t (take i q)) = [])) \<or>
    (\<exists>j \<le> length q. 0 < j \<and> cl < bplen (node_at t (take j q)) \<and> m' = bplen (node_at t (take j q)) - 1 \<and>
       (\<forall>i < j. elements (node_at t (take i q)) = []) \<and>
       node' = (if bplen (node_at t (take (j - 1) q)) = m' then take (j - 1) q else take j q))"
  using assms
proof (induction "length q" arbitrary: q node m)
  case 0
  then show ?case by (subst (asm) check_up.simps) (auto simp: Let_def split: if_splits)
next
  case (Suc h)
  have l: "h = length (butlast q)" and hq: "length q = Suc h" using Suc.hyps(2) by simp_all
  have b: "take i (butlast q) = take i q" if "i \<le> h" for i using that hq by (simp add: take_butlast)
  have q: "take (Suc h) q = q" "take h q = butlast q" using hq by (simp_all add: butlast_conv_take)
  have pre: "bplen (node_at t (take i (butlast q))) = 0 \<longleftrightarrow> i = 0" if "i \<le> length (butlast q)" for i
    using Suc.prems(1) [of i] b [of i] that hq by simp
  note IH = Suc.hyps(1) [OF l pre, unfolded l [symmetric]]
  let ?m = "bplen (node_at t q) - 1"
  let ?n = "if bplen (node_at t (butlast q)) = ?m then butlast q else q"
  consider (e) "elements (node_at t q) = []" "check_up t cl h (butlast q) node m = Some (node', m')"
    | (n) "cl < bplen (node_at t q)" "check_up t cl h (butlast q) ?n ?m = Some (node', m')"
    using Suc.prems(2) hq by (subst (asm) check_up.simps) (auto simp: Let_def split: if_splits)
  then show ?case
  proof cases
    case e
    from IH [OF _ e(2)] consider
      (A) "node' = node" "m' = m" "\<forall>i \<le> h. elements (node_at t (take i (butlast q))) = []"
    | (B) j where "j \<le> h" "0 < j" "cl < bplen (node_at t (take j (butlast q)))" "m' = bplen (node_at t (take j (butlast q))) - 1"
        "\<forall>i < j. elements (node_at t (take i (butlast q))) = []"
        "node' = (if bplen (node_at t (take (j - 1) (butlast q))) = m' then take (j - 1) (butlast q) else take j (butlast q))"
      by blast
    then show ?thesis
    proof cases
      case A
      then show ?thesis using e(1) b q hq by (simp add: le_Suc_eq)
    next
      case B
      then show ?thesis using b hq by (intro disjI2 exI [of _ j]) simp
    qed
  next
    case n
    from IH [OF _ n(2)] consider
      (A) "node' = ?n" "m' = ?m" "\<forall>i \<le> h. elements (node_at t (take i (butlast q))) = []"
    | (B) j where "j \<le> h" "0 < j" "cl < bplen (node_at t (take j (butlast q)))" "m' = bplen (node_at t (take j (butlast q))) - 1"
        "\<forall>i < j. elements (node_at t (take i (butlast q))) = []"
        "node' = (if bplen (node_at t (take (j - 1) (butlast q))) = m' then take (j - 1) (butlast q) else take j (butlast q))"
      by blast
    then show ?thesis
    proof cases
      case A
      then show ?thesis using n(1) b q hq by (intro disjI2 exI [of _ "Suc h"]) simp
    next
      case B
      then show ?thesis using b hq by (intro disjI2 exI [of _ j]) simp
    qed
  qed
qed

lemma bits_on_path:
  assumes wf: "btrie_wf t"
  shows "node_at t p \<noteq> Null \<Longrightarrow> i \<le> length p \<Longrightarrow> node_at t (take i p) \<noteq> Null \<and> prefix (bits_at [] t (take i p)) (bits_at [] t p)"
proof (induction p rule: rev_induct)
  case (snoc d r)
  note c = child_longer [OF wf snoc.prems(1)]
  have "prefix (bits_at [] t r) (bits_at [] t (r @ [d]))"
    using wfx_hd [OF c(3) snoc.prems(1)] by (auto simp: hd_ok_def bits_at_def pbits_append dest: append_prefixD)
  then show ?case using snoc.IH [OF c(1)] snoc.prems by (cases "i = length (r @ [d])") (auto intro: prefix_order.trans)
qed simp

lemma pos_ok_ancestor:
  assumes wf: "btrie_wf t" and pos: "pos_ok t p b" and i: "i \<le> length p" "bplen (node_at t (take i p)) \<le> length b"
  shows "pos_ok t (take i p) (take (bplen (node_at t (take i p))) b)"
proof -
  have n: "node_at t p \<noteq> Null" "prefix b (bits_at [] t p)" using pos by (simp_all add: pos_ok_def)
  have a: "node_at t (take i p) \<noteq> Null" "prefix (bits_at [] t (take i p)) (bits_at [] t p)" using bits_on_path [OF wf n(1) i(1)] by auto
  have l: "length (bits_at [] t (take i p)) = bplen (node_at t (take i p))" by (rule length_bits_at [OF wf a(1)])
  then have "prefix (bits_at [] t (take i p)) b" using prefix_length_prefix [OF a(2) n(2)] i(2) by simp
  then have "take (bplen (node_at t (take i p))) b = bits_at [] t (take i p)" using l by (simp add: prefix_take)
  moreover have "take i p \<noteq> [] \<Longrightarrow> bplen (node_at t (butlast (take i p))) < bplen (node_at t (take i p))"
    using child_longer(2) [OF wf, of "butlast (take i p)" "last (take i p)"] a(1) by simp
  ultimately show ?thesis using a(1) l by (simp add: pos_ok_def)
qed

text \<open>A start at the position \<open>b\<close>, at which the iteration goes on by the side of the next bit or at the node.\<close>

lemma start_free:
  assumes wf: "btrie_wf t" and K: "4 dvd K" "fits t (8 * K)" and pos: "pos_ok t p b" "cl \<le> length b"
    and key: "length key = K" "kbits key (length b) = b"
    and m: "mode = BT_AVAILMOD_NODE \<and> clear_path t p \<or> mode \<in> {BT_AVAILMOD_LEFT, BT_AVAILMOD_RIGHT} \<and> length b < 8 * K \<and> own_clear t p b"
  shows "\<exists>r k n. next_available_loop t p key (length b) cl mode = Some (r, k, n) \<and>
    (r \<noteq> Avail_none \<longrightarrow> length k = K \<and> n \<le> 8 * K \<and> key_free t (8 * K) (kbits k n))"
proof -
  have cp: "clear_path t p" using m by (auto simp: own_clear_def)
  obtain R where R: "up_yields t K cl p b R" "\<forall>y \<in> set R. key_free t (8 * K) y \<and> length y \<le> 8 * K"
    using up_free [OF wf K pos(1) cp pos(2)] by blast
  have df: "key_free t (8 * K) y \<and> length y \<le> 8 * K" if "y \<in> set (dir_free t p b d)" "length b < 8 * K" "own_clear t p b" for y d
    using dir_free_free [OF wf K(2) pos(1) that(3,1)] that(1,2) free_from_ext [OF wf K(2) pos_ok_next [OF wf pos(1)]]
    by (auto simp: dir_free_def split: if_splits)
  obtain L where L: "yields t K cl (next_available_loop t p key (length b) cl mode) L" "\<forall>y \<in> set L. key_free t (8 * K) y \<and> length y \<le> 8 * K"
  proof (cases mode)
    case BT_AVAILMOD_NODE
    have "\<forall>y \<in> set (free_from (pbits [] t p) (node_at t p) b). key_free t (8 * K) y \<and> length y \<le> 8 * K"
      using free_from_free [OF wf K(2) pos(1) cp] free_from_ext [OF wf K(2) pos(1)] by blast
    then show ?thesis using that [OF yields_node [OF wf K pos R(1) key, folded BT_AVAILMOD_NODE]] R(2) by auto
  next
    case BT_AVAILMOD_LEFT
    then have s: "length b < 8 * K" "own_clear t p b" using m by auto
    show ?thesis by (rule that [OF yields_left [OF wf K pos(1) s(1) pos(2) R(1) key, folded BT_AVAILMOD_LEFT]]) (use df s R(2) in auto)
  next
    case BT_AVAILMOD_RIGHT
    then have s: "length b < 8 * K" "own_clear t p b" using m by auto
    show ?thesis by (rule that [OF yields_right [OF wf K pos(1) s(1) pos(2) R(1) key, folded BT_AVAILMOD_RIGHT]]) (use df s R(2) in auto)
  qed (use m in auto)
  show ?thesis
  proof (cases L)
    case (Cons y ys)
    then obtain q k where "next_available_loop t p key (length b) cl mode = Some (Avail_at q, k, length y)" "length k = K" "kbits k (length y) = y"
      using L(1) by auto
    then show ?thesis using L(2) Cons by auto
  qed (use L(1) in auto)
qed

lemma match_inside:
  assumes wf: "btrie_wf t" and ko: "key_ok key fl"
  obtains (none) "btrie_longest_match_available t key cl fl = Some None"
  | (at) p m where "btrie_longest_match_available t key cl fl = Some (Some (p, m))" "m \<le> fl" "pos_ok t p (kbits key m)"
      "own_clear t p (kbits key m)" "m < fl \<Longrightarrow> m < cl \<Longrightarrow> \<not> goes t p (kbits key m) (bitn key m)"
proof -
  obtain p m where pm: "btrie_longest_match t key fl = Some (p, m)" "m \<le> fl" "pos_ok t p (kbits key m)"
      "m < fl \<longrightarrow> \<not> goes t p (kbits key m) (bitn key m)"
    using longest_match_pos [OF wf ko] by blast
  have n: "node_at t p \<noteq> Null" using pm(3) by (simp add: pos_ok_def)
  have mb: "m \<le> bplen (node_at t p)" using pos_ok_bits(1) [OF wf pm(3)] by simp
  define l where "l = (if bplen (node_at t p) > m then length p - 1 else length p)"
  define q where "q = take l p"
  have q: "(if bplen (node_at t p) > m then butlast p else p) = q" "length q = l" "l \<le> length p"
    by (simp_all add: q_def l_def butlast_conv_take)
  have tq: "take i q = take i p" if "i \<le> l" for i using that by (simp add: q_def)
  have root: "bplen t = 0" using wfx_hd [OF wf] n by (cases "t = Null") (auto simp: hd_ok_def)
  have zero: "bplen (node_at t (take i q)) = 0 \<longleftrightarrow> i = 0" if "i \<le> length q" for i
  proof (cases i)
    case (Suc j)
    have il: "i \<le> length p" using that q(2,3) by linarith
    then have "p \<noteq> []" using Suc by auto
    then have "take i p \<noteq> []" "node_at t (take i p) \<noteq> Null" using Suc bits_on_path [OF wf n il] by simp_all
    then have "0 < bplen (node_at t (take i p))" using child_longer(2) [OF wf, of "butlast (take i p)" "last (take i p)"] by simp
    then show ?thesis using Suc tq [of i] that q(2) by simp
  qed (use root in simp)
  have small: "bplen (node_at t (take i p)) \<le> m" if "i \<le> l" for i
  proof (cases "bplen (node_at t p) > m")
    case True
    then have ne: "p \<noteq> []" using root by auto
    have b: "node_at t (butlast p) \<noteq> Null" using child_longer(1) [OF wf, of "butlast p" "last p"] n ne by simp
    have "i \<le> length (butlast p)" using that True by (simp add: l_def)
    then have "bplen (node_at t (take i (butlast p))) \<le> bplen (node_at t (butlast p))" by (rule bplen_take [OF wf b])
    moreover have "bplen (node_at t (butlast p)) < m" using pm(3) ne by (simp add: pos_ok_def)
    moreover have "take i (butlast p) = take i p" using that True by (simp add: l_def butlast_conv_take)
    ultimately show ?thesis by simp
  next
    case False
    then show ?thesis using bplen_take [OF wf n, of i] that mb by (simp add: l_def)
  qed
  have lma: "btrie_longest_match_available t key cl fl = Some (check_up t cl (length q) q p m)"
    using pm(1) q(1) by (simp add: btrie_longest_match_available_def Let_def)
  show ?thesis
  proof (cases "check_up t cl (length q) q p m")
    case None
    then show ?thesis using none lma by simp
  next
    case (Some r)
    obtain p' m' where r: "r = (p', m')" by fastforce
    from check_up_cases [OF zero, of cl p m p' m'] Some r consider
      (A) "p' = p" "m' = m" "\<forall>i \<le> l. elements (node_at t (take i q)) = []"
    | (B) j where "j \<le> l" "0 < j" "cl < bplen (node_at t (take j q))" "m' = bplen (node_at t (take j q)) - 1"
        "\<forall>i < j. elements (node_at t (take i q)) = []" "p' = (if bplen (node_at t (take (j - 1) q)) = m' then take (j - 1) q else take j q)"
      using q(2) by auto
    then show ?thesis
    proof cases
      case A
      have "own_clear t p (kbits key m)"
        using A(3) tq mb root by (cases "p = []") (auto simp: own_clear_def clear_path_def l_def split: if_splits)
      then show ?thesis using at [of p m] lma Some r A pm(2-4) by simp
    next
      case B
      let ?n = "bplen (node_at t (take j p))"
      have nj: "0 < ?n" "?n \<le> m" using zero [of j] B(1,2) q tq small by auto
      have "pos_ok t (take j p) (take ?n (kbits key m))" by (rule pos_ok_ancestor [OF wf pm(3)]) (use B(1) q nj in auto)
      moreover have "take ?n (kbits key m) = kbits key m' @ [bitn key m']"
        using nj B(1,4) tq kbits_Suc [of key m'] by (simp add: min_def)
      ultimately have pj: "pos_ok t (take j p) (kbits key m' @ [bitn key m'])" by simp
      have cj: "clear_path t (take j p)" using B(1,5) tq by (auto simp: clear_path_def)
      have bl: "butlast (take j p) = take (j - 1) p" "take j p \<noteq> []" using B(1,2) q(3) by (auto simp: butlast_take)
      have p': "p' = (if take j p \<noteq> [] \<and> bplen (node_at t (butlast (take j p))) = length (kbits key m') then butlast (take j p) else take j p)"
        using B(1,2,6) tq bl by simp
      have "pos_ok t p' (kbits key m')" "own_clear t p' (kbits key m')" using pos_up [OF wf pj cj] p' by simp_all
      moreover have "m' \<le> fl" "\<not> m' < cl" using B(1,3,4) nj pm(2) tq by auto
      ultimately show ?thesis using at [of p' m'] lma Some r by simp
    qed
  qed
qed

lemma first_from_free:
  assumes wf: "btrie_wf t" and K: "4 dvd K" "fits t (8 * K)" and key: "length key = K" "length stk = K" and fl: "cl \<le> fl" "fl \<le> 8 * K"
  shows "\<exists>r k n. btrie_first_available_from t stk nz key cl fl = Some (r, k, n) \<and>
    (r \<noteq> Avail_none \<longrightarrow> length k = K \<and> n \<le> 8 * K \<and> key_free t (8 * K) (kbits k n))"
proof -
  have ko: "key_ok key fl" using K(1) key fl by (auto simp: key_ok_def elim!: dvdE)
  obtain k where k: "(if fl \<noteq> 0 then memcpy_at stk 0 key 0 ((fl - 1) div 8 + 1) else Some stk) = Some k"
      "length k = K" "kbits k fl = kbits key fl" by (rule copy_container [OF key fl(2)])
  have kk: "kbits k i = kbits key i" if "i \<le> fl" for i
  proof -
    have "take i (kbits k fl) = take i (kbits key fl)" using k(3) by simp
    then show ?thesis using that by (simp add: min_def)
  qed
  from wf ko show ?thesis
  proof (cases rule: match_inside [where cl = cl])
    case none
    then show ?thesis using k(1) fl by (auto simp: btrie_first_available_from_def Let_def)
  next
    case (at p m)
    show ?thesis
    proof (cases "m < cl")
      case True
      have ng: "\<not> goes t p (kbits key m) (bitn key m)" using at(5) True fl(1) by simp
      have "key_free t (8 * K) (kbits key m @ [bitn key m])"
        by (rule dir_free_free [OF wf K(2) at(3,4), of _ "bitn key m"]) (use ng in \<open>simp add: dir_free_def\<close>)
      moreover have "prefix (kbits key m @ [bitn key m]) (kbits k cl)"
        using True kk [OF fl(1)] kbits_Suc [of key m] by (simp add: prefix_kbits)
      ultimately have "key_free t (8 * K) (kbits k cl)" unfolding key_free_def by (meson prefix_order.trans)
      then show ?thesis using at(1) True k fl by (auto simp: btrie_first_available_from_def Let_def)
    next
      case False
      define mode where "mode = (if m < fl then (if bitn key m then BT_AVAILMOD_RIGHT else BT_AVAILMOD_LEFT) else BT_AVAILMOD_NODE)"
      have "btrie_first_available_from t stk nz key cl fl = next_available_loop t p k m cl mode"
        using at(1,2) False k(1) fl keybit_eq [OF ko, of m]
        by (auto simp: btrie_first_available_from_def Let_def next_available_def mode_def)
      moreover have "\<exists>r k' n. next_available_loop t p k (length (kbits key m)) cl mode = Some (r, k', n) \<and>
          (r \<noteq> Avail_none \<longrightarrow> length k' = K \<and> n \<le> 8 * K \<and> key_free t (8 * K) (kbits k' n))"
        by (rule start_free [OF wf K at(3) _ k(2)])
          (use False at(2,4) fl kk [OF at(2)] in \<open>auto simp: mode_def own_clear_def\<close>)
      ultimately show ?thesis by simp
    qed
  qed
qed

section \<open>Lemmas: no node is longer than the key\<close>

lemma fits_simps [simp]: "fits Null n" "fits (Node es m k c0 c1) n \<longleftrightarrow> m \<le> n \<and> fits c0 n \<and> fits c1 n"
proof -
  have "node_at (Null :: 'a btrie) p = Null" for p by (induction p) auto
  then show "fits (Null :: 'a btrie) n" by (simp add: fits_def)
  show "fits (Node es m k c0 c1) n \<longleftrightarrow> m \<le> n \<and> fits c0 n \<and> fits c1 n" (is "?l = ?r")
  proof
    assume f: ?l
    have "fits (child d (Node es m k c0 c1)) n" for d using f unfolding fits_def by (metis node_at.simps(2))
    from this [of False] this [of True] show ?r using f by (auto simp: fits_def dest: spec [of _ "[]"])
  next
    assume r: ?r
    show ?l unfolding fits_def
    proof (intro allI impI)
      fix p assume "node_at (Node es m k c0 c1) p \<noteq> Null"
      then show "bplen (node_at (Node es m k c0 c1) p) \<le> n" using r by (cases p) (auto simp: fits_def child_Node split: if_splits)
    qed
  qed
qed

lemma fits_child [simp]: "fits t n \<Longrightarrow> fits (child d t) n"
  by (cases t) (auto simp: child_Node)

lemma fits_set_child [simp]: "fits t n \<Longrightarrow> fits c n \<Longrightarrow> fits (set_child d c t) n"
  by (cases t) (auto simp: set_child_def)

lemma fits_set_at: "fits t n \<Longrightarrow> fits s n \<Longrightarrow> fits (set_at t p s) n"
  by (induction t p s rule: set_at.induct) auto

lemma fits_node_at: "fits t n \<Longrightarrow> fits (node_at t p) n"
  by (induction t p rule: node_at.induct) auto

lemma fits_set_elements: "fits t n \<Longrightarrow> fits (set_elements es t) n"
  by (cases t) (auto simp: set_elements_def)

lemma fits_delete_maybe: "fits t n \<Longrightarrow> fits (btrie_delete_maybe t p) n"
proof (induction t p rule: btrie_delete_maybe.induct)
  case (1 t p)
  note f = fits_node_at [OF "1.prems", of p]
  show ?case
  proof (cases "node_at t p")
    case (Node es m k c0 c1)
    have o: "fits (set_at t p (if c0 \<noteq> Null then c0 else c1)) n" using f Node "1.prems" by (intro fits_set_at) auto
    with "1.IH" [OF Node] Node "1.prems" show ?thesis
      by (subst btrie_delete_maybe.simps) (auto simp: Let_def)
  qed (use "1.prems" in \<open>simp add: btrie_delete_maybe.simps\<close>)
qed

lemma keyword_inside: "keyword key i = Some w \<Longrightarrow> 4 * i + 4 \<le> length key"
  by (auto simp: keyword_def ld_be32_def split: if_splits)

lemma fits_add_leaf:
  "btrie_add_leaf mem m key pl = Some r \<Longrightarrow> pl \<le> 8 * length key \<Longrightarrow> fits (case r of Inl (c, p) \<Rightarrow> c | Inr (c, p) \<Rightarrow> c) (8 * length key)"
proof (induction mem arbitrary: m r)
  case 0
  then show ?case by (auto simp: btrie_add_leaf.simps [of 0])
next
  case (Suc mem)
  then show ?case
    by (subst (asm) (2) btrie_add_leaf.simps)
      (fastforce simp: Let_def dest!: keyword_inside split: option.splits if_splits sum.splits prod.splits)
qed

lemma fits_add_leafD:
  "btrie_add_leaf mem m key pl = Some (Inl (c, p)) \<Longrightarrow> pl \<le> 8 * length key \<Longrightarrow> fits c (8 * length key)"
  "btrie_add_leaf mem m key pl = Some (Inr (c, p)) \<Longrightarrow> pl \<le> 8 * length key \<Longrightarrow> fits c (8 * length key)"
  using fits_add_leaf by fastforce+

lemma fits_solve_conflict:
  assumes "btrie_solve_conflict mem c key pl m = Some r" "pl \<le> 8 * length key" "fits c (8 * length key)"
  shows "fits (case r of Inl (c, p) \<Rightarrow> c | Inr (c, p) \<Rightarrow> c) (8 * length key)"
proof (cases mem)
  case 0
  then show ?thesis using assms(1,3) by (auto simp: btrie_solve_conflict_def split: bind_splits)
next
  case (Suc mem')
  then obtain l w where l: "keyword key (index (l - 1)) = Some w"
    "(let d = nthbit (bkey c) (remain l); node = set_child d c (Node [] l w Null Null)
      in if l = pl then Some (Inr (node, []))
         else do { r \<leftarrow> btrie_add_leaf mem' l key pl;
                   (case r of Inl f \<Rightarrow> Some (Inl (failed_at (\<not> d) f node))
                    | Inr (c, p) \<Rightarrow> Some (Inr (set_child (\<not> d) c node, (\<not> d) # p))) }) = Some r"
    using assms(1) by (auto simp: btrie_solve_conflict_def Let_def split: bind_splits)
  have "l \<le> 8 * length key" using keyword_inside [OF l(1)] index_remain [of "l - 1"] by linarith
  then show ?thesis using l(2) assms(2,3)
    by (auto simp: Let_def failed_at_def dest: fits_add_leafD split: bind_splits if_splits sum.splits prod.splits)
qed

lemma fits_solve_conflictD:
  "btrie_solve_conflict mem c key pl m = Some (Inl (c', p)) \<Longrightarrow> pl \<le> 8 * length key \<Longrightarrow> fits c (8 * length key) \<Longrightarrow> fits c' (8 * length key)"
  "btrie_solve_conflict mem c key pl m = Some (Inr (c', q)) \<Longrightarrow> pl \<le> 8 * length key \<Longrightarrow> fits c (8 * length key) \<Longrightarrow> fits c' (8 * length key)"
  using fits_solve_conflict by fastforce+

lemma fits_node_add:
  assumes "btrie_node_add mem t key pl = Some r" "pl \<le> 8 * length key" "fits t (8 * length key)"
  shows "fits (case r of Inl (c, p) \<Rightarrow> c | Inr (c, p) \<Rightarrow> c) (8 * length key)"
  using assms
  by (auto simp: btrie_node_add_def Let_def failed_at_def intro!: fits_set_child
      dest: fits_add_leafD fits_solve_conflictD [OF _ _ fits_child]
      split: bind_splits if_splits sum.splits prod.splits)

lemma fits_add:
  assumes "btrie_add mem t e key pl = Some (t', r)" "pl \<le> 8 * length key" "fits t (8 * length key)"
  shows "fits t' (8 * length key)"
proof -
  obtain u np where g: "btrie_node_goc mem t key pl True = Some (u, np)"
      "t' = (case np of None \<Rightarrow> u | Some p \<Rightarrow> set_at u p (set_elements (elements (node_at u p) @ [e]) (node_at u p)))"
    using assms(1) by (auto simp: btrie_add_def split: bind_splits prod.splits option.splits)
  have "fits u (8 * length key)"
    using g(1) assms(2,3)
    by (auto simp: btrie_node_goc_def Let_def split: bind_splits if_splits sum.splits prod.splits option.splits
        dest!: fits_node_add intro!: fits_delete_maybe fits_set_at fits_node_at)
  then show ?thesis using g(2) by (auto intro!: fits_set_at fits_set_elements fits_node_at split: option.splits)
qed

lemma fits_remove: "fits t n \<Longrightarrow> fits (btrie_remove t p e) n"
  by (auto simp: btrie_remove_def Let_def intro!: fits_delete_maybe fits_set_at fits_set_elements fits_node_at)

section \<open>Properties\<close>

text \<open>C4: On a trie whose keys fit the key buffer, the iteration over the available keys of a container
  ends, stays inside the buffers, and gives in increasing order disjoint keys inside the container
  that together cover exactly the full-length keys that no stored key covers.\<close>

theorem available_exact:
  assumes "btrie_wf t" "4 dvd K" "fits t (8 * K)" "length key = K" "length stk = K" "cl \<le> 8 * K"
  shows "\<exists>ks. btrie_for_each_available t stk key cl = Some ks \<and> sorted_wrt left_of (map (\<lambda>(k, n). kbits k n) ks) \<and>
    (\<forall>(k, n) \<in> set ks. length k = K \<and> n \<le> 8 * K \<and> prefix (kbits key cl) (kbits k n)) \<and>
    (\<forall>x. prefix (kbits key cl) x \<longrightarrow> 8 * K \<le> length x \<longrightarrow>
      (\<exists>(k, n) \<in> set ks. prefix (kbits k n) x) \<longleftrightarrow> \<not> (\<exists>e \<in> set (entries [] t). prefix (fst e) x))"
proof -
  obtain ks where "btrie_for_each_available t stk key cl = Some ks" "sorted_wrt left_of (map (\<lambda>(k, n). kbits k n) ks)"
    "\<And>k n. (k, n) \<in> set ks \<Longrightarrow> length k = K \<and> n \<le> 8 * K \<and> prefix (kbits key cl) (kbits k n)"
    "\<And>x. prefix (kbits key cl) x \<Longrightarrow> 8 * K \<le> length x \<Longrightarrow>
      (\<exists>(k, n) \<in> set ks. prefix (kbits k n) x) \<longleftrightarrow> \<not> (\<exists>e \<in> set (entries [] t). prefix (fst e) x)"
    using for_each_available [OF assms] by blast
  then show ?thesis by (intro exI [of _ ks]) auto
qed

theorem available_exact_witness:
  "\<exists>ks. btrie_for_each_available (Node [] 0 0 Null (Node [7 :: nat] 1 0x80000000 Null Null)) [0, 0, 0, 0] [0, 0, 0, 0] 0 = Some ks \<and>
    (\<exists>(k, n) \<in> set ks. prefix (kbits k n) (replicate 32 False)) \<and> \<not> (\<exists>(k, n) \<in> set ks. prefix (kbits k n) (replicate 32 True))"
proof -
  let ?t = "Node [] 0 0 Null (Node [7 :: nat] 1 0x80000000 Null Null)"
  have e: "entries [] ?t = [([True], 7)]" by (simp add: nbits_def index_def)
  have w: "btrie_wf ?t" by (simp add: hd_ok_def nbits_def index_def)
  obtain ks where ks: "btrie_for_each_available ?t [0, 0, 0, 0] [0, 0, 0, 0] 0 = Some ks"
    "\<forall>x. prefix (kbits [0, 0, 0, 0] 0) x \<longrightarrow> 8 * 4 \<le> length x \<longrightarrow>
      (\<exists>(k, n) \<in> set ks. prefix (kbits k n) x) \<longleftrightarrow> \<not> (\<exists>e \<in> set (entries [] ?t). prefix (fst e) x)"
    using available_exact [of ?t 4 "[0, 0, 0, 0]" "[0, 0, 0, 0]" 0] w by auto
  have "(\<exists>(k, n) \<in> set ks. prefix (kbits k n) (replicate 32 d)) \<longleftrightarrow> \<not> d" for d
    using ks(2) [rule_format, of "replicate 32 d"] unfolding e
    by (cases d) (simp_all add: prefix_take kbits_def)
  from this [of False] this [of True] show ?thesis using ks(1) by (intro exI [of _ ks]) simp
qed

text \<open>C5: The availability search from any first position inside a container returns, and a key it
  returns overlaps no stored key.\<close>

theorem first_available_from_free:
  assumes "btrie_wf t" "4 dvd K" "fits t (8 * K)" "length key = K" "length stk = K" "cl \<le> fl" "fl \<le> 8 * K"
  shows "\<exists>r k n. btrie_first_available_from t stk nz key cl fl = Some (r, k, n) \<and>
    (r \<noteq> Avail_none \<longrightarrow> length k = K \<and> n \<le> 8 * K \<and> key_free t (8 * K) (kbits k n))"
  using first_from_free [OF assms] .

theorem first_available_from_free_witness:
  "\<exists>r k n. btrie_first_available_from (Node [] 0 0 Null (Node [7 :: nat] 1 0x80000000 Null Null)) [0, 0, 0, 0] 0 [0, 0, 0, 0] 0 8 = Some (r, k, n) \<and>
    (r = Avail_none \<or> key_free (Node [] 0 0 Null (Node [7 :: nat] 1 0x80000000 Null Null)) 32 (kbits k n))"
proof -
  let ?t = "Node [] 0 0 Null (Node [7 :: nat] 1 0x80000000 Null Null)"
  have w: "btrie_wf ?t" by (simp add: hd_ok_def nbits_def index_def)
  show ?thesis using first_available_from_free [of ?t 4 "[0, 0, 0, 0]" "[0, 0, 0, 0]" 0 8 0] w by auto
qed

end
