(* ===== verification/PrefixStore.thy ===== *)
theory PrefixStore
  imports BtrieFree
begin

text \<open>
  The interface through which the prefix assignment code uses the trie: elements are added under a
  key, removed by their node pointer, and found by overlap or by extension of a key with the
  iteration macros of src/src/btrie.h.  The locale states what the code relies on, over the multiset
  of the stored elements with the bit strings of their keys; the trie of \<open>Btrie\<close> interprets it.
\<close>

section \<open>Whole iterations\<close>

text \<open>The elements a loop over an iterator visits; the fuel bounds their number.\<close>

fun visit_list :: "nat \<Rightarrow> ('c \<Rightarrow> ('c \<times> 'a) option option) \<Rightarrow> ('c \<times> 'a) option option \<Rightarrow> 'a list option" where
  "visit_list 0 nxt r = None"
| "visit_list (Suc f) nxt r =
     (case r of
        None \<Rightarrow> None
      | Some None \<Rightarrow> Some []
      | Some (Some (c, e)) \<Rightarrow> do { es \<leftarrow> visit_list f nxt (nxt c); Some (e # es) })"

definition btrie_updown_list :: "'a btrie \<Rightarrow> bytes \<Rightarrow> nat \<Rightarrow> 'a list option" where
  "btrie_updown_list t key len =
     visit_list (length (entries [] t) + 1) (btrie_next_updown t key len) (btrie_first_updown t key len)"

text \<open>\<open>e->node\<close>: the node that holds an element.\<close>

fun element_node :: "'a btrie \<Rightarrow> 'a \<Rightarrow> path option" where
  "element_node Null e = None"
| "element_node (Node es n k c0 c1) e =
     (if e \<in> set es then Some []
      else case element_node c0 e of
             Some p \<Rightarrow> Some (False # p)
           | None \<Rightarrow> map_option ((#) True) (element_node c1 e))"

definition btrie_remove_element :: "'a btrie \<Rightarrow> 'a \<Rightarrow> 'a btrie option" where
  "btrie_remove_element t e = do { p \<leftarrow> element_node t e; Some (btrie_remove t p e) }"

definition btrie_down_list :: "'a btrie \<Rightarrow> bytes \<Rightarrow> nat \<Rightarrow> 'a list option" where
  "btrie_down_list t key len =
     visit_list (length (entries [] t) + 1) (\<lambda>c. Some (btrie_next_down t len c)) (btrie_first_down t key len)"

section \<open>The interface\<close>

definition overlap :: "bool list \<Rightarrow> bool list \<Rightarrow> bool" where
  "overlap xs ys \<longleftrightarrow> prefix xs ys \<or> prefix ys xs"

locale prefix_store =
  fixes inv :: "'s \<Rightarrow> bool"
    and contents :: "'s \<Rightarrow> (bool list \<times> 'e) multiset"
    and add :: "nat \<Rightarrow> 's \<Rightarrow> 'e \<Rightarrow> bytes \<Rightarrow> nat \<Rightarrow> ('s \<times> int) option"
    and remove :: "'s \<Rightarrow> 'e \<Rightarrow> 's option"
    and overlapping :: "'s \<Rightarrow> bytes \<Rightarrow> nat \<Rightarrow> 'e list option"
  assumes add_law: "inv s \<Longrightarrow> key_ok k n \<Longrightarrow> \<exists>s' r. add m s e k n = Some (s', r) \<and> inv s' \<and>
      (r = 0 \<and> contents s' = add_mset (kbits k n, e) (contents s) \<or> r = -1 \<and> contents s' = contents s)"
    and remove_law: "inv s \<Longrightarrow> (b, e) \<in># contents s \<Longrightarrow>
      \<exists>s' b'. remove s e = Some s' \<and> inv s' \<and> contents s = add_mset (b', e) (contents s')"
    and overlapping_law: "inv s \<Longrightarrow> key_ok k n \<Longrightarrow> \<exists>es. overlapping s k n = Some es \<and>
      mset es = image_mset snd (filter_mset (\<lambda>be. overlap (fst be) (kbits k n)) (contents s))"
begin

lemma overlapping_set:
  assumes "inv s" "key_ok k n"
  shows "\<exists>es. overlapping s k n = Some es \<and> (\<forall>e. e \<in> set es \<longleftrightarrow> (\<exists>b. (b, e) \<in># contents s \<and> overlap b (kbits k n)))"
proof -
  obtain es where es: "overlapping s k n = Some es"
      "mset es = image_mset snd (filter_mset (\<lambda>be. overlap (fst be) (kbits k n)) (contents s))"
    using overlapping_law [OF assms] by blast
  have "set es = snd ` set_mset (filter_mset (\<lambda>be. overlap (fst be) (kbits k n)) (contents s))"
    using arg_cong [OF es(2), of set_mset] by simp
  then show ?thesis using es(1) by force
qed

lemma overlapping_free:
  assumes "inv s" "key_ok k n"
  shows "overlapping s k n = Some [] \<longleftrightarrow> (\<forall>b e. (b, e) \<in># contents s \<longrightarrow> \<not> overlap b (kbits k n))"
proof -
  obtain es where es: "overlapping s k n = Some es" "\<And>e. e \<in> set es \<longleftrightarrow> (\<exists>b. (b, e) \<in># contents s \<and> overlap b (kbits k n))"
    using overlapping_set [OF assms] by blast
  have "es = [] \<longleftrightarrow> (\<forall>e. e \<notin> set es)" by (cases es) auto
  then show ?thesis using es by auto
qed

text \<open>An element stored once is removed with its own key.\<close>

lemma remove_once:
  assumes "inv s" "(b, e) \<in># contents s" "\<And>b'. (b', e) \<in># contents s \<Longrightarrow> b' = b"
  shows "\<exists>s'. remove s e = Some s' \<and> inv s' \<and> contents s = add_mset (b, e) (contents s')"
proof -
  obtain s' b' where s': "remove s e = Some s'" "inv s'" "contents s = add_mset (b', e) (contents s')"
    using remove_law [OF assms(1,2)] by blast
  have "b' = b" using assms(3) [of b'] s'(3) by simp
  then show ?thesis using s' by blast
qed

lemma add_then_overlapping:
  assumes "inv s" "key_ok k n" "add m s e k n = Some (s', 0)"
  shows "\<exists>es. overlapping s' k n = Some es \<and> e \<in> set es"
proof -
  have "inv s'" "contents s' = add_mset (kbits k n, e) (contents s)" using add_law [OF assms(1,2), of m e] assms(3) by auto
  then show ?thesis using overlapping_set [of s' k n] assms(2) by (auto simp: overlap_def)
qed

end

section \<open>The trie implements the interface\<close>

lemma visit_list_safe: "visits_safe nxt r es \<Longrightarrow> length es < f \<Longrightarrow> visit_list f nxt r = Some es"
proof (induction arbitrary: f rule: visits_safe.induct)
  case stop_safe
  then show ?case by (cases f) auto
next
  case (step_safe c es e)
  then show ?case by (cases f) auto
qed

lemma visits_visits_safe: "visits nxt r es \<Longrightarrow> visits_safe (\<lambda>c. Some (nxt c)) (Some r) es"
proof (induction rule: visits.induct)
  case stop
  show ?case by (rule visits_safe.stop_safe)
next
  case (step c es e)
  then show ?case by (intro visits_safe.step_safe) simp
qed

lemma btrie_updown_list_eq:
  assumes "btrie_wf t" "key_ok key pl"
  shows "btrie_updown_list t key pl = Some (map snd (filter (related key pl) (entries [] t)))"
  unfolding btrie_updown_list_def
  by (rule visit_list_safe [OF first_updown_visits [OF assms]]) (simp add: less_Suc_eq_le)

lemma btrie_down_list_eq:
  assumes "btrie_wf t" "key_ok key pl"
  shows "btrie_down_list t key pl = Some (map snd (filter (\<lambda>be. prefix (kbits key pl) (fst be)) (entries [] t)))"
proof -
  obtain r where r: "btrie_first_down t key pl = Some r"
      "visits (btrie_next_down t pl) r (map snd (filter (\<lambda>be. prefix (kbits key pl) (fst be)) (entries [] t)))"
    using first_down_visits [OF assms] by blast
  show ?thesis unfolding btrie_down_list_def r(1)
    by (rule visit_list_safe [OF visits_visits_safe [OF r(2)]]) (simp add: less_Suc_eq_le)
qed

lemma element_node_Some: "(b, e) \<in> set (entries pre t) \<Longrightarrow> element_node t e \<noteq> None"
  by (induction t arbitrary: pre) (auto split: option.split, blast)

lemma element_node_holds: "element_node t e = Some p \<Longrightarrow> node_at t p \<noteq> Null \<and> e \<in> set (elements (node_at t p))"
  by (induction t arbitrary: p) (auto split: if_splits option.splits)

lemma btrie_remove_element_law:
  assumes "btrie_wf t" "(b, e) \<in># mset (entries [] t)"
  shows "\<exists>t' b'. btrie_remove_element t e = Some t' \<and> btrie_wf t' \<and> mset (entries [] t) = add_mset (b', e) (mset (entries [] t'))"
proof -
  obtain p where p: "element_node t e = Some p" using element_node_Some [of b e "[]" t] assms(2) by auto
  note h = element_node_holds [OF p]
  have "btrie_remove_element t e = Some (btrie_remove t p e)" using p by (simp add: btrie_remove_element_def)
  then show ?thesis using remove_entry [OF assms(1), of p e] h by metis
qed

lemma fits_remove_element: "btrie_remove_element t e = Some t' \<Longrightarrow> fits t n \<Longrightarrow> fits t' n"
  by (auto simp: btrie_remove_element_def fits_remove split: bind_splits)

interpretation trie_store: prefix_store btrie_wf "\<lambda>t. mset (entries [] t)" btrie_add btrie_remove_element btrie_updown_list
proof
  fix s :: "'a btrie" and k n m e
  assume "btrie_wf s" "key_ok k n"
  from add_entry [OF this, of m e] obtain s' r where "btrie_add m s e k n = Some (s', r)" "btrie_wf s'"
      "r = 0 \<and> mset (entries [] s') = add_mset (kbits k n, e) (mset (entries [] s)) \<or>
       r = -1 \<and> m \<le> (n - 1) div 32 + 1 \<and> mset (entries [] s') = mset (entries [] s)" by auto
  then show "\<exists>s' r. btrie_add m s e k n = Some (s', r) \<and> btrie_wf s' \<and>
      (r = 0 \<and> mset (entries [] s') = add_mset (kbits k n, e) (mset (entries [] s)) \<or>
       r = -1 \<and> mset (entries [] s') = mset (entries [] s))"
    by (intro exI [of _ s'] exI [of _ r]) auto
next
  fix s :: "'a btrie" and b e
  assume "btrie_wf s" "(b, e) \<in># mset (entries [] s)"
  then show "\<exists>s' b'. btrie_remove_element s e = Some s' \<and> btrie_wf s' \<and> mset (entries [] s) = add_mset (b', e) (mset (entries [] s'))"
    by (rule btrie_remove_element_law)
next
  fix s :: "'a btrie" and k n
  assume "btrie_wf s" "key_ok k n"
  then show "\<exists>es. btrie_updown_list s k n = Some es \<and>
      mset es = image_mset snd (filter_mset (\<lambda>be. overlap (fst be) (kbits k n)) (mset (entries [] s)))"
    by (simp add: btrie_updown_list_eq related_def [abs_def] overlap_def)
qed

end
