(* ===== verification/PaCore.thy ===== *)
theory PaCore
  imports Bitops PrefixStore
begin

text \<open>
  The prefix assignment algorithm of src/src/pa_core.c and src/src/pa_core.h, with the configuration
  of src/src/pa_conf.h.

  A \<open>struct pa_core\<close> and everything that hangs from it is one record.  Links, delegated prefixes,
  link/prefix pairs (ldp), advertised prefixes and rules are numbers; \<open>link_of\<close>, \<open>dp_of\<close>, \<open>ldp_of\<close> and
  \<open>advp_of\<close> are what the pointers point to, and intrusive lists are lists of numbers in list order.
  A timer is the delay it was last set to, or \<open>None\<close> when it is not pending.  The calls to the
  registered users are the list \<open>events\<close>, each with the ldp at the time of the call.

  \<open>allocs\<close> says how many allocations succeed in each of the coming calls that allocate, which have
  memory enough after the end of the list; \<open>rands\<close> holds the coming values of \<open>random()\<close>.  A rule is the triple of its functions, which receive and return the
  core; \<open>rule_mem\<close> is the private memory of the rules.  \<open>None\<close> is undefined behaviour: an access outside
  a prefix, a division by zero, or an entry used as the wrong structure.
\<close>

unbundle bit_operations_syntax

section \<open>Structures\<close>

datatype pa_pentry = PAT_ASSIGNED nat | PAT_ADVERTISED nat

record pa_link =
  link_ldps :: "nat list"
  link_name :: "bytes option"
  link_type :: u8
  ha_parent :: "nat option"

record pa_dp =
  dp_ldps :: "nat list"
  dp_prefix :: bytes
  dp_plen :: nat
  dp_type :: u8
  ha_ldp :: "nat option"

record pa_ldp =
  ldp_link :: nat
  ldp_dp :: nat
  assigned :: bool
  published :: bool
  applied :: bool
  adopting :: bool
  backoff :: bool
  ha_apply_pending :: bool
  ldp_prefix :: bytes
  ldp_plen :: nat
  priority :: u8
  rule_priority :: u16
  ldp_rule :: "nat option"
  routine_to :: "u32 option"
  backoff_to :: "u32 option"
  best_assignment :: "nat option"

record pa_advp =
  advp_node_id :: u32
  advp_prefix :: bytes
  advp_plen :: nat
  advp_priority :: u8
  advp_link :: "nat option"

datatype pa_event = Ev_assigned nat pa_ldp | Ev_published nat pa_ldp | Ev_applied nat pa_ldp

record pa_core =
  prefixes :: "pa_pentry btrie"
  node_id :: u32
  flooding_delay :: u32
  adopt_delay :: u32
  backoff_delay :: u32
  users :: "nat list"
  links :: "nat list"
  dps :: "nat list"
  rules :: "nat list"
  ha_fast :: bool
  link_of :: "nat \<Rightarrow> pa_link"
  dp_of :: "nat \<Rightarrow> pa_dp"
  ldp_of :: "nat \<Rightarrow> pa_ldp"
  advp_of :: "nat \<Rightarrow> pa_advp"
  next_id :: nat
  rule_mem :: "nat \<Rightarrow> bytes \<times> nat"
  events :: "pa_event list"
  allocs :: "nat list"
  rands :: "nat list"

datatype pa_rule_target = PA_RULE_NO_MATCH | PA_RULE_ADOPT | PA_RULE_BACKOFF | PA_RULE_PUBLISH | PA_RULE_DESTROY

record pa_rule_arg =
  arg_rule_priority :: u16
  arg_prefix :: bytes
  arg_plen :: nat
  arg_priority :: u8

record pa_rule =
  filter_accept :: "(pa_core \<Rightarrow> nat \<Rightarrow> bool) option"
  get_max_priority :: "(pa_core \<Rightarrow> nat \<Rightarrow> (u16 \<times> pa_core) option) option"
  max_priority :: u16
  match_fn :: "(pa_core \<Rightarrow> nat \<Rightarrow> u16 \<Rightarrow> pa_rule_arg \<Rightarrow> (pa_rule_target \<times> pa_rule_arg \<times> pa_core) option) option"

definition PA_RUN_DELAY :: u32 where "PA_RUN_DELAY = 20"
definition PA_DEFAULT_FLOODING_DELAY :: u32 where "PA_DEFAULT_FLOODING_DELAY = 10000"
definition PA_ADOPT_DELAY_DEFAULT :: u32 where "PA_ADOPT_DELAY_DEFAULT = 2000"
definition PA_BACKOFF_DELAY_DEFAULT :: u32 where "PA_BACKOFF_DELAY_DEFAULT = 20000"

section \<open>Prefixes\<close>

definition pa_prefix_cpy :: "bytes \<Rightarrow> nat \<Rightarrow> bytes \<Rightarrow> (bytes \<times> nat) option" where
  "pa_prefix_cpy sp splen dp = do { d \<leftarrow> bmemcpy dp 0 sp 0 0 splen; Some (d, splen) }"

definition pa_prefix_contains :: "bytes \<Rightarrow> nat \<Rightarrow> bytes \<Rightarrow> bool option" where
  "pa_prefix_contains p1 plen1 p2 = do { c \<leftarrow> bmemcmp p1 0 p2 0 plen1; Some (c = 0) }"

definition pa_prefix_equals :: "bytes \<Rightarrow> nat \<Rightarrow> bytes \<Rightarrow> nat \<Rightarrow> bool option" where
  "pa_prefix_equals p1 l1 p2 l2 =
     (if l1 = l2 then do { c \<leftarrow> bmemcmp p1 0 p2 0 l1; Some (c = 0) } else Some False)"

definition pa_prefix_overlap :: "bytes \<Rightarrow> nat \<Rightarrow> bytes \<Rightarrow> nat \<Rightarrow> bool option" where
  "pa_prefix_overlap p1 plen1 p2 plen2 =
     (if plen1 > plen2 then pa_prefix_contains p2 plen2 p1 else pa_prefix_contains p1 plen1 p2)"

section \<open>State of an ldp\<close>

definition set_ldp :: "nat \<Rightarrow> (pa_ldp \<Rightarrow> pa_ldp) \<Rightarrow> pa_core \<Rightarrow> pa_core" where
  "set_ldp l f c = c\<lparr>ldp_of := (ldp_of c)(l := f (ldp_of c l))\<rparr>"

definition pa_user_notify :: "(nat \<Rightarrow> pa_ldp \<Rightarrow> pa_event) \<Rightarrow> nat \<Rightarrow> pa_core \<Rightarrow> pa_core" where
  "pa_user_notify ev l c = c\<lparr>events := events c @ [ev l (ldp_of c l)]\<rparr>"

definition pa_rand :: "pa_core \<Rightarrow> nat \<times> pa_core" where
  "pa_rand c = (case rands c of [] \<Rightarrow> (0, c) | r # rs \<Rightarrow> (r, c\<lparr>rands := rs\<rparr>))"

definition next_alloc :: "pa_core \<Rightarrow> nat \<times> pa_core" where
  "next_alloc c = (case allocs c of [] \<Rightarrow> (256, c) | m # ms \<Rightarrow> (m, c\<lparr>allocs := ms\<rparr>))"

definition pa_routine_schedule :: "nat \<Rightarrow> pa_core \<Rightarrow> pa_core" where
  "pa_routine_schedule l c =
     (if routine_to (ldp_of c l) = None then set_ldp l (routine_to_update (\<lambda>_. Some PA_RUN_DELAY)) c else c)"

definition PA_ADOPT_DELAY_r :: "pa_core \<Rightarrow> (u32 \<times> pa_core) option" where
  "PA_ADOPT_DELAY_r c =
     (let (r, c) = pa_rand c
      in if adopt_delay c = 0 then None else Some (of_nat (r mod unat (adopt_delay c)), c))"

definition PA_BACKOFF_DELAY_r :: "pa_core \<Rightarrow> (u32 \<times> pa_core) option" where
  "PA_BACKOFF_DELAY_r c =
     (let (r, c) = pa_rand c; d = backoff_delay c - adopt_delay c
      in if d = 0 then None else Some (adopt_delay c + of_nat (r mod unat d), c))"

text \<open>\<open>ha i\<close> says whether the ldp \<open>i\<close> of the parent core is applied.\<close>

definition pa_ldp_apply :: "(nat \<Rightarrow> bool) \<Rightarrow> nat \<Rightarrow> pa_core \<Rightarrow> pa_core" where
  "pa_ldp_apply ha l c =
     (if applied (ldp_of c l) then c
      else if (case ha_ldp (dp_of c (ldp_dp (ldp_of c l))) of None \<Rightarrow> False | Some i \<Rightarrow> \<not> ha i)
      then set_ldp l (ha_apply_pending_update (\<lambda>_. True)) c
      else pa_user_notify Ev_applied l
             (set_ldp l (\<lambda>x. x\<lparr>applied := True, ha_apply_pending := False\<rparr>) c))"

definition pa_ldp_unpublish :: "nat \<Rightarrow> bool \<Rightarrow> pa_core \<Rightarrow> pa_core" where
  "pa_ldp_unpublish l cancel_apply c =
     (if \<not> published (ldp_of c l) then c
      else pa_user_notify Ev_published l
             (set_ldp l (\<lambda>x. x\<lparr>ldp_rule := None, priority := 0, rule_priority := 0,
                backoff_to := (if cancel_apply then None else backoff_to x), published := False\<rparr>) c))"

definition pa_ldp_unadopt :: "nat \<Rightarrow> pa_core \<Rightarrow> pa_core" where
  "pa_ldp_unadopt l c =
     (if \<not> adopting (ldp_of c l) then c
      else set_ldp l (\<lambda>x. x\<lparr>ldp_rule := None, priority := 0, rule_priority := 0, adopting := False,
             backoff_to := (if \<not> applied x then Some (flooding_delay c * 2) else backoff_to x)\<rparr>) c)"

definition pa_ldp_publish :: "nat \<Rightarrow> nat option \<Rightarrow> u8 \<Rightarrow> u16 \<Rightarrow> pa_core \<Rightarrow> pa_core" where
  "pa_ldp_publish l r prio rprio c =
     (if published (ldp_of c l) then c
      else pa_user_notify Ev_published l
             (set_ldp l (\<lambda>x. x\<lparr>ldp_rule := r, priority := prio, rule_priority := rprio, published := True\<rparr>)
               (pa_ldp_unadopt l c)))"

definition pa_ldp_adopt :: "nat \<Rightarrow> nat option \<Rightarrow> u8 \<Rightarrow> u16 \<Rightarrow> pa_core \<Rightarrow> pa_core option" where
  "pa_ldp_adopt l r prio rprio c =
     (if adopting (ldp_of c l) then Some c
      else do { (d, c) \<leftarrow> PA_ADOPT_DELAY_r
                  (set_ldp l (\<lambda>x. x\<lparr>ldp_rule := r, priority := prio, rule_priority := rprio, adopting := True\<rparr>)
                    (pa_ldp_unpublish l True c));
                Some (set_ldp l (backoff_to_update (\<lambda>_. Some d)) c) })"

text \<open>The loop over the other ldps of the delegated prefix, at the end of \<open>pa_ldp_unassign\<close>.\<close>

definition schedule_unassigned :: "nat \<Rightarrow> nat list \<Rightarrow> pa_core \<Rightarrow> pa_core" where
  "schedule_unassigned l ls c =
     fold (\<lambda>l2 c. if \<not> assigned (ldp_of c l2) \<and> l2 \<noteq> l then pa_routine_schedule l2 c else c) ls c"

definition pa_ldp_unassign :: "nat \<Rightarrow> pa_core \<Rightarrow> pa_core option" where
  "pa_ldp_unassign l c =
     (if \<not> assigned (ldp_of c l) then Some c
      else let c = set_ldp l (ha_apply_pending_update (\<lambda>_. False)) c;
               c = (if applied (ldp_of c l)
                    then pa_user_notify Ev_applied l (set_ldp l (applied_update (\<lambda>_. False)) c) else c);
               c = pa_ldp_unadopt l (pa_ldp_unpublish l True c);
               c = set_ldp l (backoff_to_update (\<lambda>_. None)) c
           in do { t \<leftarrow> btrie_remove_element (prefixes c) (PAT_ASSIGNED l);
                   let c = pa_user_notify Ev_assigned l (set_ldp l (assigned_update (\<lambda>_. False)) (c\<lparr>prefixes := t\<rparr>));
                   Some (schedule_unassigned l (dp_ldps (dp_of c (ldp_dp (ldp_of c l)))) c) })"

definition pa_ldp_assign :: "nat \<Rightarrow> bytes \<Rightarrow> nat \<Rightarrow> pa_core \<Rightarrow> (pa_core \<times> int) option" where
  "pa_ldp_assign l pfx plen c =
     (if assigned (ldp_of c l) then Some (c, -2)
      else do { (p, n) \<leftarrow> pa_prefix_cpy pfx plen (ldp_prefix (ldp_of c l));
                let c = set_ldp l (\<lambda>x. x\<lparr>ldp_prefix := p, ldp_plen := n\<rparr>) c;
                let (m, c) = next_alloc c;
                (t, r) \<leftarrow> btrie_add m (prefixes c) (PAT_ASSIGNED l) pfx plen;
                let c = c\<lparr>prefixes := t\<rparr>;
                Some (if r \<noteq> 0 then (c, -1)
                      else (pa_user_notify Ev_assigned l
                             (set_ldp l (\<lambda>x. x\<lparr>backoff_to := Some (2 * flooding_delay c), assigned := True\<rparr>) c), 0)) })"

section \<open>The routine\<close>

text \<open>
  \<open>pa_precedes(advp, ldp)\<close>; \<open>memcmp\<close> of the two 32-bit identifiers is nonzero when they differ.
\<close>

definition pa_precedes :: "pa_core \<Rightarrow> pa_advp \<Rightarrow> pa_ldp \<Rightarrow> bool" where
  "pa_precedes c a x \<longleftrightarrow>
     \<not> published x \<or> advp_priority a > priority x \<or>
     (advp_priority a = priority x \<and> advp_node_id a \<noteq> node_id c)"

text \<open>
  The loop of \<open>pa_ldp_global_valid\<close>.  The entry of another ldp is read as an advertised prefix, unless
  the test is decided before.
\<close>

fun global_valid_loop :: "pa_core \<Rightarrow> nat \<Rightarrow> pa_pentry list \<Rightarrow> bool option" where
  "global_valid_loop c l [] = Some True"
| "global_valid_loop c l (e # es) =
     (if e = PAT_ASSIGNED l then global_valid_loop c l es
      else if \<not> published (ldp_of c l) then Some False
      else case e of
             PAT_ASSIGNED _ \<Rightarrow> None
           | PAT_ADVERTISED a \<Rightarrow>
               if pa_precedes c (advp_of c a) (ldp_of c l) then Some False else global_valid_loop c l es)"

definition pa_ldp_global_valid :: "pa_core \<Rightarrow> nat \<Rightarrow> bool option" where
  "pa_ldp_global_valid c l =
     do { es \<leftarrow> btrie_updown_list (prefixes c) (ldp_prefix (ldp_of c l)) (ldp_plen (ldp_of c l));
          global_valid_loop c l es }"

text \<open>1. The best advertised prefix on the link.\<close>

definition better_advp :: "pa_advp \<Rightarrow> pa_advp \<Rightarrow> bool" where
  "better_advp a b \<longleftrightarrow>
     advp_priority a > advp_priority b \<or> (advp_priority a = advp_priority b \<and> advp_node_id a > advp_node_id b)"

fun best_advp_loop :: "pa_core \<Rightarrow> nat \<Rightarrow> nat option \<Rightarrow> pa_pentry list \<Rightarrow> nat option" where
  "best_advp_loop c l best [] = best"
| "best_advp_loop c l best (e # es) =
     (case e of
        PAT_ASSIGNED _ \<Rightarrow> best_advp_loop c l best es
      | PAT_ADVERTISED a \<Rightarrow>
          best_advp_loop c l
            (if advp_link (advp_of c a) = Some (ldp_link (ldp_of c l)) \<and>
                (case best of None \<Rightarrow> True | Some b \<Rightarrow> better_advp (advp_of c a) (advp_of c b))
             then Some a else best) es)"

definition routine_best :: "nat \<Rightarrow> pa_core \<Rightarrow> pa_core option" where
  "routine_best l c =
     (let d = dp_of c (ldp_dp (ldp_of c l))
      in do { es \<leftarrow> btrie_updown_list (prefixes c) (dp_prefix d) (dp_plen d);
              Some (set_ldp l (best_assignment_update (\<lambda>_. best_advp_loop c l None es)) c) })"

text \<open>2. Validity of the current assignment.\<close>

definition routine_validity :: "nat \<Rightarrow> pa_core \<Rightarrow> pa_core option" where
  "routine_validity l c =
     (let best = (case best_assignment (ldp_of c l) of
                    None \<Rightarrow> None
                  | Some a \<Rightarrow> if pa_precedes c (advp_of c a) (ldp_of c l) then Some a else None);
          c = set_ldp l (best_assignment_update (\<lambda>_. best)) c
      in do { c \<leftarrow> (if assigned (ldp_of c l)
                     then do { valid \<leftarrow> (case best of
                                             None \<Rightarrow> pa_ldp_global_valid c l
                                           | Some a \<Rightarrow> pa_prefix_equals (ldp_prefix (ldp_of c l)) (ldp_plen (ldp_of c l))
                                                         (advp_prefix (advp_of c a)) (advp_plen (advp_of c a)));
                               if \<not> valid then pa_ldp_unassign l c else Some c }
                     else Some c);
              Some (if best \<noteq> None then pa_ldp_unadopt l c else c) })"

text \<open>3. The rules that accept the ldp, by decreasing maximal priority.\<close>

fun insert_rule :: "u16 \<times> nat \<Rightarrow> (u16 \<times> nat) list \<Rightarrow> (u16 \<times> nat) list" where
  "insert_rule x [] = [x]"
| "insert_rule x (y # ys) = (if fst y < fst x then x # y # ys else y # insert_rule x ys)"

definition rule_max_priority :: "pa_rule \<Rightarrow> nat \<Rightarrow> pa_core \<Rightarrow> (u16 \<times> pa_core) option" where
  "rule_max_priority r l c = (case get_max_priority r of Some f \<Rightarrow> f c l | None \<Rightarrow> Some (max_priority r, c))"

fun sort_rules ::
  "(nat \<Rightarrow> pa_rule) \<Rightarrow> nat \<Rightarrow> nat list \<Rightarrow> (u16 \<times> nat) list \<Rightarrow> pa_core \<Rightarrow> ((u16 \<times> nat) list \<times> pa_core) option" where
  "sort_rules R l [] acc c = Some (acc, c)"
| "sort_rules R l (r # rs) acc c =
     (if (case filter_accept (R r) of None \<Rightarrow> False | Some f \<Rightarrow> \<not> f c l) then sort_rules R l rs acc c
      else do { (m, c) \<leftarrow> rule_max_priority (R r) l c;
                sort_rules R l rs (if m = 0 then acc else insert_rule (m, r) acc) c })"

text \<open>The best result so far: the target, its argument and the rule.\<close>

type_synonym best_match = "pa_rule_target \<times> pa_rule_arg \<times> nat option"

fun match_rules ::
  "(nat \<Rightarrow> pa_rule) \<Rightarrow> nat \<Rightarrow> (u16 \<times> nat) list \<Rightarrow> u16 \<Rightarrow> best_match \<Rightarrow> pa_rule_arg \<Rightarrow> pa_core \<Rightarrow>
   (best_match \<times> pa_core) option" where
  "match_rules R l [] best_prio best arg c = Some (best, c)"
| "match_rules R l ((m, r) # rs) best_prio best arg c =
     (if m \<le> best_prio then Some (best, c)
      else case match_fn (R r) of
             None \<Rightarrow> match_rules R l rs best_prio best arg c
           | Some f \<Rightarrow>
               do { (target, arg, c) \<leftarrow> f c l best_prio arg;
                    if target = PA_RULE_NO_MATCH then match_rules R l rs best_prio best arg c
                    else match_rules R l rs (arg_rule_priority arg) (target, arg, Some r) arg c })"

definition routine_rules :: "(nat \<Rightarrow> pa_rule) \<Rightarrow> pa_rule_arg \<Rightarrow> nat \<Rightarrow> pa_core \<Rightarrow> (best_match \<times> pa_core) option" where
  "routine_rules R arg0 l c =
     do { (rs, c) \<leftarrow> sort_rules R l (rules c) [] c;
          let x = ldp_of c l;
          match_rules R l rs (if published x \<or> adopting x then rule_priority x else 0)
            (PA_RULE_NO_MATCH, arg0, None) arg0 c }"

text \<open>The other ldps whose prefix conflicts with the one to publish are unassigned.\<close>

fun unassign_conflicts :: "nat \<Rightarrow> pa_pentry list \<Rightarrow> pa_core \<Rightarrow> pa_core option" where
  "unassign_conflicts l [] c = Some c"
| "unassign_conflicts l (e # es) c =
     (case e of
        PAT_ADVERTISED _ \<Rightarrow> unassign_conflicts l es c
      | PAT_ASSIGNED l2 \<Rightarrow>
          if l2 = l then unassign_conflicts l es c
          else do { c \<leftarrow> pa_ldp_unassign l2 c; unassign_conflicts l es (pa_routine_schedule l2 c) })"

definition act_publish :: "nat \<Rightarrow> pa_rule_arg \<Rightarrow> nat option \<Rightarrow> pa_core \<Rightarrow> pa_core option" where
  "act_publish l arg r c =
     do { es \<leftarrow> btrie_updown_list (prefixes c) (arg_prefix arg) (arg_plen arg);
          c \<leftarrow> unassign_conflicts l es c;
          c \<leftarrow> (if assigned (ldp_of c l)
                 then do { eq \<leftarrow> pa_prefix_equals (arg_prefix arg) (arg_plen arg)
                                   (ldp_prefix (ldp_of c l)) (ldp_plen (ldp_of c l));
                           if \<not> eq then pa_ldp_unassign l c else Some c }
                 else Some c);
          c \<leftarrow> (if assigned (ldp_of c l) then Some (pa_ldp_unadopt l (pa_ldp_unpublish l False c))
                 else map_option fst (pa_ldp_assign l (arg_prefix arg) (arg_plen arg) c));
          Some (set_ldp l (best_assignment_update (\<lambda>_. None))
                 (pa_ldp_publish l r (arg_priority arg) (arg_rule_priority arg) c)) }"

definition act_backoff :: "nat \<Rightarrow> pa_core \<Rightarrow> pa_core option" where
  "act_backoff l c =
     (if best_assignment (ldp_of c l) \<noteq> None then Some c
      else do { c \<leftarrow> pa_ldp_unassign l c;
                if backoff_to (ldp_of c l) = None
                then do { (d, c) \<leftarrow> PA_BACKOFF_DELAY_r c;
                          Some (set_ldp l (backoff_to_update (\<lambda>_. Some d)) c) }
                else Some c })"

definition routine_act :: "nat \<Rightarrow> best_match \<Rightarrow> pa_core \<Rightarrow> pa_core option" where
  "routine_act l best c =
     (case best of (target, arg, r) \<Rightarrow>
        (case target of
           PA_RULE_ADOPT \<Rightarrow> pa_ldp_adopt l r (arg_priority arg) (arg_rule_priority arg) c
         | PA_RULE_BACKOFF \<Rightarrow> act_backoff l c
         | PA_RULE_DESTROY \<Rightarrow> do { c \<leftarrow> pa_ldp_unassign l c; Some (pa_routine_schedule l c) }
         | PA_RULE_PUBLISH \<Rightarrow> act_publish l arg r c
         | PA_RULE_NO_MATCH \<Rightarrow> Some c))"

text \<open>4. The end of the routine.\<close>

definition routine_end :: "nat \<Rightarrow> pa_core \<Rightarrow> pa_core option" where
  "routine_end l c =
     (let x = ldp_of c l
      in if assigned x
         then if best_assignment x \<noteq> None then Some (pa_ldp_unadopt l (pa_ldp_unpublish l False c))
              else if \<not> published x \<and> \<not> adopting x then pa_ldp_unassign l c
              else Some c
         else case best_assignment x of
                None \<Rightarrow> Some c
              | Some a \<Rightarrow>
                  do { c \<leftarrow> pa_ldp_unassign l c;
                       map_option fst (pa_ldp_assign l (advp_prefix (advp_of c a)) (advp_plen (advp_of c a)) c) })"

definition pa_routine :: "(nat \<Rightarrow> pa_rule) \<Rightarrow> pa_rule_arg \<Rightarrow> nat \<Rightarrow> bool \<Rightarrow> pa_core \<Rightarrow> pa_core option" where
  "pa_routine R arg0 l bo c =
     do { c \<leftarrow> routine_best l c;
          c \<leftarrow> routine_validity l c;
          (best, c) \<leftarrow> routine_rules R arg0 l (set_ldp l (backoff_update (\<lambda>_. bo)) c);
          c \<leftarrow> routine_act l best c;
          routine_end l c }"

text \<open>The timers; a timer is not pending any more when its function is called.\<close>

definition pa_backoff_to :: "(nat \<Rightarrow> pa_rule) \<Rightarrow> (nat \<Rightarrow> bool) \<Rightarrow> pa_rule_arg \<Rightarrow> nat \<Rightarrow> pa_core \<Rightarrow> pa_core option" where
  "pa_backoff_to R ha arg0 l c =
     (let c = set_ldp l (backoff_to_update (\<lambda>_. None)) c; x = ldp_of c l
      in if adopting x then Some (pa_ldp_publish l (ldp_rule x) (priority x) (rule_priority x) c)
         else if assigned x then Some (pa_ldp_apply ha l c)
         else pa_routine R arg0 l True c)"

definition pa_routine_to :: "(nat \<Rightarrow> pa_rule) \<Rightarrow> pa_rule_arg \<Rightarrow> nat \<Rightarrow> pa_core \<Rightarrow> pa_core option" where
  "pa_routine_to R arg0 l c = pa_routine R arg0 l False (set_ldp l (routine_to_update (\<lambda>_. None)) c)"

section \<open>Links, delegated prefixes and advertised prefixes\<close>

definition new_ldp :: "nat \<Rightarrow> nat \<Rightarrow> pa_ldp" where
  "new_ldp lk d = \<lparr>ldp_link = lk, ldp_dp = d, assigned = False, published = False, applied = False,
     adopting = False, backoff = False, ha_apply_pending = False, ldp_prefix = replicate 16 0, ldp_plen = 0,
     priority = 0, rule_priority = 0, ldp_rule = None, routine_to = None, backoff_to = None, best_assignment = None\<rparr>"

definition pa_ldp_create :: "nat \<Rightarrow> nat \<Rightarrow> pa_core \<Rightarrow> pa_core \<times> int" where
  "pa_ldp_create lk d c =
     (let (m, c) = next_alloc c
      in if m = 0 then (c, -1)
         else let l = next_id c;
                  c = c\<lparr>next_id := l + 1, ldp_of := (ldp_of c)(l := new_ldp lk d),
                        link_of := (link_of c)(lk := (link_of c lk)\<lparr>link_ldps := link_ldps (link_of c lk) @ [l]\<rparr>),
                        dp_of := (dp_of c)(d := (dp_of c d)\<lparr>dp_ldps := dp_ldps (dp_of c d) @ [l]\<rparr>)\<rparr>
              in (pa_routine_schedule l c, 0))"

definition pa_ldp_destroy :: "nat \<Rightarrow> pa_core \<Rightarrow> pa_core" where
  "pa_ldp_destroy l c =
     (let lk = ldp_link (ldp_of c l); d = ldp_dp (ldp_of c l)
      in set_ldp l (\<lambda>x. x\<lparr>backoff_to := None, routine_to := None\<rparr>)
           (c\<lparr>link_of := (link_of c)(lk := (link_of c lk)\<lparr>link_ldps := remove1 l (link_ldps (link_of c lk))\<rparr>),
              dp_of := (dp_of c)(d := (dp_of c d)\<lparr>dp_ldps := remove1 l (dp_ldps (dp_of c d))\<rparr>)\<rparr>))"

fun unassign_all :: "nat list \<Rightarrow> pa_core \<Rightarrow> pa_core option" where
  "unassign_all [] c = Some c"
| "unassign_all (l # ls) c = do { c \<leftarrow> pa_ldp_unassign l c; unassign_all ls c }"

definition pa_dp_del :: "nat \<Rightarrow> pa_core \<Rightarrow> pa_core option" where
  "pa_dp_del d c =
     do { c \<leftarrow> unassign_all (dp_ldps (dp_of c d)) c;
          let c = fold pa_ldp_destroy (dp_ldps (dp_of c d)) c;
          Some (c\<lparr>dps := remove1 d (dps c)\<rparr>) }"

text \<open>The link is skipped when both are in a hierarchy and the parents do not match.\<close>

definition ha_skip :: "(nat \<Rightarrow> nat) \<Rightarrow> pa_core \<Rightarrow> nat \<Rightarrow> nat \<Rightarrow> bool" where
  "ha_skip plink c lk d \<longleftrightarrow>
     (case (ha_ldp (dp_of c d), ha_parent (link_of c lk)) of
        (Some i, Some p) \<Rightarrow> p \<noteq> plink i
      | _ \<Rightarrow> False)"

fun create_for_links :: "(nat \<Rightarrow> nat) \<Rightarrow> nat \<Rightarrow> nat list \<Rightarrow> pa_core \<Rightarrow> pa_core \<times> bool" where
  "create_for_links plink d [] c = (c, True)"
| "create_for_links plink d (lk # lks) c =
     (if ha_skip plink c lk d then create_for_links plink d lks c
      else case pa_ldp_create lk d c of (c, r) \<Rightarrow> if r \<noteq> 0 then (c, False) else create_for_links plink d lks c)"

text \<open>\<open>plink i\<close> is the link of the ldp \<open>i\<close> of the parent core.\<close>

definition pa_dp_add :: "(nat \<Rightarrow> nat) \<Rightarrow> nat \<Rightarrow> pa_core \<Rightarrow> (pa_core \<times> int) option" where
  "pa_dp_add plink d c =
     (let c = c\<lparr>dp_of := (dp_of c)(d := (dp_of c d)\<lparr>dp_ldps := []\<rparr>), dps := dps c @ [d]\<rparr>
      in case create_for_links plink d (links c) c of
           (c, ok) \<Rightarrow> if ok then Some (c, 0) else do { c \<leftarrow> pa_dp_del d c; Some (c, -1) })"

definition pa_dp_init :: "bytes \<Rightarrow> nat \<Rightarrow> pa_dp \<Rightarrow> pa_dp option" where
  "pa_dp_init pfx plen d =
     do { (p, n) \<leftarrow> pa_prefix_cpy pfx plen (dp_prefix d);
          Some (d\<lparr>dp_prefix := p, dp_plen := n, dp_type := 0, ha_ldp := None\<rparr>) }"

definition pa_link_del :: "nat \<Rightarrow> pa_core \<Rightarrow> pa_core option" where
  "pa_link_del lk c =
     do { c \<leftarrow> unassign_all (link_ldps (link_of c lk)) c;
          let c = fold pa_ldp_destroy (link_ldps (link_of c lk)) c;
          Some (c\<lparr>links := remove1 lk (links c)\<rparr>) }"

fun create_for_dps :: "(nat \<Rightarrow> nat) \<Rightarrow> nat \<Rightarrow> nat list \<Rightarrow> pa_core \<Rightarrow> pa_core \<times> bool" where
  "create_for_dps plink lk [] c = (c, True)"
| "create_for_dps plink lk (d # ds) c =
     (if ha_skip plink c lk d then create_for_dps plink lk ds c
      else case pa_ldp_create lk d c of (c, r) \<Rightarrow> if r \<noteq> 0 then (c, False) else create_for_dps plink lk ds c)"

definition pa_link_add :: "(nat \<Rightarrow> nat) \<Rightarrow> nat \<Rightarrow> pa_core \<Rightarrow> (pa_core \<times> int) option" where
  "pa_link_add plink lk c =
     (let c = c\<lparr>link_of := (link_of c)(lk := (link_of c lk)\<lparr>link_ldps := []\<rparr>), links := links c @ [lk]\<rparr>
      in case create_for_dps plink lk (dps c) c of
           (c, ok) \<Rightarrow> if ok then Some (c, 0) else do { c \<leftarrow> pa_link_del lk c; Some (c, -1) })"

definition pa_link_init :: "bytes option \<Rightarrow> pa_link \<Rightarrow> pa_link" where
  "pa_link_init name lk = lk\<lparr>link_name := name, link_type := 0, ha_parent := None\<rparr>"

fun advp_schedule :: "pa_advp \<Rightarrow> nat list \<Rightarrow> pa_core \<Rightarrow> pa_core option" where
  "advp_schedule a [] c = Some c"
| "advp_schedule a (d # ds) c =
     do { o' \<leftarrow> pa_prefix_overlap (dp_prefix (dp_of c d)) (dp_plen (dp_of c d)) (advp_prefix a) (advp_plen a);
          advp_schedule a ds (if o' then fold pa_routine_schedule (dp_ldps (dp_of c d)) c else c) }"

definition pa_advp_update :: "nat \<Rightarrow> pa_core \<Rightarrow> pa_core option" where
  "pa_advp_update a c = advp_schedule (advp_of c a) (dps c) c"

definition pa_advp_add :: "nat \<Rightarrow> pa_core \<Rightarrow> (pa_core \<times> int) option" where
  "pa_advp_add a c =
     (let (m, c) = next_alloc c
      in do { (t, r) \<leftarrow> btrie_add m (prefixes c) (PAT_ADVERTISED a) (advp_prefix (advp_of c a)) (advp_plen (advp_of c a));
              if r \<noteq> 0 then Some (c\<lparr>prefixes := t\<rparr>, -1)
              else do { c \<leftarrow> pa_advp_update a (c\<lparr>prefixes := t\<rparr>); Some (c, 0) } })"

definition pa_advp_del :: "nat \<Rightarrow> pa_core \<Rightarrow> pa_core option" where
  "pa_advp_del a c =
     do { t \<leftarrow> btrie_remove_element (prefixes c) (PAT_ADVERTISED a);
          pa_advp_update a (c\<lparr>prefixes := t\<rparr>) }"

section \<open>Configuration\<close>

definition all_ldps :: "pa_core \<Rightarrow> nat list" where
  "all_ldps c = concat (map (\<lambda>lk. link_ldps (link_of c lk)) (links c))"

definition pa_rule_add :: "nat \<Rightarrow> pa_core \<Rightarrow> pa_core" where
  "pa_rule_add r c = (let c = c\<lparr>rules := rules c @ [r]\<rparr> in fold pa_routine_schedule (all_ldps c) c)"

definition pa_rule_del :: "nat \<Rightarrow> pa_core \<Rightarrow> pa_core" where
  "pa_rule_del r c =
     (let c = c\<lparr>rules := remove1 r (rules c)\<rparr>
      in fold (\<lambda>l c. let c = pa_routine_schedule l c
                     in if ldp_rule (ldp_of c l) = Some r then pa_ldp_unadopt l (pa_ldp_unpublish l True c) else c)
           (all_ldps c) c)"

text \<open>\<open>remaining l\<close> is \<open>uloop_timeout_remaining\<close> of the backoff timer of \<open>l\<close>.\<close>

definition pa_core_set_flooding_delay :: "(nat \<Rightarrow> u32) \<Rightarrow> u32 \<Rightarrow> pa_core \<Rightarrow> pa_core" where
  "pa_core_set_flooding_delay remaining fd c =
     (let old = flooding_delay c;
          run = (\<lambda>x. assigned x \<and> \<not> adopting x \<and> backoff_to x \<noteq> None);
          c = (if fd > old
               then fold (\<lambda>l c. if run (ldp_of c l)
                                then set_ldp l (backoff_to_update (\<lambda>_. Some (remaining l + 2 * (fd - old)))) c else c)
                      (all_ldps c) c
               else if fd < old
               then fold (\<lambda>l c. if run (ldp_of c l) \<and> remaining l > 2 * fd
                                then set_ldp l (backoff_to_update (\<lambda>_. Some (2 * fd))) c else c)
                      (all_ldps c) c
               else c)
      in c\<lparr>flooding_delay := fd\<rparr>)"

definition pa_core_set_node_id :: "u32 \<Rightarrow> pa_core \<Rightarrow> pa_core" where
  "pa_core_set_node_id i c =
     (if i \<noteq> node_id c then fold pa_routine_schedule (all_ldps c) (c\<lparr>node_id := i\<rparr>) else c)"

definition pa_core_init :: "pa_core \<Rightarrow> pa_core" where
  "pa_core_init c =
     c\<lparr>dps := [], links := [], users := [], rules := [], prefixes := btrie_init, node_id := 0,
       flooding_delay := PA_DEFAULT_FLOODING_DELAY, adopt_delay := PA_ADOPT_DELAY_DEFAULT,
       backoff_delay := PA_BACKOFF_DELAY_DEFAULT\<rparr>"

section \<open>Validity of a candidate\<close>

definition entry_conflicts :: "pa_core \<Rightarrow> u16 \<Rightarrow> u8 \<Rightarrow> bool \<Rightarrow> pa_pentry \<Rightarrow> bool" where
  "entry_conflicts c orp op safety e \<longleftrightarrow>
     (case e of
        PAT_ASSIGNED l2 \<Rightarrow>
          let x = ldp_of c l2
          in ((published x \<or> adopting x) \<and> rule_priority x \<ge> orp) \<or> (safety \<and> published x \<and> priority x > op)
      | PAT_ADVERTISED a \<Rightarrow> advp_priority (advp_of c a) \<ge> op)"

definition own_conflicts :: "pa_core \<Rightarrow> nat \<Rightarrow> u16 \<Rightarrow> u8 \<Rightarrow> bool \<Rightarrow> bool" where
  "own_conflicts c l orp op safety \<longleftrightarrow>
     (let x = ldp_of c l
      in case best_assignment x of
           Some a \<Rightarrow> advp_priority (advp_of c a) \<ge> op
         | None \<Rightarrow> assigned x \<and>
             (if (published x \<or> adopting x) \<and> rule_priority x \<ge> orp then True
              else safety \<and> published x \<and> priority x \<ge> op))"

fun valid_loop :: "pa_core \<Rightarrow> u16 \<Rightarrow> u8 \<Rightarrow> bool \<Rightarrow> pa_pentry list \<Rightarrow> bool" where
  "valid_loop c orp op safety [] = True"
| "valid_loop c orp op safety (e # es) =
     (if entry_conflicts c orp op safety e then False else valid_loop c orp op safety es)"

definition pa_rule_valid_assignment ::
  "pa_core \<Rightarrow> nat \<Rightarrow> bytes \<Rightarrow> nat \<Rightarrow> u16 \<Rightarrow> u8 \<Rightarrow> bool \<Rightarrow> bool option" where
  "pa_rule_valid_assignment c l pfx plen orp op safety =
     (if own_conflicts c l orp op safety then Some False
      else do { es \<leftarrow> btrie_updown_list (prefixes c) pfx plen;
                Some (valid_loop c orp op safety es) })"

section \<open>Hierarchical assignment\<close>

definition pa_ha_dp_get :: "pa_core \<Rightarrow> nat \<Rightarrow> nat option" where
  "pa_ha_dp_get c i = find (\<lambda>d. ha_ldp (dp_of c d) = Some i) (dps c)"

definition pa_ha_dp_del :: "nat \<Rightarrow> pa_core \<Rightarrow> pa_core option" where
  "pa_ha_dp_del i c = (case pa_ha_dp_get c i of None \<Rightarrow> Some c | Some d \<Rightarrow> pa_dp_del d c)"

text \<open>\<open>x\<close> is the ldp \<open>i\<close> of the parent.\<close>

definition pa_ha_dp_add :: "(nat \<Rightarrow> nat) \<Rightarrow> nat \<Rightarrow> pa_ldp \<Rightarrow> pa_core \<Rightarrow> pa_core option" where
  "pa_ha_dp_add plink i x c =
     (if pa_ha_dp_get c i \<noteq> None then Some c
      else let (m, c) = next_alloc c
           in if m = 0 then Some c
              else let d = next_id c
                   in do { (p, n) \<leftarrow> pa_prefix_cpy (ldp_prefix x) (ldp_plen x) (dp_prefix (dp_of c d));
                           let c = c\<lparr>next_id := d + 1,
                              dp_of := (dp_of c)(d := (dp_of c d)\<lparr>dp_prefix := p, dp_plen := n, ha_ldp := Some i, dp_type := 0\<rparr>)\<rparr>;
                           map_option fst (pa_dp_add plink d c) })"

definition pa_ha_assigned_cb :: "(nat \<Rightarrow> nat) \<Rightarrow> nat \<Rightarrow> pa_ldp \<Rightarrow> pa_core \<Rightarrow> pa_core option" where
  "pa_ha_assigned_cb plink i x c = (if assigned x then pa_ha_dp_add plink i x c else pa_ha_dp_del i c)"

definition pa_ha_applied_cb :: "(nat \<Rightarrow> bool) \<Rightarrow> (nat \<Rightarrow> nat) \<Rightarrow> nat \<Rightarrow> pa_ldp \<Rightarrow> pa_core \<Rightarrow> pa_core option" where
  "pa_ha_applied_cb ha plink i x c =
     (if ha_fast c
      then case pa_ha_dp_get c i of
             None \<Rightarrow> Some c
           | Some d \<Rightarrow>
               Some (if applied x
                     then fold (\<lambda>l c. if \<not> applied (ldp_of c l) \<and> ha_apply_pending (ldp_of c l) then pa_ldp_apply ha l c else c)
                            (dp_ldps (dp_of c d)) c
                     else c)
      else if applied x then pa_ha_dp_add plink i x c else pa_ha_dp_del i c)"

fun ha_attach_loop ::
  "(nat \<Rightarrow> bool) \<Rightarrow> (nat \<Rightarrow> nat) \<Rightarrow> bool \<Rightarrow> (nat \<Rightarrow> pa_ldp) \<Rightarrow> nat list \<Rightarrow> pa_core \<Rightarrow> pa_core option" where
  "ha_attach_loop ha plink fast ldps [] c = Some c"
| "ha_attach_loop ha plink fast ldps (i # is) c =
     do { c \<leftarrow> (if fast \<and> assigned (ldps i) then pa_ha_assigned_cb plink i (ldps i) c else Some c);
          c \<leftarrow> (if applied (ldps i) then pa_ha_applied_cb ha plink i (ldps i) c else Some c);
          ha_attach_loop ha plink fast ldps is c }"

text \<open>The child registers as the user \<open>u\<close> of the parent; the result is the child and the parent.\<close>

definition pa_ha_attach :: "nat \<Rightarrow> bool \<Rightarrow> pa_core \<Rightarrow> pa_core \<Rightarrow> (pa_core \<times> pa_core) option" where
  "pa_ha_attach u fast ch parent =
     do { ch \<leftarrow> ha_attach_loop (\<lambda>i. applied (ldp_of parent i)) (\<lambda>i. ldp_link (ldp_of parent i)) fast (ldp_of parent)
            (concat (map (\<lambda>d. dp_ldps (dp_of parent d)) (dps parent))) (ch\<lparr>ha_fast := fast\<rparr>);
          Some (ch, parent\<lparr>users := u # users parent\<rparr>) }"

fun ha_detach_loop :: "nat list \<Rightarrow> pa_core \<Rightarrow> pa_core option" where
  "ha_detach_loop [] c = Some c"
| "ha_detach_loop (d # ds) c =
     do { c \<leftarrow> (if ha_ldp (dp_of c d) \<noteq> None then pa_dp_del d c else Some c); ha_detach_loop ds c }"

definition pa_ha_detach :: "nat \<Rightarrow> pa_core \<Rightarrow> pa_core \<Rightarrow> (pa_core \<times> pa_core) option" where
  "pa_ha_detach u ch parent =
     do { ch \<leftarrow> ha_detach_loop (dps ch) ch;
          Some (ch, parent\<lparr>users := remove1 u (users parent)\<rparr>) }"

section \<open>Invariants\<close>

definition pfx_ok :: "bytes \<Rightarrow> nat \<Rightarrow> bool" where
  "pfx_ok p n \<longleftrightarrow> length p = 16 \<and> n \<le> 128"

definition ldp_bits :: "pa_ldp \<Rightarrow> bool list" where
  "ldp_bits x = kbits (ldp_prefix x) (ldp_plen x)"

definition ldp_inv :: "pa_ldp \<Rightarrow> bool" where
  "ldp_inv x \<longleftrightarrow> pfx_ok (ldp_prefix x) (ldp_plen x) \<and> (published x \<longrightarrow> \<not> adopting x) \<and>
     (applied x \<longrightarrow> assigned x) \<and> (adopting x \<longrightarrow> assigned x)"

definition trie_inv :: "pa_pentry btrie \<Rightarrow> (nat \<Rightarrow> pa_ldp) \<Rightarrow> bool" where
  "trie_inv t ld \<longleftrightarrow> btrie_wf t \<and> fits t 128 \<and>
     (\<forall>l b. count (mset (entries [] t)) (b, PAT_ASSIGNED l) = (if assigned (ld l) \<and> b = ldp_bits (ld l) then 1 else 0))"

definition pa_inv :: "pa_core \<Rightarrow> bool" where
  "pa_inv c \<longleftrightarrow> trie_inv (prefixes c) (ldp_of c) \<and> (\<forall>l. ldp_inv (ldp_of c l)) \<and>
     (\<forall>d. pfx_ok (dp_prefix (dp_of c d)) (dp_plen (dp_of c d))) \<and>
     (\<forall>a. pfx_ok (advp_prefix (advp_of c a)) (advp_plen (advp_of c a)))"

text \<open>Scheduling changes nothing but the routine timers.\<close>

definition rescheduled :: "pa_core \<Rightarrow> pa_core \<Rightarrow> bool" where
  "rescheduled c c' \<longleftrightarrow> (\<exists>f. c' = c\<lparr>ldp_of := (\<lambda>l. (ldp_of c l)\<lparr>routine_to := f l\<rparr>)\<rparr>)"

text \<open>What the end of an assignment leaves of an ldp.\<close>

definition cleared :: "pa_ldp \<Rightarrow> pa_ldp" where
  "cleared x = (let b = published x \<or> adopting x
     in x\<lparr>assigned := False, published := False, applied := False, adopting := False, ha_apply_pending := False,
          backoff_to := None, ldp_rule := (if b then None else ldp_rule x), priority := (if b then 0 else priority x),
          rule_priority := (if b then 0 else rule_priority x)\<rparr>)"

text \<open>What no operation on the assignments changes.\<close>

definition pa_frame :: "pa_core \<Rightarrow> pa_core \<Rightarrow> bool" where
  "pa_frame c c' \<longleftrightarrow> dp_of c' = dp_of c \<and> advp_of c' = advp_of c \<and> link_of c' = link_of c \<and> rules c' = rules c \<and>
     node_id c' = node_id c \<and> adopt_delay c' = adopt_delay c \<and> backoff_delay c' = backoff_delay c \<and>
     flooding_delay c' = flooding_delay c \<and> links c' = links c \<and> dps c' = dps c \<and>
     (\<forall>l. ldp_link (ldp_of c' l) = ldp_link (ldp_of c l) \<and> ldp_dp (ldp_of c' l) = ldp_dp (ldp_of c l))"

text \<open>Equality of two ldps up to the routine timer.\<close>

definition same_ldp :: "pa_ldp \<Rightarrow> pa_ldp \<Rightarrow> bool" where
  "same_ldp x y \<longleftrightarrow> (\<exists>r. y = x\<lparr>routine_to := r\<rparr>)"

definition mem_ok :: "pa_core \<Rightarrow> bool" where
  "mem_ok c \<longleftrightarrow> (\<forall>m \<in> set (allocs c). 4 < m)"

definition pub_inv :: "pa_core \<Rightarrow> bool" where
  "pub_inv c \<longleftrightarrow> (\<forall>l. published (ldp_of c l) \<longrightarrow> assigned (ldp_of c l))"

definition advp_bits :: "pa_core \<Rightarrow> nat \<Rightarrow> bool list" where
  "advp_bits c a = kbits (advp_prefix (advp_of c a)) (advp_plen (advp_of c a))"

text \<open>
  Between the steps of the routine: an ldp with a best assignment is not adopting, and its own
  prefix, if it has one, is the advertised one.
\<close>

definition follows :: "pa_core \<Rightarrow> nat \<Rightarrow> bool" where
  "follows c l \<longleftrightarrow> (\<forall>a. best_assignment (ldp_of c l) = Some a \<longrightarrow>
     \<not> adopting (ldp_of c l) \<and> (assigned (ldp_of c l) \<longrightarrow> ldp_bits (ldp_of c l) = advp_bits c a))"

text \<open>After the routine: the pair holds the best advertised prefix, its own, or none.\<close>

definition settled :: "pa_core \<Rightarrow> nat \<Rightarrow> bool" where
  "settled c l \<longleftrightarrow>
     (let x = ldp_of c l
      in case best_assignment x of
           Some a \<Rightarrow> assigned x \<and> \<not> published x \<and> \<not> adopting x \<and> ldp_bits x = advp_bits c a
         | None \<Rightarrow> assigned x \<longrightarrow> published x \<or> adopting x)"

definition core_ok :: "pa_core \<Rightarrow> bool" where
  "core_ok c \<longleftrightarrow> pa_inv c \<and> pub_inv c \<and> mem_ok c"

text \<open>No other ldp holds a prefix that overlaps the published prefix of \<open>l\<close>.\<close>

definition alone :: "pa_core \<Rightarrow> nat \<Rightarrow> bool" where
  "alone c l \<longleftrightarrow> (\<forall>l'. l' \<noteq> l \<longrightarrow> assigned (ldp_of c l') \<longrightarrow> published (ldp_of c l) \<longrightarrow>
     \<not> overlap (ldp_bits (ldp_of c l')) (ldp_bits (ldp_of c l)))"

text \<open>
  What the routine relies on of the rules: their functions return, change nothing of the core but
  the random numbers and their private memory, adopt only an orphan prefix, and publish a prefix of
  at most 128 bits.  \<open>armed\<close>: the maximal priority of the rule was asked for in this run.
\<close>

definition env_step :: "nat \<Rightarrow> pa_core \<Rightarrow> pa_core \<Rightarrow> bool" where
  "env_step r c c' \<longleftrightarrow> (\<exists>rs v. c' = c\<lparr>rands := rs, rule_mem := (rule_mem c)(r := v)\<rparr>)"

definition armed :: "pa_rule \<Rightarrow> nat \<Rightarrow> nat \<Rightarrow> pa_core \<Rightarrow> bool" where
  "armed q r l c \<longleftrightarrow> (\<exists>c0 c1 m. pa_inv c0 \<and> rule_max_priority q l c0 = Some (m, c1) \<and> m \<noteq> 0 \<and>
     c = c1\<lparr>rands := rands c, rule_mem := rule_mem c\<rparr> \<and> rule_mem c r = rule_mem c1 r)"

definition rule_target_ok :: "pa_core \<Rightarrow> nat \<Rightarrow> pa_rule_target \<Rightarrow> pa_rule_arg \<Rightarrow> bool" where
  "rule_target_ok c l t a \<longleftrightarrow>
     (t = PA_RULE_ADOPT \<longrightarrow> assigned (ldp_of c l) \<and> \<not> published (ldp_of c l) \<and> best_assignment (ldp_of c l) = None) \<and>
     (t = PA_RULE_PUBLISH \<longrightarrow> pfx_ok (arg_prefix a) (arg_plen a))"

text \<open>States that differ in the random numbers and the private memory only.\<close>

definition env_only :: "pa_core \<Rightarrow> pa_core \<Rightarrow> bool" where
  "env_only c c' \<longleftrightarrow> (\<exists>rs mem. c' = c\<lparr>rands := rs, rule_mem := mem\<rparr>)"

definition delays_ok :: "pa_core \<Rightarrow> bool" where
  "delays_ok c \<longleftrightarrow> 0 < adopt_delay c \<and> adopt_delay c < backoff_delay c"

text \<open>A core without assignments, over zeroed structures.\<close>

definition zero_core :: pa_core where
  "zero_core = pa_core_init
     \<lparr>prefixes = btrie_init, node_id = 0, flooding_delay = 0, adopt_delay = 0, backoff_delay = 0, users = [], links = [], dps = [],
      rules = [], ha_fast = False, link_of = (\<lambda>_. \<lparr>link_ldps = [], link_name = None, link_type = 0, ha_parent = None\<rparr>),
      dp_of = (\<lambda>_. \<lparr>dp_ldps = [], dp_prefix = replicate 16 0, dp_plen = 0, dp_type = 0, ha_ldp = None\<rparr>),
      ldp_of = (\<lambda>_. new_ldp 0 0),
      advp_of = (\<lambda>_. \<lparr>advp_node_id = 0, advp_prefix = replicate 16 0, advp_plen = 0, advp_priority = 0, advp_link = None\<rparr>),
      next_id = 0, rule_mem = (\<lambda>_. (replicate 16 0, 0)), events = [], allocs = [], rands = []\<rparr>"

text \<open>The advertised prefixes of a list of entries that are on the link of an ldp.\<close>

definition on_link :: "pa_core \<Rightarrow> nat \<Rightarrow> pa_pentry list \<Rightarrow> nat set" where
  "on_link c l es = {a. PAT_ADVERTISED a \<in> set es \<and> advp_link (advp_of c a) = Some (ldp_link (ldp_of c l))}"

definition best_of :: "pa_core \<Rightarrow> nat set \<Rightarrow> nat option \<Rightarrow> bool" where
  "best_of c A r \<longleftrightarrow> (case r of None \<Rightarrow> A = {} | Some b \<Rightarrow> b \<in> A \<and> (\<forall>a \<in> A. \<not> better_advp (advp_of c a) (advp_of c b)))"

section \<open>Lemmas: invariant\<close>

lemma pfx_ok_key: "pfx_ok p n \<Longrightarrow> key_ok p n"
proof -
  assume a: "pfx_ok p n"
  then have "(n + 31) div 32 \<le> 159 div 32" unfolding pfx_ok_def by (intro div_le_mono) simp
  then show ?thesis using a by (simp add: key_ok_def pfx_ok_def)
qed

lemma pa_invD:
  assumes "pa_inv c"
  shows "btrie_wf (prefixes c)" "ldp_inv (ldp_of c l)"
    "pfx_ok (dp_prefix (dp_of c d)) (dp_plen (dp_of c d))" "pfx_ok (advp_prefix (advp_of c a)) (advp_plen (advp_of c a))"
    "count (mset (entries [] (prefixes c))) (b, PAT_ASSIGNED l) =
      (if assigned (ldp_of c l) \<and> b = ldp_bits (ldp_of c l) then 1 else 0)" "fits (prefixes c) 128"
  using assms by (simp_all add: pa_inv_def trie_inv_def)

lemma ldp_inv_pfx: "ldp_inv x \<Longrightarrow> pfx_ok (ldp_prefix x) (ldp_plen x)"
  by (simp add: ldp_inv_def)

lemma set_ldp_simps [simp]:
  "prefixes (set_ldp l f c) = prefixes c" "node_id (set_ldp l f c) = node_id c"
  "flooding_delay (set_ldp l f c) = flooding_delay c" "adopt_delay (set_ldp l f c) = adopt_delay c"
  "backoff_delay (set_ldp l f c) = backoff_delay c" "users (set_ldp l f c) = users c" "links (set_ldp l f c) = links c"
  "dps (set_ldp l f c) = dps c" "rules (set_ldp l f c) = rules c" "ha_fast (set_ldp l f c) = ha_fast c"
  "link_of (set_ldp l f c) = link_of c" "dp_of (set_ldp l f c) = dp_of c" "advp_of (set_ldp l f c) = advp_of c"
  "next_id (set_ldp l f c) = next_id c" "rule_mem (set_ldp l f c) = rule_mem c" "allocs (set_ldp l f c) = allocs c"
  "rands (set_ldp l f c) = rands c" "pa_core.more (set_ldp l f c) = pa_core.more c"
  "ldp_of (set_ldp l f c) = (ldp_of c)(l := f (ldp_of c l))" "events (set_ldp l f c) = events c"
  by (simp_all add: set_ldp_def)

lemma pa_user_notify_simps [simp]:
  "prefixes (pa_user_notify ev l c) = prefixes c" "node_id (pa_user_notify ev l c) = node_id c"
  "flooding_delay (pa_user_notify ev l c) = flooding_delay c" "adopt_delay (pa_user_notify ev l c) = adopt_delay c"
  "backoff_delay (pa_user_notify ev l c) = backoff_delay c" "users (pa_user_notify ev l c) = users c"
  "links (pa_user_notify ev l c) = links c" "dps (pa_user_notify ev l c) = dps c" "rules (pa_user_notify ev l c) = rules c"
  "ha_fast (pa_user_notify ev l c) = ha_fast c" "link_of (pa_user_notify ev l c) = link_of c"
  "dp_of (pa_user_notify ev l c) = dp_of c" "advp_of (pa_user_notify ev l c) = advp_of c"
  "next_id (pa_user_notify ev l c) = next_id c" "rule_mem (pa_user_notify ev l c) = rule_mem c"
  "allocs (pa_user_notify ev l c) = allocs c" "rands (pa_user_notify ev l c) = rands c"
  "pa_core.more (pa_user_notify ev l c) = pa_core.more c" "ldp_of (pa_user_notify ev l c) = ldp_of c"
  by (simp_all add: pa_user_notify_def)

lemma pa_ldp_unpublish_simps [simp]:
  "prefixes (pa_ldp_unpublish l b c) = prefixes c" "node_id (pa_ldp_unpublish l b c) = node_id c"
  "flooding_delay (pa_ldp_unpublish l b c) = flooding_delay c" "adopt_delay (pa_ldp_unpublish l b c) = adopt_delay c"
  "backoff_delay (pa_ldp_unpublish l b c) = backoff_delay c" "users (pa_ldp_unpublish l b c) = users c"
  "links (pa_ldp_unpublish l b c) = links c" "dps (pa_ldp_unpublish l b c) = dps c"
  "rules (pa_ldp_unpublish l b c) = rules c" "ha_fast (pa_ldp_unpublish l b c) = ha_fast c"
  "link_of (pa_ldp_unpublish l b c) = link_of c" "dp_of (pa_ldp_unpublish l b c) = dp_of c"
  "advp_of (pa_ldp_unpublish l b c) = advp_of c" "next_id (pa_ldp_unpublish l b c) = next_id c"
  "rule_mem (pa_ldp_unpublish l b c) = rule_mem c" "allocs (pa_ldp_unpublish l b c) = allocs c"
  "rands (pa_ldp_unpublish l b c) = rands c" "pa_core.more (pa_ldp_unpublish l b c) = pa_core.more c"
  by (simp_all add: pa_ldp_unpublish_def)

lemma pa_ldp_unadopt_simps [simp]:
  "prefixes (pa_ldp_unadopt l c) = prefixes c" "node_id (pa_ldp_unadopt l c) = node_id c"
  "flooding_delay (pa_ldp_unadopt l c) = flooding_delay c" "adopt_delay (pa_ldp_unadopt l c) = adopt_delay c"
  "backoff_delay (pa_ldp_unadopt l c) = backoff_delay c" "users (pa_ldp_unadopt l c) = users c"
  "links (pa_ldp_unadopt l c) = links c" "dps (pa_ldp_unadopt l c) = dps c" "rules (pa_ldp_unadopt l c) = rules c"
  "ha_fast (pa_ldp_unadopt l c) = ha_fast c" "link_of (pa_ldp_unadopt l c) = link_of c"
  "dp_of (pa_ldp_unadopt l c) = dp_of c" "advp_of (pa_ldp_unadopt l c) = advp_of c"
  "next_id (pa_ldp_unadopt l c) = next_id c" "rule_mem (pa_ldp_unadopt l c) = rule_mem c"
  "allocs (pa_ldp_unadopt l c) = allocs c" "rands (pa_ldp_unadopt l c) = rands c"
  "pa_core.more (pa_ldp_unadopt l c) = pa_core.more c"
  by (simp_all add: pa_ldp_unadopt_def)

lemma pa_inv_cong:
  "pa_inv c \<Longrightarrow> prefixes c' = prefixes c \<Longrightarrow> dp_of c' = dp_of c \<Longrightarrow> advp_of c' = advp_of c \<Longrightarrow>
   (\<And>l. ldp_inv (ldp_of c' l) \<and> assigned (ldp_of c' l) = assigned (ldp_of c l) \<and> ldp_bits (ldp_of c' l) = ldp_bits (ldp_of c l)) \<Longrightarrow>
   pa_inv c'"
  by (simp add: pa_inv_def trie_inv_def)

lemma pa_inv_upd:
  assumes "pa_inv c" "prefixes c' = prefixes c" "dp_of c' = dp_of c" "advp_of c' = advp_of c"
    and "\<And>l'. l' \<noteq> l \<Longrightarrow> ldp_of c' l' = ldp_of c l'"
    and "ldp_inv (ldp_of c l) \<Longrightarrow> ldp_inv (ldp_of c' l) \<and> assigned (ldp_of c' l) = assigned (ldp_of c l) \<and>
      ldp_bits (ldp_of c' l) = ldp_bits (ldp_of c l)"
  shows "pa_inv c'"
proof (rule pa_inv_cong [OF assms(1-4)])
  show "ldp_inv (ldp_of c' l') \<and> assigned (ldp_of c' l') = assigned (ldp_of c l') \<and> ldp_bits (ldp_of c' l') = ldp_bits (ldp_of c l')" for l'
    using assms(5) [of l'] assms(6) pa_invD(2) [OF assms(1), of l'] by (cases "l' = l") auto
qed

text \<open>Operations that only touch the flags, timers and priorities of one ldp.\<close>

lemma pa_ldp_unpublish_inv: "pa_inv c \<Longrightarrow> pa_inv (pa_ldp_unpublish l b c)"
  by (erule pa_inv_upd [where l = l]) (auto simp: pa_ldp_unpublish_def ldp_inv_def ldp_bits_def)

lemma pa_ldp_unadopt_inv: "pa_inv c \<Longrightarrow> pa_inv (pa_ldp_unadopt l c)"
  by (erule pa_inv_upd [where l = l]) (auto simp: pa_ldp_unadopt_def ldp_inv_def ldp_bits_def)

lemma pa_ldp_publish_inv: "pa_inv c \<Longrightarrow> pa_inv (pa_ldp_publish l r p rp c)"
  by (erule pa_inv_upd [where l = l]) (auto simp: pa_ldp_publish_def pa_ldp_unadopt_def ldp_inv_def ldp_bits_def)

lemma pa_ldp_apply_inv: "pa_inv c \<Longrightarrow> assigned (ldp_of c l) \<Longrightarrow> pa_inv (pa_ldp_apply ha l c)"
  by (erule pa_inv_upd [where l = l]) (auto simp: pa_ldp_apply_def ldp_inv_def ldp_bits_def)

lemma pa_routine_schedule_inv: "pa_inv c \<Longrightarrow> pa_inv (pa_routine_schedule l c)"
  by (erule pa_inv_upd [where l = l]) (auto simp: pa_routine_schedule_def ldp_inv_def ldp_bits_def)

lemma pa_inv_set_ldp:
  "pa_inv c \<Longrightarrow> (ldp_inv (ldp_of c l) \<Longrightarrow> ldp_inv (f (ldp_of c l)) \<and> assigned (f (ldp_of c l)) = assigned (ldp_of c l) \<and>
     ldp_bits (f (ldp_of c l)) = ldp_bits (ldp_of c l)) \<Longrightarrow> pa_inv (set_ldp l f c)"
  by (erule pa_inv_upd [where l = l]) auto

lemma pa_inv_env [simp]:
  "pa_inv (c\<lparr>rands := r\<rparr>) = pa_inv c" "pa_inv (c\<lparr>rule_mem := m\<rparr>) = pa_inv c" "pa_inv (c\<lparr>events := e\<rparr>) = pa_inv c"
  "pa_inv (c\<lparr>allocs := a\<rparr>) = pa_inv c" "pa_inv (c\<lparr>rules := rs\<rparr>) = pa_inv c" "pa_inv (c\<lparr>links := ls\<rparr>) = pa_inv c"
  "pa_inv (c\<lparr>dps := ds\<rparr>) = pa_inv c" "pa_inv (c\<lparr>users := us\<rparr>) = pa_inv c" "pa_inv (c\<lparr>link_of := lo\<rparr>) = pa_inv c"
  "pa_inv (c\<lparr>flooding_delay := fd\<rparr>) = pa_inv c" "pa_inv (c\<lparr>node_id := i\<rparr>) = pa_inv c" "pa_inv (c\<lparr>next_id := n\<rparr>) = pa_inv c"
  "pa_inv (c\<lparr>ha_fast := hf\<rparr>) = pa_inv c"
  by (simp_all add: pa_inv_def)

lemma pa_inv_notify [simp]: "pa_inv (pa_user_notify ev l c) = pa_inv c"
  by (simp add: pa_user_notify_def)

lemma rescheduled_refl [simp]: "rescheduled c c"
  unfolding rescheduled_def by (rule exI [of _ "\<lambda>l. routine_to (ldp_of c l)"]) simp

lemma rescheduled_trans: "rescheduled a b \<Longrightarrow> rescheduled b c \<Longrightarrow> rescheduled a c"
  by (auto simp: rescheduled_def)

lemma rescheduled_step: "rescheduled c (pa_routine_schedule l c)"
proof (cases "routine_to (ldp_of c l) = None")
  case True
  then show ?thesis unfolding rescheduled_def
    by (intro exI [of _ "\<lambda>l'. if l' = l then Some PA_RUN_DELAY else routine_to (ldp_of c l')"])
      (auto simp: pa_routine_schedule_def set_ldp_def fun_eq_iff)
qed (auto simp: pa_routine_schedule_def)

lemma rescheduled_fold:
  assumes "\<And>l c. rescheduled c (f l c)"
  shows "rescheduled c (fold f ls c)"
  by (induction ls arbitrary: c) (auto intro: rescheduled_trans [OF assms])

lemma schedule_unassigned_rescheduled: "rescheduled c (schedule_unassigned l ls c)"
  unfolding schedule_unassigned_def by (rule rescheduled_fold) (simp add: rescheduled_step)

lemma rescheduled_inv:
  assumes "rescheduled c c'" "pa_inv c"
  shows "pa_inv c'"
proof -
  obtain f where "c' = c\<lparr>ldp_of := (\<lambda>l. (ldp_of c l)\<lparr>routine_to := f l\<rparr>)\<rparr>" using assms(1) by (auto simp: rescheduled_def)
  then show ?thesis using pa_invD(2) [OF assms(2)] by (intro pa_inv_cong [OF assms(2)]) (simp_all add: ldp_inv_def ldp_bits_def)
qed

lemma cleared_simps [simp]:
  "\<not> assigned (cleared x)" "\<not> published (cleared x)" "\<not> applied (cleared x)" "\<not> adopting (cleared x)"
  "ldp_prefix (cleared x) = ldp_prefix x" "ldp_plen (cleared x) = ldp_plen x" "ldp_dp (cleared x) = ldp_dp x"
  "ldp_link (cleared x) = ldp_link x" "(cleared x)\<lparr>assigned := False\<rparr> = cleared x"
  "best_assignment (cleared x) = best_assignment x" "backoff_to (cleared x) = None" "backoff (cleared x) = backoff x"
  by (simp_all add: cleared_def Let_def)

lemma pa_ldp_unassign_eq:
  assumes "pa_inv c" "assigned (ldp_of c l)"
  obtains t ev c' where "pa_ldp_unassign l c = Some c'" "btrie_wf t \<and> fits t 128"
    "mset (entries [] (prefixes c)) = add_mset (ldp_bits (ldp_of c l), PAT_ASSIGNED l) (mset (entries [] t))"
    "rescheduled (c\<lparr>prefixes := t, events := ev, ldp_of := (ldp_of c)(l := cleared (ldp_of c l))\<rparr>) c'"
proof -
  have b: "b = ldp_bits (ldp_of c l) \<longleftrightarrow> (b, PAT_ASSIGNED l) \<in># mset (entries [] (prefixes c))" for b
    using pa_invD(5) [OF assms(1), of b l] assms(2) by (metis count_eq_zero_iff zero_neq_one)
  obtain t where t: "btrie_remove_element (prefixes c) (PAT_ASSIGNED l) = Some t" "btrie_wf t"
      "mset (entries [] (prefixes c)) = add_mset (ldp_bits (ldp_of c l), PAT_ASSIGNED l) (mset (entries [] t))"
    using trie_store.remove_once [OF pa_invD(1) [OF assms(1)], of "ldp_bits (ldp_of c l)" "PAT_ASSIGNED l"] b by blast
  define c1 where "c1 = (let c = set_ldp l (ha_apply_pending_update (\<lambda>_. False)) c;
               c = (if applied (ldp_of c l)
                    then pa_user_notify Ev_applied l (set_ldp l (applied_update (\<lambda>_. False)) c) else c);
               c = pa_ldp_unadopt l (pa_ldp_unpublish l True c)
           in set_ldp l (backoff_to_update (\<lambda>_. None)) c)"
  have "ldp_of c1 = (ldp_of c)(l := (cleared (ldp_of c l))\<lparr>assigned := True\<rparr>)"
    using assms(2)
    by (cases "ldp_of c l") (simp add: c1_def Let_def pa_ldp_unadopt_def pa_ldp_unpublish_def cleared_def)
  then have "c1 = c\<lparr>events := events c1, ldp_of := (ldp_of c)(l := (cleared (ldp_of c l))\<lparr>assigned := True\<rparr>)\<rparr>"
    by (intro pa_core.equality) (simp_all add: c1_def Let_def)
  then obtain ev where c1: "c1 = c\<lparr>events := ev, ldp_of := (ldp_of c)(l := (cleared (ldp_of c l))\<lparr>assigned := True\<rparr>)\<rparr>" by blast
  define c2 where "c2 = pa_user_notify Ev_assigned l (set_ldp l (assigned_update (\<lambda>_. False)) (c1\<lparr>prefixes := t\<rparr>))"
  have "pa_ldp_unassign l c = Some (schedule_unassigned l (dp_ldps (dp_of c2 (ldp_dp (ldp_of c2 l)))) c2)"
    using assms(2) t(1) by (simp add: pa_ldp_unassign_def c1_def c2_def Let_def)
  moreover have "c2 = c\<lparr>prefixes := t, events := events c2, ldp_of := (ldp_of c)(l := cleared (ldp_of c l))\<rparr>"
    unfolding c2_def c1 by (rule pa_core.equality) simp_all
  then obtain ev2 where c2: "c2 = c\<lparr>prefixes := t, events := ev2, ldp_of := (ldp_of c)(l := cleared (ldp_of c l))\<rparr>" by blast
  moreover have "btrie_wf t \<and> fits t 128" using t(2) fits_remove_element [OF t(1) pa_invD(6) [OF assms(1)]] by simp
  ultimately show ?thesis
    using that [OF _ _ t(3)] schedule_unassigned_rescheduled [of c2 l "dp_ldps (dp_of c2 (ldp_dp (ldp_of c2 l)))"]
    unfolding c2 by blast
qed

lemma pa_frame_refl [simp]: "pa_frame c c"
  by (simp add: pa_frame_def)

lemma pa_frame_trans [trans]: "pa_frame a b \<Longrightarrow> pa_frame b c \<Longrightarrow> pa_frame a c"
  by (simp add: pa_frame_def)

lemma rescheduled_frame: "rescheduled c c' \<Longrightarrow> pa_frame c c'"
  by (auto simp: rescheduled_def pa_frame_def)

lemma same_ldp_refl [simp]: "same_ldp x x"
  unfolding same_ldp_def by (rule exI [of _ "routine_to x"]) simp

lemma same_ldp_trans: "same_ldp x y \<Longrightarrow> same_ldp y z \<Longrightarrow> same_ldp x z"
  by (auto simp: same_ldp_def)

lemma same_ldpD:
  assumes "same_ldp x y"
  shows "assigned y = assigned x" "published y = published x" "adopting y = adopting x" "applied y = applied x"
    "ldp_prefix y = ldp_prefix x" "ldp_plen y = ldp_plen x" "best_assignment y = best_assignment x" "priority y = priority x"
    "rule_priority y = rule_priority x" "backoff_to y = backoff_to x" "ldp_bits y = ldp_bits x" "ldp_link y = ldp_link x" "ldp_dp y = ldp_dp x"
    "backoff y = backoff x"
  using assms by (auto simp: same_ldp_def ldp_bits_def)

lemma rescheduled_same: "rescheduled c c' \<Longrightarrow> same_ldp (ldp_of c l) (ldp_of c' l)"
  by (auto simp: rescheduled_def same_ldp_def)

lemma pa_inv_entry:
  assumes "pa_inv c" "(b, PAT_ASSIGNED l) \<in># mset (entries [] (prefixes c))"
  shows "assigned (ldp_of c l)" "b = ldp_bits (ldp_of c l)"
  using pa_invD(5) [OF assms(1), of b l] assms(2) by (metis count_eq_zero_iff)+

lemma pa_ldp_unassign_inv:
  assumes "pa_inv c"
  obtains c' where "pa_ldp_unassign l c = Some c'" "pa_inv c'" "pa_frame c c'"
    "\<And>l'. same_ldp (if l' = l \<and> assigned (ldp_of c l) then cleared (ldp_of c l) else ldp_of c l') (ldp_of c' l')"
    "\<And>be. be \<in># mset (entries [] (prefixes c')) \<longleftrightarrow> be \<in># mset (entries [] (prefixes c)) \<and> snd be \<noteq> PAT_ASSIGNED l"
    "allocs c' = allocs c" "rands c' = rands c"
proof (cases "assigned (ldp_of c l)")
  case False
  have "snd be \<noteq> PAT_ASSIGNED l" if "be \<in># mset (entries [] (prefixes c))" for be
    using pa_inv_entry(1) [OF assms, of "fst be" l] False that by (cases be) auto
  then show ?thesis by (intro that [of c]) (use assms False in \<open>auto simp: pa_ldp_unassign_def\<close>)
next
  case True
  obtain t ev c' where u: "pa_ldp_unassign l c = Some c'" "btrie_wf t \<and> fits t 128"
    "mset (entries [] (prefixes c)) = add_mset (ldp_bits (ldp_of c l), PAT_ASSIGNED l) (mset (entries [] t))"
    "rescheduled (c\<lparr>prefixes := t, events := ev, ldp_of := (ldp_of c)(l := cleared (ldp_of c l))\<rparr>) c'"
    using pa_ldp_unassign_eq [OF assms True] .
  let ?c = "c\<lparr>prefixes := t, events := ev, ldp_of := (ldp_of c)(l := cleared (ldp_of c l))\<rparr>"
  have cnt: "count (mset (entries [] t)) (b, PAT_ASSIGNED l') =
      (if assigned (ldp_of ?c l') \<and> b = ldp_bits (ldp_of ?c l') then 1 else 0)" for b l'
  proof -
    have "count (add_mset (ldp_bits (ldp_of c l), PAT_ASSIGNED l) (mset (entries [] t))) (b, PAT_ASSIGNED l') =
        (if assigned (ldp_of c l') \<and> b = ldp_bits (ldp_of c l') then 1 else 0)"
      using pa_invD(5) [OF assms, of b l'] unfolding u(3) .
    then show ?thesis using True by (cases "l' = l") (simp_all split: if_splits)
  qed
  have "ldp_inv (ldp_of ?c l')" for l'
    using pa_invD(2) [OF assms, of l'] by (auto simp: ldp_inv_def)
  then have inv: "pa_inv ?c" unfolding pa_inv_def trie_inv_def using u(2) cnt pa_invD(3,4) [OF assms] by simp
  obtain f where f: "c' = ?c\<lparr>ldp_of := (\<lambda>l. (ldp_of ?c l)\<lparr>routine_to := f l\<rparr>)\<rparr>" using u(4) unfolding rescheduled_def by blast
  have no: "(b, PAT_ASSIGNED l) \<notin># mset (entries [] t)" for b using cnt [of b l] by (simp add: count_eq_zero_iff)
  have mem: "be \<in># mset (entries [] t) \<longleftrightarrow> be \<in># mset (entries [] (prefixes c)) \<and> snd be \<noteq> PAT_ASSIGNED l" for be
    using no [of "fst be"] unfolding u(3) by (cases be) auto
  show ?thesis
  proof (rule that [OF u(1) rescheduled_inv [OF u(4) inv]])
    have "pa_frame c ?c" by (simp add: pa_frame_def)
    then show "pa_frame c c'" using rescheduled_frame [OF u(4)] pa_frame_trans by blast
    show "same_ldp (if l' = l \<and> assigned (ldp_of c l) then cleared (ldp_of c l) else ldp_of c l') (ldp_of c' l')" for l'
      using rescheduled_same [OF u(4), of l'] True by simp
    show "be \<in># mset (entries [] (prefixes c')) \<longleftrightarrow> be \<in># mset (entries [] (prefixes c)) \<and> snd be \<noteq> PAT_ASSIGNED l" for be
      using mem [of be] f by simp
  qed (use f in simp_all)
qed

section \<open>Lemmas: assignment\<close>

lemma pa_prefix_cpy_ok:
  assumes "pfx_ok p n" "length d = 16"
  shows "\<exists>d'. pa_prefix_cpy p n d = Some (d', n) \<and> pfx_ok d' n \<and> kbits d' n = kbits p n"
proof -
  have "p \<noteq> []" using assms(1) by (auto simp: pfx_ok_def)
  then obtain d' where "bmemcpy d 0 p 0 0 n = Some d'" "bits_copied d 0 p 0 n d'"
    using bmemcpy_copied [of 0 0 n d 0 p] assms by (auto simp: pfx_ok_def)
  then show ?thesis using assms by (auto simp: pa_prefix_cpy_def pfx_ok_def bits_copied_def kbits_def)
qed

lemma kbits_eq_iff: "kbits p n = kbits q n \<longleftrightarrow> (\<forall>k < n. bitn p k = bitn q k)"
  by (auto simp: kbits_def)

lemma pa_prefix_contains_ok:
  assumes "length p = 16" "length q = 16" "n \<le> 128"
  shows "pa_prefix_contains p n q = Some (kbits p n = kbits q n)"
proof -
  obtain r where "bmemcmp p 0 q 0 n = Some r" "bits_cmp r (bitn p) (bitn q) n"
    using bmemcmp_cmp [of 0 n p 0 q] assms by auto
  then show ?thesis by (simp add: pa_prefix_contains_def bits_cmp_def bits_eq_def kbits_eq_iff)
qed

lemma pa_prefix_equals_ok:
  assumes "pfx_ok p n" "pfx_ok q m"
  shows "pa_prefix_equals p n q m = Some (kbits p n = kbits q m)"
proof (cases "n = m")
  case True
  then show ?thesis using pa_prefix_contains_ok [of p q n] assms by (simp add: pa_prefix_equals_def pa_prefix_contains_def pfx_ok_def)
next
  case False
  then have "kbits p n \<noteq> kbits q m" by (metis kbits_simps(1))
  then show ?thesis using False by (simp add: pa_prefix_equals_def)
qed

lemma kbits_prefix: "n \<le> m \<Longrightarrow> prefix (kbits p n) (kbits q m) \<longleftrightarrow> kbits p n = kbits q n"
  by (simp add: prefix_kbits)

lemma pa_prefix_overlap_ok:
  assumes "pfx_ok p n" "pfx_ok q m"
  shows "pa_prefix_overlap p n q m = Some (overlap (kbits p n) (kbits q m))"
proof (cases "n > m")
  case True
  have "\<not> prefix (kbits p n) (kbits q m)" using True prefix_length_le by fastforce
  then show ?thesis using True assms pa_prefix_contains_ok [of q p m] kbits_prefix [of m n q p]
    by (auto simp: pa_prefix_overlap_def overlap_def pfx_ok_def)
next
  case False
  then have "prefix (kbits q m) (kbits p n) \<Longrightarrow> prefix (kbits p n) (kbits q m)"
    using prefix_length_le [of "kbits q m" "kbits p n"] by (auto simp: prefix_kbits)
  then show ?thesis using False assms pa_prefix_contains_ok [of p q n] kbits_prefix [of n m p q]
    by (auto simp: pa_prefix_overlap_def overlap_def pfx_ok_def)
qed

lemma next_alloc_simps:
  "next_alloc c = (m, c') \<Longrightarrow> \<exists>a. c' = c\<lparr>allocs := a\<rparr>"
  by (auto simp: next_alloc_def split: list.splits intro: exI [of _ "allocs c"])

lemma next_alloc_mem: "next_alloc c = (m, c') \<Longrightarrow> mem_ok c \<Longrightarrow> 4 < m \<and> mem_ok c'"
  by (auto simp: next_alloc_def mem_ok_def split: list.splits)

lemma mem_ok_simps [simp]: "mem_ok (set_ldp l f c) = mem_ok c" "mem_ok (pa_user_notify ev l c) = mem_ok c"
  "mem_ok (c\<lparr>prefixes := t\<rparr>) = mem_ok c"
  by (simp_all add: mem_ok_def)

lemma pa_ldp_assign_inv:
  assumes "pa_inv c" "\<not> assigned (ldp_of c l)" "pfx_ok p n"
  obtains c' r where "pa_ldp_assign l p n c = Some (c', r)" "pa_inv c'" "pa_frame c c'"
    "\<And>l'. l' \<noteq> l \<Longrightarrow> ldp_of c' l' = ldp_of c l'" "published (ldp_of c' l) = published (ldp_of c l)"
    "\<not> adopting (ldp_of c' l)" "best_assignment (ldp_of c' l) = best_assignment (ldp_of c l)"
    "mem_ok c \<Longrightarrow> r = 0 \<and> mem_ok c'" "r = 0 \<and> assigned (ldp_of c' l) \<and> ldp_bits (ldp_of c' l) = kbits p n \<and>
       mset (entries [] (prefixes c')) = add_mset (kbits p n, PAT_ASSIGNED l) (mset (entries [] (prefixes c))) \<or>
     r = -1 \<and> \<not> assigned (ldp_of c' l) \<and> mset (entries [] (prefixes c')) = mset (entries [] (prefixes c))"
proof -
  have li: "ldp_inv (ldp_of c l)" and b: "btrie_wf (prefixes c)" using pa_invD [OF assms(1)] by auto
  then have ad: "\<not> adopting (ldp_of c l)" "\<not> applied (ldp_of c l)" using assms(2) by (auto simp: ldp_inv_def)
  obtain d where d: "pa_prefix_cpy p n (ldp_prefix (ldp_of c l)) = Some (d, n)" "pfx_ok d n" "kbits d n = kbits p n"
    using pa_prefix_cpy_ok [OF assms(3)] li by (auto simp: ldp_inv_def pfx_ok_def)
  let ?c1 = "set_ldp l (\<lambda>x. x\<lparr>ldp_prefix := d, ldp_plen := n\<rparr>) c"
  obtain m c2 where m: "next_alloc ?c1 = (m, c2)" by fastforce
  obtain a where c2: "c2 = ?c1\<lparr>allocs := a\<rparr>" using next_alloc_simps [OF m] by blast
  obtain t r where t: "btrie_add m (prefixes c) (PAT_ASSIGNED l) p n = Some (t, r)" "btrie_wf t"
      "r = 0 \<and> mset (entries [] t) = add_mset (kbits p n, PAT_ASSIGNED l) (mset (entries [] (prefixes c))) \<or>
       r = -1 \<and> m \<le> (n - 1) div 32 + 1 \<and> mset (entries [] t) = mset (entries [] (prefixes c))"
    using add_entry [OF b pfx_ok_key [OF assms(3)], of m "PAT_ASSIGNED l"] by blast
  have ft: "fits t 128" using fits_add [OF t(1)] pa_invD(6) [OF assms(1)] assms(3) by (simp add: pfx_ok_def)
  have "(n - 1) div 32 \<le> 127 div 32" using assms(3) by (intro div_le_mono) (auto simp: pfx_ok_def)
  then have mem: "r = 0 \<and> mem_ok c2" if "mem_ok c" using t(3) next_alloc_mem [OF m] that by auto
  define c3 where "c3 = c2\<lparr>prefixes := t\<rparr>"
  define c4 where "c4 = pa_user_notify Ev_assigned l
    (set_ldp l (\<lambda>x. x\<lparr>backoff_to := Some (2 * flooding_delay c3), assigned := True\<rparr>) c3)"
  have run: "pa_ldp_assign l p n c = Some (if r \<noteq> 0 then (c3, -1) else (c4, 0))"
    using assms(2) d(1) m t(1) c2 by (simp add: pa_ldp_assign_def c3_def c4_def)
  have c3 [simp]: "prefixes c3 = t" "dp_of c3 = dp_of c" "advp_of c3 = advp_of c"
      "ldp_of c3 = (ldp_of c)(l := (ldp_of c l)\<lparr>ldp_prefix := d, ldp_plen := n\<rparr>)" "pa_frame c c3" "mem_ok c3 = mem_ok c2"
    by (simp_all add: c3_def c2 pa_frame_def mem_ok_def)
  have c4 [simp]: "prefixes c4 = t" "dp_of c4 = dp_of c" "advp_of c4 = advp_of c" "pa_frame c c4" "mem_ok c4 = mem_ok c3"
      "ldp_of c4 = (ldp_of c)(l := (ldp_of c l)\<lparr>ldp_prefix := d, ldp_plen := n, backoff_to := Some (2 * flooding_delay c3), assigned := True\<rparr>)"
    by (simp_all add: c4_def c3_def c2 pa_frame_def mem_ok_def)
  have li': "ldp_inv (ldp_of c3 l')" "ldp_inv (ldp_of c4 l')" for l'
    using pa_invD(2) [OF assms(1), of l'] d(2) ad li by (auto simp: ldp_inv_def)
  note cnt = pa_invD(5) [OF assms(1)]
  show ?thesis
  proof (cases "r = 0")
    case True
    then have e: "mset (entries [] t) = add_mset (kbits p n, PAT_ASSIGNED l) (mset (entries [] (prefixes c)))" using t(3) by simp
    have "count (mset (entries [] t)) (b, PAT_ASSIGNED l') =
        (if assigned (ldp_of c4 l') \<and> b = ldp_bits (ldp_of c4 l') then 1 else 0)" for b l'
      using cnt [of b l'] assms(2) d(3) unfolding e by (cases "l' = l") (auto simp: ldp_bits_def)
    then have inv: "pa_inv c4" unfolding pa_inv_def trie_inv_def using t(2) ft li'(2) pa_invD(3,4) [OF assms(1)] by simp
    have "ldp_bits (ldp_of c4 l) = kbits p n" using d(3) by (simp add: ldp_bits_def)
    then show ?thesis by (intro that [OF _ inv]) (use run True ad e mem in simp_all)
  next
    case False
    then have e: "r = -1" "mset (entries [] t) = mset (entries [] (prefixes c))" using t(3) by auto
    have "count (mset (entries [] t)) (b, PAT_ASSIGNED l') =
        (if assigned (ldp_of c3 l') \<and> b = ldp_bits (ldp_of c3 l') then 1 else 0)" for b l'
      using cnt [of b l'] assms(2) unfolding e by (cases "l' = l") simp_all
    then have inv: "pa_inv c3" unfolding pa_inv_def trie_inv_def using t(2) ft li'(1) pa_invD(3,4) [OF assms(1)] by simp
    show ?thesis by (intro that [OF _ inv]) (use run False ad e mem assms(2) in simp_all)
  qed
qed

section \<open>Lemmas: the routine\<close>

lemma advp_bits_frame: "pa_frame c c' \<Longrightarrow> advp_bits c' a = advp_bits c a"
  by (simp add: pa_frame_def advp_bits_def)

lemma core_ok_same:
  assumes "core_ok c" "pa_inv c'" "allocs c' = allocs c"
    and "\<And>l. published (ldp_of c' l) \<longrightarrow> assigned (ldp_of c' l)"
  shows "core_ok c'"
  using assms by (simp add: core_ok_def pub_inv_def mem_ok_def)

lemma unassign_core_ok:
  assumes "core_ok c"
  obtains c' where "pa_ldp_unassign l c = Some c'" "core_ok c'" "pa_frame c c'"
    "\<And>l'. same_ldp (if l' = l \<and> assigned (ldp_of c l) then cleared (ldp_of c l) else ldp_of c l') (ldp_of c' l')"
    "\<And>be. be \<in># mset (entries [] (prefixes c')) \<longleftrightarrow> be \<in># mset (entries [] (prefixes c)) \<and> snd be \<noteq> PAT_ASSIGNED l"
proof -
  have i: "pa_inv c" "\<And>l. published (ldp_of c l) \<longrightarrow> assigned (ldp_of c l)" using assms by (auto simp: core_ok_def pub_inv_def)
  obtain c' where c': "pa_ldp_unassign l c = Some c'" "pa_inv c'" "pa_frame c c'"
    "\<And>l'. same_ldp (if l' = l \<and> assigned (ldp_of c l) then cleared (ldp_of c l) else ldp_of c l') (ldp_of c' l')"
    "\<And>be. be \<in># mset (entries [] (prefixes c')) \<longleftrightarrow> be \<in># mset (entries [] (prefixes c)) \<and> snd be \<noteq> PAT_ASSIGNED l"
    "allocs c' = allocs c" using pa_ldp_unassign_inv [OF i(1), of l] by metis
  have "published (ldp_of c' l') \<longrightarrow> assigned (ldp_of c' l')" for l'
    using same_ldpD(1,2) [OF c'(4) [of l']] i(2) [of l'] by (auto split: if_splits)
  then have "core_ok c'" using core_ok_same [OF assms c'(2,6)] by blast
  then show ?thesis using that c' by blast
qed

lemma not_assigned_after:
  assumes "\<And>l'. same_ldp (if l' = l \<and> assigned (ldp_of c l) then cleared (ldp_of c l) else ldp_of c l') (ldp_of c' l')"
  shows "\<not> assigned (ldp_of c' l)" "best_assignment (ldp_of c' l) = best_assignment (ldp_of c l)"
    "adopting (ldp_of c' l) \<Longrightarrow> adopting (ldp_of c l)"
  using same_ldpD(1,3,7) [OF assms [of l]] by (auto split: if_splits)

lemma schedule_core_ok:
  assumes "core_ok c"
  shows "core_ok (pa_routine_schedule l c)"
proof -
  have "rescheduled c (pa_routine_schedule l c)" by (rule rescheduled_step)
  then have s: "same_ldp (ldp_of c l') (ldp_of (pa_routine_schedule l c) l')" for l' by (rule rescheduled_same)
  have "pa_inv (pa_routine_schedule l c)" using assms by (simp add: core_ok_def pa_routine_schedule_inv)
  moreover have "allocs (pa_routine_schedule l c) = allocs c" by (simp add: pa_routine_schedule_def)
  ultimately show ?thesis
    using same_ldpD(1,2) [OF s] assms by (intro core_ok_same [OF assms]) (simp_all add: core_ok_def pub_inv_def)
qed

lemma unassign_conflicts_ok:
  assumes "core_ok c"
  obtains c' where "unassign_conflicts l es c = Some c'" "core_ok c'" "pa_frame c c'" "same_ldp (ldp_of c l) (ldp_of c' l)"
    "\<And>be. be \<in># mset (entries [] (prefixes c')) \<longleftrightarrow> be \<in># mset (entries [] (prefixes c)) \<and>
       (\<forall>l2. l2 \<noteq> l \<longrightarrow> snd be = PAT_ASSIGNED l2 \<longrightarrow> PAT_ASSIGNED l2 \<notin> set es)"
  using assms
proof (induction es arbitrary: c thesis)
  case Nil
  show ?case by (rule Nil(1)) (use Nil(2) in auto)
next
  case (Cons e es)
  show ?case
  proof (cases "\<exists>l2. e = PAT_ASSIGNED l2 \<and> l2 \<noteq> l")
    case False
    obtain c' where c': "unassign_conflicts l es c = Some c'" "core_ok c'" "pa_frame c c'" "same_ldp (ldp_of c l) (ldp_of c' l)"
      "\<And>be. be \<in># mset (entries [] (prefixes c')) \<longleftrightarrow> be \<in># mset (entries [] (prefixes c)) \<and>
         (\<forall>l2. l2 \<noteq> l \<longrightarrow> snd be = PAT_ASSIGNED l2 \<longrightarrow> PAT_ASSIGNED l2 \<notin> set es)"
      using Cons.IH [OF _ Cons.prems(2)] by blast
    have "unassign_conflicts l (e # es) c = Some c'" using False c'(1) by (cases e) auto
    then show ?thesis by (rule Cons.prems(1)) (use c' False in auto)
  next
    case True
    then obtain l2 where e: "e = PAT_ASSIGNED l2" "l2 \<noteq> l" by blast
    obtain c1 where c1: "pa_ldp_unassign l2 c = Some c1" "core_ok c1" "pa_frame c c1"
      "\<And>l'. same_ldp (if l' = l2 \<and> assigned (ldp_of c l2) then cleared (ldp_of c l2) else ldp_of c l') (ldp_of c1 l')"
      "\<And>be. be \<in># mset (entries [] (prefixes c1)) \<longleftrightarrow> be \<in># mset (entries [] (prefixes c)) \<and> snd be \<noteq> PAT_ASSIGNED l2"
      using unassign_core_ok [OF Cons.prems(2)] by blast
    let ?c2 = "pa_routine_schedule l2 c1"
    have c2: "core_ok ?c2" "pa_frame c1 ?c2" "same_ldp (ldp_of c1 l) (ldp_of ?c2 l)" "prefixes ?c2 = prefixes c1"
      using schedule_core_ok [OF c1(2)] rescheduled_frame [OF rescheduled_step] rescheduled_same [OF rescheduled_step]
      by (auto simp: pa_routine_schedule_def)
    obtain c' where c': "unassign_conflicts l es ?c2 = Some c'" "core_ok c'" "pa_frame ?c2 c'" "same_ldp (ldp_of ?c2 l) (ldp_of c' l)"
      "\<And>be. be \<in># mset (entries [] (prefixes c')) \<longleftrightarrow> be \<in># mset (entries [] (prefixes ?c2)) \<and>
         (\<forall>l2. l2 \<noteq> l \<longrightarrow> snd be = PAT_ASSIGNED l2 \<longrightarrow> PAT_ASSIGNED l2 \<notin> set es)"
      using Cons.IH [OF _ c2(1)] by blast
    have s: "same_ldp (ldp_of c l) (ldp_of c' l)"
      using c1(4) [of l] c2(3) c'(4) e(2) same_ldp_trans by (metis (full_types))
    have r: "unassign_conflicts l (e # es) c = Some c'" using e c1(1) c'(1) by simp
    show ?thesis
    proof (rule Cons.prems(1) [OF r c'(2) _ s])
      show "pa_frame c c'" using c1(3) c2(2) c'(3) pa_frame_trans by blast
      show "be \<in># mset (entries [] (prefixes c')) \<longleftrightarrow> be \<in># mset (entries [] (prefixes c)) \<and>
          (\<forall>l2. l2 \<noteq> l \<longrightarrow> snd be = PAT_ASSIGNED l2 \<longrightarrow> PAT_ASSIGNED l2 \<notin> set (e # es))" for be
        using c'(5) [of be] c1(5) [of be] c2(4) e by auto
    qed
  qed
qed

lemma set_ldp_core_ok:
  assumes "core_ok c" "pa_inv (set_ldp l f c)" "published (f (ldp_of c l)) \<longrightarrow> assigned (f (ldp_of c l))"
  shows "core_ok (set_ldp l f c)"
  using assms by (intro core_ok_same [OF assms(1,2)]) (auto simp: core_ok_def pub_inv_def)

lemma pa_frame_ops:
  "pa_frame c (pa_ldp_unpublish l b c)" "pa_frame c (pa_ldp_unadopt l c)" "pa_frame c (pa_ldp_publish l r p rp c)"
  by (auto simp: pa_frame_def pa_ldp_unpublish_def pa_ldp_unadopt_def pa_ldp_publish_def)

lemma ldp_of_ops:
  "assigned (ldp_of (pa_ldp_unpublish l b c) l') = assigned (ldp_of c l')"
  "assigned (ldp_of (pa_ldp_unadopt l c) l') = assigned (ldp_of c l')"
  "assigned (ldp_of (pa_ldp_publish l r p rp c) l') = assigned (ldp_of c l')"
  "best_assignment (ldp_of (pa_ldp_unpublish l b c) l') = best_assignment (ldp_of c l')"
  "best_assignment (ldp_of (pa_ldp_unadopt l c) l') = best_assignment (ldp_of c l')"
  "best_assignment (ldp_of (pa_ldp_publish l r p rp c) l') = best_assignment (ldp_of c l')"
  "ldp_bits (ldp_of (pa_ldp_unpublish l b c) l') = ldp_bits (ldp_of c l')"
  "ldp_bits (ldp_of (pa_ldp_unadopt l c) l') = ldp_bits (ldp_of c l')"
  "ldp_bits (ldp_of (pa_ldp_publish l r p rp c) l') = ldp_bits (ldp_of c l')"
  "\<not> published (ldp_of (pa_ldp_unpublish l b c) l)" "\<not> adopting (ldp_of (pa_ldp_unadopt l c) l)"
  "published (ldp_of (pa_ldp_publish l r p rp c) l)"
  "published (ldp_of (pa_ldp_unadopt l c) l') = published (ldp_of c l')"
  "adopting (ldp_of (pa_ldp_unpublish l b c) l') = adopting (ldp_of c l')"
  by (auto simp: pa_ldp_unpublish_def pa_ldp_unadopt_def pa_ldp_publish_def ldp_bits_def)

lemma ldp_of_other_ops:
  "l' \<noteq> l \<Longrightarrow> ldp_of (pa_ldp_unpublish l b c) l' = ldp_of c l'" "l' \<noteq> l \<Longrightarrow> ldp_of (pa_ldp_unadopt l c) l' = ldp_of c l'"
  "l' \<noteq> l \<Longrightarrow> ldp_of (pa_ldp_publish l r p rp c) l' = ldp_of c l'"
  by (simp_all add: pa_ldp_unpublish_def pa_ldp_unadopt_def pa_ldp_publish_def)

lemma pa_ldp_publish_simps [simp]: "allocs (pa_ldp_publish l r p rp c) = allocs c" "prefixes (pa_ldp_publish l r p rp c) = prefixes c"
  by (simp_all add: pa_ldp_publish_def)

lemma unpublish_core_ok: "core_ok c \<Longrightarrow> core_ok (pa_ldp_unpublish l b c)"
proof (rule core_ok_same, assumption)
  show "core_ok c \<Longrightarrow> published (ldp_of (pa_ldp_unpublish l b c) l') \<longrightarrow> assigned (ldp_of (pa_ldp_unpublish l b c) l')" for l'
    by (cases "l' = l") (auto simp: ldp_of_ops ldp_of_other_ops core_ok_def pub_inv_def)
qed (simp_all add: core_ok_def pa_ldp_unpublish_inv)

lemma unadopt_core_ok: "core_ok c \<Longrightarrow> core_ok (pa_ldp_unadopt l c)"
  by (rule core_ok_same, assumption) (auto simp: core_ok_def pub_inv_def pa_ldp_unadopt_inv ldp_of_ops)

lemma publish_core_ok:
  assumes "core_ok c" "assigned (ldp_of c l)"
  shows "core_ok (pa_ldp_publish l r p rp c)"
proof (rule core_ok_same [OF assms(1)])
  show "published (ldp_of (pa_ldp_publish l r p rp c) l') \<longrightarrow> assigned (ldp_of (pa_ldp_publish l r p rp c) l')" for l'
    using assms by (cases "l' = l") (auto simp: ldp_of_ops ldp_of_other_ops core_ok_def pub_inv_def)
qed (use assms in \<open>simp_all add: core_ok_def pa_ldp_publish_inv\<close>)

text \<open>1. and 2.\<close>

lemma routine_best_ok:
  assumes "core_ok c"
  obtains best where "routine_best l c = Some (set_ldp l (best_assignment_update (\<lambda>_. best)) c)"
    "core_ok (set_ldp l (best_assignment_update (\<lambda>_. best)) c)"
proof -
  have i: "pa_inv c" using assms by (simp add: core_ok_def)
  obtain es where es: "btrie_updown_list (prefixes c) (dp_prefix (dp_of c (ldp_dp (ldp_of c l)))) (dp_plen (dp_of c (ldp_dp (ldp_of c l)))) = Some es"
    using trie_store.overlapping_law [OF pa_invD(1) [OF i] pfx_ok_key [OF pa_invD(3) [OF i]]] by blast
  have "pa_inv (set_ldp l (best_assignment_update (\<lambda>_. best)) c)" for best
    by (rule pa_inv_set_ldp [OF i]) (simp add: ldp_inv_def ldp_bits_def)
  then have "core_ok (set_ldp l (best_assignment_update (\<lambda>_. best)) c)" for best
    using assms by (intro set_ldp_core_ok) (auto simp: core_ok_def pub_inv_def)
  then show ?thesis using that es by (simp add: routine_best_def Let_def)
qed

lemma global_valid_loop_Some:
  assumes "\<And>l'. PAT_ASSIGNED l' \<in> set es \<Longrightarrow> l' \<noteq> l \<Longrightarrow> \<not> published (ldp_of c l)"
  shows "\<exists>b. global_valid_loop c l es = Some b"
  using assms
proof (induction es)
  case (Cons e es)
  have "\<exists>b. global_valid_loop c l es = Some b" by (rule Cons.IH) (use Cons.prems in auto)
  then show ?case using Cons.prems by (cases e) auto
next
  case Nil
  show ?case by (rule exI [of _ True]) simp
qed

lemma pa_ldp_global_valid_Some:
  assumes "pa_inv c" "assigned (ldp_of c l)" "alone c l"
  shows "\<exists>b. pa_ldp_global_valid c l = Some b"
proof -
  let ?x = "ldp_of c l"
  obtain es where es: "btrie_updown_list (prefixes c) (ldp_prefix ?x) (ldp_plen ?x) = Some es"
      "\<And>e. e \<in> set es \<longleftrightarrow> (\<exists>b. (b, e) \<in># mset (entries [] (prefixes c)) \<and> overlap b (ldp_bits ?x))"
    using trie_store.overlapping_set [OF pa_invD(1) [OF assms(1)] pfx_ok_key [OF ldp_inv_pfx [OF pa_invD(2) [OF assms(1)]]], of l]
    unfolding ldp_bits_def by blast
  have "\<exists>b. global_valid_loop c l es = Some b"
  proof (rule global_valid_loop_Some)
    fix l' assume "PAT_ASSIGNED l' \<in> set es" "l' \<noteq> l"
    then obtain b where b: "(b, PAT_ASSIGNED l') \<in># mset (entries [] (prefixes c))" "overlap b (ldp_bits ?x)" using es(2) by blast
    then show "\<not> published ?x" using pa_inv_entry [OF assms(1) b(1)] \<open>l' \<noteq> l\<close> assms(3) by (auto simp: alone_def)
  qed
  then show ?thesis using es(1) by (simp add: pa_ldp_global_valid_def)
qed

lemma routine_validity_ok:
  assumes ok: "core_ok c" and al: "alone c l"
  obtains c' where "routine_validity l c = Some c'" "core_ok c'" "pa_frame c c'" "follows c' l"
proof -
  define best where "best = (case best_assignment (ldp_of c l) of None \<Rightarrow> None
    | Some a \<Rightarrow> if pa_precedes c (advp_of c a) (ldp_of c l) then Some a else None)"
  define c1 where "c1 = set_ldp l (best_assignment_update (\<lambda>_. best)) c"
  have i: "pa_inv c" using ok by (simp add: core_ok_def)
  have "pa_inv c1" unfolding c1_def by (rule pa_inv_set_ldp [OF i]) (simp add: ldp_inv_def ldp_bits_def)
  then have ok1: "core_ok c1" "pa_inv c1" unfolding c1_def using ok by (auto intro!: set_ldp_core_ok simp: core_ok_def pub_inv_def)
  have fr1: "pa_frame c c1" by (simp add: c1_def pa_frame_def)
  have "alone c1 l" using al by (simp add: alone_def c1_def ldp_bits_def)
  have b1: "best_assignment (ldp_of c1 l) = best" by (simp add: c1_def)
  define chk where "chk = (case best of None \<Rightarrow> pa_ldp_global_valid c1 l
    | Some a \<Rightarrow> pa_prefix_equals (ldp_prefix (ldp_of c1 l)) (ldp_plen (ldp_of c1 l))
        (advp_prefix (advp_of c1 a)) (advp_plen (advp_of c1 a)))"
  have chk: "\<exists>v. chk = Some v \<and> (\<forall>a. best = Some a \<longrightarrow> v = (ldp_bits (ldp_of c1 l) = advp_bits c1 a))" if "assigned (ldp_of c1 l)"
    using pa_ldp_global_valid_Some [OF ok1(2) that \<open>alone c1 l\<close>]
      pa_prefix_equals_ok [OF ldp_inv_pfx [OF pa_invD(2) [OF ok1(2)]] pa_invD(4) [OF ok1(2)]]
    by (cases best) (auto simp: chk_def ldp_bits_def advp_bits_def)
  have run: "routine_validity l c = do { c \<leftarrow> (if assigned (ldp_of c1 l) then do { v \<leftarrow> chk; if \<not> v then pa_ldp_unassign l c1 else Some c1 } else Some c1);
      Some (if best \<noteq> None then pa_ldp_unadopt l c else c) }"
    unfolding routine_validity_def Let_def best_def [symmetric] c1_def [symmetric] chk_def by (rule refl)
  obtain c2 where c2: "(if assigned (ldp_of c1 l) then do { v \<leftarrow> chk; if \<not> v then pa_ldp_unassign l c1 else Some c1 } else Some c1) = Some c2"
      "core_ok c2" "pa_frame c1 c2" "best_assignment (ldp_of c2 l) = best"
      "\<And>a. best = Some a \<Longrightarrow> assigned (ldp_of c2 l) \<Longrightarrow> ldp_bits (ldp_of c2 l) = advp_bits c2 a"
  proof (cases "assigned (ldp_of c1 l)")
    case False
    show ?thesis by (rule that [of c1]) (use False ok1 b1 in auto)
  next
    case True
    then obtain v where v: "chk = Some v" "\<forall>a. best = Some a \<longrightarrow> v = (ldp_bits (ldp_of c1 l) = advp_bits c1 a)" using chk by blast
    show ?thesis
    proof (cases v)
      case v': True
      show ?thesis by (rule that [of c1]) (use True ok1 b1 v v' in auto)
    next
      case v': False
      obtain c' where c': "pa_ldp_unassign l c1 = Some c'" "core_ok c'" "pa_frame c1 c'"
        "\<And>l'. same_ldp (if l' = l \<and> assigned (ldp_of c1 l) then cleared (ldp_of c1 l) else ldp_of c1 l') (ldp_of c' l')"
        using unassign_core_ok [OF ok1(1), of l] by metis
      show ?thesis by (rule that [of c']) (use True v v' c' b1 not_assigned_after [OF c'(4)] in auto)
    qed
  qed
  let ?c3 = "if best \<noteq> None then pa_ldp_unadopt l c2 else c2"
  show ?thesis
  proof (rule that [of ?c3])
    show "routine_validity l c = Some ?c3" using run c2(1) by simp
    show "core_ok ?c3" using c2(2) unadopt_core_ok by simp
    have "pa_frame c2 ?c3" by (simp add: pa_frame_ops)
    then show "pa_frame c ?c3" by (rule pa_frame_trans [OF pa_frame_trans [OF fr1 c2(3)]])
    show "follows ?c3 l" using c2(4,5) by (auto simp: follows_def ldp_of_ops advp_bits_frame [OF pa_frame_ops(2)])
  qed
qed

lemma env_step_inv: "env_step r c c' \<Longrightarrow> pa_inv c' = pa_inv c"
  by (auto simp: env_step_def)

lemma armed_env_step: "armed q r l c \<Longrightarrow> env_step r' c c' \<Longrightarrow> r' \<noteq> r \<Longrightarrow> armed q r l c'"
proof -
  assume a: "armed q r l c" "env_step r' c c'" "r' \<noteq> r"
  then obtain c0 c1 m where m: "pa_inv c0" "rule_max_priority q l c0 = Some (m, c1)" "m \<noteq> 0"
      "c = c1\<lparr>rands := rands c, rule_mem := rule_mem c\<rparr>" "rule_mem c r = rule_mem c1 r" by (auto simp: armed_def)
  obtain rs v where c': "c' = c\<lparr>rands := rs, rule_mem := (rule_mem c)(r' := v)\<rparr>" using a(2) by (auto simp: env_step_def)
  have "c' = c1\<lparr>rands := rands c', rule_mem := rule_mem c'\<rparr>" by (subst c', subst m(4)) (simp add: c')
  moreover have "rule_mem c' r = rule_mem c1 r" using c' a(3) m(5) by simp
  ultimately show ?thesis using m(1-3) unfolding armed_def by blast
qed

lemma armed_now: "pa_inv c0 \<Longrightarrow> rule_max_priority q l c0 = Some (m, c) \<Longrightarrow> m \<noteq> 0 \<Longrightarrow> armed q r l c"
  unfolding armed_def by (rule exI [of _ c0], rule exI [of _ c], rule exI [of _ m]) simp

lemma env_only_refl [simp]: "env_only c c"
  unfolding env_only_def by (rule exI [of _ "rands c"], rule exI [of _ "rule_mem c"]) simp

lemma env_only_trans:
  assumes "env_only a b" "env_only b c"
  shows "env_only a c"
proof -
  obtain rs mem rs' mem' where "b = a\<lparr>rands := rs, rule_mem := mem\<rparr>" "c = b\<lparr>rands := rs', rule_mem := mem'\<rparr>"
    using assms unfolding env_only_def by blast
  then have "c = a\<lparr>rands := rs', rule_mem := mem'\<rparr>" by simp
  then show ?thesis unfolding env_only_def by blast
qed

lemma env_step_only: "env_step r a b \<Longrightarrow> env_only a b"
  unfolding env_only_def env_step_def by blast

lemma env_onlyD:
  assumes "env_only c c'"
  shows "ldp_of c' = ldp_of c" "pa_inv c' = pa_inv c" "pa_frame c c'" "core_ok c' = core_ok c" "advp_of c' = advp_of c"
    "prefixes c' = prefixes c" "adopt_delay c' = adopt_delay c" "backoff_delay c' = backoff_delay c"
  using assms by (auto simp: env_only_def pa_frame_def core_ok_def pub_inv_def mem_ok_def)

lemma insert_rule_set: "set (insert_rule x ys) = insert x (set ys)"
  by (induction ys) auto

lemma insert_rule_distinct: "distinct (map snd (insert_rule x ys)) \<longleftrightarrow> distinct (map snd (x # ys))"
  by (induction ys) (auto simp: insert_rule_set)

locale pa_rule_contract =
  fixes R :: "nat \<Rightarrow> pa_rule"
  assumes max_law: "get_max_priority (R r) = Some f \<Longrightarrow> pa_inv c \<Longrightarrow> \<exists>m c'. f c l = Some (m, c') \<and> env_step r c c'"
    and match_law: "match_fn (R r) = Some g \<Longrightarrow> pa_inv c \<Longrightarrow> armed (R r) r l c \<Longrightarrow> length (arg_prefix arg) = 16 \<Longrightarrow>
      \<exists>t a c'. g c l bp arg = Some (t, a, c') \<and> env_step r c c' \<and> rule_target_ok c l t a \<and> length (arg_prefix a) = 16"
begin

lemma rule_max_priority_ok: "pa_inv c \<Longrightarrow> \<exists>m c'. rule_max_priority (R r) l c = Some (m, c') \<and> env_step r c c'"
proof (cases "get_max_priority (R r)")
  case None
  have "env_step r c c" unfolding env_step_def by (rule exI [of _ "rands c"], rule exI [of _ "rule_mem c r"]) simp
  then show ?thesis using None by (simp add: rule_max_priority_def)
next
  case (Some f)
  then show "pa_inv c \<Longrightarrow> ?thesis" using max_law [OF Some, of c l] by (simp add: rule_max_priority_def)
qed

lemma sort_rules_ok:
  assumes "pa_inv c" "distinct rs" "distinct (map snd acc)" "set rs \<inter> snd ` set acc = {}"
    and "\<forall>mr \<in> set acc. armed (R (snd mr)) (snd mr) l c"
  shows "\<exists>acc' c'. sort_rules R l rs acc c = Some (acc', c') \<and> env_only c c' \<and> distinct (map snd acc') \<and>
    (\<forall>mr \<in> set acc'. armed (R (snd mr)) (snd mr) l c')"
  using assms
proof (induction rs arbitrary: acc c)
  case Nil
  then show ?case by auto
next
  case (Cons r rs)
  show ?case
  proof (cases "case filter_accept (R r) of None \<Rightarrow> False | Some f \<Rightarrow> \<not> f c l")
    case True
    then show ?thesis using Cons.IH [OF Cons.prems(1) _ Cons.prems(3)] Cons.prems(2,4,5) by auto
  next
    case False
    obtain m c1 where m: "rule_max_priority (R r) l c = Some (m, c1)" "env_step r c c1"
      using rule_max_priority_ok [OF Cons.prems(1)] by blast
    let ?acc = "if m = 0 then acc else insert_rule (m, r) acc"
    have a: "\<forall>mr \<in> set ?acc. armed (R (snd mr)) (snd mr) l c1"
    proof
      fix mr assume mr: "mr \<in> set ?acc"
      show "armed (R (snd mr)) (snd mr) l c1"
      proof (cases "mr \<in> set acc")
        case True
        then have "r \<noteq> snd mr" "armed (R (snd mr)) (snd mr) l c" using Cons.prems(4,5) by auto
        then show ?thesis using armed_env_step [OF _ m(2)] by blast
      next
        case False
        then have "mr = (m, r)" "m \<noteq> 0" using mr by (auto simp: insert_rule_set split: if_splits)
        then show ?thesis using armed_now [OF Cons.prems(1) m(1)] by simp
      qed
    qed
    have "distinct (map snd ?acc)" "set rs \<inter> snd ` set ?acc = {}"
      using Cons.prems(2-4) by (auto simp: insert_rule_distinct insert_rule_set)
    moreover have "pa_inv c1" using Cons.prems(1) env_step_inv [OF m(2)] by simp
    ultimately obtain acc' c' where r: "sort_rules R l rs ?acc c1 = Some (acc', c')" "env_only c1 c'" "distinct (map snd acc')"
        "\<forall>mr \<in> set acc'. armed (R (snd mr)) (snd mr) l c'"
      using Cons.IH [of c1 ?acc] Cons.prems(2) a by auto
    have "env_only c c'" using env_only_trans [OF env_step_only [OF m(2)] r(2)] .
    moreover have "sort_rules R l (r # rs) acc c = Some (acc', c')" using False m(1) r(1) by simp
    ultimately show ?thesis using r(3,4) by blast
  qed
qed

lemma match_rules_ok:
  assumes "pa_inv c" "distinct (map snd rs)" "\<forall>mr \<in> set rs. armed (R (snd mr)) (snd mr) l c"
    and "rule_target_ok c l (fst best) (fst (snd best))" "length (arg_prefix arg) = 16"
  shows "\<exists>best' c'. match_rules R l rs bp best arg c = Some (best', c') \<and> env_only c c' \<and>
    rule_target_ok c l (fst best') (fst (snd best'))"
  using assms
proof (induction rs arbitrary: bp best arg c)
  case Nil
  then show ?case by simp
next
  case (Cons mr rs)
  obtain m r where mr: "mr = (m, r)" by fastforce
  show ?case
  proof (cases "m \<le> bp")
    case True
    then show ?thesis using Cons.prems(4) by (simp add: mr)
  next
    case False
    show ?thesis
    proof (cases "match_fn (R r)")
      case None
      then show ?thesis using False Cons.IH [OF Cons.prems(1) _ _ Cons.prems(4,5)] Cons.prems(2,3) by (simp add: mr)
    next
      case (Some f)
      obtain t a c1 where t: "f c l bp arg = Some (t, a, c1)" "env_step r c c1" "rule_target_ok c l t a" "length (arg_prefix a) = 16"
        using match_law [OF Some Cons.prems(1) _ Cons.prems(5), of l bp] Cons.prems(3) by (auto simp: mr)
      have i1: "pa_inv c1" using Cons.prems(1) env_step_inv [OF t(2)] by simp
      have d: "distinct (map snd rs)" "\<forall>mr \<in> set rs. armed (R (snd mr)) (snd mr) l c1"
        using Cons.prems(2,3) armed_env_step [OF _ t(2)] by (force simp: mr)+
      have e1: "env_only c c1" by (rule env_step_only [OF t(2)])
      have tk: "rule_target_ok c1 l t' a' = rule_target_ok c l t' a'" for t' a' using env_onlyD(1) [OF e1] by (simp add: rule_target_ok_def)
      define nb where "nb = (if t = PA_RULE_NO_MATCH then (bp, best) else (arg_rule_priority a, (t, a, Some r)))"
      have "rule_target_ok c1 l (fst (snd nb)) (fst (snd (snd nb)))" using Cons.prems(4) t(3) by (simp add: nb_def tk)
      then obtain best' c' where r: "match_rules R l rs (fst nb) (snd nb) a c1 = Some (best', c')" "env_only c1 c'"
          "rule_target_ok c1 l (fst best') (fst (snd best'))"
        using Cons.IH [OF i1 d, of "snd nb" a "fst nb"] t(4) by blast
      have "match_rules R l (mr # rs) bp best arg c = Some (best', c')"
        using False Some t(1) r(1) by (simp add: mr nb_def split: if_splits)
      moreover have "env_only c c'" by (rule env_only_trans [OF e1 r(2)])
      ultimately show ?thesis using r(3) tk by auto
    qed
  qed
qed

lemma routine_rules_ok:
  assumes "pa_inv c" "distinct (rules c)" "length (arg_prefix arg0) = 16"
  shows "\<exists>best c'. routine_rules R arg0 l c = Some (best, c') \<and> env_only c c' \<and> rule_target_ok c l (fst best) (fst (snd best))"
proof -
  obtain acc c1 where s: "sort_rules R l (rules c) [] c = Some (acc, c1)" "env_only c c1" "distinct (map snd acc)"
      "\<forall>mr \<in> set acc. armed (R (snd mr)) (snd mr) l c1"
    using sort_rules_ok [OF assms(1,2), of "[]" l] by auto
  let ?x = "ldp_of c1 l" and ?b = "(PA_RULE_NO_MATCH, arg0, None :: nat option)"
  obtain best c' where m: "match_rules R l acc (if published ?x \<or> adopting ?x then rule_priority ?x else 0) ?b arg0 c1 = Some (best, c')"
      "env_only c1 c'" "rule_target_ok c1 l (fst best) (fst (snd best))"
    using match_rules_ok [of c1 acc l ?b arg0 "if published ?x \<or> adopting ?x then rule_priority ?x else 0"] s assms(1,3) env_onlyD(2) [OF s(2)]
    by (auto simp: rule_target_ok_def)
  have "env_only c c'" by (rule env_only_trans [OF s(2) m(2)])
  moreover have "rule_target_ok c l (fst best) (fst (snd best))" using m(3) env_onlyD(1) [OF s(2)] by (simp add: rule_target_ok_def)
  ultimately show ?thesis using s(1) m(1) by (simp add: routine_rules_def Let_def)
qed

end

lemma pa_rand_only: "pa_rand c = (n, c') \<Longrightarrow> env_only c c'"
proof -
  assume r: "pa_rand c = (n, c')"
  have "c' = c \<or> (\<exists>rs. c' = c\<lparr>rands := rs\<rparr>)" using r by (auto simp: pa_rand_def split: list.splits)
  moreover have "env_only c (c\<lparr>rands := rs\<rparr>)" for rs
    unfolding env_only_def by (rule exI [of _ rs], rule exI [of _ "rule_mem c"]) simp
  ultimately show ?thesis by auto
qed

lemma unat_below: "k < unat (w :: u32) \<Longrightarrow> unat (of_nat k :: u32) = k"
proof -
  assume k: "k < unat w"
  have "unat w < 2 ^ 32" using unsigned_less [of w, where 'a = nat] by simp
  then show ?thesis using k by (simp add: unsigned_of_nat take_bit_eq_mod)
qed

lemma adopt_delay_r:
  assumes "delays_ok c"
  shows "\<exists>d c'. PA_ADOPT_DELAY_r c = Some (d, c') \<and> env_only c c' \<and> d < adopt_delay c"
proof -
  obtain n c' where r: "pa_rand c = (n, c')" by fastforce
  have a: "adopt_delay c' = adopt_delay c" by (rule env_onlyD(7) [OF pa_rand_only [OF r]])
  have "adopt_delay c \<noteq> 0" using assms by (auto simp: delays_ok_def)
  then have "0 < unat (adopt_delay c)" by (simp add: unat_gt_0)
  then have "n mod unat (adopt_delay c) < unat (adopt_delay c)" by simp
  then have "of_nat (n mod unat (adopt_delay c)) < adopt_delay c" by (simp add: word_less_nat_alt unat_below)
  then show ?thesis using r a \<open>adopt_delay c \<noteq> 0\<close> pa_rand_only [OF r] by (simp add: PA_ADOPT_DELAY_r_def)
qed

lemma backoff_delay_r:
  assumes "delays_ok c"
  shows "\<exists>d c'. PA_BACKOFF_DELAY_r c = Some (d, c') \<and> env_only c c' \<and> adopt_delay c \<le> d \<and> d < backoff_delay c"
proof -
  obtain n c' where r: "pa_rand c = (n, c')" by fastforce
  have a: "adopt_delay c' = adopt_delay c" "backoff_delay c' = backoff_delay c" using env_onlyD(7,8) [OF pa_rand_only [OF r]] by auto
  define b where "b = backoff_delay c - adopt_delay c"
  have lt: "adopt_delay c < backoff_delay c" using assms by (simp add: delays_ok_def)
  have ub: "unat b = unat (backoff_delay c) - unat (adopt_delay c)" unfolding b_def using lt by (simp add: unat_sub)
  have b0: "b \<noteq> 0" using lt by (auto simp: b_def)
  have m: "n mod unat b < unat b" using b0 by (simp add: unat_gt_0)
  have sum: "unat (adopt_delay c) + n mod unat b < unat (backoff_delay c)" using m ub by simp
  have u: "unat (adopt_delay c + of_nat (n mod unat b)) = unat (adopt_delay c) + n mod unat b"
    using unat_below [OF sum] by simp
  then have "adopt_delay c \<le> adopt_delay c + of_nat (n mod unat b)" "adopt_delay c + of_nat (n mod unat b) < backoff_delay c"
    using sum by (simp_all add: word_le_nat_alt word_less_nat_alt)
  then show ?thesis using r a b0 pa_rand_only [OF r] by (simp add: PA_BACKOFF_DELAY_r_def b_def Let_def)
qed

lemma follows_cong:
  "ldp_of c' l = ldp_of c l \<Longrightarrow> pa_frame c c' \<Longrightarrow> follows c' l = follows c l"
  by (simp add: follows_def advp_bits_frame)

lemma follows_None: "best_assignment (ldp_of c l) = None \<Longrightarrow> follows c l"
  by (simp add: follows_def)

lemma follows_unassigned:
  "\<not> assigned (ldp_of c l) \<Longrightarrow> pa_inv c \<Longrightarrow> follows c l"
  using pa_invD(2) [of c l] by (auto simp: follows_def ldp_inv_def)

lemma set_ldp_timer:
  assumes "core_ok c"
  shows "core_ok (set_ldp l (backoff_to_update f) c)" "pa_frame c (set_ldp l (backoff_to_update f) c)"
proof -
  have i: "pa_inv c" using assms by (simp add: core_ok_def)
  have "pa_inv (set_ldp l (backoff_to_update f) c)" by (rule pa_inv_set_ldp [OF i]) (simp add: ldp_inv_def ldp_bits_def)
  then show "core_ok (set_ldp l (backoff_to_update f) c)"
    using assms by (intro set_ldp_core_ok) (auto simp: core_ok_def pub_inv_def)
  show "pa_frame c (set_ldp l (backoff_to_update f) c)" by (simp add: pa_frame_def)
qed

lemma act_adopt_ok:
  assumes "core_ok c" "delays_ok c" "assigned (ldp_of c l)" "\<not> published (ldp_of c l)" "best_assignment (ldp_of c l) = None"
  obtains c' where "pa_ldp_adopt l r p rp c = Some c'" "core_ok c'" "pa_frame c c'" "follows c' l"
proof (cases "adopting (ldp_of c l)")
  case True
  then show ?thesis using that [of c] assms follows_None by (simp add: pa_ldp_adopt_def)
next
  case False
  let ?f = "\<lambda>x. x\<lparr>ldp_rule := r, priority := p, rule_priority := rp, adopting := True\<rparr>"
  have u: "pa_ldp_unpublish l True c = c" using assms(4) by (simp add: pa_ldp_unpublish_def)
  have i: "pa_inv c" using assms(1) by (simp add: core_ok_def)
  have "pa_inv (set_ldp l ?f c)" by (rule pa_inv_set_ldp [OF i]) (use assms(3,4) in \<open>auto simp: ldp_inv_def ldp_bits_def\<close>)
  then have c1: "core_ok (set_ldp l ?f c)" using assms(3) by (intro set_ldp_core_ok [OF assms(1)]) simp_all
  have "delays_ok (set_ldp l ?f c)" using assms(2) by (simp add: delays_ok_def)
  then obtain d c2 where d: "PA_ADOPT_DELAY_r (set_ldp l ?f c) = Some (d, c2)" "env_only (set_ldp l ?f c) c2"
    using adopt_delay_r by blast
  let ?c3 = "set_ldp l (backoff_to_update (\<lambda>_. Some d)) c2"
  have c2: "core_ok c2" using c1 env_onlyD(4) [OF d(2)] by simp
  show ?thesis
  proof (rule that [of ?c3])
    show "pa_ldp_adopt l r p rp c = Some ?c3" using False u d(1) by (simp add: pa_ldp_adopt_def)
    show "core_ok ?c3" by (rule set_ldp_timer(1) [OF c2])
    have "pa_frame c (set_ldp l ?f c)" by (simp add: pa_frame_def)
    also have "pa_frame (set_ldp l ?f c) c2" by (rule env_onlyD(3) [OF d(2)])
    also have "pa_frame c2 ?c3" by (rule set_ldp_timer(2) [OF c2])
    finally show "pa_frame c ?c3" .
    show "follows ?c3 l" by (rule follows_None) (use assms(5) env_onlyD(1) [OF d(2)] in simp)
  qed
qed

lemma act_backoff_ok:
  assumes "core_ok c" "delays_ok c" "follows c l"
  obtains c' where "act_backoff l c = Some c'" "core_ok c'" "pa_frame c c'" "follows c' l"
proof (cases "best_assignment (ldp_of c l) = None")
  case False
  then show ?thesis using that [of c] assms by (simp add: act_backoff_def)
next
  case True
  obtain c1 where c1: "pa_ldp_unassign l c = Some c1" "core_ok c1" "pa_frame c c1"
    "\<And>l'. same_ldp (if l' = l \<and> assigned (ldp_of c l) then cleared (ldp_of c l) else ldp_of c l') (ldp_of c1 l')"
    using unassign_core_ok [OF assms(1)] by blast
  have b: "best_assignment (ldp_of c1 l) = None" using not_assigned_after(2) [OF c1(4)] True by simp
  have "delays_ok c1" using assms(2) c1(3) by (simp add: delays_ok_def pa_frame_def)
  then obtain d c2 where d: "PA_BACKOFF_DELAY_r c1 = Some (d, c2)" "env_only c1 c2" using backoff_delay_r by blast
  have c2: "core_ok c2" using c1(2) env_onlyD(4) [OF d(2)] by simp
  let ?c3 = "set_ldp l (backoff_to_update (\<lambda>_. Some d)) c2"
  show ?thesis
  proof (cases "backoff_to (ldp_of c1 l) = None")
    case False
    then have "act_backoff l c = Some c1" using True c1(1) by (auto simp: act_backoff_def)
    then show ?thesis using that [of c1] c1(2,3) follows_None [OF b] by blast
  next
    case t: True
    have "pa_frame c ?c3" using c1(3) env_onlyD(3) [OF d(2)] set_ldp_timer(2) [OF c2] pa_frame_trans by blast
    moreover have "follows ?c3 l" by (rule follows_None) (use b env_onlyD(1) [OF d(2)] in simp)
    ultimately show ?thesis using that [of ?c3] True t c1(1) d(1) set_ldp_timer(1) [OF c2] by (simp add: act_backoff_def)
  qed
qed

lemma ldp_of_assign_best:
  assumes "core_ok c" "\<not> assigned (ldp_of c l)" "pfx_ok p n"
  obtains c' where "map_option fst (pa_ldp_assign l p n c) = Some c'" "core_ok c'" "pa_frame c c'" "assigned (ldp_of c' l)"
    "ldp_bits (ldp_of c' l) = kbits p n" "\<not> adopting (ldp_of c' l)" "\<not> published (ldp_of c' l)"
    "best_assignment (ldp_of c' l) = best_assignment (ldp_of c l)"
    "mset (entries [] (prefixes c')) = add_mset (kbits p n, PAT_ASSIGNED l) (mset (entries [] (prefixes c)))"
proof -
  have i: "pa_inv c" "mem_ok c" "\<And>l. published (ldp_of c l) \<longrightarrow> assigned (ldp_of c l)"
    using assms(1) by (auto simp: core_ok_def pub_inv_def)
  obtain c' r where c': "pa_ldp_assign l p n c = Some (c', r)" "pa_inv c'" "pa_frame c c'"
    "\<And>l'. l' \<noteq> l \<Longrightarrow> ldp_of c' l' = ldp_of c l'" "published (ldp_of c' l) = published (ldp_of c l)"
    "\<not> adopting (ldp_of c' l)" "best_assignment (ldp_of c' l) = best_assignment (ldp_of c l)"
    "mem_ok c \<Longrightarrow> r = 0 \<and> mem_ok c'" "r = 0 \<and> assigned (ldp_of c' l) \<and> ldp_bits (ldp_of c' l) = kbits p n \<and>
       mset (entries [] (prefixes c')) = add_mset (kbits p n, PAT_ASSIGNED l) (mset (entries [] (prefixes c))) \<or>
     r = -1 \<and> \<not> assigned (ldp_of c' l) \<and> mset (entries [] (prefixes c')) = mset (entries [] (prefixes c))"
    using pa_ldp_assign_inv [OF i(1) assms(2,3)] by metis
  have r: "r = 0" "mem_ok c'" using c'(8) i(2) by auto
  have "published (ldp_of c' l') \<longrightarrow> assigned (ldp_of c' l')" for l'
    using c'(4) [of l'] c'(9) r i(3) [of l'] by (cases "l' = l") auto
  then have "core_ok c'" using c'(2) r(2) by (simp add: core_ok_def pub_inv_def)
  moreover have "\<not> published (ldp_of c' l)" using c'(5) i(3) assms(2) by blast
  ultimately show ?thesis using that [of c'] c' r by simp
qed

lemma act_publish_ok:
  assumes ok: "core_ok c" and p: "pfx_ok (arg_prefix a) (arg_plen a)"
  obtains c' where "act_publish l a r c = Some c'" "core_ok c'" "pa_frame c c'" "best_assignment (ldp_of c' l) = None"
    "published (ldp_of c' l)" "assigned (ldp_of c' l)" "ldp_bits (ldp_of c' l) = kbits (arg_prefix a) (arg_plen a)"
    "\<And>b l'. (b, PAT_ASSIGNED l') \<in># mset (entries [] (prefixes c')) \<Longrightarrow> overlap b (kbits (arg_prefix a) (arg_plen a)) \<Longrightarrow> l' = l"
proof -
  let ?k = "kbits (arg_prefix a) (arg_plen a)"
  have i: "pa_inv c" using ok by (simp add: core_ok_def)
  obtain es where es: "btrie_updown_list (prefixes c) (arg_prefix a) (arg_plen a) = Some es"
      "\<And>e. e \<in> set es \<longleftrightarrow> (\<exists>b. (b, e) \<in># mset (entries [] (prefixes c)) \<and> overlap b ?k)"
    using trie_store.overlapping_set [OF pa_invD(1) [OF i] pfx_ok_key [OF p]] by blast
  obtain c1 where c1: "unassign_conflicts l es c = Some c1" "core_ok c1" "pa_frame c c1" "same_ldp (ldp_of c l) (ldp_of c1 l)"
    "\<And>be. be \<in># mset (entries [] (prefixes c1)) \<longleftrightarrow> be \<in># mset (entries [] (prefixes c)) \<and>
       (\<forall>l2. l2 \<noteq> l \<longrightarrow> snd be = PAT_ASSIGNED l2 \<longrightarrow> PAT_ASSIGNED l2 \<notin> set es)"
    using unassign_conflicts_ok [OF ok, of l es] by metis
  have al1: "l' = l" if "(b, PAT_ASSIGNED l') \<in># mset (entries [] (prefixes c1))" "overlap b ?k" for b l'
    using c1(5) [of "(b, PAT_ASSIGNED l')"] es(2) [of "PAT_ASSIGNED l'"] that by auto
  have i1: "pa_inv c1" using c1(2) by (simp add: core_ok_def)
  define eq where "eq = (?k = ldp_bits (ldp_of c1 l))"
  have eq: "pa_prefix_equals (arg_prefix a) (arg_plen a) (ldp_prefix (ldp_of c1 l)) (ldp_plen (ldp_of c1 l)) = Some eq"
    using pa_prefix_equals_ok [OF p ldp_inv_pfx [OF pa_invD(2) [OF i1]]] by (simp add: eq_def ldp_bits_def)
  obtain c2 where c2: "(if assigned (ldp_of c1 l) then (if \<not> eq then pa_ldp_unassign l c1 else Some c1) else Some c1) = Some c2"
      "core_ok c2" "pa_frame c1 c2" "assigned (ldp_of c2 l) \<Longrightarrow> ldp_bits (ldp_of c2 l) = ?k"
      "\<And>be. be \<in># mset (entries [] (prefixes c2)) \<Longrightarrow> be \<in># mset (entries [] (prefixes c1))"
  proof (cases "assigned (ldp_of c1 l) \<and> \<not> eq")
    case False
    show ?thesis by (rule that [of c1]) (use False c1(2) in \<open>auto simp: eq_def\<close>)
  next
    case True
    obtain c' where c': "pa_ldp_unassign l c1 = Some c'" "core_ok c'" "pa_frame c1 c'"
      "\<And>l'. same_ldp (if l' = l \<and> assigned (ldp_of c1 l) then cleared (ldp_of c1 l) else ldp_of c1 l') (ldp_of c' l')"
      "\<And>be. be \<in># mset (entries [] (prefixes c')) \<longleftrightarrow> be \<in># mset (entries [] (prefixes c1)) \<and> snd be \<noteq> PAT_ASSIGNED l"
      using unassign_core_ok [OF c1(2), of l] by metis
    show ?thesis by (rule that [of c']) (use True c' not_assigned_after(1) [OF c'(4)] in auto)
  qed
  obtain c3 where c3: "(if assigned (ldp_of c2 l) then Some (pa_ldp_unadopt l (pa_ldp_unpublish l False c2))
        else map_option fst (pa_ldp_assign l (arg_prefix a) (arg_plen a) c2)) = Some c3"
      "core_ok c3" "pa_frame c2 c3" "assigned (ldp_of c3 l)" "ldp_bits (ldp_of c3 l) = ?k"
      "\<And>be. be \<in># mset (entries [] (prefixes c3)) \<Longrightarrow> be \<in># mset (entries [] (prefixes c2)) \<or> be = (?k, PAT_ASSIGNED l)"
  proof (cases "assigned (ldp_of c2 l)")
    case True
    have "pa_frame c2 (pa_ldp_unadopt l (pa_ldp_unpublish l False c2))" using pa_frame_trans pa_frame_ops by blast
    then show ?thesis using that [of "pa_ldp_unadopt l (pa_ldp_unpublish l False c2)"] True c2(4)
        unadopt_core_ok [OF unpublish_core_ok [OF c2(2)]] by (simp add: ldp_of_ops)
  next
    case False
    obtain c' where "map_option fst (pa_ldp_assign l (arg_prefix a) (arg_plen a) c2) = Some c'" "core_ok c'" "pa_frame c2 c'" "assigned (ldp_of c' l)"
      "ldp_bits (ldp_of c' l) = ?k" "mset (entries [] (prefixes c')) = add_mset (?k, PAT_ASSIGNED l) (mset (entries [] (prefixes c2)))"
      using ldp_of_assign_best [OF c2(2) False p] by metis
    then show ?thesis using that [of c'] False by auto
  qed
  let ?c4 = "pa_ldp_publish l r (arg_priority a) (arg_rule_priority a) c3"
  let ?c5 = "set_ldp l (best_assignment_update (\<lambda>_. None)) ?c4"
  have c4: "core_ok ?c4" by (rule publish_core_ok [OF c3(2,4)])
  have "pa_inv ?c5" by (rule pa_inv_set_ldp) (use c4 in \<open>auto simp: core_ok_def ldp_inv_def ldp_bits_def\<close>)
  then have c5: "core_ok ?c5" using c3(4) by (intro set_ldp_core_ok [OF c4]) (simp_all add: ldp_of_ops)
  have b5: "ldp_bits (ldp_of ?c5 l) = ldp_bits (ldp_of ?c4 l)" by (simp add: ldp_bits_def)
  show ?thesis
  proof (rule that [of ?c5])
    show "act_publish l a r c = Some ?c5"
      using es(1) c1(1) eq c2(1) c3(1) by (auto simp: act_publish_def split: if_splits)
    show "core_ok ?c5" by (rule c5)
    have "pa_frame ?c4 ?c5" by (simp add: pa_frame_def)
    then have "pa_frame c3 ?c5" by (rule pa_frame_trans [OF pa_frame_ops(3)])
    then show "pa_frame c ?c5" by (rule pa_frame_trans [OF pa_frame_trans [OF pa_frame_trans [OF c1(3) c2(3)] c3(3)]])
    show "best_assignment (ldp_of ?c5 l) = None" "published (ldp_of ?c5 l)" "assigned (ldp_of ?c5 l)"
      using c3(4) by (simp_all add: ldp_of_ops)
    show "ldp_bits (ldp_of ?c5 l) = ?k" using c3(5) b5 by (simp add: ldp_of_ops)
    show "l' = l" if "(b, PAT_ASSIGNED l') \<in># mset (entries [] (prefixes ?c5))" "overlap b ?k" for b l'
      using that(1) c3(6) [of "(b, PAT_ASSIGNED l')"] c2(5) [of "(b, PAT_ASSIGNED l')"] al1 [OF _ that(2)] by auto
  qed
qed

lemma schedule_ldp:
  "pa_frame c (pa_routine_schedule l c)" "same_ldp (ldp_of c l') (ldp_of (pa_routine_schedule l c) l')"
  by (auto simp: pa_frame_def pa_routine_schedule_def same_ldp_def intro: exI [of _ "routine_to (ldp_of c l')"])

lemma routine_act_ok:
  assumes ok: "core_ok c" "delays_ok c" "follows c l" and t: "rule_target_ok c l (fst best) (fst (snd best))"
  obtains c' where "routine_act l best c = Some c'" "core_ok c'" "pa_frame c c'" "follows c' l"
proof -
  obtain g a r where b: "best = (g, a, r)" by (cases best)
  show ?thesis
  proof (cases g)
    case PA_RULE_NO_MATCH
    then show ?thesis using that [of c] ok by (simp add: routine_act_def b)
  next
    case PA_RULE_ADOPT
    then have "assigned (ldp_of c l)" "\<not> published (ldp_of c l)" "best_assignment (ldp_of c l) = None"
      using t by (simp_all add: rule_target_ok_def b)
    then show ?thesis using act_adopt_ok [OF ok(1,2), of l r "arg_priority a" "arg_rule_priority a"] that PA_RULE_ADOPT
      by (simp add: routine_act_def b) blast
  next
    case PA_RULE_BACKOFF
    then show ?thesis using act_backoff_ok [OF ok] that by (simp add: routine_act_def b) blast
  next
    case PA_RULE_PUBLISH
    then have "pfx_ok (arg_prefix a) (arg_plen a)" using t by (simp add: rule_target_ok_def b)
    then obtain c' where "act_publish l a r c = Some c'" "core_ok c'" "pa_frame c c'" "best_assignment (ldp_of c' l) = None"
      using act_publish_ok [OF ok(1)] by metis
    then show ?thesis using that [of c'] follows_None PA_RULE_PUBLISH by (simp add: routine_act_def b)
  next
    case PA_RULE_DESTROY
    obtain c1 where c1: "pa_ldp_unassign l c = Some c1" "core_ok c1" "pa_frame c c1"
      "\<And>l'. same_ldp (if l' = l \<and> assigned (ldp_of c l) then cleared (ldp_of c l) else ldp_of c l') (ldp_of c1 l')"
      using unassign_core_ok [OF ok(1), of l] by metis
    let ?c2 = "pa_routine_schedule l c1"
    have o: "core_ok ?c2" by (rule schedule_core_ok [OF c1(2)])
    have "\<not> assigned (ldp_of ?c2 l)" using not_assigned_after(1) [OF c1(4)] same_ldpD(1) [OF schedule_ldp(2) [of c1 l l]] by simp
    then have "follows ?c2 l" by (rule follows_unassigned) (use o in \<open>simp add: core_ok_def\<close>)
    then show ?thesis using that [of ?c2] c1(1) o pa_frame_trans [OF c1(3) schedule_ldp(1)] PA_RULE_DESTROY
      by (simp add: routine_act_def b)
  qed
qed

lemma routine_end_ok:
  assumes ok: "core_ok c" and f: "follows c l"
  obtains c' where "routine_end l c = Some c'" "core_ok c'" "pa_frame c c'" "settled c' l"
proof -
  have i: "pa_inv c" using ok by (simp add: core_ok_def)
  obtain cu where cu: "pa_ldp_unassign l c = Some cu" "core_ok cu" "pa_frame c cu"
    "\<And>l'. same_ldp (if l' = l \<and> assigned (ldp_of c l) then cleared (ldp_of c l) else ldp_of c l') (ldp_of cu l')"
    using unassign_core_ok [OF ok, of l] by metis
  note na = not_assigned_after [OF cu(4)]
  show ?thesis
  proof (cases "best_assignment (ldp_of c l)")
    case None
    show ?thesis
    proof (cases "assigned (ldp_of c l) \<and> \<not> published (ldp_of c l) \<and> \<not> adopting (ldp_of c l)")
      case True
      then show ?thesis using that [OF _ cu(2,3)] None cu(1) na(1,2) by (simp add: routine_end_def settled_def)
    next
      case False
      then have "routine_end l c = Some c" "settled c l" using None by (auto simp: routine_end_def settled_def Let_def)
      then show ?thesis using that [of c] ok by simp
    qed
  next
    case (Some a)
    show ?thesis
    proof (cases "assigned (ldp_of c l)")
      case True
      let ?c1 = "pa_ldp_unpublish l False c"
      let ?c' = "pa_ldp_unadopt l ?c1"
      have fr: "pa_frame c ?c'" by (rule pa_frame_trans [OF pa_frame_ops(1,2)])
      have "\<not> published (ldp_of ?c' l)" "\<not> adopting (ldp_of ?c' l)"
        using f Some by (auto simp: follows_def pa_ldp_unadopt_def pa_ldp_unpublish_def)
      then have "settled ?c' l"
        using f Some True by (simp add: settled_def ldp_of_ops advp_bits_frame [OF fr] follows_def)
      then show ?thesis using that [OF _ unadopt_core_ok [OF unpublish_core_ok [OF ok]] fr] True Some
        by (simp add: routine_end_def)
    next
      case False
      have e: "advp_of cu = advp_of c" using cu(3) by (simp add: pa_frame_def)
      have p: "pfx_ok (advp_prefix (advp_of cu a)) (advp_plen (advp_of cu a))" using pa_invD(4) [OF i] e by simp
      obtain c' where c': "map_option fst (pa_ldp_assign l (advp_prefix (advp_of cu a)) (advp_plen (advp_of cu a)) cu) = Some c'"
          "core_ok c'" "pa_frame cu c'" "assigned (ldp_of c' l)" "ldp_bits (ldp_of c' l) = kbits (advp_prefix (advp_of cu a)) (advp_plen (advp_of cu a))"
          "\<not> adopting (ldp_of c' l)" "\<not> published (ldp_of c' l)" "best_assignment (ldp_of c' l) = best_assignment (ldp_of cu l)"
        using ldp_of_assign_best [OF cu(2) na(1) p] by metis
      have fr: "pa_frame c c'" by (rule pa_frame_trans [OF cu(3) c'(3)])
      have "settled c' l" using c'(4-8) na(2) Some e fr by (simp add: settled_def advp_bits_def pa_frame_def)
      moreover have "routine_end l c = Some c'" using False Some cu(1) c'(1) by (simp add: routine_end_def)
      ultimately show ?thesis using that c'(2) fr by blast
    qed
  qed
qed

context pa_rule_contract
begin

lemma routine_ok:
  assumes ok: "core_ok c" "delays_ok c" "distinct (rules c)" and al: "alone c l" and len: "length (arg_prefix arg0) = 16"
  shows "\<exists>c'. pa_routine R arg0 l bo c = Some c' \<and> core_ok c' \<and> pa_frame c c' \<and> settled c' l"
proof -
  obtain best where b: "routine_best l c = Some (set_ldp l (best_assignment_update (\<lambda>_. best)) c)"
    "core_ok (set_ldp l (best_assignment_update (\<lambda>_. best)) c)" using routine_best_ok [OF ok(1)] by blast
  let ?c1 = "set_ldp l (best_assignment_update (\<lambda>_. best)) c"
  have "alone ?c1 l" using al by (simp add: alone_def ldp_bits_def)
  then obtain c2 where c2: "routine_validity l ?c1 = Some c2" "core_ok c2" "pa_frame ?c1 c2" "follows c2 l"
    by (rule routine_validity_ok [OF b(2)])
  let ?c3 = "set_ldp l (backoff_update (\<lambda>_. bo)) c2"
  have "pa_frame c ?c1" "pa_frame c2 ?c3" by (simp_all add: pa_frame_def)
  then have f3: "pa_frame c ?c3" using pa_frame_trans [OF pa_frame_trans [OF _ c2(3)]] by blast
  have i2: "pa_inv c2" using c2(2) by (simp add: core_ok_def)
  have i3: "pa_inv ?c3" by (rule pa_inv_set_ldp [OF i2]) (simp add: ldp_inv_def ldp_bits_def)
  then have o3: "core_ok ?c3" using c2(2) by (intro set_ldp_core_ok) (auto simp: core_ok_def pub_inv_def)
  have fo3: "follows ?c3 l" using c2(4) by (simp add: follows_def ldp_bits_def advp_bits_def)
  have "distinct (rules ?c3)" using ok(3) f3 by (simp add: pa_frame_def)
  then obtain bm c4 where r: "routine_rules R arg0 l ?c3 = Some (bm, c4)" "env_only ?c3 c4" "rule_target_ok ?c3 l (fst bm) (fst (snd bm))"
    using routine_rules_ok [OF i3 _ len] by blast
  have f4: "pa_frame c c4" by (rule pa_frame_trans [OF f3 env_onlyD(3) [OF r(2)]])
  have o4: "core_ok c4" using o3 env_onlyD(4) [OF r(2)] by simp
  have d4: "delays_ok c4" using ok(2) f4 by (simp add: delays_ok_def pa_frame_def)
  have fo4: "follows c4 l" using fo3 follows_cong [OF _ env_onlyD(3) [OF r(2)], of l] env_onlyD(1) [OF r(2)] by simp
  have t4: "rule_target_ok c4 l (fst bm) (fst (snd bm))" using r(3) env_onlyD(1) [OF r(2)] by (simp add: rule_target_ok_def)
  obtain c5 where c5: "routine_act l bm c4 = Some c5" "core_ok c5" "pa_frame c4 c5" "follows c5 l"
    by (rule routine_act_ok [OF o4 d4 fo4 t4])
  obtain c6 where c6: "routine_end l c5 = Some c6" "core_ok c6" "pa_frame c5 c6" "settled c6 l"
    by (rule routine_end_ok [OF c5(2,4)])
  have "pa_frame c c6" by (rule pa_frame_trans [OF pa_frame_trans [OF f4 c5(3)] c6(3)])
  moreover have "pa_routine R arg0 l bo c = Some c6"
    using b(1) c2(1) r(1) c5(1) c6(1) by (simp add: pa_routine_def)
  ultimately show ?thesis using c6(2,4) by blast
qed

end

lemma zero_core_ok: "core_ok zero_core" "delays_ok zero_core" "alone zero_core l"
proof -
  have "btrie_wf (btrie_init :: pa_pentry btrie)" by (simp add: btrie_init_def hd_ok_def)
  then show "core_ok zero_core"
    by (simp add: core_ok_def pa_inv_def trie_inv_def zero_core_def pa_core_init_def btrie_init_def ldp_inv_def new_ldp_def pfx_ok_def
        pub_inv_def mem_ok_def)
  show "delays_ok zero_core"
    by (simp add: delays_ok_def zero_core_def pa_core_init_def PA_ADOPT_DELAY_DEFAULT_def PA_BACKOFF_DELAY_DEFAULT_def)
  show "alone zero_core l" by (simp add: alone_def zero_core_def pa_core_init_def new_ldp_def)
qed

lemma better_advp_trans: "\<not> better_advp x y \<Longrightarrow> \<not> better_advp y z \<Longrightarrow> \<not> better_advp x z"
  by (auto simp: better_advp_def)

lemma better_advp_asym: "better_advp x y \<Longrightarrow> \<not> better_advp y x" "\<not> better_advp x x"
  by (auto simp: better_advp_def)

lemma best_advp_loop_best: "best_of c (on_link c l es \<union> set_option best) (best_advp_loop c l best es)"
proof (induction es arbitrary: best)
  case Nil
  then show ?case by (cases best) (auto simp: on_link_def best_of_def better_advp_asym)
next
  case (Cons e es)
  show ?case
  proof (cases e)
    case (PAT_ASSIGNED l')
    then show ?thesis using Cons [of best] by (simp add: on_link_def)
  next
    case (PAT_ADVERTISED a)
    let ?on = "advp_link (advp_of c a) = Some (ldp_link (ldp_of c l))"
    let ?win = "case best of None \<Rightarrow> True | Some b \<Rightarrow> better_advp (advp_of c a) (advp_of c b)"
    have eq: "on_link c l (e # es) = (if ?on then insert a (on_link c l es) else on_link c l es)"
      using PAT_ADVERTISED by (auto simp: on_link_def)
    have run: "best_advp_loop c l best (e # es) = best_advp_loop c l (if ?on \<and> ?win then Some a else best) es"
      using PAT_ADVERTISED by simp
    consider (new) "?on" "?win" | (old) b where "?on" "best = Some b" "\<not> better_advp (advp_of c a) (advp_of c b)" | (off) "\<not> ?on"
      by (cases best) auto
    then show ?thesis
    proof cases
      case new
      obtain b where b: "best_advp_loop c l (Some a) es = Some b" "b \<in> insert a (on_link c l es)"
          "\<forall>x \<in> insert a (on_link c l es). \<not> better_advp (advp_of c x) (advp_of c b)"
        using Cons [of "Some a"] by (auto simp: best_of_def split: option.splits)
      have "\<not> better_advp (advp_of c x) (advp_of c b)" if "best = Some x" for x
        using new(2) that b(3) better_advp_asym(1) [of "advp_of c a" "advp_of c x"]
          better_advp_trans [of "advp_of c x" "advp_of c a" "advp_of c b"] by simp
      then show ?thesis using new b run eq by (cases best) (auto simp: best_of_def)
    next
      case (old b0)
      obtain b where b: "best_advp_loop c l best es = Some b" "b \<in> on_link c l es \<union> {b0}"
          "\<forall>x \<in> on_link c l es \<union> {b0}. \<not> better_advp (advp_of c x) (advp_of c b)"
        using Cons [of best] old(2) by (auto simp: best_of_def split: option.splits)
      moreover have "\<not> better_advp (advp_of c a) (advp_of c b)" using better_advp_trans [OF old(3), of "advp_of c b"] b(3) by simp
      ultimately show ?thesis using old run eq by (auto simp: best_of_def)
    next
      case off
      then show ?thesis using Cons [of best] run eq by simp
    qed
  qed
qed

lemma valid_loop_all: "valid_loop c orp op s es \<longleftrightarrow> (\<forall>e \<in> set es. \<not> entry_conflicts c orp op s e)"
  by (induction es) auto

section \<open>Properties\<close>



text \<open>C6: When the routine publishes a prefix with enough memory, the pair ends assigned, published, and
  alone: every assigned prefix in the trie that overlaps it is its own, whatever pairs held
  overlapping prefixes before.\<close>

theorem publish_exclusive:
  assumes "core_ok c" "pfx_ok (arg_prefix a) (arg_plen a)"
  shows "\<exists>c'. act_publish l a r c = Some c' \<and> core_ok c' \<and> published (ldp_of c' l) \<and> assigned (ldp_of c' l) \<and>
    ldp_bits (ldp_of c' l) = kbits (arg_prefix a) (arg_plen a) \<and> alone c' l"
proof -
  obtain c' where c': "act_publish l a r c = Some c'" "core_ok c'" "published (ldp_of c' l)" "assigned (ldp_of c' l)"
    "ldp_bits (ldp_of c' l) = kbits (arg_prefix a) (arg_plen a)"
    "\<And>b l'. (b, PAT_ASSIGNED l') \<in># mset (entries [] (prefixes c')) \<Longrightarrow> overlap b (kbits (arg_prefix a) (arg_plen a)) \<Longrightarrow> l' = l"
    by (rule act_publish_ok [OF assms, of l r]) (rule that)
  have "(ldp_bits (ldp_of c' l'), PAT_ASSIGNED l') \<in># mset (entries [] (prefixes c'))" if "assigned (ldp_of c' l')" for l'
    using pa_invD(5) [of c' "ldp_bits (ldp_of c' l')" l'] c'(2) that unfolding core_ok_def by (intro count_inI) simp
  then have "alone c' l" using c'(5,6) unfolding alone_def by metis
  then show ?thesis using c' by blast
qed

theorem publish_exclusive_witness:
  "\<exists>c'. act_publish 0 \<lparr>arg_rule_priority = 1, arg_prefix = replicate 16 0, arg_plen = 64, arg_priority = 1\<rparr> None zero_core = Some c' \<and>
    published (ldp_of c' 0) \<and> alone c' 0"
  using publish_exclusive [of zero_core "\<lparr>arg_rule_priority = 1, arg_prefix = replicate 16 0, arg_plen = 64, arg_priority = 1\<rparr>" 0 None]
    zero_core_ok(1) by (auto simp: pfx_ok_def)



text \<open>C26: The random delays stay in their ranges: an adoption waits less than the adoption delay, and a
  backoff at least the adoption delay and less than the backoff delay; the 32-bit sum does not wrap.\<close>

theorem delays_bounded:
  assumes "delays_ok c"
  shows "\<exists>d c' d' c''. PA_ADOPT_DELAY_r c = Some (d, c') \<and> d < adopt_delay c \<and>
    PA_BACKOFF_DELAY_r c = Some (d', c'') \<and> adopt_delay c \<le> d' \<and> d' < backoff_delay c"
  using adopt_delay_r [OF assms] backoff_delay_r [OF assms] by blast

theorem delays_bounded_witness:
  "\<exists>d c' d' c''. PA_ADOPT_DELAY_r zero_core = Some (d, c') \<and> d < 2000 \<and>
    PA_BACKOFF_DELAY_r zero_core = Some (d', c'') \<and> 2000 \<le> d' \<and> d' < 20000"
  using delays_bounded [OF zero_core_ok(2)]
  by (simp add: zero_core_def pa_core_init_def PA_ADOPT_DELAY_DEFAULT_def PA_BACKOFF_DELAY_DEFAULT_def)



end
