(* ===== verification/PaRules.thy ===== *)
theory PaRules
  imports PaCore
begin

text \<open>
  The rules of src/src/pa_rules.c: adoption of an orphan prefix, random and pseudo-random choice of a
  prefix among the available ones, choice by the Hamming distance, and static configuration.

  A function of a rule takes the structure of the rule first; the callbacks of the structure are its
  function fields.  The MD5 digest of the seed and of the two counters is the parameter \<open>md5\<close>;
  \<open>stk\<close> is the content of the automatic variables that are not initialised.  \<open>1 << 31\<close> is the
  negative integer GCC gives.  \<open>None\<close> is undefined behaviour, as in \<open>PaCore\<close>.
\<close>

unbundle bit_operations_syntax

section \<open>Prefixes in a container\<close>

definition PA_RAND_MAX_PLEN :: nat where "PA_RAND_MAX_PLEN = 128"

definition pa_rule_prefix_nth :: "bytes \<Rightarrow> nat \<Rightarrow> u32 \<Rightarrow> nat \<Rightarrow> bytes option" where
  "pa_rule_prefix_nth container container_len n plen =
     do { (dst, _) \<leftarrow> pa_prefix_cpy container container_len (replicate 16 0);
          let container_len = (if int plen - int container_len > 32 then plen - 32 else container_len);
          if container_len \<le> plen
          then bmemcpy_shift dst container_len (word_be 4 n) (32 - (plen - container_len)) (plen - container_len)
          else None }"

fun count_loop :: "(bytes \<times> nat) list \<Rightarrow> u16 list \<Rightarrow> u16 list option" where
  "count_loop [] cnt = Some cnt"
| "count_loop ((_, plen) # ks) cnt =
     do { x \<leftarrow> rd cnt plen;
          cnt \<leftarrow> (if x \<noteq> 0xffff then wr cnt plen (x + 1) else Some cnt);
          count_loop ks cnt }"

definition pa_rule_prefix_count :: "bytes \<Rightarrow> pa_core \<Rightarrow> bytes \<Rightarrow> nat \<Rightarrow> nat \<Rightarrow> u16 list option" where
  "pa_rule_prefix_count stk c subprefix subplen max_plen =
     do { ks \<leftarrow> btrie_for_each_available (prefixes c) stk subprefix subplen;
          count_loop ks (replicate (max_plen + 1) 0) }"

text \<open>\<open>(uint64_t)(1 << n)\<close>: the shift is one of 32-bit integers, and the conversion extends the sign.\<close>

definition int_shl :: "nat \<Rightarrow> u64" where
  "int_shl n = signed_take_bit 31 (push_bit n 1)"

text \<open>The loop down from \<open>plen\<close>; the result is the number found, \<open>min_plen\<close> and \<open>overflow_n\<close>.\<close>

definition subset_step :: "nat \<Rightarrow> u32 \<Rightarrow> nat \<Rightarrow> u64 \<Rightarrow> u16 \<Rightarrow> (u32 \<times> u32) option \<times> u64" where
  "subset_step desired_plen desired_set_size plen c x =
     (let k = c + ucast x * int_shl (desired_plen - plen)
      in if desired_plen - plen \<ge> 32 \<or> k > ucast desired_set_size
         then (Some (desired_set_size, desired_set_size - ucast c), c)
         else (if k = ucast desired_set_size then Some (ucast k, 0) else None, k))"

fun candidate_subset_loop :: "u16 list \<Rightarrow> nat \<Rightarrow> u32 \<Rightarrow> nat \<Rightarrow> u64 \<Rightarrow> nat \<Rightarrow> (u32 \<times> nat \<times> u32) option" where
  "candidate_subset_loop cnt desired_plen desired_set_size plen c min_plen =
     do { x \<leftarrow> rd cnt plen;
          let (res, k) = (if x \<noteq> 0 then subset_step desired_plen desired_set_size plen c x else (None, c));
          let m = (if x \<noteq> 0 then plen else min_plen);
          case res of
            Some (n, o') \<Rightarrow> Some (n, m, o')
          | None \<Rightarrow> (case plen of
                        0 \<Rightarrow> Some (ucast k, m, 0)
                      | Suc plen' \<Rightarrow> candidate_subset_loop cnt desired_plen desired_set_size plen' k m) }"

definition pa_rule_candidate_subset :: "u16 list \<Rightarrow> nat \<Rightarrow> u32 \<Rightarrow> nat \<Rightarrow> (u32 \<times> nat \<times> u32) option" where
  "pa_rule_candidate_subset cnt desired_plen desired_set_size min_plen =
     candidate_subset_loop cnt desired_plen desired_set_size desired_plen 0 min_plen"

text \<open>One pass over the available prefixes; \<open>Inl\<close> is the prefix found, \<open>Inr\<close> what is left of \<open>n\<close>.\<close>

fun pick_pass :: "bool \<Rightarrow> nat \<Rightarrow> nat \<Rightarrow> nat \<Rightarrow> (bytes \<times> nat) list \<Rightarrow> u32 \<Rightarrow> (bytes + u32) option" where
  "pick_pass pass plen min_plen max_plen [] n = Some (Inr n)"
| "pick_pass pass plen min_plen max_plen ((iter, i) # ks) n =
     (if (pass \<and> i = min_plen) \<or> (\<not> pass \<and> i > min_plen \<and> i \<le> max_plen)
      then if i > plen then None
           else if plen - i \<ge> 32 \<or> n < push_bit (plen - i) 1
           then do { p \<leftarrow> pa_rule_prefix_nth iter i n plen; Some (Inl p) }
           else pick_pass pass plen min_plen max_plen ks (n - push_bit (plen - i) 1)
      else pick_pass pass plen min_plen max_plen ks n)"

text \<open>The result is \<open>None\<close> when the function returns -1.\<close>

definition pa_rule_candidate_pick ::
  "bytes \<Rightarrow> pa_core \<Rightarrow> bytes \<Rightarrow> nat \<Rightarrow> u32 \<Rightarrow> nat \<Rightarrow> nat \<Rightarrow> nat \<Rightarrow> bytes option option" where
  "pa_rule_candidate_pick stk c subprefix subplen n plen min_plen max_plen =
     do { ks \<leftarrow> btrie_for_each_available (prefixes c) stk subprefix subplen;
          r \<leftarrow> pick_pass False plen min_plen max_plen ks n;
          (case r of
             Inl p \<Rightarrow> Some (Some p)
           | Inr n \<Rightarrow> do { r \<leftarrow> pick_pass True plen min_plen max_plen ks n;
                             Some (case r of Inl p \<Rightarrow> Some p | Inr _ \<Rightarrow> None) }) }"

function prandom_loop :: "(bytes \<Rightarrow> u32 \<Rightarrow> u32 \<Rightarrow> bytes) \<Rightarrow> bytes \<Rightarrow> u32 \<Rightarrow> nat \<Rightarrow> u32 \<Rightarrow> nat \<Rightarrow> bytes \<Rightarrow> bytes option" where
  "prandom_loop md5 seed ctr buff ctr2 bytelen dst =
     (if bytelen = 0 then Some dst
      else let write = (if bytelen > 16 then 16 else bytelen)
           in do { dst \<leftarrow> memcpy_at dst buff (md5 seed ctr ctr2) 0 write;
                   prandom_loop md5 seed ctr (buff + 16) (ctr2 + 1) (bytelen - write) dst })"
  by pat_completeness auto
termination by (relation "measure (\<lambda>(_, _, _, _, _, n, _). n)") auto

definition pa_rule_prefix_prandom ::
  "(bytes \<Rightarrow> u32 \<Rightarrow> u32 \<Rightarrow> bytes) \<Rightarrow> bytes \<Rightarrow> u32 \<Rightarrow> bytes \<Rightarrow> nat \<Rightarrow> bytes \<Rightarrow> nat \<Rightarrow> bytes option" where
  "pa_rule_prefix_prandom md5 seed ctr container_prefix container_len dst plen =
     do { dst \<leftarrow> prandom_loop md5 seed ctr 0 0 ((plen + 7) div 8) dst;
          bmemcpy dst 0 container_prefix 0 0 container_len }"

section \<open>Rules\<close>

definition pa_rule_init ::
  "(pa_core \<Rightarrow> nat \<Rightarrow> (u16 \<times> pa_core) option) option \<Rightarrow> u16 \<Rightarrow>
   (pa_core \<Rightarrow> nat \<Rightarrow> u16 \<Rightarrow> pa_rule_arg \<Rightarrow> (pa_rule_target \<times> pa_rule_arg \<times> pa_core) option) \<Rightarrow> pa_rule" where
  "pa_rule_init get_prio max_prio match_f =
     \<lparr>filter_accept = None, get_max_priority = get_prio, max_priority = max_prio, match_fn = Some match_f\<rparr>"

subsection \<open>Adopt rule\<close>

record pa_rule_adopt =
  adopt_rule_priority :: u16
  adopt_priority :: u8

definition pa_rule_adopt_get_max_priority :: "pa_rule_adopt \<Rightarrow> pa_core \<Rightarrow> nat \<Rightarrow> (u16 \<times> pa_core) option" where
  "pa_rule_adopt_get_max_priority r c l =
     (let x = ldp_of c l
      in Some (if \<not> assigned x \<or> best_assignment x \<noteq> None \<or> published x then 0 else adopt_rule_priority r, c))"

definition pa_rule_adopt_match ::
  "pa_rule_adopt \<Rightarrow> pa_core \<Rightarrow> nat \<Rightarrow> u16 \<Rightarrow> pa_rule_arg \<Rightarrow> (pa_rule_target \<times> pa_rule_arg \<times> pa_core) option" where
  "pa_rule_adopt_match r c l best_match_priority arg =
     Some (PA_RULE_ADOPT, arg\<lparr>arg_rule_priority := adopt_rule_priority r, arg_priority := adopt_priority r\<rparr>, c)"

definition pa_rule_adopt_init :: "u16 \<Rightarrow> u8 \<Rightarrow> pa_rule_adopt \<times> pa_rule" where
  "pa_rule_adopt_init rule_prio prio =
     (let r = \<lparr>adopt_rule_priority = rule_prio, adopt_priority = prio\<rparr>
      in (r, pa_rule_init (Some (pa_rule_adopt_get_max_priority r)) 0 (pa_rule_adopt_match r)))"

subsection \<open>Random rule\<close>

record pa_rule_random =
  random_rule_priority :: u16
  random_priority :: u8
  random_subprefix_cb :: "(pa_core \<Rightarrow> nat \<Rightarrow> (bytes \<times> nat) option) option"
  random_desired_plen_cb :: "pa_core \<Rightarrow> nat \<Rightarrow> u16 list \<Rightarrow> nat"
  accept_proposed_cb :: "(pa_core \<Rightarrow> nat \<Rightarrow> bytes \<Rightarrow> nat \<Rightarrow> bool) option"
  random_set_size :: u16
  pseudo_random_tentatives :: u16
  pseudo_random_seed :: bytes
  override_rule_priority :: u16
  override_priority :: u8
  safety :: bool

definition pa_rule_random_get_max_priority :: "pa_rule_random \<Rightarrow> pa_core \<Rightarrow> nat \<Rightarrow> (u16 \<times> pa_core) option" where
  "pa_rule_random_get_max_priority r c l =
     (let x = ldp_of c l
      in Some (if best_assignment x \<noteq> None \<or> published x then 0 else random_rule_priority r, c))"

text \<open>The prefix of an entry of the trie.\<close>

definition entry_prefix :: "pa_core \<Rightarrow> pa_pentry \<Rightarrow> bytes \<times> nat" where
  "entry_prefix c e =
     (case e of
        PAT_ASSIGNED l2 \<Rightarrow> (ldp_prefix (ldp_of c l2), ldp_plen (ldp_of c l2))
      | PAT_ADVERTISED a \<Rightarrow> (advp_prefix (advp_of c a), advp_plen (advp_of c a)))"

definition is_advertised :: "pa_pentry \<Rightarrow> bool" where
  "is_advertised e \<longleftrightarrow> (case e of PAT_ADVERTISED _ \<Rightarrow> True | PAT_ASSIGNED _ \<Rightarrow> False)"

text \<open>The best prefix to override: the prefix, its length, and whether it is an advertised one.\<close>

fun override_loop ::
  "pa_rule_random \<Rightarrow> pa_core \<Rightarrow> nat \<Rightarrow> nat \<Rightarrow> (bytes \<times> nat \<times> bool) option \<Rightarrow> pa_pentry list \<Rightarrow>
   (bytes \<times> nat \<times> bool) option option" where
  "override_loop r c l desired_plen best [] = Some best"
| "override_loop r c l desired_plen best (e # es) =
     (let (p, plen) = entry_prefix c e
      in if plen > desired_plen then override_loop r c l desired_plen best es
         else do { v \<leftarrow> pa_rule_valid_assignment c l p plen (override_rule_priority r) (override_priority r) (safety r);
                   let better = (case best of
                                   None \<Rightarrow> True
                                 | Some (_, best_plen, adv) \<Rightarrow>
                                     best_plen > plen \<or> (best_plen = plen \<and> adv \<and> \<not> is_advertised e));
                   override_loop r c l desired_plen
                     (if v \<and> better then Some (p, plen, is_advertised e) else best) es })"

definition accepted :: "pa_rule_random \<Rightarrow> pa_core \<Rightarrow> nat \<Rightarrow> bytes \<Rightarrow> nat \<Rightarrow> bool" where
  "accepted r c l p plen \<longleftrightarrow> (case accept_proposed_cb r of None \<Rightarrow> True | Some f \<Rightarrow> f c l p plen)"

text \<open>The tentatives at random inside the prefix to override.\<close>

fun override_tries ::
  "nat \<Rightarrow> pa_rule_random \<Rightarrow> nat \<Rightarrow> bytes \<Rightarrow> nat \<Rightarrow> nat \<Rightarrow> u32 \<Rightarrow> pa_core \<Rightarrow> (bytes option \<times> pa_core) option" where
  "override_tries 0 r l best_p best_plen desired_plen set_size c = Some (None, c)"
| "override_tries (Suc i) r l best_p best_plen desired_plen set_size c =
     (let (n, c) = pa_rand c
      in if set_size = 0 \<or> desired_plen - best_plen > 32 then None
         else do { (tentative, _) \<leftarrow> pa_prefix_cpy best_p desired_plen (replicate 16 0);
                   tentative \<leftarrow> bmemcpy_shift tentative best_plen (word_be 4 (of_nat (n mod unat set_size) :: u32))
                     (32 - (desired_plen - best_plen)) (desired_plen - best_plen);
                   if accepted r c l tentative desired_plen then Some (Some tentative, c)
                   else override_tries i r l best_p best_plen desired_plen set_size c })"

definition pa_rule_random_override_match ::
  "pa_rule_random \<Rightarrow> pa_core \<Rightarrow> nat \<Rightarrow> bytes \<Rightarrow> nat \<Rightarrow> pa_rule_arg \<Rightarrow> nat \<Rightarrow>
   (pa_rule_target \<times> pa_rule_arg \<times> pa_core) option" where
  "pa_rule_random_override_match r c l subprefix subplen arg desired_plen =
     (if override_priority r = 0 \<and> override_rule_priority r = 0 then Some (PA_RULE_NO_MATCH, arg, c)
      else do { es \<leftarrow> btrie_down_list (prefixes c) subprefix subplen;
                best \<leftarrow> override_loop r c l desired_plen None es;
                (case best of
                   None \<Rightarrow> Some (PA_RULE_NO_MATCH, arg, c)
                 | Some (best_p, best_plen, _) \<Rightarrow>
                     (let size = (if desired_plen - best_plen \<ge> 32 then push_bit 31 1
                                  else push_bit (desired_plen - best_plen) 1 :: u32);
                          set_size = (if size > ucast (random_set_size r) then ucast (random_set_size r) else size)
                      in do { (t, c) \<leftarrow> override_tries 100 r l best_p best_plen desired_plen set_size c;
                              (case t of
                                 None \<Rightarrow> Some (PA_RULE_NO_MATCH, arg, c)
                               | Some tentative \<Rightarrow>
                                   do { (p, n) \<leftarrow> pa_prefix_cpy tentative desired_plen (arg_prefix arg);
                                        Some (PA_RULE_PUBLISH, arg\<lparr>arg_prefix := p, arg_plen := n\<rparr>, c) }) })) })"

text \<open>
  One pseudo-random tentative: whether it is in the candidate set.  The body of the loop over the
  available prefixes runs at most once.
\<close>

definition prandom_candidate ::
  "bytes \<Rightarrow> pa_core \<Rightarrow> nat \<Rightarrow> nat \<Rightarrow> nat \<Rightarrow> u32 \<Rightarrow> bytes \<Rightarrow> bytes \<Rightarrow> bool option" where
  "prandom_candidate stk c subplen desired_plen min_plen overflow_n overflow_prefix tentative =
     do { (n, iter_p, iter_plen) \<leftarrow> btrie_first_available_loop (prefixes c) stk 0 tentative subplen desired_plen;
          if n = Avail_none then Some False
          else if iter_plen > desired_plen then Some False
          else do { b \<leftarrow> pa_prefix_contains iter_p iter_plen tentative;
                    if \<not> b \<or> iter_plen < min_plen then Some False
                    else if overflow_n \<noteq> 0 \<and> iter_plen = min_plen
                    then do { r \<leftarrow> bmemcmp tentative 0 overflow_prefix 0 desired_plen; Some (r < 0) }
                    else Some True } }"

fun prandom_tries ::
  "(bytes \<Rightarrow> u32 \<Rightarrow> u32 \<Rightarrow> bytes) \<Rightarrow> bytes \<Rightarrow> pa_rule_random \<Rightarrow> pa_core \<Rightarrow> nat \<Rightarrow> bytes \<Rightarrow> nat \<Rightarrow> nat \<Rightarrow> nat \<Rightarrow> u32 \<Rightarrow> bytes \<Rightarrow>
   nat list \<Rightarrow> bytes \<Rightarrow> (bytes option \<times> bytes) option" where
  "prandom_tries md5 stk r c l subprefix subplen desired_plen min_plen overflow_n overflow_prefix [] tentative =
     Some (None, tentative)"
| "prandom_tries md5 stk r c l subprefix subplen desired_plen min_plen overflow_n overflow_prefix (i # is) tentative =
     do { tentative \<leftarrow> pa_rule_prefix_prandom md5 (pseudo_random_seed r) (of_nat i) subprefix subplen tentative desired_plen;
          b \<leftarrow> prandom_candidate stk c subplen desired_plen min_plen overflow_n overflow_prefix tentative;
          if b \<and> accepted r c l tentative desired_plen then Some (Some tentative, tentative)
          else prandom_tries md5 stk r c l subprefix subplen desired_plen min_plen overflow_n overflow_prefix is tentative }"

text \<open>The tentatives at random among the candidates.\<close>

fun random_tries ::
  "nat \<Rightarrow> bytes \<Rightarrow> pa_rule_random \<Rightarrow> nat \<Rightarrow> bytes \<Rightarrow> nat \<Rightarrow> nat \<Rightarrow> nat \<Rightarrow> u32 \<Rightarrow> bytes \<Rightarrow> pa_core \<Rightarrow>
   (bytes option \<times> pa_core) option" where
  "random_tries 0 stk r l subprefix subplen desired_plen min_plen found tentative c = Some (None, c)"
| "random_tries (Suc i) stk r l subprefix subplen desired_plen min_plen found tentative c =
     (let (n, c) = pa_rand c
      in if found = 0 then None
         else do { p \<leftarrow> pa_rule_candidate_pick stk c subprefix subplen (of_nat (n mod unat found)) desired_plen
                     min_plen desired_plen;
                   let tentative = (case p of Some q \<Rightarrow> q | None \<Rightarrow> tentative);
                   if accepted r c l tentative desired_plen then Some (Some tentative, c)
                   else random_tries i stk r l subprefix subplen desired_plen min_plen found tentative c })"

definition random_choose :: "pa_rule_arg \<Rightarrow> nat \<Rightarrow> bytes option \<Rightarrow> pa_core \<Rightarrow> (pa_rule_target \<times> pa_rule_arg \<times> pa_core) option" where
  "random_choose arg desired_plen t c =
     (case t of
        None \<Rightarrow> Some (PA_RULE_NO_MATCH, arg, c)
      | Some tentative \<Rightarrow>
          do { (p, n) \<leftarrow> pa_prefix_cpy tentative desired_plen (arg_prefix arg);
               Some (PA_RULE_PUBLISH, arg\<lparr>arg_prefix := p, arg_plen := n\<rparr>, c) })"

text \<open>The choice among the candidates that were found.\<close>

definition random_pick ::
  "(bytes \<Rightarrow> u32 \<Rightarrow> u32 \<Rightarrow> bytes) \<Rightarrow> bytes \<Rightarrow> pa_rule_random \<Rightarrow> pa_core \<Rightarrow> nat \<Rightarrow> bytes \<Rightarrow> nat \<Rightarrow> nat \<Rightarrow> u32 \<Rightarrow> nat \<Rightarrow> u32 \<Rightarrow>
   (bytes option \<times> pa_core) option" where
  "random_pick md5 stk r c l subprefix subplen desired_plen found min_plen overflow_n =
     do { (t, tentative) \<leftarrow>
            (if pseudo_random_tentatives r \<noteq> 0
             then do { overflow_prefix \<leftarrow>
                         (if overflow_n \<noteq> 0
                          then do { p \<leftarrow> pa_rule_candidate_pick stk c subprefix subplen overflow_n desired_plen min_plen min_plen;
                                    Some (case p of Some q \<Rightarrow> q | None \<Rightarrow> stk) }
                          else Some stk);
                       prandom_tries md5 stk r c l subprefix subplen desired_plen min_plen overflow_n overflow_prefix
                         [0 ..< unat (pseudo_random_tentatives r)] stk }
             else Some (None, stk));
          (case t of
             Some p \<Rightarrow> Some (Some p, c)
           | None \<Rightarrow> random_tries 100 stk r l subprefix subplen desired_plen min_plen found tentative c) }"

definition subprefix_of :: "(pa_core \<Rightarrow> nat \<Rightarrow> (bytes \<times> nat) option) option \<Rightarrow> pa_core \<Rightarrow> nat \<Rightarrow> (bytes \<times> nat) option" where
  "subprefix_of cb c l =
     (case cb of
        None \<Rightarrow> Some (dp_prefix (dp_of c (ldp_dp (ldp_of c l))), dp_plen (dp_of c (ldp_dp (ldp_of c l))))
      | Some f \<Rightarrow> f c l)"

definition pa_rule_random_match ::
  "(bytes \<Rightarrow> u32 \<Rightarrow> u32 \<Rightarrow> bytes) \<Rightarrow> bytes \<Rightarrow> pa_rule_random \<Rightarrow> pa_core \<Rightarrow> nat \<Rightarrow> u16 \<Rightarrow> pa_rule_arg \<Rightarrow>
   (pa_rule_target \<times> pa_rule_arg \<times> pa_core) option" where
  "pa_rule_random_match md5 stk r c l best_match_priority arg =
     (let arg = arg\<lparr>arg_priority := random_priority r, arg_rule_priority := random_rule_priority r\<rparr>
      in if \<not> backoff (ldp_of c l) then Some (PA_RULE_BACKOFF, arg, c)
         else case subprefix_of (random_subprefix_cb r) c l of
                None \<Rightarrow> Some (PA_RULE_NO_MATCH, arg, c)
              | Some (subprefix, subplen) \<Rightarrow>
                  do { cnt \<leftarrow> pa_rule_prefix_count stk c subprefix subplen PA_RAND_MAX_PLEN;
                       let desired_plen = random_desired_plen_cb r c l cnt;
                       (found, min_plen, overflow_n) \<leftarrow> pa_rule_candidate_subset cnt desired_plen (ucast (random_set_size r)) 0;
                       if found = 0 then pa_rule_random_override_match r c l subprefix subplen arg desired_plen
                       else do { (t, c) \<leftarrow> random_pick md5 stk r c l subprefix subplen desired_plen found min_plen overflow_n;
                                 random_choose arg desired_plen t c } })"

definition pa_rule_random_init ::
  "u16 \<Rightarrow> u8 \<Rightarrow> (pa_core \<Rightarrow> nat \<Rightarrow> u16 list \<Rightarrow> nat) \<Rightarrow> u16 \<Rightarrow> pa_rule_random \<Rightarrow> pa_rule_random" where
  "pa_rule_random_init rule_prio prio desired set_size r =
     r\<lparr>random_rule_priority := rule_prio, random_priority := prio, random_subprefix_cb := None,
       random_desired_plen_cb := desired, random_set_size := set_size, override_priority := 0,
       override_rule_priority := 0, safety := False, pseudo_random_seed := [], accept_proposed_cb := None\<rparr>"

definition pa_rule_random_prandconf :: "u16 \<Rightarrow> bytes \<Rightarrow> pa_rule_random \<Rightarrow> pa_rule_random" where
  "pa_rule_random_prandconf tentatives seed r = r\<lparr>pseudo_random_seed := seed, pseudo_random_tentatives := tentatives\<rparr>"

definition random_rule :: "(bytes \<Rightarrow> u32 \<Rightarrow> u32 \<Rightarrow> bytes) \<Rightarrow> bytes \<Rightarrow> pa_rule_random \<Rightarrow> pa_rule" where
  "random_rule md5 stk r =
     pa_rule_init (Some (pa_rule_random_get_max_priority r)) 0 (pa_rule_random_match md5 stk r)"

subsection \<open>Hamming rule\<close>

record pa_rule_hamming =
  hamming_subprefix_cb :: "(pa_core \<Rightarrow> nat \<Rightarrow> (bytes \<times> nat) option) option"
  hamming_desired_plen_cb :: "pa_core \<Rightarrow> nat \<Rightarrow> u16 list \<Rightarrow> nat"
  hamming_rule_priority :: u16
  hamming_priority :: u8
  hamming_seed :: bytes
  hamming_set_size :: u16

text \<open>
  The body of the loop over the available prefixes; the state is the best distance, the best prefix,
  the key of the iteration, which \<open>hamming_minimize\<close> overwrites after its prefix, and \<open>overflow_n\<close>.
\<close>

definition hamming_body ::
  "bool \<Rightarrow> nat \<Rightarrow> nat \<Rightarrow> bytes \<Rightarrow> nat \<Rightarrow> nat \<times> bytes \<times> bytes \<times> u32 \<Rightarrow> (nat \<times> bytes \<times> bytes \<times> u32) option" where
  "hamming_body be desired_plen min_plen hammer iter_plen s =
     (case s of (best_distance, best_prefix, iter_prefix, overflow_n) \<Rightarrow>
        if iter_plen > desired_plen \<or> iter_plen < min_plen then Some s
        else let cnt = (if desired_plen - iter_plen \<ge> 32 then push_bit 31 1 else push_bit (desired_plen - iter_plen) 1 :: u32)
             in if overflow_n \<noteq> 0 \<and> iter_plen = min_plen \<and> cnt \<ge> overflow_n
                then do { overflow_prefix \<leftarrow> pa_rule_prefix_nth iter_prefix iter_plen (overflow_n - 1) desired_plen;
                          hd1 \<leftarrow> hamming_distance_64 be iter_prefix hammer iter_plen;
                          (iter_prefix, hd2) \<leftarrow> hamming_minimize overflow_prefix hammer iter_prefix iter_plen
                             (desired_plen - iter_plen);
                          if hd1 + hd2 < best_distance
                          then do { best_prefix \<leftarrow> bmemcpy best_prefix 0 iter_prefix 0 0 desired_plen;
                                    Some (hd1 + hd2, best_prefix, iter_prefix, 0) }
                          else Some (best_distance, best_prefix, iter_prefix, 0) }
                else do { let overflow_n = (if overflow_n \<noteq> 0 \<and> iter_plen = min_plen then overflow_n - cnt else overflow_n);
                          hd \<leftarrow> hamming_distance_64 be iter_prefix hammer iter_plen;
                          if hd < best_distance
                          then do { best_prefix \<leftarrow> bmemcpy best_prefix 0 iter_prefix 0 0 iter_plen;
                                    best_prefix \<leftarrow> bmemcpy best_prefix 0 hammer 0 iter_plen (desired_plen - iter_plen);
                                    Some (hd, best_prefix, iter_prefix, overflow_n) }
                          else Some (best_distance, best_prefix, iter_prefix, overflow_n) })"

partial_function (option) hamming_search ::
  "pa_pentry btrie \<Rightarrow> bool \<Rightarrow> nat \<Rightarrow> nat \<Rightarrow> nat \<Rightarrow> bytes \<Rightarrow> avail \<Rightarrow> nat \<Rightarrow> nat \<times> bytes \<times> bytes \<times> u32 \<Rightarrow> bytes option" where
  [code]: "hamming_search t be subplen desired_plen min_plen hammer n iter_plen s =
     (if n = Avail_none then Some (fst (snd s))
      else do { (d, p, iter_prefix, o') \<leftarrow> hamming_body be desired_plen min_plen hammer iter_plen s;
                (n, iter_prefix, iter_plen) \<leftarrow> btrie_next_available t n iter_prefix iter_plen subplen;
                hamming_search t be subplen desired_plen min_plen hammer n iter_plen (d, p, iter_prefix, o') })"

text \<open>
  When no candidate is found, \<open>pa_rule_random_override_match\<close> reads the structure of the rule as a
  \<open>struct pa_rule_random\<close>, which is longer: its override priorities are outside of it.
\<close>

definition pa_rule_hamming_match ::
  "(bytes \<Rightarrow> u32 \<Rightarrow> u32 \<Rightarrow> bytes) \<Rightarrow> bytes \<Rightarrow> bool \<Rightarrow> pa_rule_hamming \<Rightarrow> pa_core \<Rightarrow> nat \<Rightarrow> u16 \<Rightarrow> pa_rule_arg \<Rightarrow>
   (pa_rule_target \<times> pa_rule_arg \<times> pa_core) option" where
  "pa_rule_hamming_match md5 stk be r c l best_match_priority arg =
     (let arg = arg\<lparr>arg_rule_priority := hamming_rule_priority r\<rparr>
      in if \<not> backoff (ldp_of c l) then Some (PA_RULE_BACKOFF, arg, c)
         else case subprefix_of (hamming_subprefix_cb r) c l of
                None \<Rightarrow> Some (PA_RULE_NO_MATCH, arg, c)
              | Some (subprefix, subplen) \<Rightarrow>
                  do { cnt \<leftarrow> pa_rule_prefix_count stk c subprefix subplen PA_RAND_MAX_PLEN;
                       let desired_plen = hamming_desired_plen_cb r c l cnt;
                       (found, min_plen, overflow_n) \<leftarrow> pa_rule_candidate_subset cnt desired_plen (ucast (hamming_set_size r)) 0;
                       if found = 0 then None
                       else do { hammer \<leftarrow> pa_rule_prefix_prandom md5 (hamming_seed r) 0 subprefix subplen stk desired_plen;
                                 (n, iter_prefix, iter_plen) \<leftarrow> btrie_first_available (prefixes c) stk 0 subprefix subplen;
                                 best_prefix \<leftarrow> hamming_search (prefixes c) be subplen desired_plen min_plen hammer n iter_plen
                                   (200, stk, iter_prefix, overflow_n);
                                 (p, m) \<leftarrow> pa_prefix_cpy best_prefix desired_plen (arg_prefix arg);
                                 Some (PA_RULE_PUBLISH, arg\<lparr>arg_prefix := p, arg_plen := m, arg_priority := hamming_priority r\<rparr>, c) } })"

definition pa_rule_hamming_get_max_priority :: "pa_rule_hamming \<Rightarrow> pa_core \<Rightarrow> nat \<Rightarrow> (u16 \<times> pa_core) option" where
  "pa_rule_hamming_get_max_priority r c l =
     (let x = ldp_of c l
      in Some (if best_assignment x \<noteq> None \<or> published x then 0 else hamming_rule_priority r, c))"

definition pa_rule_hamming_init ::
  "u16 \<Rightarrow> u8 \<Rightarrow> (pa_core \<Rightarrow> nat \<Rightarrow> u16 list \<Rightarrow> nat) \<Rightarrow> u16 \<Rightarrow> bytes \<Rightarrow> pa_rule_hamming" where
  "pa_rule_hamming_init rule_prio prio desired set_size seed =
     \<lparr>hamming_subprefix_cb = None, hamming_desired_plen_cb = desired, hamming_rule_priority = rule_prio,
      hamming_priority = prio, hamming_seed = seed, hamming_set_size = set_size\<rparr>"

definition hamming_rule :: "(bytes \<Rightarrow> u32 \<Rightarrow> u32 \<Rightarrow> bytes) \<Rightarrow> bytes \<Rightarrow> bool \<Rightarrow> pa_rule_hamming \<Rightarrow> pa_rule" where
  "hamming_rule md5 stk be r =
     pa_rule_init (Some (pa_rule_hamming_get_max_priority r)) 0 (pa_rule_hamming_match md5 stk be r)"

subsection \<open>Static rule\<close>

text \<open>
  \<open>get_prefix\<close> returns an error code and the prefix it wrote; the private fields \<open>_prefix\<close> and
  \<open>_plen\<close> of the rule \<open>i\<close> are its memory in the core.
\<close>

record pa_rule_static =
  get_prefix :: "(pa_core \<Rightarrow> nat \<Rightarrow> bytes \<times> nat \<Rightarrow> int \<times> bytes \<times> nat) option"
  static_rule_priority :: u16
  static_priority :: u8
  static_override_priority :: u8
  static_override_rule_priority :: u16
  static_safety :: bool

definition pa_rule_static_get_max_priority :: "nat \<Rightarrow> pa_rule_static \<Rightarrow> pa_core \<Rightarrow> nat \<Rightarrow> (u16 \<times> pa_core) option" where
  "pa_rule_static_get_max_priority i r c l =
     (case get_prefix r of
        None \<Rightarrow> Some (0, c)
      | Some f \<Rightarrow>
          (case f c l (rule_mem c i) of (err, p, n) \<Rightarrow>
             (let c = c\<lparr>rule_mem := (rule_mem c)(i := (p, n))\<rparr>;
                  d = dp_of c (ldp_dp (ldp_of c l))
              in if err \<noteq> 0 \<or> dp_plen d > n then Some (0, c)
                 else do { b \<leftarrow> pa_prefix_contains (dp_prefix d) (dp_plen d) p;
                           if \<not> b then Some (0, c)
                           else do { v \<leftarrow> pa_rule_valid_assignment c l p n (static_override_rule_priority r)
                                            (static_override_priority r) (static_safety r);
                                     Some (if v then static_rule_priority r else 0, c) } })))"

definition pa_rule_static_match ::
  "nat \<Rightarrow> pa_rule_static \<Rightarrow> pa_core \<Rightarrow> nat \<Rightarrow> u16 \<Rightarrow> pa_rule_arg \<Rightarrow> (pa_rule_target \<times> pa_rule_arg \<times> pa_core) option" where
  "pa_rule_static_match i r c l best_match_priority arg =
     (let x = ldp_of c l
      in if \<not> backoff x \<and> best_assignment x = None then Some (PA_RULE_BACKOFF, arg, c)
         else do { (p, n) \<leftarrow> pa_prefix_cpy (fst (rule_mem c i)) (snd (rule_mem c i)) (arg_prefix arg);
                   Some (PA_RULE_PUBLISH, arg\<lparr>arg_rule_priority := static_rule_priority r, arg_priority := static_priority r,
                           arg_prefix := p, arg_plen := n\<rparr>, c) })"

text \<open>The override priorities and the safety flag are not set.\<close>

definition pa_rule_static_init ::
  "(pa_core \<Rightarrow> nat \<Rightarrow> bytes \<times> nat \<Rightarrow> int \<times> bytes \<times> nat) option \<Rightarrow> u16 \<Rightarrow> u8 \<Rightarrow> pa_rule_static \<Rightarrow> pa_rule_static" where
  "pa_rule_static_init f rule_prio prio r =
     r\<lparr>get_prefix := f, static_rule_priority := rule_prio, static_priority := prio\<rparr>"

definition static_rule :: "nat \<Rightarrow> pa_rule_static \<Rightarrow> pa_rule" where
  "static_rule i r =
     pa_rule_init (Some (pa_rule_static_get_max_priority i r)) 0 (pa_rule_static_match i r)"

section \<open>Candidates\<close>

definition avail_n :: "(bytes \<times> nat) list \<Rightarrow> nat \<Rightarrow> nat" where
  "avail_n ks p = length (filter (\<lambda>k. snd k = p) ks)"

definition cap :: "u16 list \<Rightarrow> nat \<Rightarrow> nat \<Rightarrow> nat" where
  "cap cnt d p = unat (cnt ! p) * 2 ^ (d - p)"

text \<open>The set that was found: its size, the shortest length in it, and no length too short above.\<close>

definition subset_ok :: "u16 list \<Rightarrow> nat \<Rightarrow> u32 \<Rightarrow> nat \<Rightarrow> bool" where
  "subset_ok cnt d f m \<longleftrightarrow> f \<noteq> 0 \<longrightarrow> m \<le> d \<and> unat f \<le> (\<Sum>p = m..d. cap cnt d p) \<and> (\<forall>p \<in> {m<..d}. cnt ! p \<noteq> 0 \<longrightarrow> d - p < 32)"

definition subset_inv :: "u16 list \<Rightarrow> nat \<Rightarrow> u32 \<Rightarrow> nat \<Rightarrow> u64 \<Rightarrow> nat \<Rightarrow> bool" where
  "subset_inv cnt d S b c m \<longleftrightarrow> unat c \<le> unat S \<and> (unat c = unat S \<longrightarrow> unat c = 0) \<and> unat c \<le> (\<Sum>p = b..d. cap cnt d p) \<and>
     (unat c \<noteq> 0 \<longrightarrow> b \<le> m \<and> m \<le> d \<and> unat c \<le> (\<Sum>p = m..d. cap cnt d p)) \<and> (\<forall>p \<in> {b..d}. cnt ! p \<noteq> 0 \<longrightarrow> d - p < 32)"

text \<open>An available prefix, as the iteration gives it; one of the desired length ends inside a byte.\<close>

definition key_fine :: "nat \<Rightarrow> bytes \<times> nat \<Rightarrow> bool" where
  "key_fine d k \<longleftrightarrow> pfx_ok (fst k) (snd k) \<and> (snd k = d \<longrightarrow> d mod 8 \<noteq> 0)"

definition picked :: "bool \<Rightarrow> nat \<Rightarrow> nat \<Rightarrow> nat \<Rightarrow> bool" where
  "picked pass m M i \<longleftrightarrow> (pass \<and> i = m) \<or> (\<not> pass \<and> i > m \<and> i \<le> M)"

definition room :: "bool \<Rightarrow> nat \<Rightarrow> nat \<Rightarrow> nat \<Rightarrow> (bytes \<times> nat) list \<Rightarrow> nat" where
  "room pass d m M ks = sum_list (map (\<lambda>k. 2 ^ (d - snd k)) (filter (\<lambda>k. picked pass m M (snd k)) ks))"

definition pick_ok :: "bool \<Rightarrow> nat \<Rightarrow> nat \<Rightarrow> nat \<Rightarrow> (bytes \<times> nat) list \<Rightarrow> u32 \<Rightarrow> bytes + u32 \<Rightarrow> bool" where
  "pick_ok pass d m M ks n r \<longleftrightarrow>
    (case r of
       Inl q \<Rightarrow> length q = 16 \<and> (\<exists>k \<in> set ks. prefix (kbits (fst k) (snd k)) (kbits q d))
     | Inr n' \<Rightarrow> unat n = unat n' + room pass d m M ks \<and> (\<forall>k \<in> set ks. picked pass m M (snd k) \<longrightarrow> d - snd k < 32))"

definition free_bits :: "pa_core \<Rightarrow> bool list \<Rightarrow> bool" where
  "free_bits c b \<longleftrightarrow> (\<forall>be \<in> set (entries [] (prefixes c)). \<not> overlap (fst be) b)"

text \<open>A prefix that the rule may publish.\<close>

definition good_pick :: "pa_core \<Rightarrow> bytes \<Rightarrow> nat \<Rightarrow> nat \<Rightarrow> bytes \<Rightarrow> bool" where
  "good_pick c sub sl d t \<longleftrightarrow> length t = 16 \<and> prefix (kbits sub sl) (kbits t d) \<and> free_bits c (kbits t d)"

text \<open>
  The hypotheses on a configuration: the buffers and the digest have 16 bytes, and no available
  prefix has exactly the desired length when that is a whole number of bytes.
\<close>

definition whole_bytes_apart :: "pa_core \<Rightarrow> bytes \<Rightarrow> bytes \<Rightarrow> nat \<Rightarrow> nat \<Rightarrow> bool" where
  "whole_bytes_apart c stk sub sl d \<longleftrightarrow>
     (d mod 8 = 0 \<longrightarrow> (\<forall>ks. btrie_for_each_available (prefixes c) stk sub sl = Some ks \<longrightarrow> (\<forall>k \<in> set ks. snd k \<noteq> d)))"

definition md5_ok :: "(bytes \<Rightarrow> u32 \<Rightarrow> u32 \<Rightarrow> bytes) \<Rightarrow> bool" where
  "md5_ok md5 \<longleftrightarrow> (\<forall>s a b. length (md5 s a b) = 16)"

text \<open>A configuration without overriding whose callbacks give prefixes and lengths inside 128 bits.\<close>

definition random_conf_ok :: "pa_rule_random \<Rightarrow> bool" where
  "random_conf_ok r \<longleftrightarrow> override_priority r = 0 \<and> override_rule_priority r = 0 \<and>
     (\<forall>c l p n. pa_inv c \<longrightarrow> subprefix_of (random_subprefix_cb r) c l = Some (p, n) \<longrightarrow> pfx_ok p n) \<and>
     (\<forall>c l cnt. random_desired_plen_cb r c l cnt \<le> 128)"

definition random_target_ok :: "bytes \<Rightarrow> pa_rule_random \<Rightarrow> pa_core \<Rightarrow> nat \<Rightarrow> pa_rule_target \<Rightarrow> pa_rule_arg \<Rightarrow> bool" where
  "random_target_ok stk r c l t a \<longleftrightarrow> t \<in> {PA_RULE_BACKOFF, PA_RULE_NO_MATCH, PA_RULE_PUBLISH} \<and>
     (t = PA_RULE_PUBLISH \<longrightarrow> backoff (ldp_of c l) \<and> pfx_ok (arg_prefix a) (arg_plen a) \<and> free_bits c (kbits (arg_prefix a) (arg_plen a)) \<and>
        (\<exists>sub sl cnt. subprefix_of (random_subprefix_cb r) c l = Some (sub, sl) \<and>
           pa_rule_prefix_count stk c sub sl PA_RAND_MAX_PLEN = Some cnt \<and> arg_plen a = random_desired_plen_cb r c l cnt \<and>
           prefix (kbits sub sl) (kbits (arg_prefix a) (arg_plen a))))"

section \<open>Rule tables\<close>

text \<open>The rules of a core by their identifiers, as the initialisation functions set them up.\<close>

datatype rule_conf = Adopt_conf pa_rule_adopt | Static_conf pa_rule_static | Random_conf pa_rule_random

definition conf_rule :: "(bytes \<Rightarrow> u32 \<Rightarrow> u32 \<Rightarrow> bytes) \<Rightarrow> bytes \<Rightarrow> (nat \<Rightarrow> rule_conf) \<Rightarrow> nat \<Rightarrow> pa_rule" where
  "conf_rule md5 stk T i =
     (case T i of
        Adopt_conf r \<Rightarrow> pa_rule_init (Some (pa_rule_adopt_get_max_priority r)) 0 (pa_rule_adopt_match r)
      | Static_conf r \<Rightarrow> static_rule i r
      | Random_conf r \<Rightarrow> random_rule md5 stk r)"

definition static_conf_ok :: "pa_rule_static \<Rightarrow> bool" where
  "static_conf_ok r \<longleftrightarrow> (\<forall>f c l m p n. get_prefix r = Some f \<longrightarrow> pa_inv c \<longrightarrow> f c l m = (0, p, n) \<longrightarrow> pfx_ok p n)"

definition conf_ok :: "rule_conf \<Rightarrow> bool" where
  "conf_ok k \<longleftrightarrow>
     (case k of
        Adopt_conf r \<Rightarrow> True
      | Static_conf r \<Rightarrow> static_conf_ok r
      | Random_conf r \<Rightarrow> random_conf_ok r \<and> (\<forall>c l cnt. random_desired_plen_cb r c l cnt mod 8 \<noteq> 0))"

text \<open>The well-formed tables with their digest and scratch memory.\<close>

typedef rule_env = "{(md5, stk :: bytes, T :: nat \<Rightarrow> rule_conf). md5_ok md5 \<and> length stk = 16 \<and> (\<forall>i. conf_ok (T i))}"
proof -
  have "conf_ok (Adopt_conf x)" for x by (simp add: conf_ok_def)
  then show ?thesis by (intro exI [of _ "(\<lambda>_ _ _. replicate 16 0, replicate 16 0, \<lambda>_. Adopt_conf undefined)"]) (simp add: md5_ok_def)
qed

definition env_rules :: "rule_env \<Rightarrow> nat \<Rightarrow> pa_rule" where
  "env_rules E = (case Rep_rule_env E of (md5, stk, T) \<Rightarrow> conf_rule md5 stk T)"

section \<open>Lemmas: prefixes in a container\<close>

lemma pfx_ok_length: "pfx_ok p n \<Longrightarrow> length p = 16" "pfx_ok p n \<Longrightarrow> n \<le> 128"
  by (simp_all add: pfx_ok_def)

lemma kbits_eq_le: "m \<le> n \<Longrightarrow> kbits p n = kbits q n \<Longrightarrow> kbits p m = kbits q m"
  by (metis kbits_simps(3) min.absorb1)

lemma shift_copied:
  assumes "a + k \<le> 8 * length dst" "b + k \<le> 8 * length src" "0 < k \<or> a mod 8 \<noteq> b mod 8"
  obtains d where "bmemcpy_shift dst a src b k = Some d" "length d = length dst" "kbits d a = kbits dst a"
proof (cases "k = 0")
  case True
  then show ?thesis using that [of dst] assms(3) by (simp add: bmemcpy_shift_def Let_def bmemcpy_shift_loop.simps)
next
  case False
  then obtain d where d: "bmemcpy_shift dst a src b k = Some d" "bits_copied dst a src b k d"
    using bmemcpy_shift_copied [OF assms(1,2)] by auto
  then have "kbits d a = kbits dst a" using assms(1) by (auto simp: bits_copied_def kbits_def)
  then show ?thesis using that d by (simp add: bits_copied_def)
qed

lemma prefix_nth_ok:
  assumes p: "pfx_ok p i" and i: "i \<le> d" "d \<le> 128" "i < d \<or> d mod 8 \<noteq> 0"
  obtains q where "pa_rule_prefix_nth p i n d = Some q" "length q = 16" "prefix (kbits p i) (kbits q d)"
proof -
  obtain p' where p': "pa_prefix_cpy p i (replicate 16 0) = Some (p', i)" "pfx_ok p' i" "kbits p' i = kbits p i"
    using pa_prefix_cpy_ok [OF p, of "replicate 16 0"] by auto
  define j where "j = (if 32 < int d - int i then d - 32 else i)"
  have j: "i \<le> j" "j \<le> d" "d - j \<le> 32" "i < d \<Longrightarrow> j < d" using i(1) by (auto simp: j_def)
  obtain q where q: "bmemcpy_shift p' j (word_be 4 n) (32 - (d - j)) (d - j) = Some q" "length q = length p'" "kbits q j = kbits p' j"
  proof (rule shift_copied [of j "d - j" p' "32 - (d - j)" "word_be 4 n"])
    have "j = d" if "\<not> i < d" using that j i(1) by linarith
    then show "0 < d - j \<or> j mod 8 \<noteq> (32 - (d - j)) mod 8" using i(3) j(4) by (cases "i < d") simp_all
  qed (use j i(2) pfx_ok_length(1) [OF p'(2)] in auto)
  have "pa_rule_prefix_nth p i n d = Some q" using p'(1) q(1) j(2) by (simp add: pa_rule_prefix_nth_def Let_def j_def)
  moreover have "kbits q i = kbits p i" using kbits_eq_le [OF j(1) q(3)] p'(3) by simp
  then have "prefix (kbits p i) (kbits q d)" using i(1) by (simp add: prefix_kbits)
  ultimately show ?thesis using that q(2) pfx_ok_length(1) [OF p'(2)] by simp
qed

lemma count_loop_ok:
  assumes "\<forall>k \<in> set ks. snd k < length cnt"
  shows "\<exists>cnt'. count_loop ks cnt = Some cnt' \<and> length cnt' = length cnt \<and>
    (\<forall>p < length cnt. unat (cnt' ! p) = min 65535 (unat (cnt ! p) + avail_n ks p))"
  using assms
proof (induction ks arbitrary: cnt)
  case Nil
  have "unat w \<le> 65535" for w :: u16 using unsigned_less [of w, where 'a = nat] by simp
  then show ?case by (auto simp: avail_n_def)
next
  case (Cons kp ks)
  obtain k p where kp: "kp = (k, p)" by fastforce
  have lt: "unat w \<le> 65535" for w :: u16 using unsigned_less [of w, where 'a = nat] by simp
  have p: "p < length cnt" using Cons.prems by (simp add: kp)
  define cnt1 where "cnt1 = (if cnt ! p \<noteq> 0xffff then cnt[p := cnt ! p + 1] else cnt)"
  have l1: "length cnt1 = length cnt" by (simp add: cnt1_def)
  have u1: "unat (cnt1 ! q) = min 65535 (unat (cnt ! q) + (if q = p then 1 else 0))" if "q < length cnt" for q
  proof (cases "q = p \<and> cnt ! p \<noteq> 0xffff")
    case True
    have "(- 1 :: u16) = 0xffff" by code_simp
    then have "cnt ! p + 1 \<noteq> 0" using True eq_neg_iff_add_eq_0 [of "cnt ! p" 1] by metis
    then have "unat (cnt ! p + 1) = unat (cnt ! p) + 1" using unatSuc [of "cnt ! p"] by (simp add: add.commute)
    then show ?thesis using True p lt [of "cnt ! p + 1"] by (simp add: cnt1_def)
  next
    case False
    then show ?thesis using lt [of "cnt ! q"] by (auto simp: cnt1_def)
  qed
  have "count_loop ((k, p) # ks) cnt = count_loop ks cnt1" using p by (simp add: cnt1_def rd_def wr_def)
  moreover obtain cnt' where c: "count_loop ks cnt1 = Some cnt'" "length cnt' = length cnt1"
      "\<forall>q < length cnt1. unat (cnt' ! q) = min 65535 (unat (cnt1 ! q) + avail_n ks q)"
    using Cons.IH [of cnt1] Cons.prems l1 by auto
  moreover have "unat (cnt' ! q) = min 65535 (unat (cnt ! q) + avail_n ((k, p) # ks) q)" if "q < length cnt" for q
    using c(3) u1 [OF that] that l1 by (auto simp: avail_n_def)
  ultimately show ?case using l1 by (auto simp: kp)
qed

lemma int_shl_unat: "n < 31 \<Longrightarrow> unat (int_shl n) = 2 ^ n"
proof -
  assume n: "n < 31"
  have "int_shl n = push_bit n 1" unfolding int_shl_def
    by (rule bit_word_eqI) (use n in \<open>auto simp: bit_signed_take_bit_iff bit_exp_iff min_def\<close>)
  then show ?thesis using n by (simp add: unsigned_of_nat [of "2 ^ n", simplified] take_bit_eq_mod)
qed

lemma u16_le: "unat (x :: u16) \<le> 65535"
  using unsigned_less [of x, where 'a = nat] by simp

lemma int_shl_31: "int_shl 31 = - (2 ^ 31)"
  by code_simp

lemma unat_of_nat_64: "n < 2 ^ 64 \<Longrightarrow> unat (of_nat n :: u64) = n"
  by (simp add: unsigned_of_nat take_bit_eq_mod)

text \<open>One length: the sum is exact up to a shift of 30, and from 31 on it is above any set size.\<close>

lemma subset_step_ok:
  assumes c: "unat c = C" "C \<le> unat S" "unat S \<le> 65535" and x: "x \<noteq> 0" and q: "q \<le> d"
  shows "subset_step d S q c x =
    (if unat S < C + unat x * 2 ^ (d - q) then (Some (S, S - ucast c), c)
     else (if C + unat x * 2 ^ (d - q) = unat S then Some (S, 0) else None, of_nat (C + unat x * 2 ^ (d - q))))"
proof -
  define k where "k = c + ucast x * int_shl (d - q)"
  have st: "subset_step d S q c x = (if 32 \<le> d - q \<or> ucast S < k then (Some (S, S - ucast c), c)
      else (if k = ucast S then Some (ucast k, 0) else None, k))"
    by (simp add: subset_step_def Let_def k_def)
  have x1: "1 \<le> unat x" using x by (simp add: Suc_le_eq unat_gt_0)
  have cn: "c = of_nat C" using c(1) by auto
  have xn: "(ucast x :: u64) = of_nat (unat x)" by (simp only: of_nat_unat)
  have us: "unat (ucast S :: u64) = unat S" using c(3) by (simp add: unsigned_ucast_eq take_bit_nat_eq_self)
  consider (s) "d - q < 31" | (e) "d - q = 31" | (l) "32 \<le> d - q" by linarith
  then show ?thesis
  proof cases
    case s
    then have i: "int_shl (d - q) = of_nat (2 ^ (d - q))" using of_nat_unat [of "int_shl (d - q)", where 'a = "64 word"] int_shl_unat [OF s] by simp
    have k: "k = of_nat (C + unat x * 2 ^ (d - q))" unfolding k_def cn xn i by simp
    have "(2 :: nat) ^ (d - q) \<le> 2 ^ 30" using s by (intro power_increasing) auto
    then have "unat x * 2 ^ (d - q) \<le> 65535 * 2 ^ 30" using u16_le [of x] by (intro mult_mono) auto
    then have u: "unat k = C + unat x * 2 ^ (d - q)" unfolding k using c by (intro unat_of_nat_64) simp
    have cmp: "ucast S < k \<longleftrightarrow> unat S < C + unat x * 2 ^ (d - q)" "k = ucast S \<longleftrightarrow> C + unat x * 2 ^ (d - q) = unat S"
      unfolding u [symmetric] by (auto simp: word_less_nat_alt us word_unat_eq_iff)
    have "(ucast k :: u32) = S" if "k = ucast S" unfolding that by (rule bit_word_eqI) (simp add: bit_ucast_iff)
    then show ?thesis unfolding st k [symmetric] cmp(1) [symmetric] cmp(2) [symmetric] using s by auto
  next
    case e
    have "unat x * 2 ^ 31 \<le> 65535 * 2 ^ 31" using u16_le [of x] by (intro mult_mono) auto
    moreover have "1 * 2 ^ 31 \<le> unat x * 2 ^ 31" using x1 by (intro mult_mono) auto
    ultimately have r: "C < unat x * 2 ^ 31" "unat x * 2 ^ 31 < 2 ^ 63" "unat S < unat x * 2 ^ 31" using c by auto
    have "k = of_nat C - of_nat (unat x * 2 ^ 31)" unfolding k_def cn xn e int_shl_31 by simp
    also have "\<dots> = of_nat (C + 2 ^ 64 - unat x * 2 ^ 31)"
    proof -
      have "of_nat (C + 2 ^ 64) = (of_nat C :: u64)" by (simp add: word_of_nat_eq_iff take_bit_eq_mod)
      then show ?thesis using r by (subst of_nat_diff) auto
    qed
    finally have "unat k = C + 2 ^ 64 - unat x * 2 ^ 31" using r by (simp only:) (rule unat_of_nat_64, simp)
    then have "unat S < unat k" using r c(3) by simp
    then have "ucast S < k" by (simp add: word_less_nat_alt us)
    then show ?thesis using e r(3) by (simp add: st)
  next
    case l
    have "(2 :: nat) ^ 32 \<le> 2 ^ (d - q)" using l by (intro power_increasing) auto
    then have "1 * 2 ^ 32 \<le> unat x * 2 ^ (d - q)" using x1 by (intro mult_mono) auto
    then show ?thesis using l c(3) by (simp add: st)
  qed
qed

lemma subset_loop_step:
  assumes q: "q \<le> d" "d < length cnt" "unat S \<le> 65535" and i: "subset_inv cnt d S (Suc q) c m"
  shows "(\<exists>f ov. candidate_subset_loop cnt d S q c m = Some (f, q, ov) \<and> subset_ok cnt d f q) \<or>
    (\<exists>k m'. candidate_subset_loop cnt d S q c m =
       (case q of 0 \<Rightarrow> Some (ucast k, m', 0) | Suc q' \<Rightarrow> candidate_subset_loop cnt d S q' k m') \<and> subset_inv cnt d S q k m')"
proof -
  define C D where "C = unat c" and "D = C + cap cnt d q"
  have sum: "(\<Sum>p = q..d. cap cnt d p) = cap cnt d q + (\<Sum>p = Suc q..d. cap cnt d p)" using q(1) by (rule sum.atLeast_Suc_atMost)
  have set: "{q..d} = insert q {Suc q..d}" using q(1) by auto
  have r: "rd cnt q = Some (cnt ! q)" using q by (simp add: rd_def)
  have C: "C \<le> unat S" "C \<le> (\<Sum>p = Suc q..d. cap cnt d p)" "\<forall>p \<in> {Suc q..d}. cnt ! p \<noteq> 0 \<longrightarrow> d - p < 32"
    using i by (auto simp: subset_inv_def C_def)
  show ?thesis
  proof (cases "cnt ! q = 0")
    case True
    then have "candidate_subset_loop cnt d S q c m = (case q of 0 \<Rightarrow> Some (ucast c, m, 0) | Suc q' \<Rightarrow> candidate_subset_loop cnt d S q' c m)"
      using r by (subst candidate_subset_loop.simps) (simp split: nat.split)
    moreover have "subset_inv cnt d S q c m" using i True sum set by (auto simp: subset_inv_def cap_def)
    ultimately show ?thesis by blast
  next
    case x: False
    note st = subset_step_ok [OF C_def [symmetric] C(1) q(3) x q(1), folded cap_def, folded D_def]
    show ?thesis
    proof (cases "unat S \<le> D")
      case True
      then have "candidate_subset_loop cnt d S q c m = Some (S, q, if unat S < D then S - ucast c else 0)"
        using r x st by (subst candidate_subset_loop.simps) simp
      moreover have "subset_ok cnt d S q" using True C(2,3) sum q(1) by (auto simp: subset_ok_def D_def)
      ultimately show ?thesis by blast
    next
      case False
      then have e: "candidate_subset_loop cnt d S q c m =
          (case q of 0 \<Rightarrow> Some (ucast (of_nat D :: u64), q, 0) | Suc q' \<Rightarrow> candidate_subset_loop cnt d S q' (of_nat D) q)"
        using r x st by (subst candidate_subset_loop.simps) (simp split: nat.split)
      have D: "unat (of_nat D :: u64) = D" using False q(3) by (intro unat_of_nat_64) simp
      have "d - q < 32"
      proof (rule ccontr)
        assume "\<not> d - q < 32"
        then have "(2 :: nat) ^ 32 \<le> 2 ^ (d - q)" by (intro power_increasing) auto
        moreover have "1 \<le> unat (cnt ! q)" using x by (simp add: Suc_le_eq unat_gt_0)
        ultimately have "1 * 2 ^ 32 \<le> cap cnt d q" unfolding cap_def by (intro mult_mono) auto
        then show False using False q(3) by (simp add: D_def)
      qed
      moreover have "D \<le> (\<Sum>p = q..d. cap cnt d p)" using C(2) sum by (simp add: D_def)
      ultimately have "subset_inv cnt d S q (of_nat D) q" using False C(3) set q(1) by (auto simp: subset_inv_def D)
      then show ?thesis using e by blast
    qed
  qed
qed

lemma subset_loop_ok:
  assumes "q \<le> d" "d < length cnt" "unat S \<le> 65535" "subset_inv cnt d S (Suc q) c m"
  shows "\<exists>f m' ov. candidate_subset_loop cnt d S q c m = Some (f, m', ov) \<and> subset_ok cnt d f m'"
  using assms
proof (induction q arbitrary: c m)
  case 0
  have "subset_ok cnt d (ucast k) m'" if "subset_inv cnt d S 0 k m'" for k m'
  proof -
    have "unat (ucast k :: u32) = unat k" using that "0.prems"(3) by (simp add: subset_inv_def unsigned_ucast_eq take_bit_nat_eq_self)
    then show ?thesis using that unfolding subset_ok_def subset_inv_def by (auto simp: unsigned_eq_0_iff)
  qed
  then show ?case using subset_loop_step [OF "0.prems"] by fastforce
next
  case (Suc q)
  from subset_loop_step [OF Suc.prems] show ?case
  proof (elim disjE exE conjE)
    fix k m' assume "candidate_subset_loop cnt d S (Suc q) c m =
        (case Suc q of 0 \<Rightarrow> Some (ucast k, m', 0) | Suc q' \<Rightarrow> candidate_subset_loop cnt d S q' k m')" "subset_inv cnt d S (Suc q) k m'"
    then show ?case using Suc.IH [of k m'] Suc.prems by simp
  qed blast
qed

lemma candidate_subset_ok:
  assumes "d < length cnt" "unat S \<le> 65535"
  shows "\<exists>f m ov. pa_rule_candidate_subset cnt d S m0 = Some (f, m, ov) \<and> subset_ok cnt d f m"
  unfolding pa_rule_candidate_subset_def
  by (rule subset_loop_ok [OF _ assms]) (auto simp: subset_inv_def)

lemma unat_push: "j < 32 \<Longrightarrow> unat (push_bit j 1 :: u32) = 2 ^ j"
  by (simp add: unsigned_of_nat [of "2 ^ j", simplified] take_bit_eq_mod)

lemma pick_pass_Cons:
  "pick_pass pass d m M ((k, i) # ks) n =
     (if picked pass m M i
      then if i > d then None
           else if d - i \<ge> 32 \<or> n < push_bit (d - i) 1
           then do { p \<leftarrow> pa_rule_prefix_nth k i n d; Some (Inl p) }
           else pick_pass pass d m M ks (n - push_bit (d - i) 1)
      else pick_pass pass d m M ks n)"
  unfolding pick_pass.simps picked_def ..

lemma pick_pass_ok:
  assumes "\<forall>k \<in> set ks. key_fine d k" "m \<le> d" "M \<le> d" "d \<le> 128"
  shows "\<exists>r. pick_pass pass d m M ks n = Some r \<and> pick_ok pass d m M ks n r"
  using assms(1)
proof (induction ks arbitrary: n)
  case Nil
  then show ?case by (simp add: room_def pick_ok_def)
next
  case (Cons ki ks)
  obtain k i where ki: "ki = (k, i)" by fastforce
  have f: "pfx_ok k i" "i = d \<Longrightarrow> d mod 8 \<noteq> 0" using Cons.prems by (auto simp: ki key_fine_def)
  have IH: "\<exists>r. pick_pass pass d m M ks n = Some r \<and> pick_ok pass d m M ks n r" for n using Cons.IH [of n] Cons.prems by simp
  show ?case
  proof (cases "picked pass m M i")
    case False
    have e: "pick_pass pass d m M (ki # ks) n = pick_pass pass d m M ks n" unfolding ki using False by (simp del: pick_pass.simps add: pick_pass_Cons)
    have "pick_ok pass d m M ks n r \<Longrightarrow> pick_ok pass d m M (ki # ks) n r" for r
      using False by (cases r) (auto simp: ki pick_ok_def room_def)
    then show ?thesis unfolding e using IH [of n] by blast
  next
    case p: True
    have i: "i \<le> d" using p assms(2,3) by (auto simp: picked_def)
    show ?thesis
    proof (cases "32 \<le> d - i \<or> n < push_bit (d - i) 1")
      case True
      have "i < d \<or> d mod 8 \<noteq> 0" using f(2) i by (cases "i = d") auto
      then obtain q where q: "pa_rule_prefix_nth k i n d = Some q" "length q = 16" "prefix (kbits k i) (kbits q d)"
        by (rule prefix_nth_ok [OF f(1) i assms(4)])
      have "pick_pass pass d m M (ki # ks) n = Some (Inl q)" unfolding ki using p True i q(1) by (simp del: pick_pass.simps push_bit_of_1 add: pick_pass_Cons)
      then show ?thesis using q(2,3) by (simp add: pick_ok_def ki)
    next
      case False
      let ?n = "n - push_bit (d - i) 1"
      have u: "unat ?n = unat n - 2 ^ (d - i)" "2 ^ (d - i) \<le> unat n"
        using False unat_push [of "d - i"] by (simp_all add: not_less unat_sub word_le_nat_alt)
      have e: "pick_pass pass d m M (ki # ks) n = pick_pass pass d m M ks ?n" unfolding ki using p False i by (simp del: pick_pass.simps add: pick_pass_Cons)
      have "pick_ok pass d m M ks ?n r \<Longrightarrow> pick_ok pass d m M (ki # ks) n r" for r
        using p u False by (cases r) (auto simp: ki pick_ok_def room_def)
      then show ?thesis unfolding e using IH [of ?n] by blast
    qed
  qed
qed

lemma room_nat: "room False d m d ks = (\<Sum>p \<in> {m<..d}. avail_n ks p * 2 ^ (d - p))" "room True d m M ks = avail_n ks m * 2 ^ (d - m)"
proof (induction ks)
  case Nil
  show "room False d m d [] = (\<Sum>p \<in> {m<..d}. avail_n [] p * 2 ^ (d - p))" "room True d m M [] = avail_n [] m * 2 ^ (d - m)"
    by (simp_all add: room_def avail_n_def)
next
  case (Cons k ks)
  have "(\<Sum>p \<in> {m<..d}. avail_n (k # ks) p * 2 ^ (d - p)) =
      (\<Sum>p \<in> {m<..d}. avail_n ks p * 2 ^ (d - p) + (if p = snd k then 2 ^ (d - p) else 0))"
    by (intro sum.cong) (auto simp: avail_n_def)
  also have "\<dots> = room False d m d ks + (if snd k \<in> {m<..d} then 2 ^ (d - snd k) else 0)"
    using Cons(1) by (simp add: sum.distrib sum.delta)
  finally show "room False d m d (k # ks) = (\<Sum>p \<in> {m<..d}. avail_n (k # ks) p * 2 ^ (d - p))" by (simp add: room_def picked_def)
  show "room True d m M (k # ks) = avail_n (k # ks) m * 2 ^ (d - m)"
    using Cons(2) by (auto simp: room_def picked_def avail_n_def)
qed

lemma free_bits_ext: "free_bits c b \<Longrightarrow> prefix b b' \<Longrightarrow> free_bits c b'"
  unfolding free_bits_def overlap_def by (metis prefix_order.trans prefix_same_cases)

lemma avail_list:
  assumes inv: "pa_inv c" and sub: "pfx_ok sub sl" and stk: "length stk = 16"
  obtains ks where "btrie_for_each_available (prefixes c) stk sub sl = Some ks"
    "\<forall>k \<in> set ks. pfx_ok (fst k) (snd k) \<and> prefix (kbits sub sl) (kbits (fst k) (snd k)) \<and> free_bits c (kbits (fst k) (snd k))"
proof -
  have d: "4 dvd (16 :: nat)" and ft: "fits (prefixes c) (8 * 16)" and sl: "sl \<le> 8 * 16"
    using pa_invD(6) [OF inv] pfx_ok_length(2) [OF sub] by simp_all
  obtain ks where ks: "btrie_for_each_available (prefixes c) stk sub sl = Some ks"
    "\<And>k n. (k, n) \<in> set ks \<Longrightarrow> length k = 16 \<and> n \<le> 8 * 16 \<and> prefix (kbits sub sl) (kbits k n)"
    "\<And>x. prefix (kbits sub sl) x \<Longrightarrow> 8 * 16 \<le> length x \<Longrightarrow>
      (\<exists>(k, n) \<in> set ks. prefix (kbits k n) x) \<longleftrightarrow> \<not> (\<exists>e \<in> set (entries [] (prefixes c)). prefix (fst e) x)"
    by (rule for_each_available [OF pa_invD(1) [OF inv] d ft pfx_ok_length(1) [OF sub] stk sl]) (rule that)
  have "free_bits c (kbits k n)" if k: "(k, n) \<in> set ks" for k n
    unfolding free_bits_def
  proof (intro ballI notI)
    fix be assume be: "be \<in> set (entries [] (prefixes c))" and ov: "overlap (fst be) (kbits k n)"
    define x where "x = (if prefix (fst be) (kbits k n) then kbits k n else fst be) @ replicate 128 False"
    have x: "prefix (kbits k n) x" "prefix (fst be) x" "8 * 16 \<le> length x"
      using ov by (auto simp: x_def overlap_def)
    have "prefix (kbits sub sl) x" using ks(2) [OF k] x(1) by (meson prefix_order.trans)
    then show False using ks(3) [of x] k be x by auto
  qed
  then have "\<forall>k \<in> set ks. pfx_ok (fst k) (snd k) \<and> prefix (kbits sub sl) (kbits (fst k) (snd k)) \<and> free_bits c (kbits (fst k) (snd k))"
    using ks(2) by (fastforce simp: pfx_ok_def split_paired_all)
  then show ?thesis by (rule that [OF ks(1)])
qed

lemma prefix_count_ok:
  assumes "\<forall>k \<in> set ks. pfx_ok (fst k) (snd k)" "btrie_for_each_available (prefixes c) stk sub sl = Some ks"
  obtains cnt where "pa_rule_prefix_count stk c sub sl 128 = Some cnt" "length cnt = 129"
    "\<And>p. p \<le> 128 \<Longrightarrow> unat (cnt ! p) = min 65535 (avail_n ks p)"
proof -
  have "\<forall>k \<in> set ks. snd k < length (replicate 129 (0 :: u16))" using assms(1) by (auto simp: pfx_ok_def)
  from count_loop_ok [OF this] obtain cnt where "count_loop ks (replicate 129 0) = Some cnt" "length cnt = 129"
      "\<forall>p < 129. unat (cnt ! p) = min 65535 (avail_n ks p)" by auto
  then show ?thesis using that [of cnt] assms(2) by (simp add: pa_rule_prefix_count_def)
qed

lemma candidate_pick_ok:
  assumes av: "btrie_for_each_available (prefixes c) stk sub sl = Some ks" "\<forall>k \<in> set ks. key_fine d k"
    and cnt: "\<And>p. p \<le> 128 \<Longrightarrow> unat (cnt ! p) = min 65535 (avail_n ks p)"
    and f: "subset_ok cnt d f m" "f \<noteq> 0" "unat n < unat f" "d \<le> 128"
  obtains q k where "pa_rule_candidate_pick stk c sub sl n d m d = Some (Some q)" "length q = 16" "k \<in> set ks"
    "prefix (kbits (fst k) (snd k)) (kbits q d)"
proof -
  have m: "m \<le> d" "unat f \<le> (\<Sum>p = m..d. cap cnt d p)" using f(1,2) by (auto simp: subset_ok_def)
  have le: "cap cnt d p \<le> avail_n ks p * 2 ^ (d - p)" if "p \<le> d" for p
    using cnt [of p] that f(4) by (simp add: cap_def)
  have "(\<Sum>p = m..d. cap cnt d p) \<le> (\<Sum>p = m..d. avail_n ks p * 2 ^ (d - p))" by (intro sum_mono le) auto
  also have "\<dots> = avail_n ks m * 2 ^ (d - m) + (\<Sum>p \<in> {m<..d}. avail_n ks p * 2 ^ (d - p))"
    using m(1) by (simp add: sum.atLeast_Suc_atMost atLeastSucAtMost_greaterThanAtMost)
  finally have r: "unat n < room False d m d ks + room True d m d ks" using m(2) f(3) by (simp add: room_nat)
  obtain r1 where r1: "pick_pass False d m d ks n = Some r1" "pick_ok False d m d ks n r1"
    using pick_pass_ok [OF av(2) m(1) order_refl f(4)] by blast
  show ?thesis
  proof (cases r1)
    case (Inl q)
    then show ?thesis using that [of q] r1 av(1) by (auto simp: pick_ok_def pa_rule_candidate_pick_def)
  next
    case (Inr n1)
    then have u1: "unat n = unat n1 + room False d m d ks" using r1(2) by (simp add: pick_ok_def)
    obtain r2 where r2: "pick_pass True d m d ks n1 = Some r2" "pick_ok True d m d ks n1 r2"
      using pick_pass_ok [OF av(2) m(1) order_refl f(4)] by blast
    show ?thesis
    proof (cases r2)
      case q: (Inl q)
      then show ?thesis using that [of q] r1 r2 Inr av(1) by (auto simp: pick_ok_def pa_rule_candidate_pick_def)
    next
      case i: (Inr n2)
      then have "unat n1 = unat n2 + room True d m d ks" using r2(2) by (simp add: pick_ok_def)
      then show ?thesis using u1 r by simp
    qed
  qed
qed

section \<open>Lemmas: the random rule\<close>

lemma key_free_bits:
  assumes "key_free (prefixes c) 128 b"
  shows "free_bits c b"
  unfolding free_bits_def
proof (intro ballI notI)
  fix be assume be: "be \<in> set (entries [] (prefixes c))" and ov: "overlap (fst be) b"
  define x where "x = (if prefix (fst be) b then b else fst be) @ replicate 128 False"
  have x: "prefix b x" "prefix (fst be) x" "128 \<le> length x" using ov by (auto simp: x_def overlap_def)
  then show False using assms be by (auto simp: key_free_def stored_at_def)
qed

lemma prandom_loop_ok:
  assumes "\<And>s a b. length (md5 s a b) = 16" "length dst = 16" "bl \<le> 16"
  shows "\<exists>d. prandom_loop md5 seed ctr 0 0 bl dst = Some d \<and> length d = 16"
proof (cases "bl = 0")
  case True
  then show ?thesis using assms(2) by simp
next
  case False
  have "\<exists>d. memcpy_at dst 0 (md5 seed ctr 0) 0 bl = Some d \<and> length d = 16"
    using assms by (simp add: memcpy_at_def)
  then show ?thesis using False assms(3) by (subst prandom_loop.simps) (auto simp: prandom_loop.simps [of _ _ _ _ _ 0])
qed

lemma prefix_prandom_ok:
  assumes "\<And>s a b. length (md5 s a b) = 16" "length dst = 16" "d \<le> 128" "pfx_ok sub sl"
  obtains t where "pa_rule_prefix_prandom md5 seed ctr sub sl dst d = Some t" "length t = 16" "kbits t sl = kbits sub sl"
proof -
  have "(d + 7) div 8 \<le> 135 div 8" using assms(3) by (intro div_le_mono) simp
  then have "\<exists>e. prandom_loop md5 seed ctr 0 0 ((d + 7) div 8) dst = Some e \<and> length e = 16"
    by (intro prandom_loop_ok) (use assms(1,2) in simp_all)
  then obtain e where e: "prandom_loop md5 seed ctr 0 0 ((d + 7) div 8) dst = Some e" "length e = 16" by blast
  have "sub \<noteq> []" using assms(4) by (auto simp: pfx_ok_def)
  then obtain t where "bmemcpy e 0 sub 0 0 sl = Some t" "bits_copied e 0 sub 0 sl t"
    using bmemcpy_copied [of 0 0 sl e 0 sub] e(2) assms(4) by (auto simp: pfx_ok_def)
  then show ?thesis using that [of t] e by (auto simp: pa_rule_prefix_prandom_def bits_copied_def kbits_def)
qed

lemma prandom_candidate_ok:
  assumes "pa_inv c" "length stk = 16" "length t = 16" "length op = 16" "sl \<le> d" "d \<le> 128"
  shows "\<exists>b. prandom_candidate stk c sl d m ov op t = Some b \<and> (b \<longrightarrow> free_bits c (kbits t d))"
proof -
  have "\<exists>r k n. btrie_first_available_from (prefixes c) stk 0 t sl d = Some (r, k, n) \<and>
    (r \<noteq> Avail_none \<longrightarrow> length k = 16 \<and> n \<le> 8 * 16 \<and> key_free (prefixes c) (8 * 16) (kbits k n))"
    by (rule first_from_free [OF pa_invD(1) [OF assms(1)]]) (use pa_invD(6) [OF assms(1)] assms in simp_all)
  then obtain r k n where r: "btrie_first_available_loop (prefixes c) stk 0 t sl d = Some (r, k, n)"
      "r \<noteq> Avail_none \<Longrightarrow> length k = 16 \<and> n \<le> 128 \<and> key_free (prefixes c) 128 (kbits k n)"
    by (auto simp: btrie_first_available_loop_def)
  show ?thesis
  proof (cases "r = Avail_none \<or> d < n")
    case True
    then show ?thesis using r(1) by (auto simp: prandom_candidate_def)
  next
    case False
    then have k: "length k = 16" "n \<le> 128" "free_bits c (kbits k n)" using r(2) key_free_bits by auto
    have f: "free_bits c (kbits t d)" if "kbits k n = kbits t n"
      by (rule free_bits_ext [OF k(3)]) (use that False in \<open>simp add: prefix_kbits\<close>)
    obtain i where i: "bmemcmp t 0 op 0 d = Some i" using bmemcmp_cmp [of 0 d t 0 op] assms by auto
    show ?thesis
      using r(1) False pa_prefix_contains_ok [OF k(1) assms(3) k(2)] i f
      by (auto simp: prandom_candidate_def)
  qed
qed

lemma prandom_tries_ok:
  assumes c: "pa_inv c" "length stk = 16" "length op = 16" and d: "sl \<le> d" "d \<le> 128" "pfx_ok sub sl"
    and md5: "\<And>s a b. length (md5 s a b) = 16"
  shows "length t = 16 \<Longrightarrow> \<exists>r t'. prandom_tries md5 stk r0 c l sub sl d m ov op is t = Some (r, t') \<and> length t' = 16 \<and>
    (\<forall>q. r = Some q \<longrightarrow> good_pick c sub sl d q)"
proof (induction "is" arbitrary: t)
  case (Cons i "is")
  obtain t1 where t1: "pa_rule_prefix_prandom md5 (pseudo_random_seed r0) (of_nat i) sub sl t d = Some t1" "length t1 = 16" "kbits t1 sl = kbits sub sl"
    by (rule prefix_prandom_ok [OF md5 Cons.prems d(2,3)])
  obtain b where b: "prandom_candidate stk c sl d m ov op t1 = Some b" "b \<longrightarrow> free_bits c (kbits t1 d)"
    using prandom_candidate_ok [OF c(1,2) t1(2) c(3) d(1,2)] by blast
  have g: "good_pick c sub sl d t1" if b using b(2) t1 that d(1) by (simp add: good_pick_def prefix_kbits)
  show ?case
  proof (cases "b \<and> accepted r0 c l t1 d")
    case True
    then show ?thesis using t1(1,2) b(1) g by simp
  next
    case False
    then show ?thesis using t1(1) b(1) Cons.IH [OF t1(2)] by (auto split: if_splits)
  qed
qed simp

lemma prefixes_rands: "prefixes (c\<lparr>rands := rs\<rparr>) = prefixes c" "free_bits (c\<lparr>rands := rs\<rparr>) = free_bits c"
  "good_pick (c\<lparr>rands := rs\<rparr>) = good_pick c"
  by (simp_all add: free_bits_def [abs_def] good_pick_def [abs_def])

lemma pa_rand_rands: "pa_rand c = (n, c') \<Longrightarrow> \<exists>rs. c' = c\<lparr>rands := rs\<rparr>"
proof -
  assume a: "pa_rand c = (n, c')"
  have "\<exists>rs. snd (pa_rand c) = c\<lparr>rands := rs\<rparr>"
  proof (cases "rands c")
    case Nil
    then show ?thesis by (intro exI [of _ "rands c"]) (simp add: pa_rand_def)
  qed (auto simp: pa_rand_def)
  then show ?thesis by (simp add: a)
qed

lemma random_tries_ok:
  assumes av: "btrie_for_each_available (prefixes c) stk sub sl = Some ks" "\<forall>k \<in> set ks. key_fine d k"
      "\<forall>k \<in> set ks. prefix (kbits sub sl) (kbits (fst k) (snd k)) \<and> free_bits c (kbits (fst k) (snd k))"
    and cnt: "\<And>p. p \<le> 128 \<Longrightarrow> unat (cnt ! p) = min 65535 (avail_n ks p)"
    and f: "subset_ok cnt d f m" "f \<noteq> 0" "d \<le> 128"
  shows "\<exists>r rs'. random_tries i stk r0 l sub sl d m f t (c\<lparr>rands := rs\<rparr>) = Some (r, c\<lparr>rands := rs'\<rparr>) \<and>
    (\<forall>q. r = Some q \<longrightarrow> good_pick c sub sl d q)"
proof (induction i arbitrary: t rs)
  case 0
  then show ?case by auto
next
  case (Suc i)
  obtain n c1 where r: "pa_rand (c\<lparr>rands := rs\<rparr>) = (n, c1)" by fastforce
  obtain rs1 where c1: "c1 = c\<lparr>rands := rs1\<rparr>" using pa_rand_rands [OF r] by auto
  have "unat f \<noteq> 0" using f(2) by (simp add: unsigned_eq_0_iff)
  then have "n mod unat f < unat f" by simp
  then have u: "unat (of_nat (n mod unat f) :: u32) < unat f" by (simp add: unat_below)
  obtain q k where q: "pa_rule_candidate_pick stk c1 sub sl (of_nat (n mod unat f)) d m d = Some (Some q)" "length q = 16"
      "k \<in> set ks" "prefix (kbits (fst k) (snd k)) (kbits q d)"
    by (rule candidate_pick_ok [OF _ av(2) cnt f(1,2) u f(3), of c1 stk sub sl]) (use av(1) c1 in simp_all)
  have "prefix (kbits sub sl) (kbits q d)" using av(3) q(3,4) by (meson prefix_order.trans)
  moreover have "free_bits c (kbits q d)" using av(3) q(3) by (intro free_bits_ext [OF _ q(4)]) auto
  ultimately have g: "good_pick c sub sl d q" using q(2) by (simp add: good_pick_def)
  show ?case
  proof (cases "accepted r0 c1 l q d")
    case True
    then have "random_tries (Suc i) stk r0 l sub sl d m f t (c\<lparr>rands := rs\<rparr>) = Some (Some q, c\<lparr>rands := rs1\<rparr>)"
      using r q(1) f(2) by (simp add: c1)
    then show ?thesis using g by auto
  next
    case False
    then have "random_tries (Suc i) stk r0 l sub sl d m f t (c\<lparr>rands := rs\<rparr>) = random_tries i stk r0 l sub sl d m f q (c\<lparr>rands := rs1\<rparr>)"
      using r q(1) f(2) by (simp add: c1)
    then show ?thesis using Suc.IH by simp
  qed
qed

lemma random_pick_ok:
  assumes c: "pa_inv c" "length stk = 16" and md5: "md5_ok md5" and sub: "pfx_ok sub sl"
    and av: "btrie_for_each_available (prefixes c) stk sub sl = Some ks" "\<forall>k \<in> set ks. key_fine d k"
      "\<forall>k \<in> set ks. prefix (kbits sub sl) (kbits (fst k) (snd k)) \<and> free_bits c (kbits (fst k) (snd k))"
    and cnt: "\<And>p. p \<le> 128 \<Longrightarrow> unat (cnt ! p) = min 65535 (avail_n ks p)"
    and f: "subset_ok cnt d f m" "f \<noteq> 0" "d \<le> 128"
  shows "\<exists>r rs. random_pick md5 stk r0 c l sub sl d f m ov = Some (r, c\<lparr>rands := rs\<rparr>) \<and> (\<forall>q. r = Some q \<longrightarrow> good_pick c sub sl d q)"
proof -
  have u: "unat (0 :: u32) < unat f" using f(2) by (simp add: unat_gt_0)
  obtain k where k: "k \<in> set ks" "snd k \<le> d"
    by (rule candidate_pick_ok [OF av(1,2) cnt f(1,2) u f(3)]) (auto dest: prefix_length_le)
  have sl: "sl \<le> d" using av(3) k by (auto dest!: prefix_length_le)
  have m: "m \<le> d" using f by (simp add: subset_ok_def)
  have "\<exists>p. pa_rule_candidate_pick stk c sub sl ov d m m = Some p \<and> (\<forall>q. p = Some q \<longrightarrow> length q = 16)"
  proof -
    obtain r1 where r1: "pick_pass False d m m ks ov = Some r1" "pick_ok False d m m ks ov r1" using pick_pass_ok [OF av(2) m m f(3)] by blast
    have r2: "\<exists>r2. pick_pass True d m m ks n = Some r2 \<and> pick_ok True d m m ks n r2" for n using pick_pass_ok [OF av(2) m m f(3)] by blast
    show ?thesis
    proof (cases r1)
      case (Inr n)
      obtain r2 where r2: "pick_pass True d m m ks n = Some r2" "pick_ok True d m m ks n r2" using r2 [of n] by blast
      then show ?thesis using r1 Inr av(1) by (cases r2) (auto simp: pa_rule_candidate_pick_def pick_ok_def)
    qed (use r1 av(1) in \<open>auto simp: pa_rule_candidate_pick_def pick_ok_def\<close>)
  qed
  then obtain p where p: "pa_rule_candidate_pick stk c sub sl ov d m m = Some p" "\<And>q. p = Some q \<Longrightarrow> length q = 16" by blast
  define op where "op = (if ov \<noteq> 0 then (case p of Some q \<Rightarrow> q | None \<Rightarrow> stk) else stk)"
  have op: "length op = 16" using p(2) c(2) by (auto simp: op_def split: option.splits)
  define e where "e = (if pseudo_random_tentatives r0 \<noteq> 0
     then prandom_tries md5 stk r0 c l sub sl d m ov op [0 ..< unat (pseudo_random_tentatives r0)] stk else Some (None, stk))"
  have "\<exists>r t'. e = Some (r, t') \<and> length t' = 16 \<and> (\<forall>q. r = Some q \<longrightarrow> good_pick c sub sl d q)"
  proof (cases "pseudo_random_tentatives r0 = 0")
    case False
    have "\<exists>r t'. prandom_tries md5 stk r0 c l sub sl d m ov op [0 ..< unat (pseudo_random_tentatives r0)] stk = Some (r, t') \<and>
        length t' = 16 \<and> (\<forall>q. r = Some q \<longrightarrow> good_pick c sub sl d q)"
      by (rule prandom_tries_ok [OF c op sl f(3) sub _ c(2)]) (use md5 in \<open>simp add: md5_ok_def\<close>)
    then show ?thesis using False by (simp add: e_def)
  qed (use c(2) in \<open>simp add: e_def\<close>)
  then obtain r t' where e: "e = Some (r, t')" "length t' = 16" "\<And>q. r = Some q \<Longrightarrow> good_pick c sub sl d q" by blast
  have run: "random_pick md5 stk r0 c l sub sl d f m ov =
      (case r of Some q \<Rightarrow> Some (Some q, c) | None \<Rightarrow> random_tries 100 stk r0 l sub sl d m f t' c)"
    using e(1) p(1) by (auto simp: random_pick_def e_def op_def split: if_splits)
  show ?thesis
  proof (cases r)
    case None
    have "\<exists>r rs'. random_tries 100 stk r0 l sub sl d m f t' (c\<lparr>rands := rands c\<rparr>) = Some (r, c\<lparr>rands := rs'\<rparr>) \<and>
        (\<forall>q. r = Some q \<longrightarrow> good_pick c sub sl d q)"
      by (rule random_tries_ok [OF av cnt f])
    then show ?thesis using run None by simp
  next
    case (Some q)
    then show ?thesis unfolding run using e(3) [OF Some] by (intro exI [of _ r] exI [of _ "rands c"]) simp
  qed
qed

lemma random_match_ok:
  assumes c: "pa_inv c" "length stk = 16" and md5: "md5_ok md5" and r: "random_conf_ok r" and arg: "length (arg_prefix arg) = 16"
    and wb: "\<And>sub sl cnt. subprefix_of (random_subprefix_cb r) c l = Some (sub, sl) \<Longrightarrow> whole_bytes_apart c stk sub sl (random_desired_plen_cb r c l cnt)"
  shows "\<exists>t a rs. pa_rule_random_match md5 stk r c l bp arg = Some (t, a, c\<lparr>rands := rs\<rparr>) \<and> length (arg_prefix a) = 16 \<and> random_target_ok stk r c l t a"
proof -
  let ?arg = "arg\<lparr>arg_priority := random_priority r, arg_rule_priority := random_rule_priority r\<rparr>"
  have stop: ?thesis if "pa_rule_random_match md5 stk r c l bp arg = Some (t, ?arg, c)" "t \<in> {PA_RULE_BACKOFF, PA_RULE_NO_MATCH}" for t
    using that arg by (intro exI [of _ t] exI [of _ ?arg] exI [of _ "rands c"]) (auto simp: random_target_ok_def)
  show ?thesis
  proof (cases "\<not> backoff (ldp_of c l) \<or> subprefix_of (random_subprefix_cb r) c l = None")
    case True
    then show ?thesis
      by (intro stop [of "if backoff (ldp_of c l) then PA_RULE_NO_MATCH else PA_RULE_BACKOFF"])
        (auto simp: pa_rule_random_match_def Let_def)
  next
    case False
    then obtain sub sl where s: "subprefix_of (random_subprefix_cb r) c l = Some (sub, sl)" by fastforce
    have sub: "pfx_ok sub sl" using r c(1) s by (auto simp: random_conf_ok_def)
    obtain ks where ks: "btrie_for_each_available (prefixes c) stk sub sl = Some ks"
      "\<forall>k \<in> set ks. pfx_ok (fst k) (snd k) \<and> prefix (kbits sub sl) (kbits (fst k) (snd k)) \<and> free_bits c (kbits (fst k) (snd k))"
      by (rule avail_list [OF c(1) sub c(2)])
    obtain cnt where cnt: "pa_rule_prefix_count stk c sub sl 128 = Some cnt" "length cnt = 129"
        "\<And>p. p \<le> 128 \<Longrightarrow> unat (cnt ! p) = min 65535 (avail_n ks p)"
      by (rule prefix_count_ok [OF _ ks(1)]) (use ks(2) in auto)
    define d where "d = random_desired_plen_cb r c l cnt"
    have d: "d \<le> 128" using r by (simp add: random_conf_ok_def d_def)
    have kf: "\<forall>k \<in> set ks. key_fine d k" using ks wb [OF s, of cnt] by (auto simp: key_fine_def whole_bytes_apart_def d_def)
    have "unat (ucast (random_set_size r) :: u32) \<le> 65535" using u16_le [of "random_set_size r"] by (simp add: unsigned_ucast_eq take_bit_nat_eq_self)
    then obtain f m ov where f: "pa_rule_candidate_subset cnt d (ucast (random_set_size r)) 0 = Some (f, m, ov)" "subset_ok cnt d f m"
      using candidate_subset_ok [of d cnt "ucast (random_set_size r)" 0] d cnt(2) by auto
    note run = pa_rule_random_match_def [of md5 stk r c l bp arg, unfolded Let_def PA_RAND_MAX_PLEN_def]
    show ?thesis
    proof (cases "f = 0")
      case True
      have "pa_rule_random_match md5 stk r c l bp arg = Some (PA_RULE_NO_MATCH, ?arg, c)"
        unfolding run using True False s cnt(1) f(1) r
        by (simp add: d_def pa_rule_random_override_match_def random_conf_ok_def)
      then show ?thesis by (rule stop) simp
    next
      case f0: False
      obtain t rs where t: "random_pick md5 stk r c l sub sl d f m ov = Some (t, c\<lparr>rands := rs\<rparr>)" "\<And>q. t = Some q \<Longrightarrow> good_pick c sub sl d q"
        using random_pick_ok [OF c md5 sub ks(1) kf _ cnt(3) f(2) f0 d] ks(2) by blast
      have run2: "pa_rule_random_match md5 stk r c l bp arg = random_choose ?arg d t (c\<lparr>rands := rs\<rparr>)"
        using run False s cnt(1) f(1) f0 t(1) by (simp add: d_def)
      show ?thesis
      proof (cases t)
        case None
        then have "pa_rule_random_match md5 stk r c l bp arg = Some (PA_RULE_NO_MATCH, ?arg, c\<lparr>rands := rs\<rparr>)"
          using run2 by (simp add: random_choose_def)
        then show ?thesis using arg by (intro exI [of _ PA_RULE_NO_MATCH] exI [of _ ?arg] exI [of _ rs]) (simp add: random_target_ok_def)
      next
        case (Some q)
        have g: "good_pick c sub sl d q" by (rule t(2) [OF Some])
        obtain p where p: "pa_prefix_cpy q d (arg_prefix ?arg) = Some (p, d)" "pfx_ok p d" "kbits p d = kbits q d"
          using pa_prefix_cpy_ok [of q d "arg_prefix ?arg"] g d arg by (auto simp: good_pick_def pfx_ok_def)
        let ?a = "?arg\<lparr>arg_prefix := p, arg_plen := d\<rparr>"
        have "pa_rule_random_match md5 stk r c l bp arg = Some (PA_RULE_PUBLISH, ?a, c\<lparr>rands := rs\<rparr>)"
          using run2 Some p(1) by (simp add: random_choose_def)
        moreover have "random_target_ok stk r c l PA_RULE_PUBLISH ?a"
          using g p(2,3) False s cnt(1) by (auto simp: random_target_ok_def good_pick_def PA_RAND_MAX_PLEN_def d_def)
        ultimately show ?thesis using p(2) by (intro exI [of _ PA_RULE_PUBLISH] exI [of _ ?a] exI [of _ rs]) (simp add: pfx_ok_def)
      qed
    qed
  qed
qed

section \<open>Lemmas: rule tables\<close>

lemma env_step_refl [simp]: "env_step r c c"
  unfolding env_step_def by (rule exI [of _ "rands c"], rule exI [of _ "rule_mem c r"]) simp

lemma env_step_rands [simp]: "env_step r c (c\<lparr>rands := rs\<rparr>)"
  unfolding env_step_def by (rule exI [of _ rs], rule exI [of _ "rule_mem c r"]) simp

lemma env_step_mem [simp]: "env_step r c (c\<lparr>rule_mem := (rule_mem c)(r := v)\<rparr>)"
  unfolding env_step_def by (rule exI [of _ "rands c"], rule exI [of _ v]) simp

lemma valid_assignment_ok: "pa_inv c \<Longrightarrow> pfx_ok p n \<Longrightarrow> \<exists>v. pa_rule_valid_assignment c l p n orp op s = Some v"
  using trie_store.overlapping_set [OF pa_invD(1) [of c] pfx_ok_key [of p n]] by (auto simp: pa_rule_valid_assignment_def)

lemma static_max_ok:
  assumes "static_conf_ok r" "pa_inv c"
  obtains m v where "pa_rule_static_get_max_priority i r c l = Some (m, c\<lparr>rule_mem := (rule_mem c)(i := v)\<rparr>)" "m \<noteq> 0 \<Longrightarrow> pfx_ok (fst v) (snd v)"
proof (cases "get_prefix r")
  case None
  have "c = c\<lparr>rule_mem := (rule_mem c)(i := rule_mem c i)\<rparr>" by simp
  then show ?thesis using that [of 0 "rule_mem c i"] None by (simp add: pa_rule_static_get_max_priority_def)
next
  case (Some f)
  obtain err p n where f: "f c l (rule_mem c i) = (err, p, n)" by (metis prod_cases3)
  let ?c = "c\<lparr>rule_mem := (rule_mem c)(i := (p, n))\<rparr>"
  let ?d = "dp_of c (ldp_dp (ldp_of c l))"
  have i: "pa_inv ?c" using env_step_inv [of i c ?c] assms(2) by simp
  show ?thesis
  proof (cases "err \<noteq> 0 \<or> dp_plen ?d > n")
    case True
    then show ?thesis using that [of 0 "(p, n)"] Some f by (simp add: pa_rule_static_get_max_priority_def)
  next
    case False
    then have p: "pfx_ok p n" using assms f Some unfolding static_conf_ok_def by metis
    obtain b where b: "pa_prefix_contains (dp_prefix ?d) (dp_plen ?d) p = Some b"
      using pa_prefix_contains_ok [of "dp_prefix ?d" p "dp_plen ?d"] pa_invD(3) [OF assms(2)] p by (auto simp: pfx_ok_def)
    obtain v where v: "pa_rule_valid_assignment ?c l p n (static_override_rule_priority r) (static_override_priority r) (static_safety r) = Some v"
      using valid_assignment_ok [OF i p] by blast
    show ?thesis
      by (rule that [of "if b \<and> v then static_rule_priority r else 0" "(p, n)"])
        (use Some f False b v p in \<open>auto simp: pa_rule_static_get_max_priority_def Let_def\<close>)
  qed
qed

lemma conf_max_law:
  assumes "conf_ok (T r)" "get_max_priority (conf_rule md5 stk T r) = Some f" "pa_inv c"
  shows "\<exists>m c'. f c l = Some (m, c') \<and> env_step r c c'"
proof (cases "T r")
  case (Static_conf q)
  then have q: "static_conf_ok q" "f = pa_rule_static_get_max_priority r q"
    using assms(1,2) by (auto simp: conf_ok_def conf_rule_def static_rule_def pa_rule_init_def)
  obtain m v where "f c l = Some (m, c\<lparr>rule_mem := (rule_mem c)(r := v)\<rparr>)"
    unfolding q(2) by (rule static_max_ok [OF q(1) assms(3)])
  then show ?thesis by auto
qed (use assms(2) in \<open>auto simp: conf_rule_def pa_rule_init_def pa_rule_adopt_get_max_priority_def random_rule_def
    pa_rule_random_get_max_priority_def Let_def\<close>)

lemma conf_match_law:
  assumes env: "md5_ok md5" "length stk = 16" and k: "conf_ok (T r)" "match_fn (conf_rule md5 stk T r) = Some g" and c: "pa_inv c"
    and a: "armed (conf_rule md5 stk T r) r l c" and arg: "length (arg_prefix arg) = 16"
  shows "\<exists>t a c'. g c l bp arg = Some (t, a, c') \<and> env_step r c c' \<and> rule_target_ok c l t a \<and> length (arg_prefix a) = 16"
proof -
  obtain c0 c1 m where arm: "pa_inv c0" "rule_max_priority (conf_rule md5 stk T r) l c0 = Some (m, c1)" "m \<noteq> 0"
      "c = c1\<lparr>rands := rands c, rule_mem := rule_mem c\<rparr>" "rule_mem c r = rule_mem c1 r"
    using a unfolding armed_def by blast
  have ldp: "ldp_of c = ldp_of c1" by (subst arm(4)) simp
  show ?thesis
  proof (cases "T r")
    case (Adopt_conf q)
    then have g: "g = pa_rule_adopt_match q" using k(2) by (simp add: conf_rule_def pa_rule_init_def)
    have "assigned (ldp_of c l) \<and> best_assignment (ldp_of c l) = None \<and> \<not> published (ldp_of c l)"
      using arm(2,3) Adopt_conf unfolding ldp
      by (auto simp: rule_max_priority_def conf_rule_def pa_rule_init_def pa_rule_adopt_get_max_priority_def Let_def split: if_splits)
    then show ?thesis using g arg by (auto simp: pa_rule_adopt_match_def rule_target_ok_def)
  next
    case (Static_conf q)
    then have g: "g = pa_rule_static_match r q" "static_conf_ok q" using k by (simp_all add: conf_rule_def static_rule_def pa_rule_init_def conf_ok_def)
    obtain m' v where "pa_rule_static_get_max_priority r q c0 l = Some (m', c0\<lparr>rule_mem := (rule_mem c0)(r := v)\<rparr>)" "m' \<noteq> 0 \<Longrightarrow> pfx_ok (fst v) (snd v)"
      by (rule static_max_ok [OF g(2) arm(1), of r l]) (rule that)
    then have v: "rule_mem c r = v" "pfx_ok (fst v) (snd v)"
      using arm(2,3,5) Static_conf by (auto simp: rule_max_priority_def conf_rule_def static_rule_def pa_rule_init_def)
    obtain p where p: "pa_prefix_cpy (fst v) (snd v) (arg_prefix arg) = Some (p, snd v)" "pfx_ok p (snd v)"
      using pa_prefix_cpy_ok [OF v(2) arg] by blast
    show ?thesis
      using p arg v(1) g(1) by (auto simp: pa_rule_static_match_def rule_target_ok_def Let_def pfx_ok_def)
  next
    case (Random_conf q)
    then have g: "g = pa_rule_random_match md5 stk q" "random_conf_ok q" "\<And>c l cnt. random_desired_plen_cb q c l cnt mod 8 \<noteq> 0"
      using k by (simp_all add: conf_rule_def random_rule_def pa_rule_init_def conf_ok_def)
    obtain t a rs where "g c l bp arg = Some (t, a, c\<lparr>rands := rs\<rparr>)" "length (arg_prefix a) = 16" "random_target_ok stk q c l t a"
      using random_match_ok [OF c env(2,1) g(2) arg, of l bp] g(1,3) by (auto simp: whole_bytes_apart_def)
    then show ?thesis by (auto simp: rule_target_ok_def random_target_ok_def)
  qed
qed

interpretation table: pa_rule_contract "env_rules E"
proof -
  obtain md5 stk T where E: "Rep_rule_env E = (md5, stk, T)" by (metis prod_cases3)
  then have ok: "md5_ok md5" "length stk = 16" "\<And>i. conf_ok (T i)" using Rep_rule_env [of E] by auto
  show "pa_rule_contract (env_rules E)"
  proof
    show "\<exists>m c'. f c l = Some (m, c') \<and> env_step r c c'"
      if "get_max_priority (env_rules E r) = Some f" "pa_inv c" for r f c l
      using conf_max_law [of T r md5 stk f c l, OF ok(3)] that by (simp add: env_rules_def E)
    show "\<exists>t a c'. g c l bp arg = Some (t, a, c') \<and> env_step r c c' \<and> rule_target_ok c l t a \<and> length (arg_prefix a) = 16"
      if "match_fn (env_rules E r) = Some g" "pa_inv c" "armed (env_rules E r) r l c" "length (arg_prefix arg) = 16" for r g c l bp arg
      using conf_match_law [of md5 stk T r g c l arg bp, OF ok] that by (simp add: env_rules_def E)
  qed
qed

section \<open>Properties\<close>





text \<open>C28: When an available prefix has exactly the requested length and that is a whole number of bytes,
  \<open>pa_rule_prefix_nth\<close> copies no bits from position 32 of a 4 byte integer, and \<open>bmemcpy\<close> reads the byte
  after it: the access is outside the object.\<close>

theorem prefix_nth_reads_outside:
  assumes "pfx_ok p d" "d mod 8 = 0"
  shows "pa_rule_prefix_nth p d n d = None"
proof -
  obtain q where "pa_prefix_cpy p d (replicate 16 0) = Some (q, d)" using pa_prefix_cpy_ok [OF assms(1), of "replicate 16 0"] by auto
  then show ?thesis using assms(2) by (simp add: pa_rule_prefix_nth_def bmemcpy_shift_def bmemcpy_def bbytecpy_def rd_def)
qed

theorem prefix_nth_reads_outside_witness: "pa_rule_prefix_nth (replicate 16 0) 64 5 64 = None"
  using prefix_nth_reads_outside [of "replicate 16 0" 64 5] by (simp add: pfx_ok_def)

end
