(* ===== verification/PaFilters.thy ===== *)
theory PaFilters
  imports PaCore
begin

text \<open>
  The filters of src/src/pa_filters.c and src/src/pa_filters.h, which decide whether a rule applies to
  a link and delegated prefix pair.  A filter and its structure is a constructor; the accept functions
  of the composed filters go through the list in order.
\<close>

datatype pa_filter =
    Pa_filters_or "pa_filter list" bool
  | Pa_filters_and "pa_filter list" bool
  | Pa_filter_ldp "nat option" "nat option"
  | Pa_filter_type_dp u8
  | Pa_filter_type_link u8

definition pa_filter_ldp :: "nat option \<Rightarrow> nat option \<Rightarrow> pa_core \<Rightarrow> nat \<Rightarrow> bool" where
  "pa_filter_ldp lk d c l =
     (if lk \<noteq> None \<and> lk \<noteq> Some (ldp_link (ldp_of c l)) then False
      else if d \<noteq> None \<and> d \<noteq> Some (ldp_dp (ldp_of c l)) then False
      else True)"

definition pa_filter_type_dp :: "u8 \<Rightarrow> pa_core \<Rightarrow> nat \<Rightarrow> bool" where
  "pa_filter_type_dp ty c l \<longleftrightarrow> dp_type (dp_of c (ldp_dp (ldp_of c l))) = ty"

definition pa_filter_type_link :: "u8 \<Rightarrow> pa_core \<Rightarrow> nat \<Rightarrow> bool" where
  "pa_filter_type_link ty c l \<longleftrightarrow> link_type (link_of c (ldp_link (ldp_of c l))) = ty"

fun accept :: "pa_filter \<Rightarrow> pa_core \<Rightarrow> nat \<Rightarrow> bool"
  and pa_filters_or :: "pa_filter list \<Rightarrow> bool \<Rightarrow> pa_core \<Rightarrow> nat \<Rightarrow> bool"
  and pa_filters_and :: "pa_filter list \<Rightarrow> bool \<Rightarrow> pa_core \<Rightarrow> nat \<Rightarrow> bool" where
  "accept (Pa_filters_or fs negate) c l = pa_filters_or fs negate c l"
| "accept (Pa_filters_and fs negate) c l = pa_filters_and fs negate c l"
| "accept (Pa_filter_ldp lk d) c l = pa_filter_ldp lk d c l"
| "accept (Pa_filter_type_dp ty) c l = pa_filter_type_dp ty c l"
| "accept (Pa_filter_type_link ty) c l = pa_filter_type_link ty c l"
| "pa_filters_or [] negate c l = negate"
| "pa_filters_or (f # fs) negate c l = (if accept f c l then \<not> negate else pa_filters_or fs negate c l)"
| "pa_filters_and [] negate c l = (\<not> negate)"
| "pa_filters_and (f # fs) negate c l = (if \<not> accept f c l then negate else pa_filters_and fs negate c l)"

definition pa_rule_set_filter :: "pa_filter \<Rightarrow> pa_rule \<Rightarrow> pa_rule" where
  "pa_rule_set_filter f r = r\<lparr>filter_accept := Some (accept f)\<rparr>"

definition pa_rule_unset_filter :: "pa_rule \<Rightarrow> pa_rule" where
  "pa_rule_unset_filter r = r\<lparr>filter_accept := None\<rparr>"

text \<open>The filters are added at the head of a composed one.\<close>

definition pa_filters_init :: "(pa_filter list \<Rightarrow> bool \<Rightarrow> pa_filter) \<Rightarrow> bool \<Rightarrow> pa_filter" where
  "pa_filters_init k neg = k [] neg"

fun pa_filters_add :: "pa_filter \<Rightarrow> pa_filter \<Rightarrow> pa_filter" where
  "pa_filters_add (Pa_filters_or fs neg) f = Pa_filters_or (f # fs) neg"
| "pa_filters_add (Pa_filters_and fs neg) f = Pa_filters_and (f # fs) neg"
| "pa_filters_add g f = g"

section \<open>Lemmas: filters\<close>

lemma pa_filters_or_iff: "pa_filters_or fs neg c l \<longleftrightarrow> (\<exists>f \<in> set fs. accept f c l) \<noteq> neg"
  by (induction fs) auto

lemma pa_filters_and_iff: "pa_filters_and fs neg c l \<longleftrightarrow> (\<forall>f \<in> set fs. accept f c l) \<noteq> neg"
  by (induction fs) auto

lemma pa_filter_ldp_iff:
  "pa_filter_ldp lk d c l \<longleftrightarrow> (\<forall>x. lk = Some x \<longrightarrow> ldp_link (ldp_of c l) = x) \<and> (\<forall>y. d = Some y \<longrightarrow> ldp_dp (ldp_of c l) = y)"
  by (auto simp: pa_filter_ldp_def)

text \<open>C29: a composed filter accepts by the disjunction or the conjunction of its filters, inverted when
  it is negated, so NAND and NOR are the duals of AND and OR, whatever the order of the filters.\<close>

theorem filters_boolean:
  "(accept (Pa_filters_or fs neg) c l \<longleftrightarrow> list_ex (\<lambda>f. accept f c l) fs \<noteq> neg) \<and>
   (accept (Pa_filters_and fs neg) c l \<longleftrightarrow> list_all (\<lambda>f. accept f c l) fs \<noteq> neg) \<and>
   (accept (pa_filters_add (Pa_filters_or fs neg) f) c l \<longleftrightarrow> (accept f c l \<or> list_ex (\<lambda>f. accept f c l) fs) \<noteq> neg) \<and>
   (accept (pa_filters_add (Pa_filters_and fs neg) f) c l \<longleftrightarrow> (accept f c l \<and> list_all (\<lambda>f. accept f c l) fs) \<noteq> neg)"
  by (auto simp: pa_filters_or_iff pa_filters_and_iff list_ex_iff list_all_iff)

end
