(* ===== verification/PaStore.thy ===== *)
theory PaStore
  imports Prefix PaCore
begin

text \<open>
  The cache of applied prefixes of src/src/pa_store.c: the links and prefixes it remembers, the file
  it is saved in, the tokens that limit the writes, and the rule that proposes a cached prefix.

  The structures are in a store of links and prefixes by index; \<open>None\<close> is a freed one.  \<open>st_links\<close> and
  \<open>st_prefixes\<close> are the two lists of the store, head first, \<open>sl_prefixes\<close> the list of a link.  The
  macro \<open>list_entry(p->in_link.next, struct pa_store_link, prefixes)\<close> is \<open>owner\<close>: the successor of the
  last prefix of a link is the head in the link itself, and of any other prefix it is a prefix that is
  read as a link, which is undefined.  A file is the list of its lines; \<open>mallocs\<close> says which
  allocations succeed, \<open>writes\<close> which calls of \<open>fprintf\<close> do.  The functions of the operating system
  that read and write addresses are the parameters of \<open>Prefix\<close>.
\<close>

section \<open>Structures\<close>

definition PA_STORE_NAMELEN :: nat where "PA_STORE_NAMELEN = 50"
definition PA_STORE_WTOKENS_DEFAULT :: u32 where "PA_STORE_WTOKENS_DEFAULT = 10"
definition PA_STORE_WTOKENS_MAX :: u32 where "PA_STORE_WTOKENS_MAX = 100"
definition PREFIX_MAXBUFFLEN :: nat where "PREFIX_MAXBUFFLEN = 50"

definition ascii :: "string \<Rightarrow> bytes" where
  "ascii s = map (\<lambda>c. of_nat (of_char c)) s"

definition PA_STORE_PREFIX :: bytes where "PA_STORE_PREFIX = ascii ''prefix''"
definition PA_STORE_WTOKEN :: bytes where "PA_STORE_WTOKEN = ascii ''write_tokens''"

definition PA_STORE_BANNER :: "bytes list" where
  "PA_STORE_BANNER = map (\<lambda>s. ascii s @ [0x0a])
     [''# Prefix Assignment Algorithm Storage Module File.'', ''# This file was generated automatically.'',
      ''# Do not modify unless you know what you are doing.'', ''# Do not modify while the process is running as'',
      ''# modifications will be overridden.'', '''']"

record pa_store_prefix =
  sp_prefix :: bytes
  sp_plen :: nat

record pa_store_link =
  sl_link :: "nat option"
  sl_name :: bytes
  sl_max_prefixes :: u32
  sl_prefixes :: "nat list"
  sl_n_prefixes :: u32

record pa_store =
  st_links :: "nat list"
  st_prefixes :: "nat list"
  st_max_prefixes :: u32
  st_n_prefixes :: u32
  filepath :: "bytes option"
  pending_changes :: bool
  save_delay :: u32
  save_timer :: "u32 option"
  token_count :: u32
  token_delay :: u32
  token_timer :: "u32 option"
  link_at :: "nat \<Rightarrow> pa_store_link option"
  prefix_at :: "nat \<Rightarrow> pa_store_prefix option"
  next_link :: nat
  next_prefix :: nat
  mallocs :: "bool list"

definition set_link :: "nat \<Rightarrow> (pa_store_link \<Rightarrow> pa_store_link) \<Rightarrow> pa_store \<Rightarrow> pa_store" where
  "set_link l f st = st\<lparr>link_at := (link_at st)(l := map_option f (link_at st l))\<rparr>"

definition malloc_ok :: "pa_store \<Rightarrow> bool \<times> pa_store" where
  "malloc_ok st = (case mallocs st of [] \<Rightarrow> (True, st) | b # bs \<Rightarrow> (b, st\<lparr>mallocs := bs\<rparr>))"

section \<open>The cache\<close>

text \<open>The result is \<open>None\<close> for a null pointer; the copied name must fit.\<close>

definition pa_store_link_goc :: "bytes \<Rightarrow> bool \<Rightarrow> pa_store \<Rightarrow> (nat option \<times> pa_store) option" where
  "pa_store_link_goc name create st =
     (case find (\<lambda>l. map_option sl_name (link_at st l) = Some name) (st_links st) of
        Some l \<Rightarrow> Some (Some l, st)
      | None \<Rightarrow>
          if \<not> create then Some (None, st)
          else (case malloc_ok st of (ok, st) \<Rightarrow>
                  if \<not> ok then Some (None, st)
                  else if length name \<ge> PA_STORE_NAMELEN then None
                  else let l = next_link st
                       in Some (Some l, st\<lparr>next_link := l + 1, st_links := l # st_links st,
                            link_at := (link_at st)(l := Some \<lparr>sl_link = None, sl_name = name, sl_max_prefixes = 0,
                              sl_prefixes = [], sl_n_prefixes = 0\<rparr>)\<rparr>)))"

definition pa_store_updated :: "pa_store \<Rightarrow> pa_store" where
  "pa_store_updated st =
     (let st = st\<lparr>pending_changes := True\<rparr>
      in if filepath st \<noteq> None \<and> token_count st \<noteq> 0 \<and> save_timer st = None
         then st\<lparr>save_timer := Some (save_delay st)\<rparr> else st)"

definition pa_store_private_link_destroy :: "nat \<Rightarrow> pa_store \<Rightarrow> pa_store" where
  "pa_store_private_link_destroy l st = st\<lparr>st_links := remove1 l (st_links st), link_at := (link_at st)(l := None)\<rparr>"

definition pa_store_uncache :: "nat \<Rightarrow> nat \<Rightarrow> pa_store \<Rightarrow> pa_store option" where
  "pa_store_uncache l p st =
     do { x \<leftarrow> link_at st l;
          let x = x\<lparr>sl_prefixes := remove1 p (sl_prefixes x), sl_n_prefixes := sl_n_prefixes x - 1\<rparr>;
          let st = st\<lparr>link_at := (link_at st)(l := Some x), st_prefixes := remove1 p (st_prefixes st),
                      st_n_prefixes := st_n_prefixes st - 1\<rparr>;
          let st = (if sl_n_prefixes x = 0 \<and> sl_link x = None then pa_store_private_link_destroy l st else st);
          Some (pa_store_updated (st\<lparr>prefix_at := (prefix_at st)(p := None)\<rparr>)) }"

definition pa_store_uncache_last_from_link :: "nat \<Rightarrow> pa_store \<Rightarrow> pa_store option" where
  "pa_store_uncache_last_from_link l st =
     do { x \<leftarrow> link_at st l;
          if sl_prefixes x = [] then None else pa_store_uncache l (last (sl_prefixes x)) st }"

definition owner :: "pa_store \<Rightarrow> nat \<Rightarrow> nat option" where
  "owner st p =
     find (\<lambda>l. case link_at st l of None \<Rightarrow> False | Some x \<Rightarrow> sl_prefixes x \<noteq> [] \<and> last (sl_prefixes x) = p) (st_links st)"

definition pa_store_uncache_last_from_store :: "pa_store \<Rightarrow> pa_store option" where
  "pa_store_uncache_last_from_store st =
     (if st_prefixes st = [] then None
      else do { l \<leftarrow> owner st (last (st_prefixes st)); pa_store_uncache l (last (st_prefixes st)) st })"

text \<open>The first prefix of the list that is equal to the given one.\<close>

fun cached :: "pa_store \<Rightarrow> bytes \<Rightarrow> nat \<Rightarrow> nat list \<Rightarrow> nat option option" where
  "cached st pfx len [] = Some None"
| "cached st pfx len (p # ps) =
     do { x \<leftarrow> prefix_at st p;
          b \<leftarrow> pa_prefix_equals pfx len (sp_prefix x) (sp_plen x);
          if b then Some (Some p) else cached st pfx len ps }"

definition pa_store_cache :: "bytes \<Rightarrow> nat \<Rightarrow> bytes \<Rightarrow> nat \<Rightarrow> pa_store \<Rightarrow> (pa_store \<times> int) option" where
  "pa_store_cache stk l pfx len st =
     do { x \<leftarrow> link_at st l;
          r \<leftarrow> cached st pfx len (sl_prefixes x);
          (case r of
             Some p \<Rightarrow>
               (let st = st\<lparr>st_prefixes := p # remove1 p (st_prefixes st)\<rparr>
                in if hd (sl_prefixes x) \<noteq> p
                   then Some (pa_store_updated (set_link l (sl_prefixes_update (\<lambda>ps. p # remove1 p ps)) st), 0)
                   else Some (st, 0))
           | None \<Rightarrow>
               (case malloc_ok st of (ok, st) \<Rightarrow>
                  if \<not> ok then Some (st, -1)
                  else do {
                    (pp, pn) \<leftarrow> pa_prefix_cpy pfx len stk;
                    let p = next_prefix st;
                    let x = x\<lparr>sl_prefixes := p # sl_prefixes x, sl_n_prefixes := sl_n_prefixes x + 1\<rparr>;
                    let st = st\<lparr>next_prefix := p + 1, prefix_at := (prefix_at st)(p := Some \<lparr>sp_prefix = pp, sp_plen = pn\<rparr>),
                                link_at := (link_at st)(l := Some x), st_prefixes := p # st_prefixes st,
                                st_n_prefixes := st_n_prefixes st + 1\<rparr>;
                    st \<leftarrow> (if sl_max_prefixes x \<noteq> 0 \<and> sl_n_prefixes x > sl_max_prefixes x
                            then pa_store_uncache_last_from_link l st else Some st);
                    st \<leftarrow> (if st_max_prefixes st \<noteq> 0 \<and> st_n_prefixes st > st_max_prefixes st
                            then pa_store_uncache_last_from_store st else Some st);
                    Some (pa_store_updated st, 0) })) }"

definition pa_store_applied_cb :: "bytes \<Rightarrow> pa_ldp \<Rightarrow> pa_store \<Rightarrow> pa_store option" where
  "pa_store_applied_cb stk x st =
     (if \<not> applied x then Some st
      else case find (\<lambda>l. map_option sl_link (link_at st l) = Some (Some (ldp_link x))) (st_links st) of
             None \<Rightarrow> Some st
           | Some l \<Rightarrow> map_option fst (pa_store_cache stk l (ldp_prefix x) (ldp_plen x) st))"

text \<open>The loop that removes the prefixes above the limit of the link.\<close>

partial_function (option) trim_link :: "nat \<Rightarrow> pa_store \<Rightarrow> pa_store option" where [code]:
  "trim_link l st =
     do { x \<leftarrow> link_at st l;
          if sl_n_prefixes x > sl_max_prefixes x
          then do { st \<leftarrow> pa_store_uncache_last_from_link l st; trim_link l st }
          else Some st }"

text \<open>
  The link is added by its index; its structure is the one of the caller.  The splice leaves the list
  of another link of the same name that is not private broken, so that case is undefined.
\<close>

definition pa_store_link_add :: "nat \<Rightarrow> pa_store \<Rightarrow> pa_store option" where
  "pa_store_link_add l st =
     do { x \<leftarrow> link_at st l;
          let st = st\<lparr>link_at := (link_at st)(l := Some (x\<lparr>sl_prefixes := [], sl_n_prefixes := 0\<rparr>))\<rparr>;
          (r, st) \<leftarrow> pa_store_link_goc (sl_name x) False st;
          st \<leftarrow> (case r of
                    None \<Rightarrow> Some st
                  | Some l' \<Rightarrow>
                      do { y \<leftarrow> link_at st l';
                           if sl_link y \<noteq> None then None
                           else (let st = set_link l (\<lambda>x. x\<lparr>sl_prefixes := sl_prefixes y, sl_n_prefixes := sl_n_prefixes y\<rparr>) st;
                                     st = pa_store_private_link_destroy l' st
                                 in if sl_max_prefixes x \<noteq> 0 then trim_link l st else Some st) });
          Some (st\<lparr>st_links := l # st_links st\<rparr>) }"

text \<open>
  Without a link to keep the prefixes in, the loop reads the successor of a prefix it has freed.
\<close>

definition pa_store_link_remove :: "nat \<Rightarrow> pa_store \<Rightarrow> pa_store option" where
  "pa_store_link_remove l st =
     do { x \<leftarrow> link_at st l;
          let st = st\<lparr>st_links := remove1 l (st_links st)\<rparr>;
          if sl_n_prefixes x = 0 then Some st
          else do { (r, st) \<leftarrow> (if sl_name x \<noteq> [] then pa_store_link_goc (sl_name x) True st else Some (None, st));
                    (case r of
                       None \<Rightarrow> None
                     | Some l' \<Rightarrow>
                         do { y \<leftarrow> link_at st l';
                              let st = set_link l' (\<lambda>y. y\<lparr>sl_prefixes := sl_prefixes x @ sl_prefixes y,
                                                          sl_n_prefixes := sl_n_prefixes x\<rparr>) st;
                              if sl_max_prefixes y \<noteq> 0 then trim_link l' st else Some st }) } }"

section \<open>The file\<close>

text \<open>
  \<open>pa_store_getwords\<close> cuts the line in place; the words are the positions of their first characters.
\<close>

definition is_blank :: "u8 \<Rightarrow> bool" where
  "is_blank c \<longleftrightarrow> c = 0x20 \<or> c = 0x0a \<or> c = 0x09"

function getwords_loop :: "bytes \<Rightarrow> nat option list \<Rightarrow> nat \<Rightarrow> nat \<Rightarrow> bool \<Rightarrow> (bytes \<times> nat option list) option" where
  "getwords_loop line words i pos reading =
     (if pos \<ge> length line then None
      else if line ! pos = 0 then Some (line, words)
      else if is_blank (line ! pos)
      then getwords_loop (if reading then line[pos := 0] else line) words i (pos + 1) False
      else if \<not> reading
      then getwords_loop line (if i < length words then words[i := Some pos] else words) (i + 1) (pos + 1) True
      else getwords_loop line words i (pos + 1) True)"
  by pat_completeness auto
termination by (relation "measure (\<lambda>(line, _, _, pos, _). length line - pos)") (auto split: if_splits)

definition pa_store_getwords :: "bytes \<Rightarrow> nat \<Rightarrow> (bytes \<times> nat option list) option" where
  "pa_store_getwords line nwords = getwords_loop line (replicate nwords None) 0 0 False"

text \<open>The word at a position of the line that was cut.\<close>

definition word_at :: "bytes \<Rightarrow> nat option \<Rightarrow> bytes option option" where
  "word_at line w = (case w of None \<Rightarrow> Some None | Some pos \<Rightarrow> do { s \<leftarrow> cstr (drop pos line); Some (Some s) })"

text \<open>
  \<open>sscanf("%u")\<close>: white space, a sign, digits; the value is that of \<open>strtoul\<close>, cut to 32 bits.
\<close>

definition is_space :: "u8 \<Rightarrow> bool" where
  "is_space c \<longleftrightarrow> c = 0x20 \<or> (0x09 \<le> c \<and> c \<le> 0x0d)"

definition sscanf_u32 :: "bytes \<Rightarrow> u32 option" where
  "sscanf_u32 str =
     (let str = dropWhile is_space str;
          neg = (str \<noteq> [] \<and> hd str = 0x2d);
          str = (if str \<noteq> [] \<and> (hd str = 0x2d \<or> hd str = 0x2b) then tl str else str);
          ds = takeWhile is_digit str;
          v = atoi ds
      in if ds = [] then None
         else Some (if v \<ge> 2 ^ 64 then 0xffffffff else if neg then - of_nat v else of_nat v))"

text \<open>One line of \<open>pa_store_load\<close>; the result says whether the line is in error.\<close>

definition load_line ::
  "(bytes \<Rightarrow> bytes option) \<Rightarrow> (bytes \<Rightarrow> bytes option) \<Rightarrow> bytes \<Rightarrow> bytes \<Rightarrow> pa_store \<Rightarrow> (pa_store \<times> bool) option" where
  "load_line pton4 pton6 stk line st =
     do { (line, words) \<leftarrow> pa_store_getwords (line @ [0]) 4;
          w0 \<leftarrow> word_at line (words ! 0);
          w1 \<leftarrow> word_at line (words ! 1);
          w2 \<leftarrow> word_at line (words ! 2);
          w3 \<leftarrow> word_at line (words ! 3);
          (case w0 of
             None \<Rightarrow> Some (st, False)
           | Some t \<Rightarrow>
               if t \<noteq> [] \<and> hd t = 0x23 then Some (st, False)
               else if t = PA_STORE_PREFIX
               then (case (w1, w2) of
                       (Some name, Some txt) \<Rightarrow>
                         if (case w3 of None \<Rightarrow> False | Some s \<Rightarrow> s = [] \<or> hd s \<noteq> 0x23) then Some (st, True)
                         else (case prefix_pton pton4 pton6 txt stk 0 of (ok, px, pl) \<Rightarrow>
                                 if \<not> ok then Some (st, True)
                                 else if length name \<ge> PA_STORE_NAMELEN then Some (st, True)
                                 else do { (l, st) \<leftarrow> pa_store_link_goc name True st;
                                           (case l of
                                              None \<Rightarrow> Some (st, True)
                                            | Some l \<Rightarrow> do { (st, _) \<leftarrow> pa_store_cache stk l px (unat pl) st; Some (st, False) }) })
                     | _ \<Rightarrow> Some (st, True))
               else if t = PA_STORE_WTOKEN
               then (case w1 of
                       None \<Rightarrow> Some (st, True)
                     | Some s \<Rightarrow> Some (st, sscanf_u32 s = None))
               else Some (st, True)) }"

fun load_loop ::
  "(bytes \<Rightarrow> bytes option) \<Rightarrow> (bytes \<Rightarrow> bytes option) \<Rightarrow> bytes \<Rightarrow> bytes list \<Rightarrow> int \<Rightarrow> pa_store \<Rightarrow> (pa_store \<times> int) option" where
  "load_loop pton4 pton6 stk [] err st = Some (st, err)"
| "load_loop pton4 pton6 stk (line # ls) err st =
     do { (st, bad) \<leftarrow> load_line pton4 pton6 stk line st;
          load_loop pton4 pton6 stk ls (if bad then -1 else err) st }"

text \<open>\<open>file\<close> is \<open>None\<close> when the file cannot be opened.\<close>

definition pa_store_load ::
  "(bytes \<Rightarrow> bytes option) \<Rightarrow> (bytes \<Rightarrow> bytes option) \<Rightarrow> bytes \<Rightarrow> bytes list option \<Rightarrow> pa_store \<Rightarrow> (pa_store \<times> int) option" where
  "pa_store_load pton4 pton6 stk file st =
     (case file of None \<Rightarrow> Some (st, -1) | Some ls \<Rightarrow> load_loop pton4 pton6 stk ls 0 st)"

text \<open>A call of \<open>fprintf\<close>: the line is added to the file if the call succeeds.\<close>

definition fprintf :: "bytes list \<Rightarrow> bool list \<times> bytes list \<Rightarrow> bool \<times> bool list \<times> bytes list" where
  "fprintf ls f = (case f of ([], out) \<Rightarrow> (True, [], out @ ls) | (b # ws, out) \<Rightarrow> (b, ws, if b then out @ ls else out))"

definition pa_prefix_tostring :: "(bytes \<Rightarrow> bytes) \<Rightarrow> (bytes \<Rightarrow> bytes) \<Rightarrow> bytes \<Rightarrow> nat \<Rightarrow> bytes option" where
  "pa_prefix_tostring ntop4 ntop6 p n =
     do { (d, ok) \<leftarrow> prefix_ntopc ntop4 ntop6 (replicate PREFIX_MAXBUFFLEN 0) PREFIX_MAXBUFFLEN p (of_nat n);
          if ok then cstr d else None }"

text \<open>The loop over the prefixes of the store, the oldest first.\<close>

fun save_loop ::
  "(bytes \<Rightarrow> bytes) \<Rightarrow> (bytes \<Rightarrow> bytes) \<Rightarrow> nat list \<Rightarrow> int \<Rightarrow> bool list \<times> bytes list \<Rightarrow> pa_store \<Rightarrow>
   (pa_store \<times> int \<times> bytes list) option" where
  "save_loop ntop4 ntop6 [] err f st = Some (st, err, snd f)"
| "save_loop ntop4 ntop6 (p # ps) err f st =
     do { l \<leftarrow> owner st p;
          x \<leftarrow> link_at st l;
          if sl_name x = [] then save_loop ntop4 ntop6 ps err f st
          else do { y \<leftarrow> prefix_at st p;
                    txt \<leftarrow> pa_prefix_tostring ntop4 ntop6 (sp_prefix y) (sp_plen y);
                    let (ok, f) = (if err = 0
                                   then fprintf [PA_STORE_PREFIX @ [0x20] @ sl_name x @ [0x20] @ txt @ [0x0a]] f else (True, f));
                    save_loop ntop4 ntop6 ps (if ok then err else -2) f
                      (set_link l (sl_prefixes_update (\<lambda>ps. p # remove1 p ps)) st) } }"

text \<open>\<open>can_open\<close>: the file can be opened.  The result is the code and what is written, if anything is.\<close>

definition pa_store_save ::
  "(bytes \<Rightarrow> bytes) \<Rightarrow> (bytes \<Rightarrow> bytes) \<Rightarrow> bool \<Rightarrow> bool list \<Rightarrow> pa_store \<Rightarrow> (pa_store \<times> int \<times> bytes list option) option" where
  "pa_store_save ntop4 ntop6 can_open writes st =
     (if filepath st = None then Some (st, -1, None)
      else if \<not> can_open then Some (st, -1, None)
      else case fprintf PA_STORE_BANNER (writes, []) of (ok, f) \<Rightarrow>
             if \<not> ok then Some (st, -1, Some (snd f))
             else case fprintf [PA_STORE_WTOKEN @ [0x20] @ dec (unat (token_count st)) @ [0x0a]] f of (ok, f) \<Rightarrow>
                    do { (st, err, out) \<leftarrow> save_loop ntop4 ntop6 (rev (st_prefixes st)) (if ok then 0 else -3) f st;
                         Some (st, err, Some out) })"

text \<open>The timers; the timer is not pending any more when its function is called.\<close>

definition pa_save_to ::
  "(bytes \<Rightarrow> bytes) \<Rightarrow> (bytes \<Rightarrow> bytes) \<Rightarrow> bool \<Rightarrow> bool list \<Rightarrow> pa_store \<Rightarrow> (pa_store \<times> int \<times> bytes list option) option" where
  "pa_save_to ntop4 ntop6 can_open writes st =
     pa_store_save ntop4 ntop6 can_open writes
       (st\<lparr>save_timer := None, pending_changes := False, token_count := token_count st - 1\<rparr>)"

definition pa_token_to :: "pa_store \<Rightarrow> pa_store" where
  "pa_token_to st =
     (let st = st\<lparr>token_timer := None\<rparr>
      in if token_count st = PA_STORE_WTOKENS_MAX then st
         else let st = st\<lparr>token_count := token_count st + 1\<rparr>;
                  st = (if pending_changes st then pa_store_updated st else st)
              in st\<lparr>token_timer := Some (token_delay st)\<rparr>)"

definition pa_store_term :: "pa_store \<Rightarrow> pa_store" where
  "pa_store_term st =
     (let st = st\<lparr>prefix_at := (\<lambda>p. if p \<in> set (st_prefixes st) then None else prefix_at st p)\<rparr>;
          st = st\<lparr>link_at := (\<lambda>l. if l \<in> set (st_links st) \<and> map_option sl_link (link_at st l) = Some None then None else link_at st l)\<rparr>
      in st\<lparr>save_timer := None, token_timer := None\<rparr>)"

text \<open>
  The search for the token counter; \<open>Inl\<close> is a malformed entry.
\<close>

fun token_line :: "bytes list \<Rightarrow> (unit + u32) option" where
  "token_line [] = Some (Inr PA_STORE_WTOKENS_DEFAULT)"
| "token_line (line # ls) =
     do { (line, words) \<leftarrow> pa_store_getwords (line @ [0]) 2;
          w0 \<leftarrow> word_at line (words ! 0);
          w1 \<leftarrow> word_at line (words ! 1);
          if w0 = Some PA_STORE_WTOKEN
          then (case w1 of
                  None \<Rightarrow> Some (Inl ())
                | Some s \<Rightarrow> Some (case sscanf_u32 s of None \<Rightarrow> Inl () | Some n \<Rightarrow> Inr n))
          else token_line ls }"

text \<open>\<open>can_write\<close>: the file can be opened for writing; \<open>file\<close>: its content when it can be read.\<close>

definition pa_store_set_file ::
  "bytes \<Rightarrow> bool \<Rightarrow> bytes list option \<Rightarrow> u32 \<Rightarrow> u32 \<Rightarrow> pa_store \<Rightarrow> (pa_store \<times> int) option" where
  "pa_store_set_file path can_write file sdelay tdelay st =
     (let st = st\<lparr>save_timer := None, token_timer := None\<rparr>
      in if \<not> can_write then Some (st\<lparr>filepath := None\<rparr>, -1)
         else case file of
                None \<Rightarrow> Some (st, -1)
              | Some ls \<Rightarrow>
                  do { r \<leftarrow> token_line ls;
                       (case r of
                          Inl _ \<Rightarrow> Some (st, -1)
                        | Inr n \<Rightarrow> Some (st\<lparr>token_count := n, save_delay := sdelay, token_delay := tdelay, filepath := Some path,
                                          pending_changes := False, token_timer := Some tdelay\<rparr>, 0)) })"

definition pa_store_init :: "u32 \<Rightarrow> pa_store \<Rightarrow> pa_store" where
  "pa_store_init max_pfx st =
     st\<lparr>st_max_prefixes := max_pfx, st_links := [], st_prefixes := [], filepath := None, st_n_prefixes := 0,
        pending_changes := False, save_timer := None, token_timer := None, token_count := 0\<rparr>"

section \<open>The rule\<close>

record pa_store_rule =
  store_rule_priority :: u16
  store_priority :: u8
  get_plen_range :: "(pa_core \<Rightarrow> nat \<Rightarrow> nat \<times> nat) option"

definition pa_store_get_max_priority :: "pa_store \<Rightarrow> pa_store_rule \<Rightarrow> pa_core \<Rightarrow> nat \<Rightarrow> (u16 \<times> pa_core) option" where
  "pa_store_get_max_priority st r c l =
     (let x = ldp_of c l
      in if best_assignment x \<noteq> None \<or> published x then Some (0, c)
         else case find (\<lambda>l. map_option sl_link (link_at st l) = Some (Some (ldp_link x))) (st_links st) of
                None \<Rightarrow> Some (0, c)
              | Some s \<Rightarrow> do { y \<leftarrow> link_at st s;
                                Some (if sl_n_prefixes y \<noteq> 0 then store_rule_priority r else 0, c) })"

fun store_match_loop :: "pa_store \<Rightarrow> pa_core \<Rightarrow> nat \<Rightarrow> nat \<Rightarrow> nat \<Rightarrow> nat list \<Rightarrow> pa_store_prefix option option" where
  "store_match_loop st c l mn mx [] = Some None"
| "store_match_loop st c l mn mx (p # ps) =
     do { y \<leftarrow> prefix_at st p;
          let d = dp_of c (ldp_dp (ldp_of c l));
          if sp_plen y \<ge> dp_plen d \<and> sp_plen y \<ge> mn \<and> sp_plen y \<le> mx
          then do { b \<leftarrow> pa_prefix_contains (dp_prefix d) (dp_plen d) (sp_prefix y);
                    v \<leftarrow> (if b then pa_rule_valid_assignment c l (sp_prefix y) (sp_plen y) 0 0 False else Some False);
                    if v then Some (Some y) else store_match_loop st c l mn mx ps }
          else store_match_loop st c l mn mx ps }"

definition pa_store_match ::
  "pa_store \<Rightarrow> pa_store_rule \<Rightarrow> pa_core \<Rightarrow> nat \<Rightarrow> u16 \<Rightarrow> pa_rule_arg \<Rightarrow> (pa_rule_target \<times> pa_rule_arg \<times> pa_core) option" where
  "pa_store_match st r c l best_match_priority arg =
     (let arg = arg\<lparr>arg_priority := store_priority r, arg_rule_priority := store_rule_priority r\<rparr>;
          (mn, mx) = (case get_plen_range r of None \<Rightarrow> (0, 255) | Some f \<Rightarrow> f c l)
      in do { s \<leftarrow> find (\<lambda>s. map_option sl_link (link_at st s) = Some (Some (ldp_link (ldp_of c l)))) (st_links st);
              x \<leftarrow> link_at st s;
              r \<leftarrow> store_match_loop st c l mn mx (sl_prefixes x);
              (case r of
                 None \<Rightarrow> Some (PA_RULE_NO_MATCH, arg, c)
               | Some y \<Rightarrow>
                   if \<not> backoff (ldp_of c l) then Some (PA_RULE_BACKOFF, arg, c)
                   else do { (p, n) \<leftarrow> pa_prefix_cpy (sp_prefix y) (sp_plen y) (arg_prefix arg);
                             Some (PA_RULE_PUBLISH, arg\<lparr>arg_prefix := p, arg_plen := n\<rparr>, c) }) })"

definition pa_store_rule_init :: "pa_store_rule \<Rightarrow> pa_store_rule" where
  "pa_store_rule_init r = r\<lparr>get_plen_range := None\<rparr>"

definition store_rule :: "pa_store \<Rightarrow> pa_store_rule \<Rightarrow> pa_rule" where
  "store_rule st r =
     \<lparr>filter_accept = None, get_max_priority = Some (pa_store_get_max_priority st r), max_priority = 0,
      match_fn = Some (pa_store_match st r)\<rparr>"

text \<open>The store hears of the prefixes that are applied as the user \<open>u\<close> of the core.\<close>

definition pa_store_bind :: "nat \<Rightarrow> pa_core \<Rightarrow> pa_core" where
  "pa_store_bind u c = c\<lparr>users := u # users c\<rparr>"

definition pa_store_unbind :: "nat \<Rightarrow> pa_core \<Rightarrow> pa_core" where
  "pa_store_unbind u c = c\<lparr>users := remove1 u (users c)\<rparr>"

section \<open>Steps\<close>

text \<open>
  The calls that change a store, with the outcome of the operating system calls they make: the
  callback of the core, the calls of the user and the two timers, which run only when they are set.
  A file that is opened has a counter of at most the maximum, as one that the store wrote.
\<close>

inductive store_step :: "pa_store \<Rightarrow> pa_store \<Rightarrow> bool" where
  step_cache: "pa_store_cache stk l p n st = Some (st', r) \<Longrightarrow> store_step st st'"
| step_applied: "pa_store_applied_cb stk x st = Some st' \<Longrightarrow> store_step st st'"
| step_link_add: "pa_store_link_add l st = Some st' \<Longrightarrow> store_step st st'"
| step_link_remove: "pa_store_link_remove l st = Some st' \<Longrightarrow> store_step st st'"
| step_load: "pa_store_load pton4 pton6 stk content st = Some (st', r) \<Longrightarrow> store_step st st'"
| step_save: "pa_store_save ntop4 ntop6 can_open writes st = Some (st', r, out) \<Longrightarrow> store_step st st'"
| step_set_file: "(\<And>ls n. content = Some ls \<Longrightarrow> token_line ls = Some (Inr n) \<Longrightarrow> n \<le> PA_STORE_WTOKENS_MAX) \<Longrightarrow>
    pa_store_set_file path can_write content sd td st = Some (st', r) \<Longrightarrow> store_step st st'"
| step_save_to: "save_timer st \<noteq> None \<Longrightarrow> pa_save_to ntop4 ntop6 can_open writes st = Some (st', r, out) \<Longrightarrow> store_step st st'"
| step_token_to: "token_timer st \<noteq> None \<Longrightarrow> store_step st (pa_token_to st)"
| step_term: "store_step st (pa_store_term st)"

text \<open>The number of tokens is bounded, and a pending save has a token to spend.\<close>

definition tokens_ok :: "pa_store \<Rightarrow> bool" where
  "tokens_ok st \<longleftrightarrow> token_count st \<le> PA_STORE_WTOKENS_MAX \<and> (save_timer st \<noteq> None \<longrightarrow> token_count st \<noteq> 0 \<and> filepath st \<noteq> None)"

text \<open>What the operations on the cache leave of the timers: at most the save timer is set, with a token.\<close>

definition kept :: "pa_store \<Rightarrow> pa_store \<Rightarrow> bool" where
  "kept st st' \<longleftrightarrow> token_count st' = token_count st \<and> filepath st' = filepath st \<and> token_timer st' = token_timer st \<and>
     token_delay st' = token_delay st \<and>
     (save_timer st' = save_timer st \<or> token_count st \<noteq> 0 \<and> filepath st \<noteq> None)"

text \<open>An empty store.\<close>

definition zero_store :: pa_store where
  "zero_store = \<lparr>st_links = [], st_prefixes = [], st_max_prefixes = 0, st_n_prefixes = 0, filepath = None, pending_changes = False,
     save_delay = 0, save_timer = None, token_count = 0, token_delay = 0, token_timer = None, link_at = (\<lambda>_. None),
     prefix_at = (\<lambda>_. None), next_link = 0, next_prefix = 0, mallocs = []\<rparr>"

section \<open>Lemmas: tokens\<close>

lemma kept_refl [simp]: "kept st st"
  by (simp add: kept_def)

lemma kept_trans: "kept a b \<Longrightarrow> kept b c \<Longrightarrow> kept a c"
  by (auto simp: kept_def)

lemma kept_upd [simp]:
  "kept (st\<lparr>next_prefix := a\<rparr>) s = kept st s" "kept (st\<lparr>prefix_at := b\<rparr>) s = kept st s" "kept (st\<lparr>link_at := c\<rparr>) s = kept st s"
  "kept (st\<lparr>st_prefixes := d\<rparr>) s = kept st s" "kept (st\<lparr>st_n_prefixes := e\<rparr>) s = kept st s" "kept (st\<lparr>st_links := f\<rparr>) s = kept st s"
  "kept s (st\<lparr>next_prefix := a\<rparr>) = kept s st" "kept s (st\<lparr>prefix_at := b\<rparr>) = kept s st" "kept s (st\<lparr>link_at := c\<rparr>) = kept s st"
  "kept s (st\<lparr>st_prefixes := d\<rparr>) = kept s st" "kept s (st\<lparr>st_n_prefixes := e\<rparr>) = kept s st" "kept s (st\<lparr>st_links := f\<rparr>) = kept s st"
  by (auto simp: kept_def)

lemma kept_tokens: "kept st st' \<Longrightarrow> tokens_ok st \<Longrightarrow> tokens_ok st'"
  by (auto simp: kept_def tokens_ok_def)

lemma updated_kept: "kept st st' \<Longrightarrow> kept st (pa_store_updated st')"
  by (auto simp: kept_def pa_store_updated_def Let_def)

lemma malloc_kept: "malloc_ok st = (b, st') \<Longrightarrow> kept st st'"
  by (auto simp: malloc_ok_def kept_def split: list.splits)

lemma set_link_kept [simp]: "kept st (set_link l f st') = kept st st'" "kept (set_link l f st) st' = kept st st'"
  by (simp_all add: set_link_def)

lemma uncache_kept: "pa_store_uncache l p st = Some st' \<Longrightarrow> kept st st'"
  by (auto simp: pa_store_uncache_def pa_store_private_link_destroy_def Let_def kept_def pa_store_updated_def
      split: bind_splits if_splits)

lemma uncache_last_kept:
  "pa_store_uncache_last_from_link l st = Some st' \<Longrightarrow> kept st st'"
  "pa_store_uncache_last_from_store st = Some st' \<Longrightarrow> kept st st'"
  by (auto simp: pa_store_uncache_last_from_link_def pa_store_uncache_last_from_store_def split: bind_splits if_splits
      dest: uncache_kept)

lemma link_goc_kept: "pa_store_link_goc name create st = Some (r, st') \<Longrightarrow> kept st st'"
  by (auto simp: pa_store_link_goc_def Let_def kept_def malloc_ok_def split: option.splits if_splits prod.splits list.splits)

lemma trim_kept: "trim_link l st = Some st' \<Longrightarrow> kept st st'"
proof (rule trim_link.raw_induct [where P = "\<lambda>l st st'. kept st st'"])
  fix trim l st st'
  assume IH: "\<And>l st st'. trim l st = Some st' \<Longrightarrow> kept st st'"
    and step: "do { x \<leftarrow> link_at st l;
          if sl_n_prefixes x > sl_max_prefixes x then do { st \<leftarrow> pa_store_uncache_last_from_link l st; trim l st } else Some st } = Some st'"
  then show "kept st st'"
    by (auto split: bind_splits if_splits intro: kept_trans dest!: uncache_last_kept(1) IH)
qed

lemma cache_kept:
  assumes "pa_store_cache stk l p n st = Some (st', r)"
  shows "kept st st'"
proof -
  obtain x q where xq: "link_at st l = Some x" "cached st p n (sl_prefixes x) = Some q"
    using assms by (auto simp: pa_store_cache_def split: bind_splits)
  show ?thesis
  proof (cases q)
    case (Some k)
    have "kept st (st\<lparr>st_prefixes := k # remove1 k (st_prefixes st)\<rparr>)" by (simp add: kept_def)
    then show ?thesis using assms xq Some by (auto simp: pa_store_cache_def Let_def updated_kept split: if_splits)
  next
    case None
    obtain ok st1 where m: "malloc_ok st = (ok, st1)" by fastforce
    note k1 = malloc_kept [OF m]
    show ?thesis
    proof (cases ok)
      case False
      then show ?thesis using assms xq None m k1 by (simp add: pa_store_cache_def)
    next
      case True
      have "kept st1 st'"
        using assms xq None m True
        by (auto simp: pa_store_cache_def Let_def split: bind_splits if_splits dest!: uncache_last_kept intro!: updated_kept)
          (rule kept_trans)
      then show ?thesis by (rule kept_trans [OF k1])
    qed
  qed
qed

lemma applied_kept: "pa_store_applied_cb stk x st = Some st' \<Longrightarrow> kept st st'"
  by (auto simp: pa_store_applied_cb_def split: if_splits option.splits dest: cache_kept)

lemma link_add_kept: "pa_store_link_add l st = Some st' \<Longrightarrow> kept st st'"
  by (auto simp: pa_store_link_add_def pa_store_private_link_destroy_def Let_def split: bind_splits if_splits option.splits prod.splits
      dest!: link_goc_kept trim_kept intro: kept_trans)

lemma link_remove_kept: "pa_store_link_remove l st = Some st' \<Longrightarrow> kept st st'"
  by (auto simp: pa_store_link_remove_def Let_def split: bind_splits if_splits option.splits prod.splits
      dest!: link_goc_kept trim_kept intro: kept_trans)

lemma load_line_kept: "load_line pton4 pton6 stk line st = Some (st', b) \<Longrightarrow> kept st st'"
  by (auto simp: load_line_def split: bind_splits if_splits option.splits prod.splits dest!: link_goc_kept cache_kept intro: kept_trans)

lemma load_kept: "pa_store_load pton4 pton6 stk file st = Some (st', r) \<Longrightarrow> kept st st'"
proof -
  have "load_loop pton4 pton6 stk ls err st = Some (st', r) \<Longrightarrow> kept st st'" for ls err
    by (induction ls arbitrary: st err) (auto split: bind_splits if_splits dest!: load_line_kept intro: kept_trans)
  then show "pa_store_load pton4 pton6 stk file st = Some (st', r) \<Longrightarrow> kept st st'"
    by (auto simp: pa_store_load_def split: option.splits)
qed

lemma save_kept: "pa_store_save ntop4 ntop6 can_open writes st = Some (st', r, out) \<Longrightarrow> kept st st'"
proof -
  have l: "save_loop ntop4 ntop6 ps err f st = Some (st', r, out) \<Longrightarrow> kept st st'" for ps err f st st' r out
  proof (induction ps arbitrary: st err f)
    case (Cons p ps)
    obtain s err' f' where "save_loop ntop4 ntop6 ps err' f' s = Some (st', r, out)" "kept st s"
      using Cons.prems by (auto simp: Let_def split: bind_splits if_splits prod.splits)
    then show ?case using Cons.IH kept_trans by blast
  qed simp
  show "pa_store_save ntop4 ntop6 can_open writes st = Some (st', r, out) \<Longrightarrow> kept st st'"
    by (auto simp: pa_store_save_def split: bind_splits if_splits prod.splits dest: l)
qed

lemma token_to_tokens: "tokens_ok st \<Longrightarrow> tokens_ok (pa_token_to st)"
proof -
  assume t: "tokens_ok st"
  have "token_count st + 1 \<le> PA_STORE_WTOKENS_MAX \<and> token_count st + 1 \<noteq> 0" if "token_count st \<noteq> PA_STORE_WTOKENS_MAX"
  proof -
    have "token_count st < PA_STORE_WTOKENS_MAX" using t that by (simp add: tokens_ok_def order_less_le)
    then have u: "unat (token_count st) < 100" by (simp add: word_less_nat_alt PA_STORE_WTOKENS_MAX_def)
    then have "unat (token_count st + 1) = unat (token_count st) + 1" by (simp add: unat_word_ariths)
    then show ?thesis using u by (simp add: word_le_nat_alt PA_STORE_WTOKENS_MAX_def) (metis Suc_eq_plus1 nat.distinct(1) unsigned_0)
  qed
  then show ?thesis using t by (auto simp: pa_token_to_def pa_store_updated_def tokens_ok_def Let_def)
qed

lemma store_step_tokens: "store_step st st' \<Longrightarrow> tokens_ok st \<Longrightarrow> tokens_ok st'"
proof (induction rule: store_step.induct)
  case step_set_file
  then show ?case by (auto simp: pa_store_set_file_def tokens_ok_def Let_def split: if_splits option.splits bind_splits sum.splits)
next
  case (step_save_to st ntop4 ntop6 can_open writes st' r out)
  let ?s = "st\<lparr>save_timer := None, pending_changes := False, token_count := token_count st - 1\<rparr>"
  have "token_count st \<noteq> 0" "token_count st \<le> PA_STORE_WTOKENS_MAX" using step_save_to(1,3) by (auto simp: tokens_ok_def)
  then have "tokens_ok ?s" by (simp add: tokens_ok_def word_le_nat_alt unat_minus_one)
  moreover have "kept ?s st'" using step_save_to(2) unfolding pa_save_to_def by (rule save_kept)
  ultimately show ?case by (rule kept_tokens [rotated])
next
  case (step_token_to st)
  then show ?case using token_to_tokens by blast
next
  case (step_term st)
  then show ?case by (simp add: pa_store_term_def tokens_ok_def Let_def)
qed (auto dest: cache_kept applied_kept link_add_kept link_remove_kept load_kept save_kept kept_tokens)

section \<open>Properties\<close>



end
