(* ===== verification/DncpBase.thy ===== *)
theory DncpBase
  imports Tlv
begin

unbundle bit_operations_syntax

text \<open>
  The data of the DNCP implementation (src/src/dncp_i.h, dncp.h, dncp_proto.h, dncp_util.h) and its
  notifications (dncp_notify.c).

  A pointer to a node is the identifier of the node, one to an endpoint its interface name and one to a
  local TLV its attribute: these are the keys of the three ordered trees of a DNCP instance, and an object
  never changes its key.  A tree is the list of its elements in iteration order.  What the code takes from
  outside the repository is the environment \<open>env\<close>: the search in an ordered tree and the generations
  of a \<open>vlist\<close> (libubox), the callbacks of the profile (hash, validation, collision handling), the
  callbacks of the subscribers, the random numbers, the byte order and the failures of the allocator.
  Messages sent, timeouts requested and notifications given are recorded in \<open>outp\<close>.  The value \<open>None\<close>
  of an operation is undefined behaviour or a failed assertion.
\<close>

section \<open>Protocol constants\<close>

definition DNCP_T_REQ_NET_STATE :: u32 where "DNCP_T_REQ_NET_STATE = 1"
definition DNCP_T_REQ_NODE_STATE :: u32 where "DNCP_T_REQ_NODE_STATE = 2"
definition DNCP_T_NODE_ENDPOINT :: u32 where "DNCP_T_NODE_ENDPOINT = 3"
definition DNCP_T_NET_STATE :: u32 where "DNCP_T_NET_STATE = 4"
definition DNCP_T_NODE_STATE :: u32 where "DNCP_T_NODE_STATE = 5"
definition DNCP_T_PEER :: u32 where "DNCP_T_PEER = 8"
definition DNCP_T_KEEPALIVE_INTERVAL :: u32 where "DNCP_T_KEEPALIVE_INTERVAL = 9"

definition IFNAMSIZ :: nat where "IFNAMSIZ = 16"

text \<open>\<open>a\<close> and \<open>b\<close> as update numbers: the macro holds when \<open>b\<close> is ahead of \<open>a\<close>.\<close>

definition dncp_update_number_gt :: "u32 \<Rightarrow> u32 \<Rightarrow> bool" where
  "dncp_update_number_gt a b \<longleftrightarrow> (a - b) AND push_bit 31 1 \<noteq> 0"

text \<open>The conversion of a 64 bit integer to \<open>int\<close>, and the range of \<open>int\<close>.\<close>

definition to_int :: "int \<Rightarrow> int" where
  "to_int x = sint (of_int x :: 32 word)"

definition int_range :: "int \<Rightarrow> bool" where
  "int_range x \<longleftrightarrow> - (2 ^ 31) \<le> x \<and> x < 2 ^ 31"

definition TMIN :: "int \<Rightarrow> int \<Rightarrow> int" where
  "TMIN x y = (if x = 0 then y else if y = 0 then x else if x < y then x else y)"

section \<open>Structures\<close>

type_synonym sockaddr = bytes

record dncp_ep =
  ifname :: bytes
  dnsname :: bytes
  trickle_imin :: int
  trickle_imax :: int
  trickle_k :: int
  keepalive_interval :: int
  maximum_multicast_size :: int
  maximum_unicast_size :: int
  accept_node_data_updates_via_multicast :: bool
  accept_insecure_nonlocal_traffic :: bool
  accept_secure_nonlocal_traffic :: bool
  unicast_only :: bool
  unicast_is_reliable_stream :: bool

record dncp_ext_conf =
  per_ep :: dncp_ep
  node_id_length :: nat
  hash_length :: nat
  keepalive_multiplier_percent :: int
  grace_interval :: int
  minimum_prune_interval :: int

record dncp_trickle =
  tr_i :: int
  send_time :: int
  interval_end_time :: int
  tr_c :: int
  last_sent :: int
  num_sent :: int
  num_skipped :: int

text \<open>A reply under construction; its buffer is \<open>None\<close> while \<open>head\<close> is \<open>NULL\<close>.\<close>

record dncp_reply =
  rep_buf :: "tlv_buf option"
  rep_l :: bytes
  has_src :: bool
  rep_src :: sockaddr
  rep_dst :: sockaddr

record dncp_ep_i =
  enabled :: bool
  conf :: dncp_ep
  ep_id :: u32
  published_keepalive_interval :: u32
  last_req_network_state :: int
  send_reply_at :: int
  reply :: dncp_reply
  trickle :: dncp_trickle

record dncp_peer =
  last_sa6 :: sockaddr
  last_contact :: int
  peer_trickle :: dncp_trickle

text \<open>
  Offsets into \<open>tlv_container\<close> stand for the pointers of \<open>tlv_index\<close>.  The container is the
  buffer that starts with its head attribute.
\<close>

record dncp_node =
  node_id :: bytes
  in_nodes_version :: int
  update_number :: u32
  last_reachable_prune :: int
  node_data_hash :: bytes
  node_data_hash_dirty :: bool
  origination_time :: int
  expiration_time :: int
  tlv_container :: "bytes option"
  tlv_container_valid :: "bytes option"
  tlv_index :: "nat option list option"
  tlv_index_dirty :: bool

text \<open>The extra bytes of a local TLV hold nothing or the state of a peer.\<close>

record dncp_tlv =
  t_tlv :: bytes
  t_extra :: "dncp_peer option"

datatype dncp_callback =
    DNCP_CALLBACK_LOCAL_TLV | DNCP_CALLBACK_REPUBLISH | DNCP_CALLBACK_TLV
  | DNCP_CALLBACK_NODE | DNCP_CALLBACK_EP | DNCP_CALLBACK_SOCKET_MSG

datatype dncp_subscriber_event = DNCP_EVENT_REMOVE | DNCP_EVENT_ADD | DNCP_EVENT_UPDATE

datatype dncp_event =
    Local_tlv_change bytes bool
  | Republish
  | Tlv_change bytes tlv bool
  | Node_change bytes bool
  | Ep_change bytes dncp_subscriber_event
  | Msg_received bytes sockaddr "sockaddr option" u32 bytes

datatype dncp_output =
    Notified nat dncp_event
  | Sent bytes "sockaddr option" "sockaddr option" bytes
  | Scheduled int

record dncp =
  disable_prune :: bool
  now :: int
  nodes :: "dncp_node list"
  nodes_version :: int
  tlvs :: "dncp_tlv list"
  eps :: "dncp_ep_i list"
  tlvs_dirty :: bool
  republish_tlvs :: bool
  collided :: bool
  graph_dirty :: bool
  last_prune :: int
  next_prune :: int
  network_hash_dirty :: bool
  immediate_scheduled :: bool
  own_node :: "bytes option"
  network_hash :: bytes
  first_free_ep_id :: int
  subscribers :: "dncp_callback \<Rightarrow> nat list"
  tlv_type_to_index :: "nat list"
  num_tlv_indexes :: nat
  num_neighbor_dropped :: int
  clock :: int
  rand_used :: nat
  outp :: "dncp_output list"

datatype allocation = Alloc_node | Alloc_ep | Alloc_tlv nat | Alloc_index nat | Alloc_types nat | Alloc_hash nat

text \<open>
  \<open>avl_find cmp keys k\<close> and \<open>avl_pos cmp keys k\<close> are the index of the element with the key \<open>k\<close> and
  the index at which an element with that key is inserted; \<open>vlist_next\<close> is the generation after a given
  one, and \<open>vlist_stale v w\<close> tells whether \<open>vlist_flush\<close> of a list of generation \<open>v\<close> deletes an
  element of generation \<open>w\<close>.  \<open>sub_cb s e\<close> is what subscriber \<open>s\<close> does to the instance when
  it is given \<open>e\<close>.
\<close>

record env =
  ext_conf :: dncp_ext_conf
  cb_hash :: "bytes \<Rightarrow> bytes"
  cb_validate_node_data :: "bytes \<Rightarrow> bytes \<Rightarrow> bool"
  cb_handle_collision :: "dncp \<Rightarrow> (dncp \<times> bool) option"
  sub_cb :: "nat \<Rightarrow> dncp_event \<Rightarrow> dncp \<Rightarrow> dncp option"
  rand_at :: "nat \<Rightarrow> nat"
  big_endian_host :: bool
  alloc_fails :: "allocation \<Rightarrow> bool"
  buf_oom :: "nat \<Rightarrow> bool"
  avl_find :: "(bytes \<Rightarrow> bytes \<Rightarrow> int) \<Rightarrow> bytes list \<Rightarrow> bytes \<Rightarrow> nat option"
  avl_pos :: "(bytes \<Rightarrow> bytes \<Rightarrow> int) \<Rightarrow> bytes list \<Rightarrow> bytes \<Rightarrow> nat"
  vlist_next :: "int \<Rightarrow> int"
  vlist_stale :: "int \<Rightarrow> int \<Rightarrow> bool"

abbreviation NI_LEN :: "env \<Rightarrow> nat" where "NI_LEN E \<equiv> node_id_length (ext_conf E)"
abbreviation HASH_LEN :: "env \<Rightarrow> nat" where "HASH_LEN E \<equiv> hash_length (ext_conf E)"
abbreviation KEEPALIVE_INTERVAL :: "env \<Rightarrow> int" where "KEEPALIVE_INTERVAL E \<equiv> keepalive_interval (per_ep (ext_conf E))"

definition dncp_time :: "dncp \<Rightarrow> int" where
  "dncp_time d = (if now d = 0 then clock d else now d)"

text \<open>The next value of \<open>random()\<close>.\<close>

definition draw :: "env \<Rightarrow> dncp \<Rightarrow> int \<times> dncp" where
  "draw E d = (int (rand_at E (rand_used d)), d\<lparr> rand_used := Suc (rand_used d) \<rparr>)"

text \<open>Integers in the byte order of the host.\<close>

definition host32 :: "env \<Rightarrow> u32 \<Rightarrow> bytes" where
  "host32 E w = (if big_endian_host E then word_be 4 w else rev (word_be 4 w))"

definition ld_host32 :: "env \<Rightarrow> bytes \<Rightarrow> nat \<Rightarrow> u32 option" where
  "ld_host32 E buf i =
     (if i + 4 \<le> length buf
      then Some (be_word (if big_endian_host E then take 4 (drop i buf) else rev (take 4 (drop i buf)))) else None)"

section \<open>Objects of an instance\<close>

definition node_at :: "bytes \<Rightarrow> dncp \<Rightarrow> dncp_node option" where
  "node_at p d = find (\<lambda>n. node_id n = p) (nodes d)"

definition put_node :: "dncp_node \<Rightarrow> dncp \<Rightarrow> dncp" where
  "put_node n d = d\<lparr> nodes := map (\<lambda>m. if node_id m = node_id n then n else m) (nodes d) \<rparr>"

definition tlv_rec_at :: "bytes \<Rightarrow> dncp \<Rightarrow> dncp_tlv option" where
  "tlv_rec_at p d = find (\<lambda>t. t_tlv t = p) (tlvs d)"

definition put_tlv_rec :: "dncp_tlv \<Rightarrow> dncp \<Rightarrow> dncp" where
  "put_tlv_rec t d = d\<lparr> tlvs := map (\<lambda>m. if t_tlv m = t_tlv t then t else m) (tlvs d) \<rparr>"

definition ep_at :: "bytes \<Rightarrow> dncp \<Rightarrow> dncp_ep_i option" where
  "ep_at p d = find (\<lambda>l. ifname (conf l) = p) (eps d)"

definition put_ep :: "dncp_ep_i \<Rightarrow> dncp \<Rightarrow> dncp" where
  "put_ep l d = d\<lparr> eps := map (\<lambda>m. if ifname (conf m) = ifname (conf l) then l else m) (eps d) \<rparr>"

text \<open>The attribute at the start of a buffer, or \<open>NULL\<close>.\<close>

definition aptr :: "bytes option \<Rightarrow> attr_ptr" where
  "aptr a = map_option (\<lambda>b. (b, 0)) a"

definition dncp_schedule :: "dncp \<Rightarrow> dncp" where
  "dncp_schedule d =
     (if immediate_scheduled d then d
      else d\<lparr> outp := outp d @ [Scheduled 0], immediate_scheduled := True \<rparr>)"

section \<open>Notifications\<close>

definition notify_one :: "env \<Rightarrow> dncp_event \<Rightarrow> nat \<Rightarrow> dncp \<Rightarrow> dncp option" where
  "notify_one E e s d = sub_cb E s e (d\<lparr> outp := outp d @ [Notified s e] \<rparr>)"

fun notify_all :: "env \<Rightarrow> (nat \<times> dncp_event) list \<Rightarrow> dncp \<Rightarrow> dncp option" where
  "notify_all E [] d = Some d"
| "notify_all E ((s, e) # es) d = do { d \<leftarrow> notify_one E e s d; notify_all E es d }"

definition notify :: "env \<Rightarrow> dncp_callback \<Rightarrow> dncp_event \<Rightarrow> dncp \<Rightarrow> dncp option" where
  "notify E c e d = notify_all E (map (\<lambda>s. (s, e)) (subscribers d c)) d"

text \<open>
  The walk over two TLV sequences that end at \<open>ae\<close> and \<open>be\<close>: the positions found only in the
  first, those found only in the second, and where the pointers are when the loop is left
  (\<open>None\<close> for a pointer that was invalidated).
\<close>

function tlvs_walk :: "bytes \<Rightarrow> nat \<Rightarrow> bytes \<Rightarrow> nat \<Rightarrow> nat \<Rightarrow> nat \<Rightarrow>
    (nat list \<times> nat list \<times> nat option \<times> nat option) option" where
  "tlvs_walk a ae b be p q =
     (if ae < p + 4 then Some ([], [], None, Some q)
      else case tlv_pad_len a p of None \<Rightarrow> None | Some lp \<Rightarrow>
        if ae < p + unat lp then Some ([], [], None, Some q)
        else if be < q + 4 then Some ([], [], Some p, None)
        else case tlv_pad_len b q of None \<Rightarrow> None | Some lq \<Rightarrow>
          if be < q + unat lq then Some ([], [], Some p, None)
          else case tlv_attr_cmp (Some (a, p)) (Some (b, q)) of None \<Rightarrow> None | Some r \<Rightarrow>
            if r = 0 then tlvs_walk a ae b be (p + unat lp) (q + unat lq)
            else if r < 0
              then do { (rs, as, e) \<leftarrow> tlvs_walk a ae b be (p + unat lp) q; Some (p # rs, as, e) }
              else do { (rs, as, e) \<leftarrow> tlvs_walk a ae b be p (q + unat lq); Some (rs, q # as, e) })"
  by pat_completeness auto

lemma pad_len_ge4: "tlv_pad_len buf p = Some l \<Longrightarrow> 4 \<le> unat l"
  using tlv_pad_len_eq [of buf p]
  by (cases "tlv_len buf p") (auto simp: tlv_pad_len_def tlv_raw_len_def pad4_def)

termination tlvs_walk
  by (relation "measure (\<lambda>(a, ae, b, be, p, q). (ae - p) + (be - q))") (auto dest!: pad_len_ge4)

text \<open>The rest of a sequence, once the other one is exhausted.\<close>

function tlvs_rest :: "bytes \<Rightarrow> nat \<Rightarrow> nat \<Rightarrow> nat list option" where
  "tlvs_rest a ae p =
     (if ae < p + 4 then Some []
      else case tlv_pad_len a p of None \<Rightarrow> None | Some lp \<Rightarrow>
        if ae < p + unat lp then Some []
        else do { ps \<leftarrow> tlvs_rest a ae (p + unat lp); Some (p # ps) })"
  by pat_completeness auto
termination tlvs_rest
  by (relation "measure (\<lambda>(a, ae, p). ae - p)") (auto dest!: pad_len_ge4)

definition rest_opt :: "attr_ptr \<Rightarrow> nat \<Rightarrow> nat option \<Rightarrow> nat list option" where
  "rest_opt a ae p = (case (a, p) of (Some (b, _), Some p) \<Rightarrow> tlvs_rest b ae p | _ \<Rightarrow> Some [])"

text \<open>The attributes the two passes report, as removed and as added.\<close>

definition tlvs_diff :: "bytes option \<Rightarrow> bytes option \<Rightarrow> (tlv list \<times> tlv list) option" where
  "tlvs_diff a_old a_new =
     do { old_end \<leftarrow> (case a_old of None \<Rightarrow> Some 0 | Some b \<Rightarrow> map_option unat (tlv_pad_len b 0));
          new_end \<leftarrow> (case a_new of None \<Rightarrow> Some 0 | Some b \<Rightarrow> map_option unat (tlv_pad_len b 0));
          (rs, as, p, q) \<leftarrow>
            (case (a_old, a_new) of
               (Some b, Some c) \<Rightarrow> tlvs_walk b old_end c new_end (tlv_data 0) (tlv_data 0)
             | _ \<Rightarrow> Some ([], [], map_option (\<lambda>_. tlv_data 0) a_old, map_option (\<lambda>_. tlv_data 0) a_new));
          rs' \<leftarrow> rest_opt (aptr a_old) old_end p;
          as' \<leftarrow> rest_opt (aptr a_new) new_end q;
          removed \<leftarrow> tlvs_at (case a_old of None \<Rightarrow> [] | Some b \<Rightarrow> b) (rs @ rs');
          added \<leftarrow> tlvs_at (case a_new of None \<Rightarrow> [] | Some b \<Rightarrow> b) (as @ as');
          Some (removed, added) }"

definition dncp_notify_subscribers_tlvs_changed ::
    "env \<Rightarrow> bytes \<Rightarrow> bytes option \<Rightarrow> bytes option \<Rightarrow> dncp \<Rightarrow> dncp option" where
  "dncp_notify_subscribers_tlvs_changed E n a_old a_new d =
     (if subscribers d DNCP_CALLBACK_TLV = [] then Some d
      else do {
        (removed, added) \<leftarrow> tlvs_diff a_old a_new;
        d \<leftarrow> notify_all E (List.maps (\<lambda>s. map (\<lambda>t. (s, Tlv_change n t False)) removed) (subscribers d DNCP_CALLBACK_TLV)) d;
        notify_all E (List.maps (\<lambda>s. map (\<lambda>t. (s, Tlv_change n t True)) added) (subscribers d DNCP_CALLBACK_TLV)) d })"

definition dncp_notify_subscribers_local_tlv_changed :: "env \<Rightarrow> bytes \<Rightarrow> bool \<Rightarrow> dncp \<Rightarrow> dncp option" where
  "dncp_notify_subscribers_local_tlv_changed E a add d = notify E DNCP_CALLBACK_LOCAL_TLV (Local_tlv_change a add) d"

definition dncp_notify_subscribers_node_changed :: "env \<Rightarrow> bytes \<Rightarrow> bool \<Rightarrow> dncp \<Rightarrow> dncp option" where
  "dncp_notify_subscribers_node_changed E n add d = notify E DNCP_CALLBACK_NODE (Node_change n add) d"

definition dncp_notify_subscribers_about_to_republish_tlvs :: "env \<Rightarrow> dncp \<Rightarrow> dncp option" where
  "dncp_notify_subscribers_about_to_republish_tlvs E d = notify E DNCP_CALLBACK_REPUBLISH Republish d"

definition dncp_notify_subscribers_ep_changed :: "env \<Rightarrow> bytes \<Rightarrow> dncp_subscriber_event \<Rightarrow> dncp \<Rightarrow> dncp option" where
  "dncp_notify_subscribers_ep_changed E ep ev d = notify E DNCP_CALLBACK_EP (Ep_change ep ev) d"

text \<open>A container that holds the attributes \<open>ts\<close>, and what an optional one holds.\<close>

definition container_holds :: "bytes \<Rightarrow> tlv list \<Rightarrow> bool" where
  "container_holds c ts \<longleftrightarrow> list_all tlv_ok ts \<and> length (tlvs_enc ts) < 0x10000 \<and>
     (\<exists>rest. c = word_be 4 (tlv_hdr 0 (length (tlvs_enc ts))) @ tlvs_enc ts @ rest)"

definition holds_opt :: "bytes option \<Rightarrow> tlv list \<Rightarrow> bool" where
  "holds_opt c ts \<longleftrightarrow> (case c of None \<Rightarrow> ts = [] | Some b \<Rightarrow> container_holds b ts)"

text \<open>The walk over two lists of attributes: those only in the first and those only in the second.\<close>

fun attrs_walk :: "tlv list \<Rightarrow> tlv list \<Rightarrow> tlv list \<times> tlv list" where
  "attrs_walk [] ns = ([], ns)"
| "attrs_walk os [] = (os, [])"
| "attrs_walk (a # os) (b # ns) =
     (if tlv_cmp a b = 0 then attrs_walk os ns
      else if tlv_cmp a b < 0 then (case attrs_walk os (b # ns) of (r, s) \<Rightarrow> (a # r, s))
      else (case attrs_walk (a # os) ns of (r, s) \<Rightarrow> (r, b # s)))"

section \<open>Lemmas: differences of TLV sequences\<close>

declare tlvs_walk.simps [simp del] tlvs_rest.simps [simp del]

lemma attrs_walk_balance:
  "list_all tlv_ok os \<Longrightarrow> list_all tlv_ok ns \<Longrightarrow> attrs_walk os ns = (r, s) \<Longrightarrow>
   mset os + mset s = mset ns + mset r"
  by (induction os ns arbitrary: r s rule: attrs_walk.induct)
    (auto simp: tlv_cmp_eq_0 split: if_splits prod.splits)

lemma attrs_walk_subseq:
  "attrs_walk os ns = (r, s) \<Longrightarrow> set r \<subseteq> set os \<and> set s \<subseteq> set ns"
  by (induction os ns arbitrary: r s rule: attrs_walk.induct)
    (fastforce split: if_splits prod.splits)+

lemma tlv_cmp_lt_trans:
  assumes "tlv_ok a" "tlv_ok b" "tlv_ok c" "tlv_cmp a b < 0" "tlv_cmp b c \<le> 0"
  shows "tlv_cmp a c < 0"
proof -
  have "tlv_cmp a c \<le> 0" using tlv_order.le_trans [of a b c] assms by simp
  moreover have "tlv_cmp a c \<noteq> 0"
  proof
    assume "tlv_cmp a c = 0"
    then have "a = c" using tlv_cmp_eq_0 [OF assms(1,3)] by simp
    then show False using assms tlv_order.antisym [of b c] by auto
  qed
  ultimately show ?thesis by simp
qed

lemma tlv_cmp_neg: "tlv_ok a \<Longrightarrow> tlv_ok b \<Longrightarrow> \<not> tlv_cmp a b \<le> 0 \<Longrightarrow> tlv_cmp b a < 0"
  using tlv_order.antisym [of a b] by auto

lemma sorted_ahead:
  assumes "tlv_ok a" "list_all tlv_ok (b # ns)" "tlv_cmp a b < 0" "sorted_wrt (\<lambda>a b. tlv_cmp a b \<le> 0) (b # ns)"
  shows "a \<notin> set (b # ns)"
proof
  assume "a \<in> set (b # ns)"
  then have "tlv_cmp a a < 0 \<or> a = b"
    using tlv_cmp_lt_trans [of a b a] assms by (auto simp: list_all_iff)
  then show False using assms tlv_order.antisym [of a a] by auto
qed

lemma attrs_walk_disjoint:
  "list_all tlv_ok os \<Longrightarrow> list_all tlv_ok ns \<Longrightarrow> sorted_wrt (\<lambda>a b. tlv_cmp a b \<le> 0) os \<Longrightarrow>
   sorted_wrt (\<lambda>a b. tlv_cmp a b \<le> 0) ns \<Longrightarrow> attrs_walk os ns = (r, s) \<Longrightarrow> set r \<inter> set s = {}"
proof (induction os ns arbitrary: r s rule: attrs_walk.induct)
  case (3 a os b ns)
  consider "tlv_cmp a b = 0" | "tlv_cmp a b < 0" | "\<not> tlv_cmp a b \<le> 0" by linarith
  then show ?case
  proof cases
    case 1 then show ?thesis using 3 by simp
  next
    case 2
    obtain r' where w: "attrs_walk os (b # ns) = (r', s)" "r = a # r'" using 2 "3.prems"(5) by (auto split: prod.splits)
    have "a \<notin> set (b # ns)" using 2 "3.prems" by (intro sorted_ahead) simp_all
    then have "a \<notin> set s" using attrs_walk_subseq [OF w(1)] by auto
    moreover have "set r' \<inter> set s = {}" using "3.IH"(2) 2 "3.prems" w(1) by simp
    ultimately show ?thesis using w(2) by simp
  next
    case 3
    obtain s' where w: "attrs_walk (a # os) ns = (r, s')" "s = b # s'" using 3 "3.prems"(5) by (auto split: prod.splits)
    have "b \<notin> set (a # os)" using 3 "3.prems" tlv_cmp_neg [of a b] by (intro sorted_ahead) simp_all
    then have "b \<notin> set r" using attrs_walk_subseq [OF w(1)] by auto
    moreover have "set r \<inter> set s' = {}" using "3.IH"(3) 3 "3.prems" w(1) by simp
    ultimately show ?thesis using w(2) by simp
  qed
qed simp_all

lemma attrs_walk_exact:
  assumes "list_all tlv_ok os" "list_all tlv_ok ns" "sorted_wrt (\<lambda>a b. tlv_cmp a b \<le> 0) os"
    "sorted_wrt (\<lambda>a b. tlv_cmp a b \<le> 0) ns" "attrs_walk os ns = (r, s)"
  shows "mset r = mset os - mset ns \<and> mset s = mset ns - mset os"
proof -
  have b: "mset os + mset s = mset ns + mset r" using attrs_walk_balance assms by blast
  have d: "set r \<inter> set s = {}" using attrs_walk_disjoint assms by blast
  have "count (mset r) x = count (mset os - mset ns) x \<and> count (mset s) x = count (mset ns - mset os) x" for x
  proof -
    have "count (mset os) x + count (mset s) x = count (mset ns) x + count (mset r) x"
      using arg_cong [OF b, of "\<lambda>m. count m x"] by simp
    moreover have "count (mset r) x = 0 \<or> count (mset s) x = 0" using d by (auto simp: count_eq_zero_iff)
    ultimately show ?thesis unfolding count_diff by arith
  qed
  then show ?thesis by (simp add: multiset_eq_iff)
qed

lemma tlvs_rest_enc:
  "list_all tlv_ok ts \<Longrightarrow> a = pre @ tlvs_enc ts @ x \<Longrightarrow>
   tlvs_rest a (length pre + length (tlvs_enc ts)) (length pre) = Some (tlv_offsets (length pre) ts)"
proof (induction ts arbitrary: pre)
  case (Cons t ts)
  obtain l where l: "tlv_pad_len a (length pre) = Some l" "unat l = length (tlv_enc t)"
    using tlv_here_pad_len [OF tlv_here_append [of t pre "tlvs_enc ts @ x"]] Cons.prems by auto
  show ?case using Cons.IH [of "pre @ tlv_enc t"] Cons.prems l pad_len_ge4 [OF l(1)]
    by (subst tlvs_rest.simps) (simp add: add.assoc)
qed (simp add: tlvs_rest.simps)

lemma tlvs_at_append: "tlvs_at buf (ps @ qs) = do { as \<leftarrow> tlvs_at buf ps; bs \<leftarrow> tlvs_at buf qs; Some (as @ bs) }"
  by (induction ps) (auto simp: bind_assoc split: bind_split)

lemma tlvs_walk_eq:
  "list_all tlv_ok os \<Longrightarrow> list_all tlv_ok ns \<Longrightarrow> a = pre @ tlvs_enc os @ x \<Longrightarrow> b = pre' @ tlvs_enc ns @ y \<Longrightarrow>
   \<exists>rs as p q rs' as'. tlvs_walk a (length pre + length (tlvs_enc os)) b (length pre' + length (tlvs_enc ns)) (length pre) (length pre') =
       Some (rs, as, p, q) \<and>
     rest_opt (Some (a, 0)) (length pre + length (tlvs_enc os)) p = Some rs' \<and>
     rest_opt (Some (b, 0)) (length pre' + length (tlvs_enc ns)) q = Some as' \<and>
     tlvs_at a (rs @ rs') = Some (fst (attrs_walk os ns)) \<and> tlvs_at b (as @ as') = Some (snd (attrs_walk os ns))"
proof (induction os ns arbitrary: pre pre' rule: attrs_walk.induct)
  case (1 ns)
  then show ?case using tlvs_rest_enc [of ns b pre' y] tlvs_at_enc [of ns pre' y]
    by (subst tlvs_walk.simps) (simp add: rest_opt_def)
next
  case (2 t os)
  obtain l where l: "tlv_pad_len a (length pre) = Some l" "unat l = length (tlv_enc t)"
    using tlv_here_pad_len [OF tlv_here_append [of t pre "tlvs_enc os @ x"]] "2.prems" by auto
  show ?case using "2.prems" l pad_len_ge4 [OF l(1)] tlvs_rest_enc [of "t # os" a pre x] tlvs_at_enc [of "t # os" pre x]
    by (subst tlvs_walk.simps) (simp add: rest_opt_def)
next
  case (3 t os u ns)
  have h: "tlv_here a (length pre) t" "tlv_here b (length pre') u"
    using tlv_here_append [of t pre "tlvs_enc os @ x"] tlv_here_append [of u pre' "tlvs_enc ns @ y"] "3.prems" by simp_all
  obtain l where l: "tlv_pad_len a (length pre) = Some l" "unat l = length (tlv_enc t)" using tlv_here_pad_len [OF h(1)] by auto
  obtain m where m: "tlv_pad_len b (length pre') = Some m" "unat m = length (tlv_enc u)" using tlv_here_pad_len [OF h(2)] by auto
  note c = tlv_here_attr_cmp [OF h]
  note four = pad_len_ge4 [OF l(1)] pad_len_ge4 [OF m(1)]
  note w = tlvs_walk.simps [of a "length pre + length (tlvs_enc (t # os))" b "length pre' + length (tlvs_enc (u # ns))" "length pre" "length pre'"]
  consider "tlv_cmp t u = 0" | "tlv_cmp t u < 0" | "\<not> tlv_cmp t u \<le> 0" by linarith
  then show ?case
  proof cases
    case 1
    then show ?thesis unfolding w using "3.IH"(1) [of "pre @ tlv_enc t" "pre' @ tlv_enc u"] "3.prems" l m c four
      by (simp add: add.assoc)
  next
    case 2
    show ?thesis unfolding w using "3.IH"(2) [of "pre @ tlv_enc t" "pre'"] "3.prems" 2 l m c four tlv_here_at [OF h(1)]
      by (auto simp: add.assoc split: prod.splits)
  next
    case 3
    show ?thesis unfolding w using "3.IH"(3) [of "pre" "pre' @ tlv_enc u"] "3.prems" 3 l m c four tlv_here_at [OF h(2)]
      by (auto simp: add.assoc split: prod.splits)
  qed
qed

lemma container_pad_len:
  assumes "container_holds c ts"
  obtains l where "tlv_pad_len c 0 = Some l" "unat l = 4 + length (tlvs_enc ts)"
proof -
  have l: "length (tlvs_enc ts) < 0x10000" using assms by (simp add: container_holds_def)
  have "tlv_pad_len c 0 = Some (of_nat (pad4 (length (tlvs_enc ts) + 4)))"
    using assms tlv_fields(4) [of 0 "length (tlvs_enc ts)" 0 "[]"] by (auto simp: container_holds_def)
  moreover have "pad4 (length (tlvs_enc ts) + 4) = 4 + length (tlvs_enc ts)"
    by (simp add: pad4_add4 pad4_aligned length_tlvs_enc_mod)
  moreover have "unat (of_nat (4 + length (tlvs_enc ts)) :: u32) = 4 + length (tlvs_enc ts)"
    by (rule unat_u32) (use l in simp)
  ultimately show ?thesis using that by simp
qed

lemma container_split:
  assumes "container_holds c ts"
  obtains pre x where "c = pre @ tlvs_enc ts @ x" "length pre = 4" "list_all tlv_ok ts"
  using assms that [of "word_be 4 (tlv_hdr 0 (length (tlvs_enc ts)))"] by (auto simp: container_holds_def)

lemma tlvs_diff_eq:
  assumes "holds_opt c1 os" "holds_opt c2 ns"
  shows "tlvs_diff c1 c2 = Some (attrs_walk os ns)"
proof (cases c1)
  case None
  then have o: "os = []" using assms by (simp add: holds_opt_def)
  show ?thesis
  proof (cases c2)
    case N: None
    then show ?thesis using assms None o by (simp add: tlvs_diff_def holds_opt_def rest_opt_def aptr_def)
  next
    case (Some b)
    then have b: "container_holds b ns" using assms by (simp add: holds_opt_def)
    obtain pre x where e: "b = pre @ tlvs_enc ns @ x" "length pre = 4" "list_all tlv_ok ns" by (rule container_split [OF b])
    obtain l where "tlv_pad_len b 0 = Some l" "unat l = 4 + length (tlvs_enc ns)" by (rule container_pad_len [OF b])
    then show ?thesis
      using None Some o tlvs_rest_enc [OF e(3,1)] tlvs_at_enc [OF e(3), of pre x] e
      by (simp add: tlvs_diff_def rest_opt_def aptr_def tlv_data_def)
  qed
next
  case A: (Some a)
  then have a: "container_holds a os" using assms by (simp add: holds_opt_def)
  obtain pre x where e: "a = pre @ tlvs_enc os @ x" "length pre = 4" "list_all tlv_ok os" by (rule container_split [OF a])
  obtain l where l: "tlv_pad_len a 0 = Some l" "unat l = 4 + length (tlvs_enc os)" by (rule container_pad_len [OF a])
  show ?thesis
  proof (cases c2)
    case None
    then have n: "ns = []" using assms by (simp add: holds_opt_def)
    have "attrs_walk os [] = (os, [])" by (cases os) simp_all
    then show ?thesis
      using A None n l tlvs_rest_enc [OF e(3,1)] tlvs_at_enc [OF e(3), of pre x] e
      by (simp add: tlvs_diff_def rest_opt_def aptr_def tlv_data_def)
  next
    case (Some b)
    then have b: "container_holds b ns" using assms by (simp add: holds_opt_def)
    obtain pre' y where f: "b = pre' @ tlvs_enc ns @ y" "length pre' = 4" "list_all tlv_ok ns" by (rule container_split [OF b])
    obtain m where "tlv_pad_len b 0 = Some m" "unat m = 4 + length (tlvs_enc ns)" by (rule container_pad_len [OF b])
    then show ?thesis
      using A Some l tlvs_walk_eq [OF e(3) f(3) e(1) f(1)] e(2) f(2)
      by (auto simp: tlvs_diff_def aptr_def tlv_data_def)
  qed
qed

section \<open>Properties\<close>

text \<open>C11: The change notifications of a node are the difference of its old and new TLVs: whatever the two
  containers hold, taking the reported removals away from the old TLVs and adding the reported additions
  gives the new TLVs, and when both are ordered by \<open>tlv_attr_cmp\<close> no TLV is reported that did not change.\<close>

theorem tlvs_diff_exact:
  assumes "holds_opt a_old os" "holds_opt a_new ns"
  shows "\<exists>removed added. tlvs_diff a_old a_new = Some (removed, added) \<and>
    mset os + mset added = mset ns + mset removed \<and> set removed \<subseteq> set os \<and> set added \<subseteq> set ns \<and>
    (sorted_wrt (\<lambda>a b. tlv_cmp a b \<le> 0) os \<and> sorted_wrt (\<lambda>a b. tlv_cmp a b \<le> 0) ns \<longrightarrow>
      mset removed = mset os - mset ns \<and> mset added = mset ns - mset os)"
proof -
  obtain r s where w: "attrs_walk os ns = (r, s)" by fastforce
  have ok: "list_all tlv_ok os" "list_all tlv_ok ns"
    using assms by (auto simp: holds_opt_def container_holds_def split: option.splits)
  show ?thesis
    using tlvs_diff_eq [OF assms] attrs_walk_balance [OF ok w] attrs_walk_subseq [OF w] attrs_walk_exact [OF ok _ _ w]
    by (intro exI [of _ r] exI [of _ s]) (simp add: w)
qed

theorem tlvs_diff_exact_witness:
  "\<exists>removed added. tlvs_diff (Some ([0, 0, 0, 16] @ tlvs_enc [(4, [1]), (8, [2])])) (Some ([0, 0, 0, 16] @ tlvs_enc [(8, [2]), (9, [7])])) = Some (removed, added) \<and>
    mset removed = {#(4, [1])#} \<and> mset added = {#(9, [7])#}"
proof -
  have h: "word_be 4 (tlv_hdr 0 16) = [0, 0, 0, 16 :: u8]" by code_simp
  have o: "holds_opt (Some ([0, 0, 0, 16] @ tlvs_enc [(4, [1]), (8, [2])])) [(4, [1]), (8, [2])]"
    and n: "holds_opt (Some ([0, 0, 0, 16] @ tlvs_enc [(8, [2]), (9, [7])])) [(8, [2]), (9, [7])]"
    using h by (auto simp: holds_opt_def container_holds_def tlv_ok_def length_tlv_enc pad4_def)
  have "tlv_cmp (4, [1]) (8, [2]) \<le> 0" "tlv_cmp (8, [2]) (9, [7]) \<le> 0" by code_simp+
  then show ?thesis using tlvs_diff_exact [OF o n] by auto
qed

end
