(* ===== verification/Dncp.thy ===== *)
theory Dncp
  imports DncpBase
begin

unbundle bit_operations_syntax

text \<open>
  The store of DNCP nodes, local TLVs and endpoints (src/src/dncp.c, with the inline functions of
  dncp_i.h and dncp.h, the Trickle reset of dncp_timeout.c and the subscription of dncp_notify.c):
  creation and deletion of nodes, replacement of the data of a node, publication of the local TLVs,
  the hashes of a node and of the network, and the index of the TLVs of a node by their type.
\<close>

section \<open>Peers in TLVs\<close>

record dncp_t_peer =
  ne_node_id :: bytes
  peer_ep_id :: u32
  ne_ep_id :: u32

definition dncp_tlv_peer :: "env \<Rightarrow> bytes \<Rightarrow> nat \<Rightarrow> dncp_t_peer option option" where
  "dncp_tlv_peer E buf a =
     do { tid \<leftarrow> tlv_id buf a;
          len \<leftarrow> tlv_len buf a;
          if tid \<noteq> DNCP_T_PEER \<or> unat len \<noteq> NI_LEN E + 8 then Some None
          else do {
            ni \<leftarrow> memcpy_at (replicate (NI_LEN E) 0) 0 buf (tlv_data a) (NI_LEN E);
            pe \<leftarrow> ld_host32 E buf (tlv_data a + NI_LEN E);
            e \<leftarrow> ld_host32 E buf (tlv_data a + NI_LEN E + 4);
            Some (Some \<lparr> ne_node_id = ni, peer_ep_id = pe, ne_ep_id = e \<rparr>) } }"

section \<open>Nodes\<close>

definition dncp_node_cmp :: "env \<Rightarrow> bytes \<Rightarrow> bytes \<Rightarrow> int" where
  "dncp_node_cmp E n1 n2 = bytes_cmp (take (NI_LEN E) n1) (take (NI_LEN E) n2)"

definition dncp_node_is_self :: "bytes \<Rightarrow> dncp \<Rightarrow> bool" where
  "dncp_node_is_self p d \<longleftrightarrow> own_node d = Some p"

text \<open>
  \<open>n\<close> is the content of the node structure; the result is its new content, which is also written
  to the node in the tree, if it is still there.
\<close>

definition reload :: "dncp_node \<Rightarrow> dncp \<Rightarrow> dncp_node" where
  "reload n d = (case node_at (node_id n) d of None \<Rightarrow> n | Some m \<Rightarrow> m)"

definition dncp_node_set :: "env \<Rightarrow> dncp_node \<Rightarrow> u32 \<Rightarrow> int \<Rightarrow> bytes option \<Rightarrow> dncp \<Rightarrow> dncp option" where
  "dncp_node_set E n un t a d =
     do { eq \<leftarrow> tlv_attr_equal (aptr a) (aptr (tlv_container n));
          if un = update_number n \<and> (a = None \<or> eq) then Some d
          else do {
            similar \<leftarrow> tlv_attr_equal (aptr (tlv_container n)) (aptr a);
            let a_valid = (case a of None \<Rightarrow> None
                           | Some b \<Rightarrow> if similar then tlv_container_valid n
                                       else if cb_validate_node_data E (node_id n) b then Some b else None);
            let lrp = last_reachable_prune n;
            let n1 = n\<lparr> update_number := un \<rparr>;
            let n2 = (if t \<noteq> 0 then n1\<lparr> origination_time := t, expiration_time := t + (2 ^ 32 - 2 ^ 15) \<rparr> else n1);
            let d = put_node n2 d;
            d \<leftarrow> (if similar then Some d
                  else do {
                    d \<leftarrow> (if lrp = last_prune d
                          then dncp_notify_subscribers_tlvs_changed E (node_id n) (tlv_container_valid n2) a_valid d
                          else Some d);
                    let n3 = (reload n2 d)\<lparr> tlv_container := a, tlv_container_valid := a_valid,
                                            tlv_index_dirty := True, node_data_hash_dirty := True \<rparr>;
                    Some ((put_node n3 d)\<lparr> graph_dirty := True \<rparr>) });
            Some (dncp_schedule (d\<lparr> network_hash_dirty := True \<rparr>)) } }"

definition node_modify :: "bytes \<Rightarrow> (dncp_node \<Rightarrow> dncp_node) \<Rightarrow> dncp \<Rightarrow> dncp option" where
  "node_modify p f d = do { n \<leftarrow> node_at p d; Some (put_node (f n) d) }"

text \<open>\<open>node_new\<close> and \<open>node_old\<close> are the contents of the nodes, \<open>None\<close> for \<open>NULL\<close>.\<close>

definition update_node :: "env \<Rightarrow> dncp_node option \<Rightarrow> dncp_node option \<Rightarrow> dncp \<Rightarrow> dncp option" where
  "update_node E node_new node_old d =
     (if map_option node_id node_old = map_option node_id node_new then Some d
      else do {
        d \<leftarrow> (case node_old of None \<Rightarrow> Some d | Some n \<Rightarrow> dncp_node_set E n 0 0 None d);
        let d = (case node_new of None \<Rightarrow> d
                 | Some n \<Rightarrow> put_node (n\<lparr> node_data_hash_dirty := True, tlv_index_dirty := True,
                                          last_reachable_prune := last_prune d - 1 \<rparr>) d);
        Some (dncp_schedule (d\<lparr> network_hash_dirty := True, graph_dirty := True \<rparr>)) })"

text \<open>\<open>vlist_add\<close> of a new node, \<open>vlist_add\<close> of a node that is in the tree, and \<open>vlist_delete\<close>.\<close>

definition nodes_insert :: "env \<Rightarrow> dncp_node \<Rightarrow> dncp \<Rightarrow> dncp option" where
  "nodes_insert E n d =
     (let n = n\<lparr> in_nodes_version := nodes_version d \<rparr>;
          i = avl_pos E (dncp_node_cmp E) (map node_id (nodes d)) (node_id n);
          d = d\<lparr> nodes := take i (nodes d) @ n # drop i (nodes d) \<rparr>
      in update_node E (Some n) None d)"

definition nodes_refresh :: "bytes \<Rightarrow> dncp \<Rightarrow> dncp option" where
  "nodes_refresh p d = node_modify p (\<lambda>n. n\<lparr> in_nodes_version := nodes_version d \<rparr>) d"

definition nodes_delete :: "env \<Rightarrow> bytes \<Rightarrow> dncp \<Rightarrow> dncp option" where
  "nodes_delete E p d =
     do { n \<leftarrow> node_at p d;
          update_node E None (Some n) (d\<lparr> nodes := filter (\<lambda>m. node_id m \<noteq> p) (nodes d) \<rparr>) }"

fun nodes_delete_all :: "env \<Rightarrow> bytes list \<Rightarrow> dncp \<Rightarrow> dncp option" where
  "nodes_delete_all E [] d = Some d"
| "nodes_delete_all E (p # ps) d = do { d \<leftarrow> nodes_delete E p d; nodes_delete_all E ps d }"

definition nodes_flush :: "env \<Rightarrow> dncp \<Rightarrow> dncp option" where
  "nodes_flush E d =
     nodes_delete_all E (map node_id (filter (\<lambda>n. vlist_stale E (nodes_version d) (in_nodes_version n)) (nodes d))) d"

definition fresh_node :: "env \<Rightarrow> bytes \<Rightarrow> dncp_node" where
  "fresh_node E ni =
     \<lparr> node_id = ni, in_nodes_version = 0, update_number = 0, last_reachable_prune = 0,
       node_data_hash = replicate (HASH_LEN E) 0, node_data_hash_dirty = False,
       origination_time = 0, expiration_time = 0, tlv_container = None, tlv_container_valid = None,
       tlv_index = None, tlv_index_dirty = True \<rparr>"

definition dncp_find_node_by_node_id :: "env \<Rightarrow> bytes \<Rightarrow> bool \<Rightarrow> dncp \<Rightarrow> (bytes option \<times> dncp) option" where
  "dncp_find_node_by_node_id E ni create d =
     do { key \<leftarrow> memcpy_at (replicate (NI_LEN E) 0) 0 ni 0 (NI_LEN E);
          case avl_find E (dncp_node_cmp E) (map node_id (nodes d)) key of
            Some i \<Rightarrow> do { n \<leftarrow> rd (nodes d) i; Some (Some (node_id n), d) }
          | None \<Rightarrow>
              if \<not> create then Some (None, d)
              else if alloc_fails E Alloc_node then Some (None, d)
              else do { d \<leftarrow> nodes_insert E (fresh_node E key) d; Some (Some key, d) } }"

definition dncp_set_own_node_id :: "env \<Rightarrow> bytes \<Rightarrow> dncp \<Rightarrow> (dncp \<times> bool) option" where
  "dncp_set_own_node_id E nibuf d =
     do { d \<leftarrow> (case own_node d of None \<Rightarrow> Some d
                | Some p \<Rightarrow> do { d \<leftarrow> nodes_delete E p d; Some (d\<lparr> own_node := None \<rparr>) });
          (n, d) \<leftarrow> dncp_find_node_by_node_id E nibuf True d;
          case n of None \<Rightarrow> Some (d, False)
          | Some p \<Rightarrow> do {
              let d = d\<lparr> own_node := Some p, tlvs_dirty := True \<rparr>;
              d \<leftarrow> node_modify p (\<lambda>n. n\<lparr> last_reachable_prune := last_prune d \<rparr>) d;
              Some (dncp_schedule d, True) } }"

definition zero_dncp :: "env \<Rightarrow> int \<Rightarrow> dncp" where
  "zero_dncp E t =
     \<lparr> disable_prune = False, now = 0, nodes = [], nodes_version = 0, tlvs = [], eps = [],
       tlvs_dirty = False, republish_tlvs = False, collided = False, graph_dirty = False,
       last_prune = 0, next_prune = 0, network_hash_dirty = False, immediate_scheduled = False,
       own_node = None, network_hash = replicate (HASH_LEN E) 0, first_free_ep_id = 0,
       subscribers = (\<lambda>_. []), tlv_type_to_index = [], num_tlv_indexes = 0,
       num_neighbor_dropped = 0, clock = t, rand_used = 0, outp = [] \<rparr>"

text \<open>\<open>len\<close> bytes of the argument are hashed; the instance is created at time \<open>t\<close>.\<close>

definition dncp_init :: "env \<Rightarrow> bytes \<Rightarrow> int \<Rightarrow> (dncp \<times> bool) option" where
  "dncp_init E nid t =
     (let d = (zero_dncp E t)\<lparr> first_free_ep_id := 1, last_prune := 1 \<rparr>;
          h = cb_hash E nid
      in dncp_set_own_node_id E (h @ replicate (32 - length h) 0) d)"

definition dncp_create :: "env \<Rightarrow> bytes \<Rightarrow> int \<Rightarrow> dncp option option" where
  "dncp_create E hwaddrs t =
     (if hwaddrs = [] then Some None
      else do { (d, ok) \<leftarrow> dncp_init E hwaddrs t; Some (if ok then Some d else None) })"

definition node_reachable :: "dncp \<Rightarrow> dncp_node \<Rightarrow> bool" where
  "node_reachable d n \<longleftrightarrow> last_reachable_prune n = last_prune d"

definition dncp_node_get_next :: "bytes \<Rightarrow> dncp \<Rightarrow> bytes option option" where
  "dncp_node_get_next p d =
     (case dropWhile (\<lambda>n. node_id n \<noteq> p) (nodes d) of
        [] \<Rightarrow> None
      | n # ns \<Rightarrow> Some (map_option node_id (find (node_reachable d) ns)))"

definition dncp_get_first_node :: "dncp \<Rightarrow> bytes option option" where
  "dncp_get_first_node d =
     (case nodes d of
        [] \<Rightarrow> Some None
      | n # _ \<Rightarrow> if node_reachable d n then Some (Some (node_id n)) else dncp_node_get_next (node_id n) d)"

definition dncp_for_each_node :: "dncp \<Rightarrow> bytes list" where
  "dncp_for_each_node d = map node_id (filter (node_reachable d) (nodes d))"

section \<open>Local TLVs\<close>

definition compare_tlvs :: "bytes \<Rightarrow> bytes \<Rightarrow> int" where
  "compare_tlvs a b = (case tlv_attr_cmp (Some (a, 0)) (Some (b, 0)) of None \<Rightarrow> 0 | Some r \<Rightarrow> r)"

definition update_tlv :: "env \<Rightarrow> bytes option \<Rightarrow> bytes option \<Rightarrow> dncp \<Rightarrow> dncp option" where
  "update_tlv E t_new t_old d =
     do { d \<leftarrow> (case t_old of None \<Rightarrow> Some d | Some a \<Rightarrow> dncp_notify_subscribers_local_tlv_changed E a False d);
          d \<leftarrow> (case t_new of None \<Rightarrow> Some d | Some a \<Rightarrow> dncp_notify_subscribers_local_tlv_changed E a True d);
          Some (dncp_schedule (d\<lparr> tlvs_dirty := True \<rparr>)) }"

text \<open>\<open>vlist_add\<close>: an element with the same key leaves the tree for the new one.\<close>

definition tlvs_insert :: "env \<Rightarrow> dncp_tlv \<Rightarrow> dncp \<Rightarrow> dncp option" where
  "tlvs_insert E t d =
     (let keys = map t_tlv (tlvs d);
          old = avl_find E compare_tlvs keys (t_tlv t);
          ts = (case old of None \<Rightarrow> tlvs d | Some i \<Rightarrow> take i (tlvs d) @ drop (Suc i) (tlvs d));
          i = avl_pos E compare_tlvs (map t_tlv ts) (t_tlv t)
      in update_tlv E (Some (t_tlv t)) (case old of None \<Rightarrow> None | Some j \<Rightarrow> rd keys j)
           (d\<lparr> tlvs := take i ts @ t # drop i ts \<rparr>))"

definition tlvs_delete :: "env \<Rightarrow> bytes \<Rightarrow> dncp \<Rightarrow> dncp option" where
  "tlvs_delete E p d =
     do { t \<leftarrow> tlv_rec_at p d;
          update_tlv E None (Some p) (d\<lparr> tlvs := filter (\<lambda>t. t_tlv t \<noteq> p) (tlvs d) \<rparr>) }"

definition zero_trickle :: dncp_trickle where
  "zero_trickle = \<lparr> tr_i = 0, send_time = 0, interval_end_time = 0, tr_c = 0, last_sent = 0, num_sent = 0, num_skipped = 0 \<rparr>"

definition zero_peer :: dncp_peer where
  "zero_peer = \<lparr> last_sa6 = replicate 28 0, last_contact = 0, peer_trickle = zero_trickle \<rparr>"

text \<open>The attribute with the given type and payload, as \<open>dncp_add_tlv\<close> and \<open>dncp_find_tlv\<close> build it.\<close>

definition make_attr :: "u16 \<Rightarrow> bytes \<Rightarrow> u16 \<Rightarrow> bytes option" where
  "make_attr type data len =
     (let plen = pad4 (4 + unat len)
      in do { buf \<leftarrow> tlv_init (replicate (4 + plen) 0) 0 (ucast type) (ucast len + 4);
              buf \<leftarrow> memcpy_at buf (tlv_data 0) data 0 (unat len);
              buf \<leftarrow> tlv_fill_pad buf 0;
              Some (take plen buf) })"

text \<open>\<open>extra\<close> tells whether \<open>extra_bytes\<close> is the size of a peer or zero.\<close>

definition dncp_add_tlv :: "env \<Rightarrow> u16 \<Rightarrow> bytes \<Rightarrow> u16 \<Rightarrow> bool \<Rightarrow> dncp \<Rightarrow> (bytes option \<times> dncp) option" where
  "dncp_add_tlv E type data len extra d =
     (if alloc_fails E (Alloc_tlv (pad4 (4 + unat len))) then Some (None, d)
      else do {
        a \<leftarrow> make_attr type data len;
        d \<leftarrow> tlvs_insert E \<lparr> t_tlv = a, t_extra = (if extra then Some zero_peer else None) \<rparr> d;
        Some (Some a, d) })"

definition dncp_remove_tlv :: "env \<Rightarrow> bytes option \<Rightarrow> dncp \<Rightarrow> dncp option" where
  "dncp_remove_tlv E tlv d = (case tlv of None \<Rightarrow> Some d | Some p \<Rightarrow> tlvs_delete E p d)"

fun remove_tlvs_loop :: "env \<Rightarrow> int \<Rightarrow> bytes list \<Rightarrow> dncp \<Rightarrow> (dncp \<times> int) option" where
  "remove_tlvs_loop E type [] d = Some (d, 0)"
| "remove_tlvs_loop E type (t # ts) d =
     do { tid \<leftarrow> tlv_id t 0;
          if uint tid = type
          then do { d \<leftarrow> dncp_remove_tlv E (Some t) d;
                    (d, c) \<leftarrow> remove_tlvs_loop E type ts d;
                    Some (d, c + 1) }
          else remove_tlvs_loop E type ts d }"

definition dncp_remove_tlvs_by_type :: "env \<Rightarrow> int \<Rightarrow> dncp \<Rightarrow> (dncp \<times> int) option" where
  "dncp_remove_tlvs_by_type E type d = remove_tlvs_loop E type (map t_tlv (tlvs d)) d"

definition dncp_find_tlv :: "env \<Rightarrow> u16 \<Rightarrow> bytes \<Rightarrow> u16 \<Rightarrow> dncp \<Rightarrow> bytes option option" where
  "dncp_find_tlv E type data len d =
     do { a \<leftarrow> make_attr type data len;
          case avl_find E compare_tlvs (map t_tlv (tlvs d)) a of
            None \<Rightarrow> Some None
          | Some i \<Rightarrow> map_option Some (rd (map t_tlv (tlvs d)) i) }"

definition dncp_remove_tlv_matching :: "env \<Rightarrow> u16 \<Rightarrow> bytes \<Rightarrow> u16 \<Rightarrow> dncp \<Rightarrow> dncp option" where
  "dncp_remove_tlv_matching E type data len d =
     do { t \<leftarrow> dncp_find_tlv E type data len d; dncp_remove_tlv E t d }"

definition dncp_get_first_tlv :: "dncp \<Rightarrow> bytes option" where
  "dncp_get_first_tlv d = (case tlvs d of [] \<Rightarrow> None | t # _ \<Rightarrow> Some (t_tlv t))"

definition dncp_get_next_tlv :: "bytes \<Rightarrow> dncp \<Rightarrow> bytes option option" where
  "dncp_get_next_tlv p d =
     (case dropWhile (\<lambda>t. t_tlv t \<noteq> p) (tlvs d) of
        [] \<Rightarrow> None
      | t # ts \<Rightarrow> Some (case ts of [] \<Rightarrow> None | u # _ \<Rightarrow> Some (t_tlv u)))"

section \<open>Endpoints\<close>

fun strcmp :: "bytes \<Rightarrow> bytes \<Rightarrow> int" where
  "strcmp [] [] = 0"
| "strcmp [] (y # ys) = - uint y"
| "strcmp (x # xs) [] = uint x"
| "strcmp (x # xs) (y # ys) = (if x = y then strcmp xs ys else uint x - uint y)"

definition fresh_ep :: "env \<Rightarrow> bytes \<Rightarrow> u32 \<Rightarrow> dncp_ep_i" where
  "fresh_ep E name i =
     \<lparr> enabled = False, conf = (per_ep (ext_conf E))\<lparr> dnsname := name, ifname := name \<rparr>, ep_id = i,
       published_keepalive_interval = 0, last_req_network_state = 0, send_reply_at = 0,
       reply = \<lparr> rep_buf = None, rep_l = [], has_src = False, rep_src = [], rep_dst = [] \<rparr>,
       trickle = zero_trickle \<rparr>"

text \<open>\<open>t_new\<close> and \<open>t_old\<close> are the names of the endpoints.\<close>

definition update_ep :: "env \<Rightarrow> bytes option \<Rightarrow> bytes option \<Rightarrow> dncp \<Rightarrow> dncp option" where
  "update_ep E t_new t_old d =
     (case t_old of
        Some _ \<Rightarrow> Some (dncp_schedule d)
      | None \<Rightarrow>
          do { p \<leftarrow> t_new;
               l \<leftarrow> ep_at p d;
               Some (dncp_schedule (put_ep (l\<lparr> published_keepalive_interval := of_int (KEEPALIVE_INTERVAL E) \<rparr>) d)) })"

text \<open>A name that does not fit the field leaves a string without an end, which the comparison then overruns.\<close>

definition dncp_find_ep_by_name :: "env \<Rightarrow> bytes \<Rightarrow> dncp \<Rightarrow> (bytes option \<times> dncp) option" where
  "dncp_find_ep_by_name E name d =
     (if name = [] then Some (None, d)
      else case avl_find E strcmp (map (\<lambda>l. ifname (conf l)) (eps d)) name of
        Some i \<Rightarrow> do { l \<leftarrow> rd (eps d) i; Some (Some (ifname (conf l)), d) }
      | None \<Rightarrow>
          if alloc_fails E Alloc_ep then Some (None, d)
          else if length name \<ge> IFNAMSIZ then None
          else do {
            let l = fresh_ep E name (of_int (first_free_ep_id d));
            let i = avl_pos E strcmp (map (\<lambda>l. ifname (conf l)) (eps d)) name;
            let d = d\<lparr> first_free_ep_id := first_free_ep_id d + 1, eps := take i (eps d) @ l # drop i (eps d) \<rparr>;
            d \<leftarrow> update_ep E (Some name) None d;
            Some (Some name, d) })"

definition dncp_find_ep_by_id :: "u32 \<Rightarrow> dncp \<Rightarrow> bytes option" where
  "dncp_find_ep_by_id i d = map_option (\<lambda>l. ifname (conf l)) (find (\<lambda>l. ep_id l = i) (eps d))"

definition dncp_get_first_ep :: "dncp \<Rightarrow> bytes option" where
  "dncp_get_first_ep d = (case eps d of [] \<Rightarrow> None | l # _ \<Rightarrow> Some (ifname (conf l)))"

definition dncp_ep_get_next :: "bytes \<Rightarrow> dncp \<Rightarrow> bytes option option" where
  "dncp_ep_get_next p d =
     (case dropWhile (\<lambda>l. ifname (conf l) \<noteq> p) (eps d) of
        [] \<Rightarrow> None
      | l # ls \<Rightarrow> Some (case ls of [] \<Rightarrow> None | m # _ \<Rightarrow> Some (ifname (conf m))))"

section \<open>Publication of the local TLVs\<close>

fun put_tlvs :: "env \<Rightarrow> bytes list \<Rightarrow> tlv_buf \<Rightarrow> tlv_buf option option" where
  "put_tlvs E [] tb = Some (Some tb)"
| "put_tlvs E (t # ts) tb =
     do { l \<leftarrow> tlv_pad_len t 0;
          (tb, a) \<leftarrow> tlv_put_raw (buf_oom E) tb (Some t) (unat l);
          case a of None \<Rightarrow> Some None
          | Some p \<Rightarrow> do { buf \<leftarrow> tlv_fill_pad (tb_buf tb) p; put_tlvs E ts (tb\<lparr> tb_buf := buf \<rparr>) } }"

definition zero_buf :: tlv_buf where
  "zero_buf = \<lparr> tb_head = 0, tb_buflen = 0, tb_buf = [] \<rparr>"

definition produce_new_tlvs :: "env \<Rightarrow> bytes \<Rightarrow> dncp \<Rightarrow> (bytes option \<times> dncp) option" where
  "produce_new_tlvs E p d =
     (if \<not> tlvs_dirty d then Some (None, d)
      else do {
        n \<leftarrow> node_at p d;
        tb \<leftarrow> tlv_buf_init (buf_oom E) zero_buf 0;
        r \<leftarrow> put_tlvs E (map t_tlv (tlvs d)) tb;
        case r of None \<Rightarrow> Some (None, d)
        | Some tb \<Rightarrow> do {
            buf \<leftarrow> tlv_fill_pad (tb_buf tb) (tb_head tb);
            let d = d\<lparr> tlvs_dirty := False \<rparr>;
            same \<leftarrow> (if tlv_container n = None then Some False
                     else tlv_attr_equal (Some (buf, tb_head tb)) (aptr (tlv_container n)));
            Some (if same then None else Some buf, d) } })"

definition dncp_self_flush :: "env \<Rightarrow> bytes \<Rightarrow> dncp \<Rightarrow> dncp option" where
  "dncp_self_flush E p d =
     do { (a, d) \<leftarrow> produce_new_tlvs E p d;
          if a = None \<and> \<not> republish_tlvs d then Some d
          else do {
            d \<leftarrow> dncp_notify_subscribers_about_to_republish_tlvs E d;
            let d = d\<lparr> republish_tlvs := False \<rparr>;
            (a2, d) \<leftarrow> produce_new_tlvs E p d;
            let a = (case a2 of None \<Rightarrow> a | Some _ \<Rightarrow> a2);
            n \<leftarrow> node_at p d;
            dncp_node_set E n (update_number n + 1) (dncp_time d) (case a of None \<Rightarrow> tlv_container n | Some _ \<Rightarrow> a) d } }"

definition dncp_node_get_tlvs :: "bytes \<Rightarrow> dncp \<Rightarrow> bytes option option" where
  "dncp_node_get_tlvs p d = map_option tlv_container_valid (node_at p d)"

section \<open>Trickle\<close>

text \<open>\<open>i / 2\<close> of C; the remainder by zero is undefined.\<close>

definition half :: "int \<Rightarrow> int" where
  "half i = (if i < 0 then - ((- i) div 2) else i div 2)"

definition trickle_set_i :: "env \<Rightarrow> dncp_trickle \<Rightarrow> dncp_ep \<Rightarrow> int \<Rightarrow> dncp \<Rightarrow> (dncp_trickle \<times> dncp) option" where
  "trickle_set_i E t l i d =
     (let now = dncp_time d;
          imin = to_int (trickle_imin l);
          imax = to_int (trickle_imax l);
          i = (if i < imin then imin else if i > imax then imax else i);
          (r, d) = draw E d
      in if half i = 0 then None
         else Some (t\<lparr> tr_i := i, send_time := now + half i + r mod \<bar>half i\<bar>,
                       interval_end_time := now + i, tr_c := 0 \<rparr>, d))"

fun trickle_reset_eps :: "env \<Rightarrow> bytes list \<Rightarrow> dncp \<Rightarrow> dncp option" where
  "trickle_reset_eps E [] d = Some d"
| "trickle_reset_eps E (p # ps) d =
     do { l \<leftarrow> ep_at p d;
          (t, d) \<leftarrow> trickle_set_i E (trickle l) (conf l) (to_int (trickle_imin (conf l))) d;
          trickle_reset_eps E ps (put_ep (l\<lparr> trickle := t \<rparr>) d) }"

fun trickle_reset_peers :: "env \<Rightarrow> bytes list \<Rightarrow> dncp \<Rightarrow> dncp option" where
  "trickle_reset_peers E [] d = Some d"
| "trickle_reset_peers E (a # as) d =
     do { ne \<leftarrow> dncp_tlv_peer E a 0;
          case ne of None \<Rightarrow> trickle_reset_peers E as d
          | Some ne \<Rightarrow> do {
              t \<leftarrow> tlv_rec_at a d;
              n \<leftarrow> t_extra t;
              p \<leftarrow> dncp_find_ep_by_id (ne_ep_id ne) d;
              l \<leftarrow> ep_at p d;
              (tr, d) \<leftarrow> trickle_set_i E (peer_trickle n) (conf l) (to_int (trickle_imin (conf l))) d;
              trickle_reset_peers E as (put_tlv_rec (t\<lparr> t_extra := Some (n\<lparr> peer_trickle := tr \<rparr>) \<rparr>) d) } }"

definition dncp_trickle_reset :: "env \<Rightarrow> dncp \<Rightarrow> dncp option" where
  "dncp_trickle_reset E d =
     do { d \<leftarrow> trickle_reset_eps E (map (\<lambda>l. ifname (conf l)) (eps d)) d;
          trickle_reset_peers E (map t_tlv (tlvs d)) d }"

section \<open>Hashes\<close>

definition container_data :: "bytes \<Rightarrow> bytes option" where
  "container_data c =
     do { len \<leftarrow> tlv_len c 0;
          if tlv_data 0 + unat len \<le> length c then Some (take (unat len) (drop (tlv_data 0) c)) else None }"

definition dncp_calculate_node_data_hash :: "env \<Rightarrow> bytes \<Rightarrow> dncp \<Rightarrow> dncp option" where
  "dncp_calculate_node_data_hash E p d =
     do { n \<leftarrow> node_at p d;
          if \<not> node_data_hash_dirty n then Some d
          else do {
            data \<leftarrow> (case tlv_container n of None \<Rightarrow> Some [] | Some c \<Rightarrow> container_data c);
            Some (put_node (n\<lparr> node_data_hash_dirty := False, node_data_hash := cb_hash E data \<rparr>) d) } }"

fun network_hash_loop :: "env \<Rightarrow> bytes list \<Rightarrow> dncp \<Rightarrow> (bytes \<times> dncp) option" where
  "network_hash_loop E [] d = Some ([], d)"
| "network_hash_loop E (p # ps) d =
     do { d \<leftarrow> dncp_calculate_node_data_hash E p d;
          n \<leftarrow> node_at p d;
          (buf, d) \<leftarrow> network_hash_loop E ps d;
          Some (word_be 4 (update_number n) @ take (HASH_LEN E) (node_data_hash n) @ buf, d) }"

definition dncp_calculate_network_hash :: "env \<Rightarrow> dncp \<Rightarrow> dncp option" where
  "dncp_calculate_network_hash E d =
     (if \<not> network_hash_dirty d then Some d
      else let old_hash = network_hash d;
               cnt = length (dncp_for_each_node d);
               onelen = 4 + HASH_LEN E
           in if alloc_fails E (Alloc_hash (cnt * onelen)) then Some d
              else do {
                (buf, d) \<leftarrow> network_hash_loop E (dncp_for_each_node d) d;
                let d = d\<lparr> network_hash := cb_hash E buf \<rparr>;
                d \<leftarrow> (if take (HASH_LEN E) old_hash \<noteq> take (HASH_LEN E) (network_hash d)
                      then dncp_trickle_reset E d else Some d);
                Some (d\<lparr> network_hash_dirty := False \<rparr>) })"

section \<open>The index of the TLVs of a node\<close>

fun drop_index :: "dncp_node \<Rightarrow> dncp_node option" where
  "drop_index n =
     (let n = (if tlv_index n \<noteq> None then n\<lparr> tlv_index := None, tlv_index_dirty := True \<rparr> else n)
      in if tlv_index_dirty n then Some n else None)"

fun drop_indexes :: "dncp_node list \<Rightarrow> dncp_node list option" where
  "drop_indexes [] = Some []"
| "drop_indexes (n # ns) = do { n \<leftarrow> drop_index n; ns \<leftarrow> drop_indexes ns; Some (n # ns) }"

definition dncp_add_tlv_index :: "env \<Rightarrow> u16 \<Rightarrow> dncp \<Rightarrow> (dncp \<times> bool) option" where
  "dncp_add_tlv_index E type d =
     (let t = unat type; ti = tlv_type_to_index d
      in if t < length ti \<and> ti ! t \<noteq> 0 then Some (d, True)
         else if t \<ge> length ti \<and> alloc_fails E (Alloc_types (t + 1)) then Some (d, False)
         else do {
           let ti = (if t < length ti then ti else ti @ replicate (t + 1 - length ti) 0);
           let k = num_tlv_indexes d + 1;
           let d = d\<lparr> tlv_type_to_index := ti[t := k], num_tlv_indexes := k \<rparr>;
           ns \<leftarrow> drop_indexes (nodes d);
           Some (d\<lparr> nodes := ns \<rparr>, True) })"

text \<open>The loop over the attributes \<open>ps\<close> of the container \<open>c\<close>.\<close>

fun index_loop :: "nat list \<Rightarrow> nat \<Rightarrow> bytes \<Rightarrow> nat option list \<Rightarrow> int \<Rightarrow> nat \<Rightarrow> nat list \<Rightarrow> nat option list option" where
  "index_loop ti num c ix type idx [] = Some ix"
| "index_loop ti num c ix type idx (a # as) =
     do { tid \<leftarrow> tlv_id c a;
          nxt \<leftarrow> tlv_next c a;
          if uint tid \<noteq> type
          then (if unat tid \<ge> length ti then Some ix
                else let k = ti ! unat tid
                     in if k = 0 then index_loop ti num c ix (uint tid) 0 as
                        else do { ix \<leftarrow> wr ix (2 * k - 2) (Some a);
                                  if k > num then None
                                  else do { ix \<leftarrow> wr ix (2 * k - 1) (Some nxt);
                                            index_loop ti num c ix (uint tid) k as } })
          else (if idx = 0 then index_loop ti num c ix type idx as
                else do { ix \<leftarrow> wr ix (2 * idx - 1) (Some nxt); index_loop ti num c ix type idx as }) }"

definition dncp_node_recalculate_index :: "env \<Rightarrow> bytes \<Rightarrow> dncp \<Rightarrow> dncp option" where
  "dncp_node_recalculate_index E p d =
     do { n \<leftarrow> node_at p d;
          let size = num_tlv_indexes d * 4;
          if \<not> tlv_index_dirty n then None
          else if tlv_index n = None \<and> alloc_fails E (Alloc_index size) then Some d
          else if (case tlv_index n of None \<Rightarrow> False | Some ix \<Rightarrow> length ix < size) then None
          else do {
            let ix = replicate size None @ (case tlv_index n of None \<Rightarrow> [] | Some ix \<Rightarrow> drop size ix);
            ix \<leftarrow> (case tlv_container n of None \<Rightarrow> Some ix
                  | Some c \<Rightarrow> do { ps \<leftarrow> tlv_for_each_attr c 0;
                                  index_loop (tlv_type_to_index d) (num_tlv_indexes d) c ix (-1) 0 ps });
            ix \<leftarrow> (if size > 0 \<and> tlv_container_valid n \<noteq> None \<and> tlv_container_valid n = tlv_container n
                  then memcpy_at ix (size div 2) ix 0 (size div 2) else Some ix);
            Some (put_node (n\<lparr> tlv_index := Some ix, tlv_index_dirty := False \<rparr>) d) } }"

definition dncp_node_get_tlv_with_type :: "env \<Rightarrow> bytes \<Rightarrow> u16 \<Rightarrow> bool \<Rightarrow> bool \<Rightarrow> dncp \<Rightarrow> (nat option \<times> dncp) option" where
  "dncp_node_get_tlv_with_type E p type first valid d =
     do { (d, ok) \<leftarrow> (if unat type \<ge> length (tlv_type_to_index d) \<or> tlv_type_to_index d ! unat type = 0
                     then dncp_add_tlv_index E type d else Some (d, True));
          if \<not> ok then Some (None, d)
          else do {
            n \<leftarrow> node_at p d;
            d \<leftarrow> (if tlv_index_dirty n then dncp_node_recalculate_index E p d else Some d);
            n \<leftarrow> node_at p d;
            case tlv_index n of
              None \<Rightarrow> if tlv_index_dirty n then Some (None, d) else None
            | Some ix \<Rightarrow> do {
                let index = tlv_type_to_index d ! unat type - 1 + (if valid then num_tlv_indexes d else 0);
                r \<leftarrow> rd ix (index * 2 + (if first then 0 else 1));
                Some (r, d) } } }"

text \<open>The attributes from position \<open>a\<close> up to \<open>e\<close>.\<close>

function attrs_until :: "bytes \<Rightarrow> nat option \<Rightarrow> nat \<Rightarrow> nat list option" where
  "attrs_until c e a =
     (if e = Some a then Some []
      else if length c < a + 4 then None
      else case tlv_next c a of None \<Rightarrow> None
      | Some b \<Rightarrow> do { ps \<leftarrow> attrs_until c e b; Some (a # ps) })"
  by pat_completeness auto
termination attrs_until
  by (relation "measure (\<lambda>(c, e, a). length c - a)") (auto simp: tlv_next_def bind_eq_Some_conv dest!: pad_len_ge4)

definition dncp_node_for_each_tlv_with_t_v :: "env \<Rightarrow> bytes \<Rightarrow> u16 \<Rightarrow> bool \<Rightarrow> dncp \<Rightarrow> (nat list \<times> dncp) option" where
  "dncp_node_for_each_tlv_with_t_v E p type valid d =
     do { (a, d) \<leftarrow> dncp_node_get_tlv_with_type E p type True valid d;
          case a of None \<Rightarrow> Some ([], d)
          | Some a \<Rightarrow> do {
              (e, d) \<leftarrow> dncp_node_get_tlv_with_type E p type False valid d;
              n \<leftarrow> node_at p d;
              c \<leftarrow> tlv_container n;
              ps \<leftarrow> attrs_until c e a;
              Some (ps, d) } }"

text \<open>The first attribute of \<open>c\<close> among \<open>ps\<close> that is the other end of the link \<open>ne\<close> of node \<open>p\<close>.\<close>

fun bidir_loop :: "env \<Rightarrow> bytes \<Rightarrow> bytes \<Rightarrow> dncp_t_peer \<Rightarrow> nat list \<Rightarrow> bool option" where
  "bidir_loop E p c ne [] = Some False"
| "bidir_loop E p c ne (a # as) =
     do { ne2 \<leftarrow> dncp_tlv_peer E c a;
          case ne2 of None \<Rightarrow> bidir_loop E p c ne as
          | Some ne2 \<Rightarrow>
              if ne_ep_id ne = peer_ep_id ne2 \<and> peer_ep_id ne = ne_ep_id ne2 \<and> ne_node_id ne2 = p
              then Some True else bidir_loop E p c ne as }"

definition dncp_node_find_neigh_bidir :: "env \<Rightarrow> bytes \<Rightarrow> dncp_t_peer \<Rightarrow> dncp \<Rightarrow> (bytes option \<times> dncp) option" where
  "dncp_node_find_neigh_bidir E p ne d =
     do { (n2, d) \<leftarrow> dncp_find_node_by_node_id E (ne_node_id ne) False d;
          case n2 of None \<Rightarrow> Some (None, d)
          | Some q \<Rightarrow> do {
              (ps, d) \<leftarrow> dncp_node_for_each_tlv_with_t_v E q (ucast DNCP_T_PEER) False d;
              m \<leftarrow> node_at q d;
              found \<leftarrow> bidir_loop E p (case tlv_container m of None \<Rightarrow> [] | Some c \<Rightarrow> c) ne ps;
              Some (if found then Some q else None, d) } }"

fun highest_id_loop :: "env \<Rightarrow> u32 \<Rightarrow> bytes \<Rightarrow> bytes \<Rightarrow> nat list \<Rightarrow> bool option" where
  "highest_id_loop E i own c [] = Some True"
| "highest_id_loop E i own c (a # as) =
     do { nh \<leftarrow> dncp_tlv_peer E c a;
          case nh of None \<Rightarrow> highest_id_loop E i own c as
          | Some nh \<Rightarrow>
              if ne_ep_id nh \<noteq> i then highest_id_loop E i own c as
              else if bytes_cmp (ne_node_id nh) own > 0 then Some False
              else highest_id_loop E i own c as }"

definition dncp_ep_has_highest_id :: "env \<Rightarrow> bytes \<Rightarrow> dncp \<Rightarrow> (bool \<times> dncp) option" where
  "dncp_ep_has_highest_id E ep d =
     do { l \<leftarrow> ep_at ep d;
          own \<leftarrow> own_node d;
          (ps, d) \<leftarrow> dncp_node_for_each_tlv_with_t_v E own (ucast DNCP_T_PEER) False d;
          n \<leftarrow> node_at own d;
          r \<leftarrow> highest_id_loop E (ep_id l) own (case tlv_container n of None \<Rightarrow> [] | Some c \<Rightarrow> c) ps;
          Some (r, d) }"

section \<open>Subscription\<close>

record dncp_subscriber =
  sub_id :: nat
  sub_has :: "dncp_callback \<Rightarrow> bool"

fun node_tlv_events :: "(bytes \<Rightarrow> dncp \<Rightarrow> tlv list option) \<Rightarrow> dncp_subscriber \<Rightarrow> bool \<Rightarrow> bytes list \<Rightarrow> dncp \<Rightarrow>
    (nat \<times> dncp_event) list option" where
  "node_tlv_events f s add [] d = Some []"
| "node_tlv_events f s add (p # ps) d =
     do { ts \<leftarrow> f p d;
          let node = (if sub_has s DNCP_CALLBACK_NODE then [(sub_id s, Node_change p add)] else []);
          let attrs = (if sub_has s DNCP_CALLBACK_TLV then map (\<lambda>t. (sub_id s, Tlv_change p t add)) ts else []);
          es \<leftarrow> node_tlv_events f s add ps d;
          Some ((if add then node @ attrs else attrs @ node) @ es) }"

text \<open>The attributes \<open>dncp_node_for_each_tlv\<close> visits.\<close>

definition dncp_node_for_each_tlv :: "bytes \<Rightarrow> dncp \<Rightarrow> tlv list option" where
  "dncp_node_for_each_tlv p d =
     do { c \<leftarrow> dncp_node_get_tlvs p d;
          case c of None \<Rightarrow> Some [] | Some c \<Rightarrow> do { ps \<leftarrow> tlv_for_each_attr c 0; tlvs_at c ps } }"

definition local_tlv_events :: "dncp_subscriber \<Rightarrow> bool \<Rightarrow> dncp \<Rightarrow> (nat \<times> dncp_event) list" where
  "local_tlv_events s add d =
     (if sub_has s DNCP_CALLBACK_LOCAL_TLV then map (\<lambda>t. (sub_id s, Local_tlv_change (t_tlv t) add)) (tlvs d) else [])"

definition dncp_subscribe :: "env \<Rightarrow> dncp_subscriber \<Rightarrow> dncp \<Rightarrow> dncp option" where
  "dncp_subscribe E s d =
     do { let d = d\<lparr> subscribers := (\<lambda>c. (if sub_has s c then [sub_id s] else []) @ subscribers d c) \<rparr>;
          d \<leftarrow> notify_all E (local_tlv_events s True d) d;
          es \<leftarrow> node_tlv_events dncp_node_for_each_tlv s True (dncp_for_each_node d) d;
          notify_all E es d }"

definition dncp_unsubscribe :: "env \<Rightarrow> dncp_subscriber \<Rightarrow> dncp \<Rightarrow> dncp option" where
  "dncp_unsubscribe E s d =
     do { d \<leftarrow> notify_all E (local_tlv_events s False d) d;
          es \<leftarrow> node_tlv_events dncp_node_for_each_tlv s False (dncp_for_each_node d) d;
          d \<leftarrow> notify_all E es d;
          Some (d\<lparr> subscribers := (\<lambda>c. if sub_has s c then remove1 (sub_id s) (subscribers d c) else subscribers d c) \<rparr>) }"

section \<open>Destruction\<close>

fun tlvs_delete_all :: "env \<Rightarrow> bytes list \<Rightarrow> dncp \<Rightarrow> dncp option" where
  "tlvs_delete_all E [] d = Some d"
| "tlvs_delete_all E (p # ps) d = do { d \<leftarrow> tlvs_delete E p d; tlvs_delete_all E ps d }"

fun eps_delete_all :: "env \<Rightarrow> bytes list \<Rightarrow> dncp \<Rightarrow> dncp option" where
  "eps_delete_all E [] d = Some d"
| "eps_delete_all E (p # ps) d =
     do { d \<leftarrow> update_ep E None (Some p) (d\<lparr> eps := filter (\<lambda>l. ifname (conf l) \<noteq> p) (eps d) \<rparr>);
          eps_delete_all E ps d }"

definition dncp_uninit :: "env \<Rightarrow> dncp \<Rightarrow> dncp option" where
  "dncp_uninit E d =
     do { d \<leftarrow> tlvs_delete_all E (map t_tlv (tlvs d)) d;
          d \<leftarrow> eps_delete_all E (map (\<lambda>l. ifname (conf l)) (eps d)) d;
          let d = d\<lparr> nodes_version := vlist_next E (nodes_version d) \<rparr>;
          own \<leftarrow> own_node d;
          d \<leftarrow> node_modify own (\<lambda>n. n\<lparr> in_nodes_version := -1 \<rparr>) d;
          d \<leftarrow> nodes_flush E d;
          d \<leftarrow> nodes_delete_all E (map node_id (nodes d)) d;
          Some (if num_tlv_indexes d \<noteq> 0 then d\<lparr> tlv_type_to_index := [] \<rparr> else d) }"

text \<open>The registered types have distinct index numbers up to \<open>num_tlv_indexes\<close>.\<close>

definition types_ok :: "nat list \<Rightarrow> nat \<Rightarrow> bool" where
  "types_ok ti num \<longleftrightarrow> (\<forall>t < length ti. ti ! t \<le> num) \<and>
     (\<forall>t < length ti. \<forall>u < length ti. ti ! t = ti ! u \<and> ti ! t \<noteq> 0 \<longrightarrow> t = u)"

text \<open>Attributes in the order of their types, as the protocol requires them.\<close>

abbreviation types_sorted :: "tlv list \<Rightarrow> bool" where
  "types_sorted \<equiv> sorted_wrt (\<lambda>a b. fst a \<le> fst b)"

definition strip_index :: "dncp_node \<Rightarrow> dncp_node" where
  "strip_index n = n\<lparr> tlv_index := None, tlv_index_dirty := True \<rparr>"

definition same_but_index :: "dncp \<Rightarrow> dncp \<Rightarrow> bool" where
  "same_but_index d d' \<longleftrightarrow> map strip_index (nodes d') = map strip_index (nodes d) \<and>
     d'\<lparr> nodes := nodes d, tlv_type_to_index := tlv_type_to_index d, num_tlv_indexes := num_tlv_indexes d \<rparr> = d"

text \<open>What a recalculation stores in the index of a node.\<close>

definition index_of :: "nat list \<Rightarrow> nat \<Rightarrow> dncp_node \<Rightarrow> nat option list option" where
  "index_of ti num n =
     do { ix \<leftarrow> (case tlv_container n of None \<Rightarrow> Some (replicate (num * 4) None)
                | Some c \<Rightarrow> do { ps \<leftarrow> tlv_for_each_attr c 0; index_loop ti num c (replicate (num * 4) None) (-1) 0 ps });
          if num * 4 > 0 \<and> tlv_container_valid n \<noteq> None \<and> tlv_container_valid n = tlv_container n
          then memcpy_at ix (num * 4 div 2) ix 0 (num * 4 div 2) else Some ix }"

definition index_ok :: "nat list \<Rightarrow> nat \<Rightarrow> dncp_node \<Rightarrow> bool" where
  "index_ok ti num n \<longleftrightarrow> (tlv_index n = None \<longrightarrow> tlv_index_dirty n) \<and>
     (\<forall>ix. tlv_index n = Some ix \<longrightarrow> length ix = num * 4 \<and> (tlv_index_dirty n \<or> index_of ti num n = Some ix))"

definition index_inv :: "dncp \<Rightarrow> bool" where
  "index_inv d \<longleftrightarrow> distinct (map node_id (nodes d)) \<and> types_ok (tlv_type_to_index d) (num_tlv_indexes d) \<and>
     (\<forall>n \<in> set (nodes d). index_ok (tlv_type_to_index d) (num_tlv_indexes d) n)"

text \<open>The TLVs of a node, in the order of their types.\<close>

definition node_tlvs :: "dncp_node \<Rightarrow> tlv list \<Rightarrow> bool" where
  "node_tlvs n ts \<longleftrightarrow> holds_opt (tlv_container n) ts \<and> types_sorted ts"

text \<open>
  What the code relies on of the ordered trees: a search finds the element with an equal key, and an
  insertion keeps the order, for a comparison that is an order on the keys in question.
\<close>

definition avl_lib :: "env \<Rightarrow> bool" where
  "avl_lib E \<longleftrightarrow> (\<forall>cmp keys k. comparator (\<lambda>x. x \<in> insert k (set keys)) cmp \<and> sorted_wrt (\<lambda>a b. cmp a b < 0) keys \<longrightarrow>
     (case avl_find E cmp keys k of None \<Rightarrow> \<forall>x \<in> set keys. cmp x k \<noteq> 0 | Some i \<Rightarrow> i < length keys \<and> cmp (keys ! i) k = 0) \<and>
     ((\<forall>x \<in> set keys. cmp x k \<noteq> 0) \<longrightarrow>
        sorted_wrt (\<lambda>a b. cmp a b < 0) (take (avl_pos E cmp keys k) keys @ k # drop (avl_pos E cmp keys k) keys)))"

text \<open>A generation differs from all earlier ones, and \<open>vlist_flush\<close> deletes what is of another generation.\<close>

definition vlist_lib :: "env \<Rightarrow> bool" where
  "vlist_lib E \<longleftrightarrow> (\<forall>v. v < vlist_next E v) \<and> (\<forall>v w. 0 \<le> w \<longrightarrow> vlist_stale E v w = (v \<noteq> w))"

text \<open>An environment with linear search and a small configuration, and an instance with two nodes.\<close>

fun list_find :: "(bytes \<Rightarrow> bytes \<Rightarrow> int) \<Rightarrow> bytes list \<Rightarrow> bytes \<Rightarrow> nat option" where
  "list_find cmp [] k = None"
| "list_find cmp (x # xs) k = (if cmp x k = 0 then Some 0 else map_option Suc (list_find cmp xs k))"

definition plain_ep :: dncp_ep where
  "plain_ep = \<lparr> ifname = [], dnsname = [], trickle_imin = 200, trickle_imax = 7000, trickle_k = 1, keepalive_interval = 20000,
     maximum_multicast_size = 1232, maximum_unicast_size = 9000, accept_node_data_updates_via_multicast = True,
     accept_insecure_nonlocal_traffic = False, accept_secure_nonlocal_traffic = False, unicast_only = False,
     unicast_is_reliable_stream = False \<rparr>"

definition plain_env :: env where
  "plain_env = \<lparr> ext_conf = \<lparr> per_ep = plain_ep, node_id_length = 4, hash_length = 8, keepalive_multiplier_percent = 210,
       grace_interval = 60000, minimum_prune_interval = 1000 \<rparr>,
     cb_hash = (\<lambda>bs. take 8 (bs @ replicate 8 0)), cb_validate_node_data = (\<lambda>_ _. True), cb_handle_collision = (\<lambda>d. Some (d, False)),
     sub_cb = (\<lambda>_ _ d. Some d), rand_at = (\<lambda>n. n), big_endian_host = False, alloc_fails = (\<lambda>_. False), buf_oom = (\<lambda>_. False),
     avl_find = list_find, avl_pos = (\<lambda>cmp keys k. length (takeWhile (\<lambda>x. cmp x k < 0) keys)),
     vlist_next = (\<lambda>v. v + 1), vlist_stale = (\<lambda>v w. v \<noteq> w) \<rparr>"

definition two_nodes :: "bytes option \<Rightarrow> dncp" where
  "two_nodes c = (zero_dncp plain_env 100)\<lparr> last_prune := 1,
     nodes := [(fresh_node plain_env [1, 2, 3, 4])\<lparr> tlv_container := c \<rparr>, fresh_node plain_env [5, 6, 7, 8]] \<rparr>"

text \<open>Slots of the index: those for the whole container, then those for the valid one.\<close>

definition index_slot :: "nat \<Rightarrow> nat \<Rightarrow> bool \<Rightarrow> bool \<Rightarrow> nat" where
  "index_slot k num first valid = (k - 1 + (if valid then num else 0)) * 2 + (if first then 0 else 1)"

section \<open>Lemmas: the index of the TLVs of a node\<close>

definition run_start :: "u32 \<Rightarrow> tlv list \<Rightarrow> nat" where
  "run_start t ts = length (tlvs_enc (takeWhile (\<lambda>a. fst a < t) ts))"

definition run_end :: "u32 \<Rightarrow> tlv list \<Rightarrow> nat" where
  "run_end t ts = length (tlvs_enc (takeWhile (\<lambda>a. fst a \<le> t) ts))"

definition has_type :: "u32 \<Rightarrow> tlv list \<Rightarrow> bool" where
  "has_type t ts \<longleftrightarrow> (\<exists>a \<in> set ts. fst a = t)"

definition cur_ok :: "nat list \<Rightarrow> int \<Rightarrow> nat \<Rightarrow> tlv list \<Rightarrow> bool" where
  "cur_ok ti type idx ts \<longleftrightarrow> (type = -1 \<and> idx = 0) \<or>
     (\<exists>t. type = uint t \<and> unat t < length ti \<and> idx = ti ! unat t \<and> (\<forall>a \<in> set ts. t \<le> fst a))"

definition index_runs :: "nat list \<Rightarrow> int \<Rightarrow> nat \<Rightarrow> tlv list \<Rightarrow> nat option list \<Rightarrow> nat option list \<Rightarrow> bool" where
  "index_runs ti type p ts ix ix' \<longleftrightarrow> length ix' = length ix \<and>
     (\<forall>t. unat t < length ti \<and> ti ! unat t \<noteq> 0 \<longrightarrow>
        ix' ! (2 * (ti ! unat t) - 1) =
          (if has_type t ts then Some (p + run_end t ts) else ix ! (2 * (ti ! unat t) - 1)) \<and>
        ix' ! (2 * (ti ! unat t) - 2) =
          (if has_type t ts \<and> type \<noteq> uint t then Some (p + run_start t ts) else ix ! (2 * (ti ! unat t) - 2))) \<and>
     (\<forall>i \<ge> 2 * length ix div 4. i < length ix \<longrightarrow> ix' ! i = ix ! i)"

lemma run_Cons:
  "fst a < t \<Longrightarrow> run_start t (a # ts) = length (tlv_enc a) + run_start t ts"
  "fst a \<le> t \<Longrightarrow> run_end t (a # ts) = length (tlv_enc a) + run_end t ts"
  "\<not> fst a < t \<Longrightarrow> run_start t (a # ts) = 0"
  "\<not> fst a \<le> t \<Longrightarrow> run_end t (a # ts) = 0"
  by (simp_all add: run_start_def run_end_def)

lemma run_end_absent: "types_sorted ts \<Longrightarrow> \<forall>a \<in> set ts. t \<le> fst a \<Longrightarrow> \<not> has_type t ts \<Longrightarrow> run_end t ts = 0"
  by (cases ts) (auto simp: run_end_def has_type_def)

lemma cur_ok_uint:
  assumes "cur_ok ti (uint u) idx ts"
  shows "unat u < length ti \<and> idx = ti ! unat u \<and> (\<forall>a \<in> set ts. u \<le> fst a)"
proof -
  have "uint u \<noteq> -1" using uint_ge_0 [of u] by linarith
  then show ?thesis using assms by (auto simp: cur_ok_def word_uint_eq_iff [symmetric])
qed

lemma index_runsD:
  assumes "index_runs ti type p ts ix ix'" "unat t < length ti" "ti ! unat t \<noteq> 0"
  shows "ix' ! (2 * (ti ! unat t) - 1) = (if has_type t ts then Some (p + run_end t ts) else ix ! (2 * (ti ! unat t) - 1))"
    "ix' ! (2 * (ti ! unat t) - 2) = (if has_type t ts \<and> type \<noteq> uint t then Some (p + run_start t ts) else ix ! (2 * (ti ! unat t) - 2))"
  using assms by (auto simp: index_runs_def)

text \<open>One attribute \<open>a\<close>, after which the array is \<open>ix1\<close>.\<close>

lemma index_runs_step:
  assumes r: "index_runs ti (uint (fst a)) (p + length (tlv_enc a)) ts ix1 ix'"
    and s: "types_sorted (a # ts)" "cur_ok ti type idx (a # ts)" "length ix1 = length ix"
    and other: "\<And>u. unat u < length ti \<Longrightarrow> ti ! unat u \<noteq> 0 \<Longrightarrow> u \<noteq> fst a \<Longrightarrow>
      ix1 ! (2 * (ti ! unat u) - 1) = ix ! (2 * (ti ! unat u) - 1) \<and> ix1 ! (2 * (ti ! unat u) - 2) = ix ! (2 * (ti ! unat u) - 2)"
    and this_type: "unat (fst a) < length ti \<Longrightarrow> ti ! unat (fst a) \<noteq> 0 \<Longrightarrow>
      ix1 ! (2 * (ti ! unat (fst a)) - 1) = Some (p + length (tlv_enc a)) \<and>
      ix1 ! (2 * (ti ! unat (fst a)) - 2) = (if type = uint (fst a) then ix ! (2 * (ti ! unat (fst a)) - 2) else Some p)"
    and upper: "\<And>i. 2 * length ix div 4 \<le> i \<Longrightarrow> i < length ix \<Longrightarrow> ix1 ! i = ix ! i"
  shows "index_runs ti type p (a # ts) ix ix'"
  unfolding index_runs_def
proof (intro conjI allI impI)
  show "length ix' = length ix" using r s(3) by (simp add: index_runs_def)
next
  fix i assume "2 * length ix div 4 \<le> i" "i < length ix"
  then show "ix' ! i = ix ! i" using r s(3) upper by (simp add: index_runs_def)
next
  fix u :: u32
  assume u: "unat u < length ti \<and> ti ! unat u \<noteq> 0"
  note d = index_runsD [OF r, of u]
  have ge: "\<forall>b \<in> set ts. fst a \<le> fst b" using s(1) by simp
  show "ix' ! (2 * (ti ! unat u) - 1) = (if has_type u (a # ts) then Some (p + run_end u (a # ts)) else ix ! (2 * (ti ! unat u) - 1))"
  proof (cases "u = fst a")
    case True
    then show ?thesis
      using d(1) u this_type run_end_absent [of ts u] s(1) ge by (auto simp: has_type_def run_Cons)
  next
    case False
    then have "has_type u (a # ts) = has_type u ts" by (simp add: has_type_def eq_commute)
    moreover have "fst a \<le> u" if "has_type u ts" using that ge by (auto simp: has_type_def)
    ultimately show ?thesis using d(1) u other False by (simp add: run_Cons add.assoc)
  qed
  show "ix' ! (2 * (ti ! unat u) - 2) =
     (if has_type u (a # ts) \<and> type \<noteq> uint u then Some (p + run_start u (a # ts)) else ix ! (2 * (ti ! unat u) - 2))"
  proof (cases "u = fst a")
    case True
    then show ?thesis using d(2) u this_type by (auto simp: has_type_def run_Cons)
  next
    case False
    then have h: "has_type u (a # ts) = has_type u ts" by (simp add: has_type_def eq_commute)
    have lt: "fst a < u" if "has_type u ts" using that ge False by (auto simp: has_type_def order_less_le)
    have "type \<noteq> uint u" if "has_type u ts"
      using cur_ok_uint [of ti u idx "a # ts"] s(2) lt [OF that] by auto
    moreover have "uint (fst a) \<noteq> uint u" using False by (simp add: word_uint_eq_iff)
    ultimately show ?thesis using h lt d(2) u other False by (auto simp: run_Cons add.assoc)
  qed
qed

lemma slots_differ:
  "k \<noteq> j \<Longrightarrow> k \<noteq> 0 \<Longrightarrow> j \<noteq> 0 \<Longrightarrow>
   2 * k - 2 \<noteq> 2 * j - 2 \<and> 2 * k - 2 \<noteq> 2 * j - 1 \<and> 2 * k - 1 \<noteq> 2 * j - 2 \<and> 2 * k - 1 \<noteq> 2 * j - (1 :: nat)"
  by presburger

lemma index_loop_runs:
  "types_ok ti num \<Longrightarrow> types_sorted ts \<Longrightarrow> list_all tlv_ok ts \<Longrightarrow> c = pre @ tlvs_enc ts @ x \<Longrightarrow>
   length ix = 4 * num \<Longrightarrow> cur_ok ti type idx ts \<Longrightarrow>
   \<exists>ix'. index_loop ti num c ix type idx (tlv_offsets (length pre) ts) = Some ix' \<and> index_runs ti type (length pre) ts ix ix'"
proof (induction ts arbitrary: pre ix type idx)
  case Nil
  then show ?case by (simp add: index_runs_def has_type_def)
next
  case (Cons a ts)
  let ?p = "length pre" and ?q = "length pre + length (tlv_enc a)" and ?t = "fst a"
  have h: "tlv_here c ?p a" using tlv_here_append [of a pre "tlvs_enc ts @ x"] Cons.prems by simp
  have tid: "tlv_id c ?p = Some ?t"
    using tlv_here_at [OF h] by (auto simp: tlv_at_def bind_eq_Some_conv split: if_splits)
  have nxt: "tlv_next c ?p = Some ?q" using tlv_here_pad_len [OF h] by (auto simp: tlv_next_def)
  have le: "unat ?t < length ti \<Longrightarrow> ti ! unat ?t \<le> num" using Cons.prems(1) by (simp add: types_ok_def)
  have inj: "ti ! unat u \<noteq> ti ! unat ?t" if "unat u < length ti" "unat ?t < length ti" "ti ! unat u \<noteq> 0" "u \<noteq> ?t" for u
    using Cons.prems(1) that unfolding types_ok_def by (metis word_unat_eq_iff)
  have cur: "unat ?t < length ti \<Longrightarrow> cur_ok ti (uint ?t) (ti ! unat ?t) ts"
    using Cons.prems(2) by (auto simp: cur_ok_def)
  have IH: "\<exists>ix'. index_loop ti num c ix1 (uint ?t) (ti ! unat ?t) (tlv_offsets ?q ts) = Some ix' \<and>
      index_runs ti (uint ?t) ?q ts ix1 ix'" if "length ix1 = 4 * num" "unat ?t < length ti" for ix1
    using Cons.IH [of "pre @ tlv_enc a" ix1] Cons.prems that cur by simp
  have same: "unat ?t < length ti \<and> idx = ti ! unat ?t" if "uint ?t = type"
    using cur_ok_uint [of ti ?t idx "a # ts"] Cons.prems(6) that by simp
  note step = index_runs_step [OF _ Cons.prems(2,6)]
  consider (out) "uint ?t \<noteq> type" "\<not> unat ?t < length ti"
    | (plain) "unat ?t < length ti" "ti ! unat ?t = 0"
    | (new) "unat ?t < length ti" "ti ! unat ?t \<noteq> 0" "uint ?t \<noteq> type"
    | (old) "unat ?t < length ti" "ti ! unat ?t \<noteq> 0" "uint ?t = type"
    using same by blast
  then show ?case
  proof cases
    case out
    have "index_runs ti type ?p (a # ts) ix ix"
      using Cons.prems(2) out(2) by (auto simp: index_runs_def has_type_def word_le_nat_alt)
    then show ?thesis using out tid nxt by simp
  next
    case plain
    obtain ix' where ix': "index_loop ti num c ix (uint ?t) (ti ! unat ?t) (tlv_offsets ?q ts) = Some ix'"
        "index_runs ti (uint ?t) ?q ts ix ix'" using IH [OF Cons.prems(5) plain(1)] by blast
    have "uint ?t = type \<Longrightarrow> idx = 0" using same plain by simp
    then show ?thesis using step [OF ix'(2) refl] plain tid nxt ix'(1) by (auto simp: not_le)
  next
    case new
    let ?k = "ti ! unat ?t"
    define ix1 where "ix1 = ix[2 * ?k - 2 := Some ?p, 2 * ?k - 1 := Some ?q]"
    have l: "2 * ?k - 1 < length ix" "2 * ?k - 2 < length ix" using le [OF new(1)] new(2) Cons.prems(5) by simp_all
    obtain ix' where ix': "index_loop ti num c ix1 (uint ?t) ?k (tlv_offsets ?q ts) = Some ix'"
        "index_runs ti (uint ?t) ?q ts ix1 ix'" using IH [of ix1] new(1) Cons.prems(5) by (auto simp: ix1_def)
    have "index_runs ti type ?p (a # ts) ix ix'"
    proof (rule step [OF ix'(2)])
      fix u assume "unat u < length ti" "ti ! unat u \<noteq> 0" "u \<noteq> ?t"
      then have "ti ! unat u \<noteq> ?k" using inj new(1) by blast
      then show "ix1 ! (2 * (ti ! unat u) - 1) = ix ! (2 * (ti ! unat u) - 1) \<and> ix1 ! (2 * (ti ! unat u) - 2) = ix ! (2 * (ti ! unat u) - 2)"
        using slots_differ [of ?k "ti ! unat u"] \<open>ti ! unat u \<noteq> 0\<close> new(2) unfolding ix1_def by simp
    qed (use l new le [OF new(1)] Cons.prems(5) in \<open>auto simp: ix1_def nth_list_update\<close>)
    then show ?thesis using new le [OF new(1)] l tid nxt ix'(1) by (simp add: wr_def ix1_def)
  next
    case old
    let ?k = "ti ! unat ?t"
    define ix1 where "ix1 = ix[2 * ?k - 1 := Some ?q]"
    have l: "2 * ?k - 1 < length ix" using le [OF old(1)] old(2) Cons.prems(5) by simp
    obtain ix' where ix': "index_loop ti num c ix1 (uint ?t) ?k (tlv_offsets ?q ts) = Some ix'"
        "index_runs ti (uint ?t) ?q ts ix1 ix'" using IH [of ix1] old(1) Cons.prems(5) by (auto simp: ix1_def)
    have "index_runs ti type ?p (a # ts) ix ix'"
    proof (rule step [OF ix'(2)])
      fix u assume "unat u < length ti" "ti ! unat u \<noteq> 0" "u \<noteq> ?t"
      then have "ti ! unat u \<noteq> ?k" using inj old(1) by blast
      then show "ix1 ! (2 * (ti ! unat u) - 1) = ix ! (2 * (ti ! unat u) - 1) \<and> ix1 ! (2 * (ti ! unat u) - 2) = ix ! (2 * (ti ! unat u) - 2)"
        using slots_differ [of ?k "ti ! unat u"] \<open>ti ! unat u \<noteq> 0\<close> old(2) unfolding ix1_def by simp
    qed (use l old le [OF old(1)] Cons.prems(5) in \<open>auto simp: ix1_def nth_list_update\<close>)
    moreover have "idx = ?k" using same old(3) by simp
    ultimately show ?thesis using old l tid nxt ix'(1) by (simp add: wr_def ix1_def)
  qed
qed

section \<open>Lemmas: objects of an instance\<close>

lemma node_at_Some: "node_at p d = Some n \<Longrightarrow> n \<in> set (nodes d) \<and> node_id n = p"
  by (auto simp: node_at_def find_Some_iff)

lemma node_at_eq:
  assumes "distinct (map node_id (nodes d))" "n \<in> set (nodes d)"
  shows "node_at (node_id n) d = Some n"
proof -
  obtain m where m: "node_at (node_id n) d = Some m" using assms(2) by (cases "node_at (node_id n) d") (auto simp: node_at_def find_None_iff)
  then have "m \<in> set (nodes d)" "node_id m = node_id n" using node_at_Some by blast+
  then have "m = n" using assms by (metis distinct_map inj_onD)
  with m show ?thesis by simp
qed

lemma find_map_upd:
  "find (\<lambda>m. f m = p) (map (\<lambda>m. if f m = f n then n else m) xs) =
   (if p = f n then map_option (\<lambda>_. n) (find (\<lambda>m. f m = p) xs) else find (\<lambda>m. f m = p) xs)"
  by (induction xs) auto

lemma node_at_put [simp]:
  "node_at p (put_node n d) = (if p = node_id n then map_option (\<lambda>_. n) (node_at p d) else node_at p d)"
  by (simp add: node_at_def put_node_def find_map_upd)

lemma ids_put [simp]: "map node_id (nodes (put_node n d)) = map node_id (nodes d)"
  by (simp add: put_node_def)

lemma strip_id [simp]: "node_id (strip_index n) = node_id n"
  by (simp add: strip_index_def)

lemma same_but_index_refl [simp]: "same_but_index d d"
  by (simp add: same_but_index_def)

lemma same_but_index_trans: "same_but_index d d' \<Longrightarrow> same_but_index d' d'' \<Longrightarrow> same_but_index d d''"
  unfolding same_but_index_def by (cases d; cases d'; cases d'') simp

lemma same_but_index_ids: "same_but_index d d' \<Longrightarrow> map node_id (nodes d') = map node_id (nodes d)"
proof -
  assume "same_but_index d d'"
  then have "map node_id (map strip_index (nodes d')) = map node_id (map strip_index (nodes d))" by (simp add: same_but_index_def)
  then show ?thesis by (simp add: comp_def)
qed

lemma find_strip:
  "map strip_index ns = map strip_index ms \<Longrightarrow>
   map_option strip_index (find (\<lambda>n. node_id n = p) ns) = map_option strip_index (find (\<lambda>n. node_id n = p) ms)"
proof (induction ns arbitrary: ms)
  case (Cons n ns)
  then obtain m ms' where "ms = m # ms'" "strip_index n = strip_index m" "map strip_index ns = map strip_index ms'" by (cases ms) auto
  moreover have "node_id n = node_id m" using calculation(2) by (metis strip_id)
  ultimately show ?case using Cons.IH by simp
qed simp

lemma same_but_index_node_at:
  "same_but_index d d' \<Longrightarrow> map_option strip_index (node_at p d') = map_option strip_index (node_at p d)"
  unfolding node_at_def by (rule find_strip) (simp add: same_but_index_def)

lemma strip_eq_fields:
  assumes "strip_index m = strip_index n"
  shows "node_id m = node_id n" "in_nodes_version m = in_nodes_version n" "update_number m = update_number n"
    "last_reachable_prune m = last_reachable_prune n" "node_data_hash m = node_data_hash n"
    "node_data_hash_dirty m = node_data_hash_dirty n" "origination_time m = origination_time n"
    "expiration_time m = expiration_time n" "tlv_container m = tlv_container n" "tlv_container_valid m = tlv_container_valid n"
  using assms by (cases m; cases n; simp add: strip_index_def)+

section \<open>Lemmas: looking up TLVs by type\<close>

lemma container_for_each:
  assumes "container_holds c ts"
  shows "tlv_for_each_attr c 0 = Some (tlv_offsets 4 ts)"
proof -
  obtain pre x where e: "c = pre @ tlvs_enc ts @ x" "length pre = 4" "list_all tlv_ok ts" by (rule container_split [OF assms])
  have l: "length (tlvs_enc ts) < 0x10000" using assms by (simp add: container_holds_def)
  then have "tlv_len c 0 = Some (of_nat (length (tlvs_enc ts)))"
    using assms tlv_fields(2) [of 0 "length (tlvs_enc ts)" 0 "[]"] by (auto simp: container_holds_def)
  then show ?thesis
    using tlv_for_each_enc [OF e(3), of pre x] e l by (simp add: tlv_for_each_attr_def tlv_data_def unat_u32)
qed

lemma double_half:
  assumes "length ix = num * 4" "i < num * 2"
  shows "memcpy_at ix (num * 4 div 2) ix 0 (num * 4 div 2) = Some (take (num * 2) ix @ take (num * 2) ix)"
    "(take (num * 2) ix @ take (num * 2) ix) ! i = ix ! i"
    "(take (num * 2) ix @ take (num * 2) ix) ! (num * 2 + i) = ix ! i"
  using assms by (simp_all add: memcpy_at_def nth_append mult.commute [of _ num])

lemma index_of_holds:
  assumes n: "node_tlvs n ts" and t: "types_ok ti num" "unat t < length ti" "ti ! unat t \<noteq> 0"
  obtains ix where "index_of ti num n = Some ix" "length ix = num * 4"
    "\<And>first valid. ix ! index_slot (ti ! unat t) num first valid =
      (if has_type t ts \<and> (valid \<longrightarrow> tlv_container_valid n = tlv_container n)
       then Some (4 + (if first then run_start t ts else run_end t ts)) else None)"
proof -
  let ?k = "ti ! unat t"
  have k: "?k \<le> num" "0 < num" using t by (force simp: types_ok_def)+
  have slot: "index_slot ?k num first valid = (if valid then num * 2 else 0) + (if first then 2 * ?k - 2 else 2 * ?k - 1)" for first valid
    using t(3) by (cases ?k) (simp_all add: index_slot_def)
  show thesis
  proof (cases "tlv_container n")
    case None
    then have "ts = []" using n by (simp add: node_tlvs_def holds_opt_def)
    moreover have "index_slot ?k num first valid < num * 4" for first valid using slot [of first valid] k t(3) by (cases first; cases valid; simp)
    moreover have "index_of ti num n = Some (replicate (num * 4) None)" using None by (auto simp: index_of_def)
    ultimately show thesis using that [of "replicate (num * 4) None"] by (simp add: has_type_def)
  next
    case (Some c)
    then have c: "container_holds c ts" "types_sorted ts" using n by (simp_all add: node_tlvs_def holds_opt_def)
    obtain pre x where e: "c = pre @ tlvs_enc ts @ x" "length pre = 4" "list_all tlv_ok ts" by (rule container_split [OF c(1)])
    obtain ix where ix: "index_loop ti num c (replicate (num * 4) None) (-1) 0 (tlv_offsets 4 ts) = Some ix"
        "index_runs ti (-1) 4 ts (replicate (num * 4) None) ix"
      using index_loop_runs [OF t(1) c(2) e(3,1), of "replicate (num * 4) None" "-1" 0] e(2) by (auto simp: cur_ok_def)
    have len: "length ix = num * 4" using ix(2) by (simp add: index_runs_def)
    have pos: "uint t \<noteq> -1" using uint_ge_0 [of t] by linarith
    have low: "ix ! (if first then 2 * ?k - 2 else 2 * ?k - 1) =
        (if has_type t ts then Some (4 + (if first then run_start t ts else run_end t ts)) else None)" for first
      using index_runsD [OF ix(2) t(2,3)] pos k t(3) by (cases first) (auto simp: eq_commute [of "-1"])
    have high: "ix ! (num * 2 + (if first then 2 * ?k - 2 else 2 * ?k - 1)) = None" for first
      using ix(2) k t(3) by (cases first) (simp_all add: index_runs_def)
    have lt: "(if first then 2 * ?k - 2 else 2 * ?k - 1) < num * 2" for first using k t(3) by (cases first) simp_all
    show thesis
    proof (cases "tlv_container_valid n = tlv_container n")
      case True
      have "index_of ti num n = Some (take (num * 2) ix @ take (num * 2) ix)"
        using Some True k(2) ix(1) container_for_each [OF c(1)] double_half(1) [OF len lt] by (simp add: index_of_def)
      then show thesis
      proof (rule that)
        show "length (take (num * 2) ix @ take (num * 2) ix) = num * 4" using len by simp
        fix first valid
        show "(take (num * 2) ix @ take (num * 2) ix) ! index_slot ?k num first valid =
          (if has_type t ts \<and> (valid \<longrightarrow> tlv_container_valid n = tlv_container n)
           then Some (4 + (if first then run_start t ts else run_end t ts)) else None)"
          using double_half(2,3) [OF len lt [of first]] low [of first] True unfolding slot by (cases valid) simp_all
      qed
    next
      case False
      have "index_of ti num n = Some ix"
        using Some False ix(1) container_for_each [OF c(1)] by (simp add: index_of_def)
      then show thesis
      proof (rule that [OF _ len])
        fix first valid
        show "ix ! index_slot ?k num first valid =
          (if has_type t ts \<and> (valid \<longrightarrow> tlv_container_valid n = tlv_container n)
           then Some (4 + (if first then run_start t ts else run_end t ts)) else None)"
          using low [of first] high [of first] False unfolding slot by (cases valid) simp_all
      qed
    qed
  qed
qed

lemma drop_indexes_eq:
  "\<forall>n \<in> set ns. tlv_index n = None \<longrightarrow> tlv_index_dirty n \<Longrightarrow> drop_indexes ns = Some (map strip_index ns)"
proof (induction ns)
  case (Cons n ns)
  have "drop_index n = Some (strip_index n)" using Cons.prems by (cases "tlv_index n") (simp_all add: strip_index_def)
  then show ?case using Cons by (simp del: drop_index.simps)
qed simp

lemma strip_strip [simp]: "strip_index (strip_index n) = strip_index n"
  by (simp add: strip_index_def)

lemma index_ok_strip [simp]: "index_ok ti num (strip_index n)"
  by (simp add: index_ok_def strip_index_def)

lemma types_ok_extend:
  assumes "types_ok ti num" "t < length ti \<Longrightarrow> ti ! t = 0"
  shows "types_ok ((if t < length ti then ti else ti @ replicate (t + 1 - length ti) 0)[t := num + 1]) (num + 1)"
proof -
  let ?ti = "if t < length ti then ti else ti @ replicate (t + 1 - length ti) 0"
  have v: "?ti ! u = (if u < length ti then ti ! u else 0)" if "u < length ?ti" for u
    using that by (auto simp: nth_append split: if_splits)
  have le: "?ti ! u \<le> num" if "u < length ?ti" for u using v [OF that] assms(1) by (simp add: types_ok_def)
  have inj: "u = w" if "u < length ?ti" "w < length ?ti" "?ti ! u = ?ti ! w" "?ti ! u \<noteq> 0" for u w
    using v [OF that(1)] v [OF that(2)] that(3,4) assms(1) by (auto simp: types_ok_def split: if_splits)
  have tl: "t < length ?ti" by simp
  show ?thesis unfolding types_ok_def
  proof (intro conjI allI impI)
    fix u assume "u < length (?ti[t := num + 1])"
    then show "?ti[t := num + 1] ! u \<le> num + 1" using le [of u] by (cases "u = t") (auto simp del: if_image_distrib)
  next
    fix u w assume u: "u < length (?ti[t := num + 1])" "w < length (?ti[t := num + 1])"
      and e: "?ti[t := num + 1] ! u = ?ti[t := num + 1] ! w \<and> ?ti[t := num + 1] ! u \<noteq> 0"
    have s: "?ti[t := num + 1] ! x = (if x = t then num + 1 else ?ti ! x)" if "x < length ?ti" for x
      using that by (simp only: nth_list_update [OF tl]) auto
    have "u < length ?ti" "w < length ?ti" using u by (simp_all only: length_list_update)
    with e show "u = w" using s [of u] s [of w] le [of u] le [of w] inj [of u w] by (cases "u = t"; cases "w = t") simp_all
  qed
qed

lemma dncp_add_tlv_index_ok:
  assumes i: "index_inv d" and a: "\<And>x. \<not> alloc_fails E x"
  obtains d' where "dncp_add_tlv_index E type d = Some (d', True)" "index_inv d'" "same_but_index d d'"
    "unat type < length (tlv_type_to_index d')" "tlv_type_to_index d' ! unat type \<noteq> 0"
proof (cases "unat type < length (tlv_type_to_index d) \<and> tlv_type_to_index d ! unat type \<noteq> 0")
  case True
  then show thesis using that [of d] i by (simp add: dncp_add_tlv_index_def Let_def)
next
  case False
  let ?t = "unat type" and ?ti = "tlv_type_to_index d"
  define ti where "ti = (if ?t < length ?ti then ?ti else ?ti @ replicate (?t + 1 - length ?ti) 0)[?t := num_tlv_indexes d + 1]"
  define d' where "d' = d\<lparr> tlv_type_to_index := ti, num_tlv_indexes := num_tlv_indexes d + 1, nodes := map strip_index (nodes d) \<rparr>"
  have dr: "drop_indexes (nodes d) = Some (map strip_index (nodes d))"
    by (rule drop_indexes_eq) (use i in \<open>simp add: index_inv_def index_ok_def\<close>)
  have "dncp_add_tlv_index E type d = Some (d', True)"
    using False a dr by (auto simp: dncp_add_tlv_index_def Let_def ti_def d'_def)
  moreover have "types_ok ti (num_tlv_indexes d + 1)" unfolding ti_def
    by (rule types_ok_extend) (use i False in \<open>auto simp: index_inv_def\<close>)
  then have "index_inv d'" using i by (simp add: index_inv_def d'_def comp_def)
  moreover have "same_but_index d d'" by (simp add: same_but_index_def d'_def comp_def)
  moreover have "?t < length ti" "ti ! ?t \<noteq> 0" by (simp_all add: ti_def)
  then have "?t < length (tlv_type_to_index d')" "tlv_type_to_index d' ! ?t \<noteq> 0" by (simp_all add: d'_def)
  ultimately show thesis by (rule that)
qed

lemma index_of_upd [simp]: "index_of ti num (n\<lparr> tlv_index := x, tlv_index_dirty := y \<rparr>) = index_of ti num n"
  by (simp add: index_of_def)

lemma index_inv_put:
  assumes "index_inv d" "index_ok (tlv_type_to_index d) (num_tlv_indexes d) n"
  shows "index_inv (put_node n d)"
proof -
  have "distinct (map node_id (nodes (put_node n d)))" using assms(1) by (simp only: ids_put index_inv_def)
  moreover have "set (nodes (put_node n d)) \<subseteq> insert n (set (nodes d))" by (auto simp: put_node_def)
  ultimately show ?thesis using assms by (auto simp: index_inv_def put_node_def)
qed

lemma map_put_strip:
  assumes "distinct (map node_id ns)" "n \<in> set ns" "strip_index n' = strip_index n"
  shows "map strip_index (map (\<lambda>m. if node_id m = node_id n' then n' else m) ns) = map strip_index ns"
proof -
  have i: "node_id n' = node_id n" using assms(3) strip_eq_fields(1) by blast
  have "m = n" if "m \<in> set ns" "node_id m = node_id n" for m using assms that by (auto simp: distinct_map inj_on_def)
  then show ?thesis using assms(3) i by (auto simp: comp_def)
qed

lemma same_but_index_put:
  assumes "index_inv d" "node_at p d = Some n" "strip_index n' = strip_index n"
  shows "same_but_index d (put_node n' d)"
proof -
  have "map strip_index (nodes (put_node n' d)) = map strip_index (nodes d)"
    unfolding put_node_def using map_put_strip [of "nodes d" n n'] node_at_Some [OF assms(2)] assms by (simp add: index_inv_def)
  then show ?thesis by (simp add: same_but_index_def put_node_def)
qed

lemma recalculate_index_eq:
  assumes i: "index_inv d" and n: "node_at p d = Some n" "tlv_index_dirty n"
    and ix: "index_of (tlv_type_to_index d) (num_tlv_indexes d) n = Some ix" and a: "\<And>x. \<not> alloc_fails E x"
  shows "dncp_node_recalculate_index E p d = Some (put_node (n\<lparr> tlv_index := Some ix, tlv_index_dirty := False \<rparr>) d)"
proof -
  have "index_ok (tlv_type_to_index d) (num_tlv_indexes d) n" using i node_at_Some [OF n(1)] by (simp add: index_inv_def)
  then have len: "length y = num_tlv_indexes d * 4" if "tlv_index n = Some y" for y using that by (simp add: index_ok_def)
  have base: "replicate (num_tlv_indexes d * 4) None @ (case tlv_index n of None \<Rightarrow> [] | Some ix \<Rightarrow> drop (num_tlv_indexes d * 4) ix) =
      replicate (num_tlv_indexes d * 4) None"
    "\<not> (case tlv_index n of None \<Rightarrow> False | Some ix \<Rightarrow> length ix < num_tlv_indexes d * 4)"
    using len by (cases "tlv_index n"; simp)+
  have "dncp_node_recalculate_index E p d = do { ix \<leftarrow> index_of (tlv_type_to_index d) (num_tlv_indexes d) n;
      Some (put_node (n\<lparr> tlv_index := Some ix, tlv_index_dirty := False \<rparr>) d) }"
    unfolding dncp_node_recalculate_index_def index_of_def Let_def n(1) Option.bind_lunit base(1) Option.bind_assoc
    using n(2) a base(2) by (simp only: if_False if_True simp_thms)
  then show ?thesis using ix by simp
qed

lemma get_tlv_with_type_eq:
  assumes i: "index_inv d" and n: "node_at p d = Some n" "node_tlvs n ts" and a: "\<And>x. \<not> alloc_fails E x"
  shows "\<exists>d'. dncp_node_get_tlv_with_type E p type first valid d =
       Some (if has_type (ucast type) ts \<and> (valid \<longrightarrow> tlv_container_valid n = tlv_container n)
             then Some (4 + (if first then run_start (ucast type) ts else run_end (ucast type) ts)) else None, d') \<and>
    index_inv d' \<and> same_but_index d d'"
proof -
  obtain d1 where d1: "(if unat type \<ge> length (tlv_type_to_index d) \<or> tlv_type_to_index d ! unat type = 0
        then dncp_add_tlv_index E type d else Some (d, True)) = Some (d1, True)" "index_inv d1" "same_but_index d d1"
      and t: "unat type < length (tlv_type_to_index d1)" "tlv_type_to_index d1 ! unat type \<noteq> 0"
  proof (cases "unat type \<ge> length (tlv_type_to_index d) \<or> tlv_type_to_index d ! unat type = 0")
    case True
    obtain d' where "dncp_add_tlv_index E type d = Some (d', True)" "index_inv d'" "same_but_index d d'"
        "unat type < length (tlv_type_to_index d')" "tlv_type_to_index d' ! unat type \<noteq> 0"
      using dncp_add_tlv_index_ok [OF i a] by metis
    with True that show thesis by simp
  next
    case False
    then show thesis using that [of d] i by simp
  qed
  let ?ti = "tlv_type_to_index d1" and ?num = "num_tlv_indexes d1" and ?t = "ucast type :: u32"
  have ut: "unat ?t = unat type" using unsigned_less [of type, where 'a = nat] by (simp add: unsigned_ucast_eq take_bit_nat_eq_self)
  obtain m where m: "node_at p d1 = Some m" "strip_index m = strip_index n"
    using same_but_index_node_at [OF d1(3), of p] n(1) by auto
  note f = strip_eq_fields [OF m(2)]
  have tl: "node_tlvs m ts" using n(2) by (simp add: node_tlvs_def f)
  have ok: "types_ok ?ti ?num" "index_ok ?ti ?num m" using d1(2) node_at_Some [OF m(1)] by (simp_all add: index_inv_def)
  obtain ix where ix: "index_of ?ti ?num m = Some ix" "length ix = ?num * 4"
      "ix ! index_slot (?ti ! unat type) ?num first valid =
        (if has_type ?t ts \<and> (valid \<longrightarrow> tlv_container_valid n = tlv_container n)
         then Some (4 + (if first then run_start ?t ts else run_end ?t ts)) else None)"
    using index_of_holds [OF tl ok(1), of ?t] t unfolding ut f by metis
  let ?m = "m\<lparr> tlv_index := Some ix, tlv_index_dirty := False \<rparr>"
  define d2 where "d2 = (if tlv_index_dirty m then put_node ?m d1 else d1)"
  have r: "(if tlv_index_dirty m then dncp_node_recalculate_index E p d1 else Some d1) = Some d2"
    using recalculate_index_eq [OF d1(2) m(1) _ ix(1) a] by (simp add: d2_def)
  have "index_ok ?ti ?num ?m" using ix(1,2) by (simp add: index_ok_def)
  then have i2: "index_inv d2" using d1(2) index_inv_put by (simp add: d2_def)
  have "strip_index ?m = strip_index m" by (simp add: strip_index_def)
  then have s2: "same_but_index d1 d2" using same_but_index_put [OF d1(2) m(1)] by (simp add: d2_def)
  have "node_id m = p" using node_at_Some [OF m(1)] by simp
  then have m2: "\<exists>m2. node_at p d2 = Some m2 \<and> tlv_index m2 = Some ix"
    using m(1) ok(2) ix(1) by (auto simp: d2_def index_ok_def)
  have same: "tlv_type_to_index d2 = ?ti" "num_tlv_indexes d2 = ?num" by (simp_all add: d2_def put_node_def)
  have "?ti ! unat type \<le> ?num" using ok(1) t by (simp add: types_ok_def)
  then have bound: "index_slot (?ti ! unat type) ?num first valid < length ix"
    using t(2) ix(2) by (cases first; cases valid; simp add: index_slot_def)
  have "dncp_node_get_tlv_with_type E p type first valid d = Some (ix ! index_slot (?ti ! unat type) ?num first valid, d2)"
    using d1(1) m(1) r m2 same bound by (auto simp: dncp_node_get_tlv_with_type_def Let_def index_slot_def rd_def)
  then show ?thesis using i2 same_but_index_trans [OF d1(3) s2] ix(3) by simp
qed

lemma types_sorted_split:
  "types_sorted ts \<Longrightarrow> takeWhile (\<lambda>a. fst a \<le> t) ts = takeWhile (\<lambda>a. fst a < t) ts @ filter (\<lambda>a. fst a = t) ts"
proof (induction ts)
  case (Cons a ts)
  consider "fst a < t" | "fst a = t" | "t < fst a" by (meson less_linear)
  then show ?case
  proof cases
    case 2
    have "takeWhile (\<lambda>a. fst a < t) ts = []" using Cons.prems 2 by (cases ts) auto
    then show ?thesis using Cons 2 by simp
  next
    case 3
    then have "filter (\<lambda>a. fst a = t) ts = []" using Cons.prems by (force simp: filter_empty_conv)
    with 3 show ?thesis by auto
  qed (use Cons in auto)
qed simp

lemma attrs_until_enc:
  "list_all tlv_ok g \<Longrightarrow> c = pre @ tlvs_enc g @ x \<Longrightarrow>
   attrs_until c (Some (length pre + length (tlvs_enc g))) (length pre) = Some (tlv_offsets (length pre) g)"
proof (induction g arbitrary: pre)
  case (Cons a g)
  have h: "tlv_here c (length pre) a" using tlv_here_append [of a pre "tlvs_enc g @ x"] Cons.prems by simp
  have "tlv_next c (length pre) = Some (length pre + length (tlv_enc a))"
    using tlv_here_pad_len [OF h] by (auto simp: tlv_next_def)
  moreover have "length pre + 4 \<le> length c" using Cons.prems by (simp add: length_tlv_enc)
  ultimately show ?case using Cons.IH [of "pre @ tlv_enc a"] Cons.prems
    by (subst attrs_until.simps) (simp add: add.assoc length_tlv_enc)
qed (simp add: attrs_until.simps)

lemma for_each_with_type_eq:
  assumes i: "index_inv d" and n: "node_at p d = Some n" "node_tlvs n ts" and a: "\<And>x. \<not> alloc_fails E x"
  obtains d' ps where "dncp_node_for_each_tlv_with_t_v E p type valid d = Some (ps, d')"
    "tlvs_at (case tlv_container n of None \<Rightarrow> [] | Some c \<Rightarrow> c) ps =
      Some (if valid \<longrightarrow> tlv_container_valid n = tlv_container n then filter (\<lambda>a. fst a = ucast type) ts else [])"
    "index_inv d'" "same_but_index d d'"
proof -
  let ?t = "ucast type :: u32" and ?v = "valid \<longrightarrow> tlv_container_valid n = tlv_container n"
  obtain d1 where d1: "dncp_node_get_tlv_with_type E p type True valid d =
      Some (if has_type ?t ts \<and> ?v then Some (4 + run_start ?t ts) else None, d1)" "index_inv d1" "same_but_index d d1"
    using get_tlv_with_type_eq [OF i n a, of type True valid] unfolding if_True by blast
  show thesis
  proof (cases "has_type ?t ts \<and> ?v")
    case False
    then have "(if ?v then filter (\<lambda>a. fst a = ?t) ts else []) = []" by (auto simp: has_type_def filter_empty_conv)
    moreover have "dncp_node_for_each_tlv_with_t_v E p type valid d = Some ([], d1)"
      using d1(1) False by (auto simp: dncp_node_for_each_tlv_with_t_v_def)
    ultimately show thesis using that [OF _ _ d1(2,3)] by simp
  next
    case True
    then obtain c where c: "tlv_container n = Some c" "container_holds c ts" "types_sorted ts"
      using n(2) by (cases "tlv_container n") (auto simp: node_tlvs_def holds_opt_def has_type_def)
    obtain m where m: "node_at p d1 = Some m" "strip_index m = strip_index n"
      using same_but_index_node_at [OF d1(3), of p] n(1) by auto
    have tl: "node_tlvs m ts" using n(2) by (simp add: node_tlvs_def strip_eq_fields [OF m(2)])
    obtain d2 where d2: "dncp_node_get_tlv_with_type E p type False valid d1 = Some (Some (4 + run_end ?t ts), d2)"
        "index_inv d2" "same_but_index d1 d2"
      using get_tlv_with_type_eq [OF d1(2) m(1) tl a, of type False valid] True strip_eq_fields(9,10) [OF m(2)] by auto
    obtain m' where m': "node_at p d2 = Some m'" "strip_index m' = strip_index m"
      using same_but_index_node_at [OF d2(3), of p] m(1) by auto
    have c': "tlv_container m' = Some c" using c(1) strip_eq_fields [OF m'(2)] strip_eq_fields [OF m(2)] by simp
    let ?b = "takeWhile (\<lambda>a. fst a < ?t) ts" and ?g = "filter (\<lambda>a. fst a = ?t) ts"
    obtain r where r: "ts = ?b @ ?g @ r"
      using types_sorted_split [OF c(3), of ?t] takeWhile_dropWhile_id [of "\<lambda>a. fst a \<le> ?t" ts] by (metis append.assoc)
    obtain pre x where e: "c = pre @ tlvs_enc ts @ x" "length pre = 4" "list_all tlv_ok ts" by (rule container_split [OF c(2)])
    have cs: "c = (pre @ tlvs_enc ?b) @ tlvs_enc ?g @ (tlvs_enc r @ x)"
      using e(1) r by (metis append.assoc tlvs_enc_simps(3))
    have g: "list_all tlv_ok ?g" using e(3) by (simp add: list_all_iff)
    have "run_end ?t ts = run_start ?t ts + length (tlvs_enc ?g)"
      using types_sorted_split [OF c(3), of ?t] by (simp add: run_end_def run_start_def)
    then have "attrs_until c (Some (4 + run_end ?t ts)) (4 + run_start ?t ts) = Some (tlv_offsets (4 + run_start ?t ts) ?g)"
      using attrs_until_enc [OF g cs] e(2) by (simp add: run_start_def add.assoc)
    then have "dncp_node_for_each_tlv_with_t_v E p type valid d = Some (tlv_offsets (4 + run_start ?t ts) ?g, d2)"
      using d1(1) d2(1) True m'(1) c' by (auto simp: dncp_node_for_each_tlv_with_t_v_def)
    moreover have "tlvs_at c (tlv_offsets (4 + run_start ?t ts) ?g) = Some ?g"
      using tlvs_at_enc [OF g, of "pre @ tlvs_enc ?b" "tlvs_enc r @ x"] cs e(2) by (simp add: run_start_def)
    ultimately show thesis using that [OF _ _ d2(2) same_but_index_trans [OF d1(3) d2(3)]] True c(1) by simp
  qed
qed

lemma list_find_spec:
  "case list_find cmp keys k of None \<Rightarrow> \<forall>x \<in> set keys. cmp x k \<noteq> 0 | Some i \<Rightarrow> i < length keys \<and> cmp (keys ! i) k = 0"
  by (induction keys) (auto split: option.splits)

lemma plain_env_lib: "avl_lib plain_env" "vlist_lib plain_env"
proof -
  show "avl_lib plain_env" unfolding avl_lib_def
  proof (intro allI impI conjI)
    fix cmp and keys :: "bytes list" and k
    assume h: "comparator (\<lambda>x. x \<in> insert k (set keys)) cmp \<and> sorted_wrt (\<lambda>a b. cmp a b < 0) keys"
    show "case avl_find plain_env cmp keys k of None \<Rightarrow> \<forall>x \<in> set keys. cmp x k \<noteq> 0 | Some i \<Rightarrow> i < length keys \<and> cmp (keys ! i) k = 0"
      using list_find_spec [where cmp = cmp and keys = keys and k = k] by (simp add: plain_env_def)
    assume "\<forall>x \<in> set keys. cmp x k \<noteq> 0"
    then show "sorted_wrt (\<lambda>a b. cmp a b < 0) (take (avl_pos plain_env cmp keys k) keys @ k # drop (avl_pos plain_env cmp keys k) keys)"
      using comparator.insert_position [OF conjunct1 [OF h], of k keys] h
      by (simp add: plain_env_def takeWhile_eq_take [symmetric] dropWhile_eq_drop [symmetric])
  qed
  show "vlist_lib plain_env" by (simp add: vlist_lib_def plain_env_def)
qed

section \<open>Properties\<close>

text \<open>C20: The index of a node is transparent: when the TLVs of a node are in the order of their types, the loop
  \<open>dncp_node_for_each_tlv_with_t_v\<close> visits exactly the TLVs of the requested type, in their order, whatever
  indexes were built before; with \<open>valid\<close> it visits them only if the node data was accepted. Nothing but
  the indexes changes, and they stay consistent.\<close>

theorem for_each_with_type_exact:
  assumes "index_inv d" "node_at p d = Some n" "node_tlvs n ts" "\<And>x. \<not> alloc_fails E x"
  shows "\<exists>ps d'. dncp_node_for_each_tlv_with_t_v E p type valid d = Some (ps, d') \<and>
    tlvs_at (case tlv_container n of None \<Rightarrow> [] | Some c \<Rightarrow> c) ps =
      Some (if valid \<longrightarrow> tlv_container_valid n = tlv_container n then filter (\<lambda>a. fst a = ucast type) ts else []) \<and>
    index_inv d' \<and> same_but_index d d'"
  by (rule for_each_with_type_eq [OF assms, of type valid]) blast

theorem for_each_with_type_exact_witness:
  "\<exists>ps d'. dncp_node_for_each_tlv_with_t_v plain_env [1, 2, 3, 4] 8 False
      (two_nodes (Some ([0, 0, 0, 16] @ tlvs_enc [(8, [1]), (9, [2])]))) = Some (ps, d') \<and>
    tlvs_at ([0, 0, 0, 16] @ tlvs_enc [(8, [1]), (9, [2])]) ps = Some [(8, [1])]"
proof -
  let ?c = "[0, 0, 0, 16] @ tlvs_enc [(8, [1]), (9, [2])]"
  have "word_be 4 (tlv_hdr 0 16) = [0, 0, 0, 16 :: u8]" by code_simp
  then have "node_tlvs ((fresh_node plain_env [1, 2, 3, 4])\<lparr> tlv_container := Some ?c \<rparr>) [(8, [1]), (9, [2])]"
    by (auto simp: node_tlvs_def holds_opt_def container_holds_def tlv_ok_def length_tlv_enc pad4_def fresh_node_def)
  from for_each_with_type_exact [OF _ _ this, of "two_nodes (Some ?c)" "[1, 2, 3, 4]" plain_env 8 False]
  show ?thesis
    by (auto simp: index_inv_def types_ok_def index_ok_def two_nodes_def fresh_node_def zero_dncp_def node_at_def plain_env_def)
qed

end
