(* ===== verification/DncpSend.thy ===== *)
theory DncpSend
  imports Dncp
begin

unbundle bit_operations_syntax

text \<open>
  The sending half of src/src/dncp_proto.c: the construction of node state, network state, endpoint and
  request TLVs in the buffer of a message, and its transmission.  A buffer whose head attribute has a type
  other than zero belongs to a reply and is sent before it would outgrow the length its type stands for.
\<close>

section \<open>Sending\<close>

definition buf_payload :: "tlv_buf \<Rightarrow> bytes option" where
  "buf_payload tb =
     do { len \<leftarrow> tlv_len (tb_buf tb) (tb_head tb);
          if tlv_data (tb_head tb) + unat len \<le> length (tb_buf tb)
          then Some (take (unat len) (drop (tlv_data (tb_head tb)) (tb_buf tb))) else None }"

definition dncp_ep_i_send_buf :: "bytes \<Rightarrow> sockaddr option \<Rightarrow> sockaddr option \<Rightarrow> tlv_buf \<Rightarrow> dncp \<Rightarrow> dncp option" where
  "dncp_ep_i_send_buf l src dst tb d =
     do { data \<leftarrow> buf_payload tb; Some (d\<lparr> outp := outp d @ [Sent l src dst data] \<rparr>) }"

definition dncp_reply_send :: "dncp_reply \<Rightarrow> dncp \<Rightarrow> dncp option" where
  "dncp_reply_send r d =
     do { tb \<leftarrow> rep_buf r;
          dncp_ep_i_send_buf (rep_l r) (if has_src r then Some (rep_src r) else None) (Some (rep_dst r)) tb d }"

section \<open>Low-level TLV pushing\<close>

text \<open>The loop doubles \<open>v\<close> in 64 bits while it is below \<open>bytes\<close>.\<close>

partial_function (option) bytes_to_exp_loop :: "u64 \<Rightarrow> u64 \<Rightarrow> int \<Rightarrow> int option" where
  [code]: "bytes_to_exp_loop bytes v i = (if bytes > v then bytes_to_exp_loop bytes (push_bit 1 v) (i + 1) else Some i)"

definition bytes_to_exp :: "u64 \<Rightarrow> int option" where
  "bytes_to_exp bytes = bytes_to_exp_loop bytes 1 (-1)"

text \<open>
  The buffer belongs to the reply \<open>r\<close>.  The new attribute is at the returned offset.  The shift by the
  type of the head is undefined from 31 on.
\<close>

partial_function (option) push_tlv :: "env \<Rightarrow> u32 \<Rightarrow> nat \<Rightarrow> dncp_reply \<Rightarrow> dncp \<Rightarrow> (nat \<times> dncp_reply \<times> dncp) option" where
  [code]: "push_tlv E t len r d =
     do { (r, d) \<leftarrow>
            (case rep_buf r of
               None \<Rightarrow> Some (r, d)
             | Some tb \<Rightarrow> do {
                 ot \<leftarrow> tlv_id (tb_buf tb) (tb_head tb);
                 l \<leftarrow> tlv_len (tb_buf tb) (tb_head tb);
                 if ot = 0 then Some (r, d)
                 else if unat ot \<ge> 31 then None
                 else if unat l + len + 4 > 2 ^ unat ot
                 then do { d \<leftarrow> dncp_reply_send r d; Some (r\<lparr> rep_buf := None \<rparr>, d) }
                 else Some (r, d) });
          (r, d) \<leftarrow>
            (case rep_buf r of
               Some tb \<Rightarrow> Some (r, d)
             | None \<Rightarrow> do {
                 l \<leftarrow> ep_at (rep_l r) d;
                 x \<leftarrow> bytes_to_exp (of_int (maximum_unicast_size (conf l)));
                 tb \<leftarrow> tlv_buf_init (buf_oom E) zero_buf (of_int x);
                 let r = r\<lparr> rep_buf := Some tb \<rparr>;
                 if unicast_is_reliable_stream (conf l) then Some (r, d)
                 else do {
                   (a, r, d) \<leftarrow> push_tlv E DNCP_T_NODE_ENDPOINT (NI_LEN E + 4) r d;
                   own \<leftarrow> own_node d;
                   tb \<leftarrow> rep_buf r;
                   buf \<leftarrow> memcpy_at (tb_buf tb) (tlv_data a) own 0 (NI_LEN E);
                   buf \<leftarrow> memcpy_at buf (tlv_data a + NI_LEN E) (host32 E (ep_id l)) 0 4;
                   Some (r\<lparr> rep_buf := Some (tb\<lparr> tb_buf := buf \<rparr>) \<rparr>, d) } });
          tb \<leftarrow> rep_buf r;
          (tb, a) \<leftarrow> tlv_new (buf_oom E) tb t len;
          Some (a, r\<lparr> rep_buf := Some tb \<rparr>, d) }"

definition write_at :: "nat \<Rightarrow> bytes \<Rightarrow> dncp_reply \<Rightarrow> dncp_reply option" where
  "write_at p bs r =
     do { tb \<leftarrow> rep_buf r;
          buf \<leftarrow> memcpy_at (tb_buf tb) p bs 0 (length bs);
          Some (r\<lparr> rep_buf := Some (tb\<lparr> tb_buf := buf \<rparr>) \<rparr>) }"

fun pop_loop :: "tlv_buf \<Rightarrow> nat \<Rightarrow> nat list \<Rightarrow> tlv_buf option" where
  "pop_loop tb la [] = Some tb"
| "pop_loop tb la (a # as) =
     (if a = la then Some tb
      else do {
        r \<leftarrow> tlv_attr_cmp (Some (tb_buf tb, a)) (Some (tb_buf tb, la));
        if r = 0
        then do { l1 \<leftarrow> tlv_raw_len (tb_buf tb) (tb_head tb);
                  l2 \<leftarrow> tlv_raw_len (tb_buf tb) la;
                  buf \<leftarrow> tlv_set_raw_len (tb_buf tb) (tb_head tb) (l1 - l2);
                  Some (tb\<lparr> tb_buf := buf \<rparr>) }
        else pop_loop tb la as })"

definition maybe_pop_tlv :: "nat \<Rightarrow> dncp_reply \<Rightarrow> dncp_reply option" where
  "maybe_pop_tlv la r =
     do { tb \<leftarrow> rep_buf r;
          ps \<leftarrow> tlv_for_each_attr (tb_buf tb) (tb_head tb);
          tb \<leftarrow> pop_loop tb la ps;
          Some (r\<lparr> rep_buf := Some tb \<rparr>) }"

definition push_node_state_tlv :: "env \<Rightarrow> bytes \<Rightarrow> bool \<Rightarrow> dncp_reply \<Rightarrow> dncp \<Rightarrow> (dncp_reply \<times> dncp) option" where
  "push_node_state_tlv E p incl_data r d =
     do { n \<leftarrow> node_at p d;
          data \<leftarrow> (if incl_data then (case tlv_container n of None \<Rightarrow> Some [] | Some c \<Rightarrow> container_data c) else Some []);
          (a, r, d) \<leftarrow> push_tlv E DNCP_T_NODE_STATE (NI_LEN E + 8 + HASH_LEN E + length data) r d;
          let q = tlv_data a;
          r \<leftarrow> write_at q (take (NI_LEN E) (node_id n)) r;
          r \<leftarrow> write_at (q + NI_LEN E) (word_be 4 (update_number n)) r;
          r \<leftarrow> write_at (q + NI_LEN E + 4) (word_be 4 (of_int (dncp_time d - origination_time n) :: u32)) r;
          r \<leftarrow> write_at (q + NI_LEN E + 8) (take (HASH_LEN E) (node_data_hash n)) r;
          r \<leftarrow> write_at (q + NI_LEN E + 8 + HASH_LEN E) data r;
          r \<leftarrow> maybe_pop_tlv a r;
          Some (r, d) }"

definition push_network_state_tlv :: "env \<Rightarrow> dncp_reply \<Rightarrow> dncp \<Rightarrow> (dncp_reply \<times> dncp) option" where
  "push_network_state_tlv E r d =
     do { (a, r, d) \<leftarrow> push_tlv E DNCP_T_NET_STATE (HASH_LEN E) r d;
          d \<leftarrow> dncp_calculate_network_hash E d;
          r \<leftarrow> write_at (tlv_data a) (take (HASH_LEN E) (network_hash d)) r;
          r \<leftarrow> maybe_pop_tlv a r;
          Some (r, d) }"

definition push_ep_id_tlv :: "env \<Rightarrow> bytes \<Rightarrow> sockaddr option \<Rightarrow> bool \<Rightarrow> dncp_reply \<Rightarrow> dncp \<Rightarrow> (dncp_reply \<times> dncp) option" where
  "push_ep_id_tlv E l dst always_ep_id r d =
     do { l \<leftarrow> ep_at l d;
          if unicast_is_reliable_stream (conf l) \<and> dst \<noteq> None \<and> \<not> always_ep_id then Some (r, d)
          else do {
            (a, r, d) \<leftarrow> push_tlv E DNCP_T_NODE_ENDPOINT (NI_LEN E + 4) r d;
            own \<leftarrow> own_node d;
            r \<leftarrow> write_at (tlv_data a) (take (NI_LEN E) own) r;
            r \<leftarrow> write_at (tlv_data a + NI_LEN E) (host32 E (ep_id l)) r;
            Some (r, d) } }"

fun push_node_states :: "env \<Rightarrow> bytes list \<Rightarrow> dncp_reply \<Rightarrow> dncp \<Rightarrow> (dncp_reply \<times> dncp) option" where
  "push_node_states E [] r d = Some (r, d)"
| "push_node_states E (p # ps) r d =
     do { (r, d) \<leftarrow> push_node_state_tlv E p False r d; push_node_states E ps r d }"

definition push_network_state :: "env \<Rightarrow> nat \<Rightarrow> dncp_reply \<Rightarrow> dncp \<Rightarrow> (dncp_reply \<times> dncp) option" where
  "push_network_state E maximum_size r d =
     do { (r, d) \<leftarrow> push_network_state_tlv E r d;
          if \<not> graph_dirty d \<or> maximum_size = 0
          then do {
            let nn = (if maximum_size \<noteq> 0 then length (dncp_for_each_node d) else 0);
            let ns_len = 8 + NI_LEN E + HASH_LEN E;
            tb \<leftarrow> rep_buf r;
            l \<leftarrow> tlv_len (tb_buf tb) (tb_head tb);
            if maximum_size = 0 \<or> maximum_size \<ge> unat l + nn * (4 + ns_len)
            then push_node_states E (dncp_for_each_node d) r d
            else Some (r, d) }
          else Some (r, d) }"

definition push_req_node_data_tlv :: "env \<Rightarrow> bytes \<Rightarrow> dncp_reply \<Rightarrow> dncp \<Rightarrow> (dncp_reply \<times> dncp) option" where
  "push_req_node_data_tlv E ni r d =
     do { (a, r, d) \<leftarrow> push_tlv E DNCP_T_REQ_NODE_STATE (NI_LEN E) r d;
          r \<leftarrow> write_at (tlv_data a) (take (NI_LEN E) ni) r;
          r \<leftarrow> maybe_pop_tlv a r;
          Some (r, d) }"

text \<open>The message has a buffer of its own; it is not a reply, and the other fields of the record are not read.\<close>

definition dncp_ep_i_send_network_state ::
    "env \<Rightarrow> bytes \<Rightarrow> sockaddr option \<Rightarrow> sockaddr option \<Rightarrow> nat \<Rightarrow> bool \<Rightarrow> dncp \<Rightarrow> dncp option" where
  "dncp_ep_i_send_network_state E l src dst maximum_size always_ep_id d =
     do { tb \<leftarrow> tlv_buf_init (buf_oom E) zero_buf 0;
          let r = \<lparr> rep_buf = Some tb, rep_l = l, has_src = False, rep_src = [], rep_dst = [] \<rparr>;
          (r, d) \<leftarrow> push_ep_id_tlv E l dst always_ep_id r d;
          (r, d) \<leftarrow> push_network_state E maximum_size r d;
          tb \<leftarrow> rep_buf r;
          dncp_ep_i_send_buf l src dst tb d }"

end
