(* ===== verification/DncpTimeout.thy ===== *)
theory DncpTimeout
  imports DncpSend
begin

unbundle bit_operations_syntax

text \<open>
  The timed half of DNCP (src/src/dncp_timeout.c): Trickle, keepalives, the removal of unreachable nodes
  and the timeout handler that drives them.
\<close>

section \<open>Keepalive interval of an endpoint\<close>

definition keepalive_tlv :: "env \<Rightarrow> u32 \<Rightarrow> u32 \<Rightarrow> bytes" where
  "keepalive_tlv E i value = host32 E i @ word_be 4 value"

definition ep_i_set_keepalive_interval :: "env \<Rightarrow> bytes \<Rightarrow> u32 \<Rightarrow> dncp \<Rightarrow> dncp option" where
  "ep_i_set_keepalive_interval E p value d =
     do { l \<leftarrow> ep_at p d;
          if published_keepalive_interval l = value then Some d
          else do {
            d \<leftarrow> (if uint (published_keepalive_interval l) \<noteq> KEEPALIVE_INTERVAL E
                  then dncp_remove_tlv_matching E (ucast DNCP_T_KEEPALIVE_INTERVAL)
                         (keepalive_tlv E (ep_id l) (published_keepalive_interval l)) 8 d
                  else Some d);
            d \<leftarrow> (if uint value \<noteq> KEEPALIVE_INTERVAL E
                  then do { (_, d) \<leftarrow> dncp_add_tlv E (ucast DNCP_T_KEEPALIVE_INTERVAL) (keepalive_tlv E (ep_id l) value) 8 False d;
                            Some d }
                  else Some d);
            l \<leftarrow> ep_at p d;
            Some (put_ep (l\<lparr> published_keepalive_interval := value \<rparr>) d) } }"

section \<open>Trickle\<close>

text \<open>A Trickle state lives in an endpoint or in the peer of a local TLV.\<close>

datatype trickle_ptr = Ep_trickle bytes | Peer_trickle bytes

fun get_trickle :: "trickle_ptr \<Rightarrow> dncp \<Rightarrow> dncp_trickle option" where
  "get_trickle (Ep_trickle p) d = map_option trickle (ep_at p d)"
| "get_trickle (Peer_trickle a) d = do { t \<leftarrow> tlv_rec_at a d; n \<leftarrow> t_extra t; Some (peer_trickle n) }"

fun put_trickle :: "trickle_ptr \<Rightarrow> dncp_trickle \<Rightarrow> dncp \<Rightarrow> dncp option" where
  "put_trickle (Ep_trickle p) tr d = do { l \<leftarrow> ep_at p d; Some (put_ep (l\<lparr> trickle := tr \<rparr>) d) }"
| "put_trickle (Peer_trickle a) tr d =
     do { t \<leftarrow> tlv_rec_at a d; n \<leftarrow> t_extra t;
          Some (put_tlv_rec (t\<lparr> t_extra := Some (n\<lparr> peer_trickle := tr \<rparr>) \<rparr>) d) }"

definition trickle_set_i_at :: "env \<Rightarrow> trickle_ptr \<Rightarrow> bytes \<Rightarrow> int \<Rightarrow> dncp \<Rightarrow> dncp option" where
  "trickle_set_i_at E t p i d =
     do { l \<leftarrow> ep_at p d; tr \<leftarrow> get_trickle t d; (tr, d) \<leftarrow> trickle_set_i E tr (conf l) i d; put_trickle t tr d }"

definition trickle_upgrade :: "env \<Rightarrow> trickle_ptr \<Rightarrow> bytes \<Rightarrow> dncp \<Rightarrow> dncp option" where
  "trickle_upgrade E t p d =
     do { tr \<leftarrow> get_trickle t d;
          if int_range (tr_i tr * 2) then trickle_set_i_at E t p (tr_i tr * 2) d else None }"

text \<open>\<open>ne\<close> is the local TLV of the peer, or \<open>NULL\<close>.\<close>

definition peer_addr :: "bytes option \<Rightarrow> dncp \<Rightarrow> sockaddr option option" where
  "peer_addr ne d =
     (case ne of None \<Rightarrow> Some None
      | Some a \<Rightarrow> do { t \<leftarrow> tlv_rec_at a d; n \<leftarrow> t_extra t; Some (Some (last_sa6 n)) })"

definition trickle_send_nocheck :: "env \<Rightarrow> trickle_ptr \<Rightarrow> bytes \<Rightarrow> bytes option \<Rightarrow> dncp \<Rightarrow> dncp option" where
  "trickle_send_nocheck E t p ne d =
     do { tr \<leftarrow> get_trickle t d;
          d \<leftarrow> put_trickle t (tr\<lparr> num_sent := num_sent tr + 1, last_sent := dncp_time d \<rparr>) d;
          l \<leftarrow> ep_at p d;
          let maximum_size = (if ne \<noteq> None then 0 else to_int (maximum_multicast_size (conf l)));
          let maximum_size = (if tr_i tr \<noteq> trickle_imin (conf l)
                              then int (4 + 4 + NI_LEN E + 4 + HASH_LEN E) else maximum_size);
          dst \<leftarrow> peer_addr ne d;
          dncp_ep_i_send_network_state E p None dst (unat (of_int maximum_size :: u64)) False d }"

definition trickle_send :: "env \<Rightarrow> trickle_ptr \<Rightarrow> bytes \<Rightarrow> bytes option \<Rightarrow> dncp \<Rightarrow> dncp option" where
  "trickle_send E t p ne d =
     do { tr \<leftarrow> get_trickle t d;
          l \<leftarrow> ep_at p d;
          d \<leftarrow> (if tr_c tr < trickle_k (conf l) \<and>
                   (\<not> unicast_is_reliable_stream (conf l) \<or> tr_i tr = trickle_imin (conf l))
                then trickle_send_nocheck E t p ne d
                else put_trickle t (tr\<lparr> num_skipped := num_skipped tr + 1 \<rparr>) d);
          tr \<leftarrow> get_trickle t d;
          put_trickle t (tr\<lparr> send_time := 0 \<rparr>) d }"

definition handle_trickle_and_ka :: "env \<Rightarrow> trickle_ptr \<Rightarrow> bytes \<Rightarrow> bytes option \<Rightarrow> dncp \<Rightarrow> (int \<times> dncp) option" where
  "handle_trickle_and_ka E t p ne d =
     do { let nw = dncp_time d;
          l \<leftarrow> ep_at p d;
          tr \<leftarrow> get_trickle t d;
          let ka = uint (published_keepalive_interval l);
          (next, d) \<leftarrow>
            (if ka = 0 then Some (0, d)
             else if last_sent tr + ka \<le> nw
             then do { d \<leftarrow> trickle_send_nocheck E t p ne d;
                       tr \<leftarrow> get_trickle t d;
                       d \<leftarrow> trickle_set_i_at E t p (tr_i tr) d;
                       tr \<leftarrow> get_trickle t d;
                       Some (TMIN 0 (last_sent tr + ka), d) }
             else Some (TMIN 0 (last_sent tr + ka), d));
          tr \<leftarrow> get_trickle t d;
          d \<leftarrow> (if interval_end_time tr \<le> nw then trickle_upgrade E t p d
                else if send_time tr \<noteq> 0 \<and> send_time tr \<le> nw then trickle_send E t p ne d
                else Some d);
          tr \<leftarrow> get_trickle t d;
          Some (TMIN (TMIN next (interval_end_time tr)) (send_time tr), d) }"

section \<open>Reachability\<close>

definition node_set_reachable :: "env \<Rightarrow> bytes \<Rightarrow> bool \<Rightarrow> dncp \<Rightarrow> dncp option" where
  "node_set_reachable E p value d =
     do { n \<leftarrow> node_at p d;
          d \<leftarrow> (if (last_prune d = last_reachable_prune n) = value then Some d
                else do {
                  let d = d\<lparr> network_hash_dirty := True \<rparr>;
                  d \<leftarrow> (if \<not> value then dncp_notify_subscribers_tlvs_changed E p (tlv_container_valid n) None d else Some d);
                  d \<leftarrow> dncp_notify_subscribers_node_changed E p value d;
                  n \<leftarrow> node_at p d;
                  if value then dncp_notify_subscribers_tlvs_changed E p None (tlv_container_valid n) d else Some d });
          if value then node_modify p (\<lambda>n. n\<lparr> last_reachable_prune := dncp_time d \<rparr>) d else Some d }"

text \<open>
  The recursion enters a node only when it is not of the current generation and moves it there, so
  its depth is at most the number of nodes; \<open>fuel\<close> bounds the depth.
\<close>

fun prune_rec :: "nat \<Rightarrow> env \<Rightarrow> bytes option \<Rightarrow> dncp \<Rightarrow> dncp option"
and prune_peers :: "nat \<Rightarrow> env \<Rightarrow> bytes \<Rightarrow> nat list \<Rightarrow> dncp \<Rightarrow> dncp option" where
  "prune_rec fuel E None d = Some d"
| "prune_rec 0 E (Some p) d = None"
| "prune_rec (Suc fuel) E (Some p) d =
     do { n \<leftarrow> node_at p d;
          if in_nodes_version n = nodes_version d then Some d
          else if dncp_time d \<ge> expiration_time n then Some d
          else do {
            d \<leftarrow> nodes_refresh p d;
            d \<leftarrow> node_set_reachable E p True d;
            (ps, d) \<leftarrow> dncp_node_for_each_tlv_with_t_v E p (ucast DNCP_T_PEER) False d;
            prune_peers fuel E p ps d } }"
| "prune_peers fuel E p [] d = Some d"
| "prune_peers fuel E p (a # as) d =
     do { n \<leftarrow> node_at p d;
          c \<leftarrow> tlv_container n;
          ne \<leftarrow> dncp_tlv_peer E c a;
          d \<leftarrow> (case ne of None \<Rightarrow> Some d
               | Some ne \<Rightarrow> do { (n2, d) \<leftarrow> dncp_node_find_neigh_bidir E p ne d; prune_rec fuel E n2 d });
          prune_peers fuel E p as d }"

fun prune_sweep :: "env \<Rightarrow> int \<Rightarrow> int \<Rightarrow> bytes list \<Rightarrow> int \<Rightarrow> dncp \<Rightarrow> (int \<times> dncp) option" where
  "prune_sweep E grace_after gi [] next d = Some (next, d)"
| "prune_sweep E grace_after gi (p # ps) next d =
     do { n \<leftarrow> node_at p d;
          if in_nodes_version n = nodes_version d
          then prune_sweep E grace_after gi ps (TMIN next (expiration_time n)) d
          else if last_reachable_prune n < grace_after then prune_sweep E grace_after gi ps next d
          else do {
            d \<leftarrow> nodes_refresh p d;
            d \<leftarrow> node_set_reachable E p False d;
            prune_sweep E grace_after gi ps (TMIN next (last_reachable_prune n + gi + 1)) d } }"

definition dncp_prune :: "env \<Rightarrow> dncp \<Rightarrow> dncp option" where
  "dncp_prune E d =
     (let nw = dncp_time d;
          gi = to_int (grace_interval (ext_conf E));
          grace_after = nw - gi
      in if nw = last_prune d then None
         else do {
           let d = d\<lparr> nodes_version := vlist_next E (nodes_version d) \<rparr>;
           d \<leftarrow> prune_rec (Suc (length (nodes d))) E (own_node d) d;
           (next_time, d) \<leftarrow> prune_sweep E grace_after gi (map node_id (nodes d)) 0 d;
           d \<leftarrow> nodes_flush E (d\<lparr> next_prune := next_time \<rparr>);
           Some (d\<lparr> last_prune := nw \<rparr>) })"

section \<open>The timeout handler\<close>

text \<open>The keepalive interval the other end of a link has published for it.\<close>

fun ka_loop :: "env \<Rightarrow> u32 \<Rightarrow> bytes \<Rightarrow> u32 \<Rightarrow> nat list \<Rightarrow> u32 option" where
  "ka_loop E pe c value [] = Some value"
| "ka_loop E pe c value (a # as) =
     do { len \<leftarrow> tlv_len c a;
          if len \<noteq> 8 then ka_loop E pe c value as
          else do {
            e \<leftarrow> ld_host32 E c (tlv_data a);
            if e \<noteq> 0 \<and> e \<noteq> pe then ka_loop E pe c value as
            else do {
              v \<leftarrow> ld_be32 c (tlv_data a + 4);
              if e \<noteq> 0 then Some v else ka_loop E pe c v as } } }"

definition neighbor_interval :: "env \<Rightarrow> dncp_t_peer \<Rightarrow> dncp \<Rightarrow> (int \<times> dncp) option" where
  "neighbor_interval E ne d =
     do { (n, d) \<leftarrow> dncp_find_node_by_node_id E (ne_node_id ne) False d;
          case n of None \<Rightarrow> Some (KEEPALIVE_INTERVAL E, d)
          | Some p \<Rightarrow> do {
              (ps, d) \<leftarrow> dncp_node_for_each_tlv_with_t_v E p (ucast DNCP_T_KEEPALIVE_INTERVAL) False d;
              n \<leftarrow> node_at p d;
              v \<leftarrow> ka_loop E (peer_ep_id ne) (case tlv_container n of None \<Rightarrow> [] | Some c \<Rightarrow> c) (of_int (KEEPALIVE_INTERVAL E)) ps;
              Some (uint v, d) } }"

fun timeout_eps :: "env \<Rightarrow> int \<Rightarrow> bytes list \<Rightarrow> int \<Rightarrow> dncp \<Rightarrow> (int \<times> dncp) option" where
  "timeout_eps E nw [] next d = Some (next, d)"
| "timeout_eps E nw (p # ps) next d =
     do { l \<leftarrow> ep_at p d;
          if \<not> enabled l then timeout_eps E nw ps next d
          else do {
            (next, d) \<leftarrow>
              (if send_reply_at l = 0 then Some (next, d)
               else if send_reply_at l \<le> nw
               then do { d \<leftarrow> dncp_reply_send (reply l) d;
                         Some (next, put_ep (l\<lparr> send_reply_at := 0 \<rparr>) d) }
               else Some (TMIN next (send_reply_at l), d));
            d \<leftarrow> ep_i_set_keepalive_interval E p (of_int (keepalive_interval (conf l))) d;
            if unicast_only (conf l) then timeout_eps E nw ps next d
            else do { (nt, d) \<leftarrow> handle_trickle_and_ka E (Ep_trickle p) p None d;
                      timeout_eps E nw ps (TMIN next nt) d } } }"

fun timeout_peers :: "env \<Rightarrow> int \<Rightarrow> bytes list \<Rightarrow> int \<Rightarrow> dncp \<Rightarrow> (int \<times> dncp) option" where
  "timeout_peers E nw [] next d = Some (next, d)"
| "timeout_peers E nw (a # as) next d =
     do { ne \<leftarrow> dncp_tlv_peer E a 0;
          case ne of None \<Rightarrow> timeout_peers E nw as next d
          | Some ne \<Rightarrow> do {
              (interval, d) \<leftarrow> neighbor_interval E ne d;
              p \<leftarrow> dncp_find_ep_by_id (ne_ep_id ne) d;
              l \<leftarrow> ep_at p d;
              (next, d) \<leftarrow>
                (if unicast_only (conf l)
                 then do { (nt, d) \<leftarrow> handle_trickle_and_ka E (Peer_trickle a) p (Some a) d; Some (TMIN next nt, d) }
                 else Some (next, d));
              if interval = 0 \<and> unicast_is_reliable_stream (conf l) then timeout_peers E nw as next d
              else do {
                t \<leftarrow> tlv_rec_at a d;
                n \<leftarrow> t_extra t;
                let next_time = last_contact n + interval * keepalive_multiplier_percent (ext_conf E) div 100;
                if next_time > nw then timeout_peers E nw as (TMIN next next_time) d
                else do {
                  d \<leftarrow> dncp_remove_tlv E (Some a) d;
                  timeout_peers E nw as next (d\<lparr> num_neighbor_dropped := num_neighbor_dropped d + 1 \<rparr>) } } } }"

definition timeout_rollover :: "env \<Rightarrow> dncp \<Rightarrow> (int \<times> dncp) option" where
  "timeout_rollover E d =
     (if tlvs_dirty d \<or> republish_tlvs d then Some (0, d)
      else do {
        own \<leftarrow> own_node d;
        n \<leftarrow> node_at own d;
        let next_time = origination_time n + 2 ^ 32 - 2 ^ 16;
        Some (if next_time \<le> now d then (0, d\<lparr> republish_tlvs := True \<rparr>) else (TMIN 0 next_time, d)) })"

definition timeout_prune :: "env \<Rightarrow> int \<Rightarrow> dncp \<Rightarrow> (int \<times> dncp) option" where
  "timeout_prune E next d =
     (if disable_prune d then Some (next, d)
      else do {
        let d = (if graph_dirty d then d\<lparr> next_prune := minimum_prune_interval (ext_conf E) + last_prune d \<rparr> else d);
        d \<leftarrow> (if next_prune d \<noteq> 0 \<and> next_prune d \<le> now d
              then dncp_prune E (d\<lparr> graph_dirty := False \<rparr>) else Some d);
        Some (TMIN next (next_prune d), d) })"

definition dncp_ext_timeout :: "env \<Rightarrow> dncp \<Rightarrow> dncp option" where
  "dncp_ext_timeout E d =
     do { let d = d\<lparr> now := clock d, immediate_scheduled := True \<rparr>;
          let nw = clock d;
          (next, d) \<leftarrow> timeout_rollover E d;
          own \<leftarrow> own_node d;
          d \<leftarrow> dncp_self_flush E own d;
          (next, d) \<leftarrow> timeout_prune E next d;
          let d = d\<lparr> immediate_scheduled := False \<rparr>;
          d \<leftarrow> dncp_calculate_network_hash E d;
          (next, d) \<leftarrow> timeout_eps E nw (map (\<lambda>l. ifname (conf l)) (eps d)) next d;
          (next, d) \<leftarrow> timeout_peers E nw (map t_tlv (tlvs d)) next d;
          let d = (if next \<noteq> 0 \<and> \<not> immediate_scheduled d
                   then d\<lparr> outp := outp d @ [Scheduled (min (max (next - clock d) 0) (2 ^ 16))] \<rparr> else d);
          Some (d\<lparr> now := 0 \<rparr>) }"

section \<open>Endpoints becoming ready\<close>

fun remove_peers_of :: "env \<Rightarrow> u32 \<Rightarrow> bytes list \<Rightarrow> dncp \<Rightarrow> dncp option" where
  "remove_peers_of E i [] d = Some d"
| "remove_peers_of E i (a # as) d =
     do { ne \<leftarrow> dncp_tlv_peer E a 0;
          d \<leftarrow> (case ne of None \<Rightarrow> Some d
               | Some ne \<Rightarrow> if ne_ep_id ne = i then dncp_remove_tlv E (Some a) d else Some d);
          remove_peers_of E i as d }"

definition dncp_ext_ep_ready :: "env \<Rightarrow> bytes \<Rightarrow> bool \<Rightarrow> dncp \<Rightarrow> dncp option" where
  "dncp_ext_ep_ready E ep enable d =
     do { l \<leftarrow> ep_at ep d;
          if enabled l = enable then Some d
          else do {
            let d = put_ep (l\<lparr> enabled := enable \<rparr>) d;
            d \<leftarrow> (if enable
                  then do {
                    d \<leftarrow> trickle_set_i_at E (Ep_trickle ep) ep (to_int (trickle_imin (conf l))) d;
                    l \<leftarrow> ep_at ep d;
                    Some (dncp_schedule (put_ep (l\<lparr> trickle := (trickle l)\<lparr> last_sent := dncp_time d \<rparr> \<rparr>) d)) }
                  else do {
                    d \<leftarrow> remove_peers_of E (ep_id l) (map t_tlv (tlvs d)) d;
                    ep_i_set_keepalive_interval E ep (of_int (KEEPALIVE_INTERVAL E)) d });
            dncp_notify_subscribers_ep_changed E ep (if enable then DNCP_EVENT_ADD else DNCP_EVENT_REMOVE) d } }"

end
