(* ===== verification/DncpProto.thy ===== *)
theory DncpProto
  imports DncpTimeout
begin

unbundle bit_operations_syntax

text \<open>
  The receiving half of src/src/dncp_proto.c: the handler of a message, TLV by TLV, with the peers it
  hears of, the node data it takes over and the reply it builds.
\<close>

section \<open>Peers\<close>

fun find_remote_loop :: "env \<Rightarrow> sockaddr \<Rightarrow> bytes list \<Rightarrow> dncp \<Rightarrow> bytes option option" where
  "find_remote_loop E remote [] d = Some None"
| "find_remote_loop E remote (a # as) d =
     do { ne \<leftarrow> dncp_tlv_peer E a 0;
          case ne of None \<Rightarrow> find_remote_loop E remote as d
          | Some _ \<Rightarrow> do {
              t \<leftarrow> tlv_rec_at a d;
              n \<leftarrow> t_extra t;
              if last_sa6 n = remote then Some (Some a) else find_remote_loop E remote as d } }"

definition find_local_tlv_by_remote :: "env \<Rightarrow> sockaddr \<Rightarrow> dncp \<Rightarrow> bytes option option" where
  "find_local_tlv_by_remote E remote d = find_remote_loop E remote (map t_tlv (tlvs d)) d"

definition peer_modify :: "bytes \<Rightarrow> (dncp_peer \<Rightarrow> dncp_peer) \<Rightarrow> dncp \<Rightarrow> dncp option" where
  "peer_modify a f d =
     do { t \<leftarrow> tlv_rec_at a d; n \<leftarrow> t_extra t; Some (put_tlv_rec (t\<lparr> t_extra := Some (f n) \<rparr>) d) }"

text \<open>\<open>ni\<close> and \<open>lep\<close> are the node and the endpoint of the sender.\<close>

definition heard :: "env \<Rightarrow> bytes \<Rightarrow> bytes \<Rightarrow> u32 \<Rightarrow> sockaddr \<Rightarrow> bool \<Rightarrow> dncp \<Rightarrow> (bytes option \<times> dncp) option" where
  "heard E l ni lep src multicast d =
     do { li \<leftarrow> ep_at l d;
          let np = ni @ host32 E lep @ host32 E (ep_id li);
          t \<leftarrow> dncp_find_tlv E (ucast DNCP_T_PEER) np (of_nat (NI_LEN E + 8)) d;
          (t, d) \<leftarrow>
            (case t of Some a \<Rightarrow> Some (Some a, d)
             | None \<Rightarrow>
                 if multicast then Some (None, d)
                 else do {
                   (t, d) \<leftarrow> dncp_add_tlv E (ucast DNCP_T_PEER) np (of_nat (NI_LEN E + 8)) True d;
                   case t of None \<Rightarrow> Some (None, d)
                   | Some a \<Rightarrow> do { d \<leftarrow> peer_modify a (\<lambda>n. n\<lparr> last_contact := dncp_time d \<rparr>) d; Some (Some a, d) } });
          case t of None \<Rightarrow> Some (None, d)
          | Some a \<Rightarrow> do {
              d \<leftarrow> (if multicast then Some d else peer_modify a (\<lambda>n. n\<lparr> last_sa6 := src \<rparr>) d);
              Some (Some a, d) } }"

section \<open>Messages\<close>

text \<open>The local variables of the handler.\<close>

record msg_state =
  seen_lid :: bool
  ms_ne :: "bytes option"
  should_request_network_state :: bool
  updated_or_requested_state :: bool
  is_local :: bool
  ms_reply :: dncp_reply

definition payload_at :: "bytes \<Rightarrow> nat \<Rightarrow> nat \<Rightarrow> bytes option" where
  "payload_at buf p n = (if p + n \<le> length buf then Some (take n (drop p buf)) else None)"

text \<open>
  The cases of the switch: the new local variables, or \<open>None\<close> when the handler returns.  \<open>l\<close> is the
  endpoint, \<open>multicast\<close> tells that there is no destination address, and \<open>a\<close> is the position of the
  TLV in the message \<open>msg\<close>.
\<close>

definition handle_endpoint ::
    "env \<Rightarrow> bytes \<Rightarrow> sockaddr \<Rightarrow> bool \<Rightarrow> bytes \<Rightarrow> nat \<Rightarrow> msg_state \<Rightarrow> dncp \<Rightarrow> (msg_state option \<times> dncp) option" where
  "handle_endpoint E l src multicast msg a m d =
     (if seen_lid m then Some (Some m, d)
      else do {
        let m = m\<lparr> seen_lid := True \<rparr>;
        len \<leftarrow> tlv_len msg a;
        if unat len \<noteq> NI_LEN E + 4 then Some (None, d)
        else do {
          ni \<leftarrow> payload_at msg (tlv_data a) (NI_LEN E);
          lep \<leftarrow> ld_host32 E msg (tlv_data a + NI_LEN E);
          own \<leftarrow> own_node d;
          let m = m\<lparr> is_local := (ni = own) \<rparr>;
          if is_local m then Some (Some m, d)
          else do {
            (tne, d) \<leftarrow> heard E l ni lep src multicast d;
            let m = m\<lparr> ms_ne := tne \<rparr>;
            case tne of
              Some t \<Rightarrow> do {
                d \<leftarrow> (if multicast then Some d else peer_modify t (\<lambda>n. n\<lparr> last_contact := dncp_time d \<rparr>) d);
                Some (Some m, d) }
            | None \<Rightarrow> Some (Some (if multicast then m\<lparr> should_request_network_state := True \<rparr> else m), d) } } })"

definition handle_req_net_state ::
    "env \<Rightarrow> bool \<Rightarrow> msg_state \<Rightarrow> dncp \<Rightarrow> (msg_state option \<times> dncp) option" where
  "handle_req_net_state E multicast m d =
     (if multicast then Some (Some m, d)
      else do { (r, d) \<leftarrow> push_network_state E 0 (ms_reply m) d; Some (Some (m\<lparr> ms_reply := r \<rparr>), d) })"

definition handle_req_node_state ::
    "env \<Rightarrow> bool \<Rightarrow> bytes \<Rightarrow> nat \<Rightarrow> msg_state \<Rightarrow> dncp \<Rightarrow> (msg_state option \<times> dncp) option" where
  "handle_req_node_state E multicast msg a m d =
     (if multicast then Some (Some m, d)
      else do {
        len \<leftarrow> tlv_len msg a;
        if unat len \<noteq> NI_LEN E then Some (Some m, d)
        else do {
          ni \<leftarrow> payload_at msg (tlv_data a) (NI_LEN E);
          (n, d) \<leftarrow> dncp_find_node_by_node_id E ni False d;
          case n of None \<Rightarrow> Some (Some m, d)
          | Some p \<Rightarrow> do {
              n \<leftarrow> node_at p d;
              if own_node d \<noteq> Some p \<and> (graph_dirty d \<or> last_reachable_prune n \<noteq> last_prune d) then Some (Some m, d)
              else do {
                d \<leftarrow> (if own_node d = Some p then dncp_self_flush E p d else Some d);
                (r, d) \<leftarrow> push_node_state_tlv E p True (ms_reply m) d;
                Some (Some (m\<lparr> ms_reply := r \<rparr>), d) } } } })"

definition handle_net_state ::
    "env \<Rightarrow> bytes \<Rightarrow> bytes \<Rightarrow> nat \<Rightarrow> msg_state \<Rightarrow> dncp \<Rightarrow> (msg_state option \<times> dncp) option" where
  "handle_net_state E l msg a m d =
     do { len \<leftarrow> tlv_len msg a;
          if unat len \<noteq> HASH_LEN E then Some (Some m, d)
          else do {
            h \<leftarrow> payload_at msg (tlv_data a) (HASH_LEN E);
            li \<leftarrow> ep_at l d;
            if h = take (HASH_LEN E) (network_hash d)
            then do {
              let d = put_ep (li\<lparr> trickle := (trickle li)\<lparr> tr_c := tr_c (trickle li) + 1 \<rparr> \<rparr>) d;
              d \<leftarrow> (case ms_ne m of None \<Rightarrow> Some d
                   | Some t \<Rightarrow> peer_modify t (\<lambda>n. n\<lparr> peer_trickle := (peer_trickle n)\<lparr> tr_c := tr_c (peer_trickle n) + 1 \<rparr>,
                                                   last_contact := dncp_time d \<rparr>) d);
              Some (Some m, d) }
            else Some (Some (if dncp_time d - last_req_network_state li \<ge> trickle_imin (conf li)
                             then m\<lparr> should_request_network_state := True \<rparr> else m), d) } }"

text \<open>Own data with a number of its own seen in the network.\<close>

definition handle_conflict :: "env \<Rightarrow> bytes \<Rightarrow> u32 \<Rightarrow> dncp \<Rightarrow> dncp option" where
  "handle_conflict E p new_update_number d =
     do { (d, ignore) \<leftarrow> (if collided d then cb_handle_collision E d else Some (d, False));
          if ignore then Some d
          else do {
            let d = d\<lparr> collided := True \<rparr>;
            d \<leftarrow> node_modify p (\<lambda>n. n\<lparr> update_number := new_update_number + 1000 - 1 \<rparr>) d;
            Some (dncp_schedule (d\<lparr> republish_tlvs := True \<rparr>)) } }"

text \<open>Node data \<open>nd\<close> with the hash \<open>h\<close> replaces what is known of node \<open>p\<close>.\<close>

definition take_node_data :: "env \<Rightarrow> bytes \<Rightarrow> u32 \<Rightarrow> u32 \<Rightarrow> bytes \<Rightarrow> bytes \<Rightarrow> dncp \<Rightarrow> dncp option" where
  "take_node_data E p new_update_number ms h nd d =
     do { tb \<leftarrow> tlv_buf_init (buf_oom E) zero_buf 0;
          (tb, r) \<leftarrow> tlv_put_raw (buf_oom E) tb (Some nd) (length nd);
          case r of None \<Rightarrow> Some d
          | Some _ \<Rightarrow> do {
              n \<leftarrow> node_at p d;
              d \<leftarrow> dncp_node_set E n new_update_number (dncp_time d - uint ms) (Some (tb_buf tb)) d;
              node_modify p (\<lambda>n. n\<lparr> node_data_hash := h, node_data_hash_dirty := False \<rparr>) d } }"

definition state_interesting :: "env \<Rightarrow> dncp_node option \<Rightarrow> u32 \<Rightarrow> bytes \<Rightarrow> bool" where
  "state_interesting E n new_update_number h =
     (case n of None \<Rightarrow> True
      | Some n \<Rightarrow> dncp_update_number_gt (update_number n) new_update_number \<or>
                  (new_update_number = update_number n \<and> take (HASH_LEN E) (node_data_hash n) \<noteq> h))"

definition handle_node_state ::
    "env \<Rightarrow> bytes \<Rightarrow> bool \<Rightarrow> bytes \<Rightarrow> nat \<Rightarrow> msg_state \<Rightarrow> dncp \<Rightarrow> (msg_state option \<times> dncp) option" where
  "handle_node_state E l multicast msg a m d =
     do { len \<leftarrow> tlv_len msg a;
          let ns_len = 8 + NI_LEN E + HASH_LEN E;
          if unat len < ns_len then Some (Some m, d)
          else do {
            let q = tlv_data a;
            ni \<leftarrow> payload_at msg q (NI_LEN E);
            new_update_number \<leftarrow> ld_be32 msg (q + NI_LEN E);
            ms \<leftarrow> ld_be32 msg (q + NI_LEN E + 4);
            h \<leftarrow> payload_at msg (q + NI_LEN E + 8) (HASH_LEN E);
            nd \<leftarrow> payload_at msg (q + ns_len) (unat len - ns_len);
            (n, d) \<leftarrow> dncp_find_node_by_node_id E ni False d;
            let known = (case n of None \<Rightarrow> None | Some p \<Rightarrow> node_at p d);
            if \<not> state_interesting E known new_update_number h then Some (Some m, d)
            else do {
              li \<leftarrow> ep_at l d;
              let nd = (if multicast \<and> \<not> accept_node_data_updates_via_multicast (conf li) then [] else nd);
              if nd = []
              then do {
                (r, d) \<leftarrow> push_req_node_data_tlv E ni (ms_reply m) d;
                Some (Some (m\<lparr> ms_reply := r, updated_or_requested_state := True \<rparr>), d) }
              else if take (HASH_LEN E) (cb_hash E nd) \<noteq> h then Some (Some m, d)
              else do {
                (n, d) \<leftarrow> (case n of Some p \<Rightarrow> Some (Some p, d) | None \<Rightarrow> dncp_find_node_by_node_id E ni True d);
                case n of None \<Rightarrow> Some (None, d)
                | Some p \<Rightarrow>
                    if dncp_node_is_self p d
                    then do { d \<leftarrow> handle_conflict E p new_update_number d; Some (None, d) }
                    else do {
                      d \<leftarrow> take_node_data E p new_update_number ms h nd d;
                      Some (Some (m\<lparr> updated_or_requested_state := True \<rparr>), d) } } } } }"

definition handle_tlv ::
    "env \<Rightarrow> bytes \<Rightarrow> sockaddr \<Rightarrow> bool \<Rightarrow> bytes \<Rightarrow> nat \<Rightarrow> msg_state \<Rightarrow> dncp \<Rightarrow> (msg_state option \<times> dncp) option" where
  "handle_tlv E l src multicast msg a m d =
     do { tid \<leftarrow> tlv_id msg a;
          if tid = DNCP_T_NODE_ENDPOINT then handle_endpoint E l src multicast msg a m d
          else if tid = DNCP_T_REQ_NET_STATE then handle_req_net_state E multicast m d
          else if tid = DNCP_T_REQ_NODE_STATE then handle_req_node_state E multicast msg a m d
          else if tid = DNCP_T_NET_STATE then handle_net_state E l msg a m d
          else if tid = DNCP_T_NODE_STATE then handle_node_state E l multicast msg a m d
          else Some (Some m, d) }"

fun handle_tlvs ::
    "env \<Rightarrow> bytes \<Rightarrow> sockaddr \<Rightarrow> bool \<Rightarrow> bytes \<Rightarrow> nat list \<Rightarrow> msg_state \<Rightarrow> dncp \<Rightarrow> (msg_state option \<times> dncp) option" where
  "handle_tlvs E l src multicast msg [] m d = Some (Some m, d)"
| "handle_tlvs E l src multicast msg (a # as) m d =
     do { (r, d) \<leftarrow> handle_tlv E l src multicast msg a m d;
          case r of None \<Rightarrow> Some (None, d) | Some m \<Rightarrow> handle_tlvs E l src multicast msg as m d }"

text \<open>On a reliable stream the peer of an earlier message from the same address is the sender.\<close>

definition reuse_peer :: "env \<Rightarrow> bytes \<Rightarrow> sockaddr \<Rightarrow> bool \<Rightarrow> dncp \<Rightarrow> (bytes option \<times> dncp) option" where
  "reuse_peer E l src multicast d =
     do { li \<leftarrow> ep_at l d;
          if multicast \<or> \<not> unicast_is_reliable_stream (conf li) then Some (None, d)
          else do {
            t \<leftarrow> find_local_tlv_by_remote E src d;
            case t of None \<Rightarrow> Some (None, d)
            | Some a \<Rightarrow> do {
                ne \<leftarrow> dncp_tlv_peer E a 0;
                case ne of None \<Rightarrow> Some (None, d)
                | Some ne \<Rightarrow> heard E l (ne_node_id ne) (peer_ep_id ne) src multicast d } } }"

text \<open>The request for the state of the network, when the flags call for it.\<close>

definition request_network_state :: "env \<Rightarrow> bytes \<Rightarrow> msg_state \<Rightarrow> dncp \<Rightarrow> (dncp_reply \<times> dncp) option" where
  "request_network_state E l m d =
     (if should_request_network_state m \<and> \<not> updated_or_requested_state m \<and> \<not> is_local m
      then do {
        (r, d) \<leftarrow> push_network_state_tlv E (ms_reply m) d;
        (_, r, d) \<leftarrow> push_tlv E DNCP_T_REQ_NET_STATE 0 r d;
        li \<leftarrow> ep_at l d;
        Some (r, put_ep (li\<lparr> last_req_network_state := dncp_time d \<rparr>) d) }
      else Some (ms_reply m, d))"

definition finish_reply :: "env \<Rightarrow> bytes \<Rightarrow> bool \<Rightarrow> dncp_reply \<Rightarrow> dncp \<Rightarrow> dncp option" where
  "finish_reply E l multicast r d =
     (if rep_buf r = None then Some d
      else if \<not> multicast then dncp_reply_send r d
      else do {
        li \<leftarrow> ep_at l d;
        let (x, d) = draw E d;
        if half (trickle_imin (conf li)) = 0 then None
        else do {
          let t = dncp_time d + x mod \<bar>half (trickle_imin (conf li))\<bar>;
          if send_reply_at li = 0 \<or> send_reply_at li > t
          then Some (dncp_schedule (put_ep (li\<lparr> send_reply_at := t, reply := r \<rparr>) d))
          else Some d } })"

definition handle_message :: "env \<Rightarrow> bytes \<Rightarrow> sockaddr \<Rightarrow> sockaddr option \<Rightarrow> bytes \<Rightarrow> dncp \<Rightarrow> dncp option" where
  "handle_message E l src dst msg d =
     do { let multicast = (dst = None);
          let r = \<lparr> rep_buf = None, rep_l = l, has_src = (dst \<noteq> None),
                    rep_src = (case dst of None \<Rightarrow> [] | Some s \<Rightarrow> s), rep_dst = src \<rparr>;
          (ne, d) \<leftarrow> reuse_peer E l src multicast d;
          ps \<leftarrow> tlv_for_each_attr msg 0;
          (m, d) \<leftarrow> handle_tlvs E l src multicast msg ps
            \<lparr> seen_lid = False, ms_ne = ne, should_request_network_state = False,
              updated_or_requested_state = False, is_local = False, ms_reply = r \<rparr> d;
          case m of None \<Rightarrow> Some d
          | Some m \<Rightarrow> do {
              (r, d) \<leftarrow> request_network_state E l m d;
              finish_reply E l multicast r d } }"

section \<open>Input\<close>

definition DNCP_RECV_FLAG_SRC_LINKLOCAL :: u32 where "DNCP_RECV_FLAG_SRC_LINKLOCAL = 1"
definition DNCP_RECV_FLAG_DST_LINKLOCAL :: u32 where "DNCP_RECV_FLAG_DST_LINKLOCAL = 2"
definition DNCP_RECV_FLAG_SECURE :: u32 where "DNCP_RECV_FLAG_SECURE = 4"
definition DNCP_RECV_FLAG_SECURE_TRIED :: u32 where "DNCP_RECV_FLAG_SECURE_TRIED = 8"
definition DNCP_MAXIMUM_PAYLOAD_SIZE :: nat where "DNCP_MAXIMUM_PAYLOAD_SIZE = 65536"

text \<open>What one call of the receive callback yields.\<close>

record packet =
  pk_ep :: bytes
  pk_src :: sockaddr
  pk_dst :: "sockaddr option"
  pk_flags :: u32
  pk_data :: bytes

abbreviation flag :: "u32 \<Rightarrow> u32 \<Rightarrow> bool" where "flag f b \<equiv> f AND b \<noteq> 0"

text \<open>The conditions under which a packet is passed on to the handler.\<close>

definition packet_accepted :: "packet \<Rightarrow> dncp_ep_i \<Rightarrow> bool" where
  "packet_accepted k l =
     (if \<not> enabled l then False
      else if pk_dst k \<noteq> None \<and>
              flag (pk_flags k) DNCP_RECV_FLAG_SRC_LINKLOCAL \<noteq> flag (pk_flags k) DNCP_RECV_FLAG_DST_LINKLOCAL then False
      else if \<not> flag (pk_flags k) DNCP_RECV_FLAG_SRC_LINKLOCAL \<and> flag (pk_flags k) DNCP_RECV_FLAG_SECURE \<and>
              \<not> accept_secure_nonlocal_traffic (conf l) then False
      else if \<not> flag (pk_flags k) DNCP_RECV_FLAG_SRC_LINKLOCAL \<and> \<not> flag (pk_flags k) DNCP_RECV_FLAG_SECURE \<and>
              \<not> accept_insecure_nonlocal_traffic (conf l) then False
      else if pk_dst k \<noteq> None \<and>
              pk_flags k AND (DNCP_RECV_FLAG_SECURE OR DNCP_RECV_FLAG_SECURE_TRIED) = DNCP_RECV_FLAG_SECURE_TRIED then False
      else True)"

definition packet_msg :: "packet \<Rightarrow> bytes option" where
  "packet_msg k = tlv_init (replicate 4 0 @ pk_data k) 0 0 (of_nat (length (pk_data k) + 4))"

definition handle_packet :: "env \<Rightarrow> packet \<Rightarrow> dncp \<Rightarrow> dncp option" where
  "handle_packet E k d =
     do { msg \<leftarrow> packet_msg k;
          d \<leftarrow> notify E DNCP_CALLBACK_SOCKET_MSG (Msg_received (pk_ep k) (pk_src k) (pk_dst k) (pk_flags k) msg) d;
          l \<leftarrow> ep_at (pk_ep k) d;
          if packet_accepted k l then handle_message E (pk_ep k) (pk_src k) (pk_dst k) msg d else Some d }"

text \<open>The packets up to the first call that yields nothing.\<close>

fun dncp_ext_readable :: "env \<Rightarrow> packet list \<Rightarrow> dncp \<Rightarrow> dncp option" where
  "dncp_ext_readable E [] d = Some d"
| "dncp_ext_readable E (k # ks) d =
     (if pk_data k = [] then Some d
      else if length (pk_data k) > DNCP_MAXIMUM_PAYLOAD_SIZE then None
      else do { d \<leftarrow> handle_packet E k d; dncp_ext_readable E ks d })"

definition dncp_ext_ep_peer_state ::
    "env \<Rightarrow> bytes \<Rightarrow> sockaddr option \<Rightarrow> sockaddr \<Rightarrow> bool \<Rightarrow> dncp \<Rightarrow> dncp option" where
  "dncp_ext_ep_peer_state E ep local remote connected d =
     (if connected then dncp_ep_i_send_network_state E ep local (Some remote) 0 True d
      else do {
        t \<leftarrow> find_local_tlv_by_remote E remote d;
        d \<leftarrow> (case t of None \<Rightarrow> Some d
             | Some a \<Rightarrow> do {
                 ne \<leftarrow> dncp_tlv_peer E a 0;
                 case ne of None \<Rightarrow> Some d | Some _ \<Rightarrow> peer_modify a (\<lambda>n. n\<lparr> last_contact := 0 \<rparr>) d });
        Some (dncp_schedule d) })"

end
