(* ===== verification/DncpPrune.thy ===== *)
theory DncpPrune
  imports DncpTimeout
begin

unbundle bit_operations_syntax

text \<open>
  The specification of pruning: nodes are linked when each publishes the other as a peer on matching
  endpoints, and a node is reachable when a path of links between nodes that have not expired leads to it
  from the own node.  The theory shows that \<open>dncp_prune\<close> computes exactly that set.
\<close>

section \<open>The network graph\<close>

definition tlvs_of_node :: "dncp_node \<Rightarrow> tlv list" where
  "tlvs_of_node n =
     (case tlv_container n of None \<Rightarrow> []
      | Some c \<Rightarrow> (case do { ps \<leftarrow> tlv_for_each_attr c 0; tlvs_at c ps } of None \<Rightarrow> [] | Some ts \<Rightarrow> ts))"

definition host_word :: "env \<Rightarrow> bytes \<Rightarrow> u32" where
  "host_word E bs = be_word (if big_endian_host E then bs else rev bs)"

definition peer_of_tlv :: "env \<Rightarrow> tlv \<Rightarrow> dncp_t_peer option" where
  "peer_of_tlv E a =
     (if fst a \<noteq> DNCP_T_PEER \<or> length (snd a) \<noteq> NI_LEN E + 8 then None
      else Some \<lparr> ne_node_id = take (NI_LEN E) (snd a), peer_ep_id = host_word E (take 4 (drop (NI_LEN E) (snd a))),
                  ne_ep_id = host_word E (take 4 (drop (NI_LEN E + 4) (snd a))) \<rparr>)"

definition peers_of :: "env \<Rightarrow> dncp_node \<Rightarrow> dncp_t_peer list" where
  "peers_of E n = List.map_filter (peer_of_tlv E) (tlvs_of_node n)"

text \<open>\<open>ne2\<close> is the entry of the other end for the link \<open>ne\<close> of \<open>p\<close>.\<close>

definition crossed :: "bytes \<Rightarrow> dncp_t_peer \<Rightarrow> dncp_t_peer \<Rightarrow> bool" where
  "crossed p ne ne2 \<longleftrightarrow> ne_ep_id ne = peer_ep_id ne2 \<and> peer_ep_id ne = ne_ep_id ne2 \<and> ne_node_id ne2 = p"

definition bidir :: "env \<Rightarrow> dncp \<Rightarrow> bytes \<Rightarrow> dncp_t_peer \<Rightarrow> bool" where
  "bidir E d p ne = (case node_at (ne_node_id ne) d of None \<Rightarrow> False | Some m \<Rightarrow> \<exists>ne2 \<in> set (peers_of E m). crossed p ne ne2)"

definition linked :: "env \<Rightarrow> dncp \<Rightarrow> bytes \<Rightarrow> bytes \<Rightarrow> bool" where
  "linked E d p q = (case node_at p d of None \<Rightarrow> False | Some n \<Rightarrow> \<exists>ne \<in> set (peers_of E n). ne_node_id ne = q \<and> bidir E d p ne)"

definition alive :: "dncp \<Rightarrow> bytes \<Rightarrow> bool" where
  "alive d p = (case node_at p d of None \<Rightarrow> False | Some n \<Rightarrow> dncp_time d < expiration_time n)"

inductive reach :: "env \<Rightarrow> dncp \<Rightarrow> bytes \<Rightarrow> bytes \<Rightarrow> bool" for E d p where
  reach_start: "alive d p \<Longrightarrow> reach E d p p"
| reach_step: "reach E d p q \<Longrightarrow> linked E d q r \<Longrightarrow> alive d r \<Longrightarrow> reach E d p r"

section \<open>Well-formed instances\<close>

definition node_wf :: "env \<Rightarrow> dncp_node \<Rightarrow> bool" where
  "node_wf E n \<longleftrightarrow> length (node_id n) = NI_LEN E \<and> node_tlvs n (tlvs_of_node n) \<and>
     (tlv_container_valid n = None \<or> tlv_container_valid n = tlv_container n)"

definition nodes_inv :: "env \<Rightarrow> dncp \<Rightarrow> bool" where
  "nodes_inv E d \<longleftrightarrow> index_inv d \<and> (\<forall>n \<in> set (nodes d). node_wf E n) \<and>
     sorted_wrt (\<lambda>a b. dncp_node_cmp E a b < 0) (map node_id (nodes d))"

text \<open>The same nodes up to their indexes, and the same generation and time.\<close>

definition same_nodes :: "dncp \<Rightarrow> dncp \<Rightarrow> bool" where
  "same_nodes d d' \<longleftrightarrow> map strip_index (nodes d') = map strip_index (nodes d) \<and> nodes_version d' = nodes_version d \<and>
     own_node d' = own_node d \<and> last_prune d' = last_prune d \<and> now d' = now d \<and> clock d' = clock d"

text \<open>Subscribers that return and leave the nodes alone; they may publish TLVs and look up TLVs of nodes.\<close>

definition calm :: "env \<Rightarrow> bool" where
  "calm E \<longleftrightarrow> (\<forall>s e d. nodes_inv E d \<longrightarrow> (\<exists>d'. sub_cb E s e d = Some d' \<and> index_inv d' \<and> same_nodes d d'))"

section \<open>The search\<close>

text \<open>A node keeps its content, or it is moved to the generation \<open>v\<close> at time \<open>t\<close>.\<close>

definition node_step :: "int \<Rightarrow> int \<Rightarrow> dncp_node \<Rightarrow> dncp_node \<Rightarrow> bool" where
  "node_step v t n n' \<longleftrightarrow> strip_index n' = strip_index n \<or>
     (in_nodes_version n \<noteq> v \<and> strip_index n' = strip_index (n\<lparr> in_nodes_version := v, last_reachable_prune := t \<rparr>))"

definition evolves :: "dncp \<Rightarrow> dncp \<Rightarrow> bool" where
  "evolves d d' \<longleftrightarrow> list_all2 (node_step (nodes_version d) (dncp_time d)) (nodes d) (nodes d') \<and>
     nodes_version d' = nodes_version d \<and> own_node d' = own_node d \<and> last_prune d' = last_prune d \<and>
     now d' = now d \<and> clock d' = clock d"

definition marks :: "dncp \<Rightarrow> bytes set" where
  "marks d = {p. \<exists>n. node_at p d = Some n \<and> in_nodes_version n = nodes_version d}"

definition unmarked :: "dncp \<Rightarrow> nat" where
  "unmarked d = length (filter (\<lambda>n. in_nodes_version n \<noteq> nodes_version d) (nodes d))"

text \<open>A node that is entered: it moves to the current generation.\<close>

abbreviation entered :: "dncp \<Rightarrow> dncp_node \<Rightarrow> dncp_node" where
  "entered d n \<equiv> n\<lparr> in_nodes_version := nodes_version d, last_reachable_prune := dncp_time d \<rparr>"

text \<open>What a search from the nodes \<open>S\<close> adds: nodes that are reachable from \<open>S\<close>, with all their live neighbours.\<close>

definition searched :: "env \<Rightarrow> dncp \<Rightarrow> dncp \<Rightarrow> bytes set \<Rightarrow> bool" where
  "searched E d d' S \<longleftrightarrow> evolves d d' \<and> nodes_inv E d' \<and>
     (\<forall>x \<in> marks d' - marks d. (\<exists>s \<in> S. reach E d s x) \<and> (\<forall>y. linked E d x y \<longrightarrow> alive d y \<longrightarrow> y \<in> marks d'))"

text \<open>The nodes the links of \<open>p\<close> in the entries \<open>ts\<close> lead to.\<close>

definition targets :: "env \<Rightarrow> dncp \<Rightarrow> bytes \<Rightarrow> tlv list \<Rightarrow> bytes set" where
  "targets E d p ts = {q. \<exists>ne \<in> set (List.map_filter (peer_of_tlv E) ts). ne_node_id ne = q \<and> bidir E d p ne}"

text \<open>The content of the nodes and the reachability the callers see.\<close>

definition network_view :: "dncp \<Rightarrow> (bytes \<times> bytes option \<times> bool) list" where
  "network_view d = map (\<lambda>n. (node_id n, tlv_container n, last_reachable_prune n = last_prune d)) (nodes d)"

text \<open>The network after a prune: what is reachable from the own node, and what was reachable within the grace interval.\<close>

definition pruned_view :: "env \<Rightarrow> dncp \<Rightarrow> (bytes \<times> bytes option \<times> bool) list" where
  "pruned_view E d =
     (let reachable = (\<lambda>n. \<exists>own. own_node d = Some own \<and> reach E d own (node_id n));
          recent = (\<lambda>n. dncp_time d - to_int (grace_interval (ext_conf E)) \<le> last_reachable_prune n)
      in map (\<lambda>n. (node_id n, tlv_container n, reachable n)) (filter (\<lambda>n. reachable n \<or> recent n) (nodes d)))"

text \<open>Instances between two prunes.\<close>

definition prune_inv :: "env \<Rightarrow> dncp \<Rightarrow> bool" where
  "prune_inv E d \<longleftrightarrow> nodes_inv E d \<and> (\<exists>own. own_node d = Some own \<and> node_at own d \<noteq> None) \<and>
     (\<forall>n \<in> set (nodes d). 0 \<le> in_nodes_version n \<and> in_nodes_version n \<le> nodes_version d \<and> last_reachable_prune n \<le> last_prune d)"

definition kept :: "int \<Rightarrow> int \<Rightarrow> bytes set \<Rightarrow> dncp_node \<Rightarrow> dncp_node" where
  "kept v ga S n = (if node_id n \<in> S \<and> in_nodes_version n \<noteq> v \<and> ga \<le> last_reachable_prune n then n\<lparr> in_nodes_version := v \<rparr> else n)"

text \<open>What a prune makes of a node \<open>n\<close>: \<open>r\<close> tells that it is reachable.\<close>

definition prune_step :: "int \<Rightarrow> int \<Rightarrow> int \<Rightarrow> bool \<Rightarrow> dncp_node \<Rightarrow> dncp_node \<Rightarrow> bool" where
  "prune_step v nw ga r n m \<longleftrightarrow> node_id m = node_id n \<and> tlv_container m = tlv_container n \<and> 0 \<le> in_nodes_version m \<and>
     last_reachable_prune m \<le> nw \<and> (in_nodes_version m = v) = (r \<or> ga \<le> last_reachable_prune n) \<and> (last_reachable_prune m = nw) = r"

text \<open>An own node, a neighbour of it, and a node whose data has expired.\<close>

definition peer_container :: "bytes \<Rightarrow> bytes" where
  "peer_container p = [0, 0, 0, 16, 0, 8, 0, 12] @ p @ [1, 0, 0, 0, 1, 0, 0, 0]"

definition trio :: dncp where
  "trio = (zero_dncp plain_env 100000)\<lparr> last_prune := 1, own_node := Some [1, 2, 3, 4],
     nodes := [(fresh_node plain_env [1, 2, 3, 4])\<lparr> tlv_container := Some (peer_container [5, 6, 7, 8]), expiration_time := 200000 \<rparr>,
               (fresh_node plain_env [5, 6, 7, 8])\<lparr> tlv_container := Some (peer_container [1, 2, 3, 4]), expiration_time := 200000 \<rparr>,
               (fresh_node plain_env [9, 9, 9, 9])\<lparr> expiration_time := 100000 \<rparr>] \<rparr>"

section \<open>Lemmas: lookups in a well-formed instance\<close>

lemma same_nodes_refl [simp]: "same_nodes d d"
  by (simp add: same_nodes_def)

lemma same_nodes_trans: "same_nodes d d' \<Longrightarrow> same_nodes d' d'' \<Longrightarrow> same_nodes d d''"
  by (simp add: same_nodes_def)

lemma same_but_index_fields:
  assumes "same_but_index d d'"
  shows "nodes_version d' = nodes_version d" "own_node d' = own_node d" "last_prune d' = last_prune d"
    "now d' = now d" "clock d' = clock d" "map strip_index (nodes d') = map strip_index (nodes d)"
  using assms unfolding same_but_index_def by (cases d; cases d'; simp)+

lemma same_but_index_same_nodes: "same_but_index d d' \<Longrightarrow> same_nodes d d'"
  using same_but_index_fields [of d d'] by (simp add: same_nodes_def)

lemma node_wf_strip: "strip_index m = strip_index n \<Longrightarrow> node_wf E m = node_wf E n"
  using strip_eq_fields [of m n] by (simp add: node_wf_def node_tlvs_def tlvs_of_node_def)

lemma map_strip_ball:
  assumes "map strip_index ns = map strip_index ms" "\<And>m n. strip_index m = strip_index n \<Longrightarrow> P m = P n"
  shows "(\<forall>n \<in> set ns. P n) = (\<forall>n \<in> set ms. P n)"
  using assms(1)
proof (induction ns arbitrary: ms)
  case (Cons n ns)
  then obtain m ms' where "ms = m # ms'" "strip_index n = strip_index m" "map strip_index ns = map strip_index ms'" by (cases ms) auto
  moreover have "P n = P m" by (rule assms(2)) fact
  ultimately show ?case using Cons.IH by simp
qed simp

lemma map_strip_ids: "map strip_index ns = map strip_index ms \<Longrightarrow> map node_id ns = map node_id ms"
proof -
  assume "map strip_index ns = map strip_index ms"
  then have "map node_id (map strip_index ns) = map node_id (map strip_index ms)" by simp
  then show ?thesis by (simp add: comp_def)
qed

lemma nodes_inv_strip:
  assumes "nodes_inv E d" "map strip_index (nodes d') = map strip_index (nodes d)" "index_inv d'"
  shows "nodes_inv E d'"
  using assms map_strip_ball [OF assms(2), of "node_wf E", OF node_wf_strip] map_strip_ids [OF assms(2)] by (simp add: nodes_inv_def)

lemma node_at_strip:
  "map strip_index (nodes d') = map strip_index (nodes d) \<Longrightarrow>
   map_option strip_index (node_at p d') = map_option strip_index (node_at p d)"
  unfolding node_at_def by (rule find_strip)

lemma node_order: "\<forall>x \<in> S. length x = NI_LEN E \<Longrightarrow> comparator (\<lambda>x. x \<in> S) (dncp_node_cmp E)"
proof (rule comparator.intro)
  assume l: "\<forall>x \<in> S. length x = NI_LEN E"
  fix x y z
  assume "x \<in> S" "y \<in> S" "z \<in> S" "dncp_node_cmp E x y \<le> 0" "dncp_node_cmp E y z \<le> 0"
  then show "dncp_node_cmp E x z \<le> 0"
    using l bytes_cmp_trans [of x y z] by (simp add: dncp_node_cmp_def)
qed (simp add: dncp_node_cmp_def bytes_cmp_pos)

lemma find_node_eq:
  assumes i: "nodes_inv E d" and a: "avl_lib E" and l: "length ni = NI_LEN E"
  shows "dncp_find_node_by_node_id E ni False d = Some (map_option node_id (node_at ni d), d)"
proof -
  let ?keys = "map node_id (nodes d)"
  have k: "memcpy_at (replicate (NI_LEN E) 0) 0 ni 0 (NI_LEN E) = Some ni" using l by (simp add: memcpy_at_def)
  have len: "\<forall>x \<in> insert ni (set ?keys). length x = NI_LEN E" using i l by (auto simp: nodes_inv_def node_wf_def)
  have find: "case avl_find E (dncp_node_cmp E) ?keys ni of None \<Rightarrow> \<forall>x \<in> set ?keys. dncp_node_cmp E x ni \<noteq> 0
      | Some i \<Rightarrow> i < length ?keys \<and> dncp_node_cmp E (?keys ! i) ni = 0"
    using a node_order [OF len] i unfolding avl_lib_def nodes_inv_def by blast
  have cmp: "dncp_node_cmp E x ni = 0 \<longleftrightarrow> x = ni" if "x \<in> set ?keys" for x
    using bytes_cmp_eq_0 [of x ni] len that by (auto simp: dncp_node_cmp_def)
  show ?thesis
  proof (cases "avl_find E (dncp_node_cmp E) ?keys ni")
    case None
    then have "\<forall>n \<in> set (nodes d). node_id n \<noteq> ni" using find cmp by auto
    then have "node_at ni d = None" by (simp add: node_at_def find_None_iff)
    with None k show ?thesis by (simp add: dncp_find_node_by_node_id_def)
  next
    case (Some j)
    then have j: "j < length (nodes d)" "node_id (nodes d ! j) = ni" using find cmp [of "?keys ! j"] by auto
    moreover have "node_at ni d = Some (nodes d ! j)"
      using node_at_eq [of d "nodes d ! j"] i j by (simp add: nodes_inv_def index_inv_def)
    ultimately show ?thesis using Some k by (simp add: dncp_find_node_by_node_id_def rd_def)
  qed
qed

lemma tlv_at_fields:
  assumes "tlv_at c p = Some a"
  shows "tlv_id c p = Some (fst a)" "\<exists>l. tlv_len c p = Some l \<and> unat l = length (snd a)"
    "p + 4 + length (snd a) \<le> length c" "snd a = take (length (snd a)) (drop (p + 4) c)"
proof -
  obtain tid l where *: "tlv_id c p = Some tid" "tlv_len c p = Some l" "p + 4 + unat l \<le> length c"
      "a = (tid, take (unat l) (drop (p + 4) c))"
    using assms by (auto simp: tlv_at_def tlv_data_def bind_eq_Some_conv split: if_splits)
  then show "tlv_id c p = Some (fst a)" "\<exists>l. tlv_len c p = Some l \<and> unat l = length (snd a)"
    "p + 4 + length (snd a) \<le> length c" "snd a = take (length (snd a)) (drop (p + 4) c)" by auto
qed

lemma take_inner:
  assumes "s = take (length s) (drop p c)" "i + n \<le> length s"
  shows "take n (drop (p + i) c) = take n (drop i s)"
proof -
  have "drop i s = drop i (take (length s) (drop p c))" using assms(1) by simp
  also have "\<dots> = take (length s - i) (drop (p + i) c)" by (simp add: drop_take add.commute)
  finally show ?thesis using assms(2) by simp
qed

lemma dncp_tlv_peer_eq:
  assumes "tlv_at c p = Some a"
  shows "dncp_tlv_peer E c p = Some (peer_of_tlv E a)"
proof -
  note f = tlv_at_fields [OF assms]
  obtain l where l: "tlv_len c p = Some l" "unat l = length (snd a)" using f(2) by blast
  show ?thesis
  proof (cases "fst a = DNCP_T_PEER \<and> length (snd a) = NI_LEN E + 8")
    case False
    then show ?thesis using f(1) l by (auto simp: dncp_tlv_peer_def peer_of_tlv_def)
  next
    case True
    have i: "take n (drop (p + 4 + i) c) = take n (drop i (snd a))" if "i + n \<le> NI_LEN E + 8" for i n
      using take_inner [OF f(4), of i n] that True by simp
    have "take (NI_LEN E) (drop (p + 4) c) = take (NI_LEN E) (snd a)" using i [of 0 "NI_LEN E"] by simp
    moreover have "take 4 (drop (p + 4 + NI_LEN E) c) = take 4 (drop (NI_LEN E) (snd a))" using i [of "NI_LEN E" 4] by simp
    moreover have "take 4 (drop (p + 4 + (NI_LEN E + 4)) c) = take 4 (drop (NI_LEN E + 4) (snd a))" using i [of "NI_LEN E + 4" 4] by simp
    ultimately show ?thesis using f(1,3) l True
      by (simp add: dncp_tlv_peer_def peer_of_tlv_def memcpy_at_def ld_host32_def host_word_def tlv_data_def add.assoc)
  qed
qed

lemma tlvs_at_nth: "tlvs_at c ps = Some ts \<Longrightarrow> list_all2 (\<lambda>p a. tlv_at c p = Some a) ps ts"
  by (induction ps arbitrary: ts) (auto simp: bind_eq_Some_conv)

lemma bidir_loop_eq:
  assumes "tlvs_at c ps = Some ts"
  shows "bidir_loop E p c ne ps = Some (\<exists>ne2 \<in> set (List.map_filter (peer_of_tlv E) ts). crossed p ne ne2)"
  using tlvs_at_nth [OF assms]
proof (induction ps ts rule: list_all2_induct)
  case (Cons q ps a ts)
  then show ?case
    using dncp_tlv_peer_eq [OF Cons.hyps(1), of E] by (auto simp: crossed_def split: option.splits)
qed simp

lemma peers_filter: "List.map_filter (peer_of_tlv E) (filter (\<lambda>a. fst a = DNCP_T_PEER) ts) = List.map_filter (peer_of_tlv E) ts"
  by (induction ts) (auto simp: peer_of_tlv_def)

lemma ucast_peer [simp]: "ucast (ucast DNCP_T_PEER :: u16) = (DNCP_T_PEER :: u32)"
  by (simp add: DNCP_T_PEER_def)

abbreviation container_bytes :: "dncp_node \<Rightarrow> bytes" where
  "container_bytes n \<equiv> (case tlv_container n of None \<Rightarrow> [] | Some c \<Rightarrow> c)"

lemma for_each_peer:
  assumes i: "nodes_inv E d" and n: "node_at p d = Some n" and a: "\<And>x. \<not> alloc_fails E x"
  shows "\<exists>ps ts d'. dncp_node_for_each_tlv_with_t_v E p (ucast DNCP_T_PEER) False d = Some (ps, d') \<and>
    tlvs_at (container_bytes n) ps = Some ts \<and> List.map_filter (peer_of_tlv E) ts = peers_of E n \<and>
    nodes_inv E d' \<and> same_nodes d d'"
proof -
  have t: "node_tlvs n (tlvs_of_node n)" and x: "index_inv d"
    using i node_at_Some [OF n] by (auto simp: nodes_inv_def node_wf_def)
  obtain ps d' where r: "dncp_node_for_each_tlv_with_t_v E p (ucast DNCP_T_PEER) False d = Some (ps, d')"
      "tlvs_at (container_bytes n) ps = Some (filter (\<lambda>a. fst a = DNCP_T_PEER) (tlvs_of_node n))"
      "index_inv d'" "same_but_index d d'"
    by (rule for_each_with_type_eq [OF x n t a, of "ucast DNCP_T_PEER" False]) (rule that, simp_all)
  have "nodes_inv E d'" using nodes_inv_strip [OF i] r(3) same_but_index_fields(6) [OF r(4)] by blast
  then show ?thesis using r same_but_index_same_nodes [OF r(4)] by (auto simp: peers_filter peers_of_def)
qed

lemma find_neigh_bidir_eq:
  assumes i: "nodes_inv E d" and e: "avl_lib E" "\<And>x. \<not> alloc_fails E x" and l: "length (ne_node_id ne) = NI_LEN E"
  shows "\<exists>d'. dncp_node_find_neigh_bidir E p ne d = Some (if bidir E d p ne then Some (ne_node_id ne) else None, d') \<and>
    nodes_inv E d' \<and> same_nodes d d'"
proof (cases "node_at (ne_node_id ne) d")
  case None
  then show ?thesis using find_node_eq [OF i e(1) l] i by (simp add: dncp_node_find_neigh_bidir_def bidir_def)
next
  case (Some m)
  have id: "node_id m = ne_node_id ne" using node_at_Some [OF Some] by simp
  obtain ps ts d' where r: "dncp_node_for_each_tlv_with_t_v E (ne_node_id ne) (ucast DNCP_T_PEER) False d = Some (ps, d')"
      "tlvs_at (container_bytes m) ps = Some ts" "List.map_filter (peer_of_tlv E) ts = peers_of E m"
      "nodes_inv E d'" "same_nodes d d'"
    using for_each_peer [OF i Some e(2)] by blast
  obtain m' where m': "node_at (ne_node_id ne) d' = Some m'" "strip_index m' = strip_index m"
    using node_at_strip [of d' d "ne_node_id ne"] r(5) Some by (auto simp: same_nodes_def)
  have "container_bytes m' = container_bytes m" using strip_eq_fields [OF m'(2)] by simp
  then have "bidir_loop E p (container_bytes m') ne ps = Some (bidir E d p ne)"
    using bidir_loop_eq [OF r(2)] r(3) Some by (simp add: bidir_def)
  then show ?thesis
    using find_node_eq [OF i e(1) l] Some id r(1,4,5) m'(1) by (simp add: dncp_node_find_neigh_bidir_def)
qed

section \<open>Lemmas: notifications\<close>

lemma nodes_inv_outp [simp]: "nodes_inv E (d\<lparr> outp := x \<rparr>) = nodes_inv E d"
  by (simp add: nodes_inv_def index_inv_def)

lemma nodes_inv_flags [simp]:
  "nodes_inv E (d\<lparr> network_hash_dirty := b \<rparr>) = nodes_inv E d" "nodes_inv E (d\<lparr> graph_dirty := b \<rparr>) = nodes_inv E d"
  "nodes_inv E (d\<lparr> nodes_version := v \<rparr>) = nodes_inv E d" "nodes_inv E (d\<lparr> next_prune := t \<rparr>) = nodes_inv E d"
  "nodes_inv E (d\<lparr> last_prune := t \<rparr>) = nodes_inv E d"
  by (simp_all add: nodes_inv_def index_inv_def)

lemma same_nodes_outp [simp]:
  "same_nodes (d\<lparr> outp := x \<rparr>) d' = same_nodes d d'" "same_nodes (d\<lparr> network_hash_dirty := b \<rparr>) d' = same_nodes d d'"
  "same_nodes d (d'\<lparr> network_hash_dirty := b \<rparr>) = same_nodes d d'"
  by (simp_all add: same_nodes_def)

lemma notify_all_calm:
  "calm E \<Longrightarrow> nodes_inv E d \<Longrightarrow> \<exists>d'. notify_all E es d = Some d' \<and> nodes_inv E d' \<and> same_nodes d d'"
proof (induction es arbitrary: d)
  case (Cons se es)
  obtain s e where se: "se = (s, e)" by fastforce
  have i: "nodes_inv E (d\<lparr> outp := outp d @ [Notified s e] \<rparr>)" using Cons.prems(2) by simp
  obtain d1 where d1: "sub_cb E s e (d\<lparr> outp := outp d @ [Notified s e] \<rparr>) = Some d1" "index_inv d1"
      "same_nodes (d\<lparr> outp := outp d @ [Notified s e] \<rparr>) d1"
    using Cons.prems(1) i unfolding calm_def by blast
  have s1: "same_nodes d d1" using d1(3) by simp
  then have i1: "nodes_inv E d1" using nodes_inv_strip [OF Cons.prems(2)] d1(2) by (simp add: same_nodes_def)
  obtain d2 where "notify_all E es d1 = Some d2" "nodes_inv E d2" "same_nodes d1 d2"
    using Cons.IH [OF Cons.prems(1) i1] by blast
  then show ?case using d1(1) se s1 same_nodes_trans by (auto simp: notify_one_def)
qed simp

lemma notify_calm:
  "calm E \<Longrightarrow> nodes_inv E d \<Longrightarrow> \<exists>d'. notify E c e d = Some d' \<and> nodes_inv E d' \<and> same_nodes d d'"
  unfolding notify_def by (rule notify_all_calm)

lemma tlvs_changed_calm:
  assumes "calm E" "nodes_inv E d" "holds_opt a ts" "holds_opt b us"
  shows "\<exists>d'. dncp_notify_subscribers_tlvs_changed E p a b d = Some d' \<and> nodes_inv E d' \<and> same_nodes d d'"
proof (cases "subscribers d DNCP_CALLBACK_TLV = []")
  case False
  obtain r s where t: "tlvs_diff a b = Some (r, s)" using tlvs_diff_eq [OF assms(3,4)] by (cases "attrs_walk ts us") simp
  let ?es = "List.maps (\<lambda>s. map (\<lambda>t. (s, Tlv_change p t False)) r) (subscribers d DNCP_CALLBACK_TLV)"
  obtain d1 where d1: "notify_all E ?es d = Some d1" "nodes_inv E d1" "same_nodes d d1"
    using notify_all_calm [OF assms(1,2), of ?es] by blast
  let ?fs = "List.maps (\<lambda>x. map (\<lambda>t. (x, Tlv_change p t True)) s) (subscribers d1 DNCP_CALLBACK_TLV)"
  obtain d2 where d2: "notify_all E ?fs d1 = Some d2" "nodes_inv E d2" "same_nodes d1 d2"
    using notify_all_calm [OF assms(1) d1(2), of ?fs] by blast
  show ?thesis using False t d1 d2 same_nodes_trans
    by (auto simp: dncp_notify_subscribers_tlvs_changed_def)
qed (use assms in \<open>simp add: dncp_notify_subscribers_tlvs_changed_def\<close>)

lemma holds_valid:
  assumes "node_wf E n"
  obtains ts where "holds_opt (tlv_container_valid n) ts"
  using assms by (cases "tlv_container_valid n = None") (auto simp: node_wf_def node_tlvs_def holds_opt_def)

lemma holds_None [simp]: "holds_opt None []"
  by (simp add: holds_opt_def)

text \<open>The notifications of a change of reachability.\<close>

lemma set_reachable_notifies:
  assumes c: "calm E" and i: "nodes_inv E d" and n: "node_at p d = Some n"
  shows "\<exists>d'. node_set_reachable E p value d =
      (if value then node_modify p (\<lambda>n. n\<lparr> last_reachable_prune := dncp_time d' \<rparr>) d' else Some d') \<and>
    nodes_inv E d' \<and> same_nodes d d'"
proof (cases "(last_prune d = last_reachable_prune n) = value")
  case True
  then show ?thesis using n i by (auto simp: node_set_reachable_def)
next
  case False
  have wf: "node_wf E n" using i node_at_Some [OF n] by (auto simp: nodes_inv_def)
  let ?d = "d\<lparr> network_hash_dirty := True \<rparr>"
  have i0: "nodes_inv E ?d" using i by simp
  obtain ts where ts: "holds_opt (tlv_container_valid n) ts" by (rule holds_valid [OF wf])
  obtain d1 where d1: "(if \<not> value then dncp_notify_subscribers_tlvs_changed E p (tlv_container_valid n) None ?d else Some ?d) = Some d1"
      "nodes_inv E d1" "same_nodes ?d d1"
    using tlvs_changed_calm [OF c i0 ts holds_None, of p] i0 by (cases "value") auto
  obtain d2 where d2: "dncp_notify_subscribers_node_changed E p value d1 = Some d2" "nodes_inv E d2" "same_nodes d1 d2"
    unfolding dncp_notify_subscribers_node_changed_def using notify_calm [OF c d1(2)] by blast
  have s2: "same_nodes d d2" using same_nodes_trans [OF d1(3) d2(3)] by simp
  obtain n2 where n2: "node_at p d2 = Some n2" "strip_index n2 = strip_index n"
    using node_at_strip [of d2 d p] s2 n by (auto simp: same_nodes_def)
  have v: "tlv_container_valid n2 = tlv_container_valid n" using strip_eq_fields [OF n2(2)] by simp
  obtain d3 where d3: "(if value then dncp_notify_subscribers_tlvs_changed E p None (tlv_container_valid n2) d2 else Some d2) = Some d3"
      "nodes_inv E d3" "same_nodes d2 d3"
    using tlvs_changed_calm [OF c d2(2) holds_None ts, of p] d2(2) v by (cases "value") auto
  have "node_set_reachable E p value d =
      (if value then node_modify p (\<lambda>n. n\<lparr> last_reachable_prune := dncp_time d3 \<rparr>) d3 else Some d3)"
    using n False d1(1) d2(1) n2(1) d3(1) by (simp add: node_set_reachable_def Let_def)
  then show ?thesis using d3(2) same_nodes_trans [OF s2 d3(3)] by blast
qed

lemma same_nodes_time: "same_nodes d d' \<Longrightarrow> dncp_time d' = dncp_time d"
  by (simp add: same_nodes_def dncp_time_def)

lemma evolves_time: "evolves d d' \<Longrightarrow> dncp_time d' = dncp_time d"
  by (simp add: evolves_def dncp_time_def)

lemma map_strip_list_all2: "map strip_index ns = map strip_index ms \<Longrightarrow> list_all2 (\<lambda>m n. strip_index n = strip_index m) ms ns"
  by (auto simp: list_all2_conv_all_nth map_equality_iff)

lemma same_nodes_evolves: "same_nodes d d' \<Longrightarrow> evolves d d'"
proof -
  assume s: "same_nodes d d'"
  have "list_all2 (node_step (nodes_version d) (dncp_time d)) (nodes d) (nodes d')"
    by (rule list_all2_mono [OF map_strip_list_all2]) (use s in \<open>simp_all add: same_nodes_def node_step_def\<close>)
  with s show ?thesis by (simp add: same_nodes_def evolves_def)
qed

lemma node_step_trans: "node_step v t n n' \<Longrightarrow> node_step v t n' n'' \<Longrightarrow> node_step v t n n''"
proof -
  assume a: "node_step v t n n'" "node_step v t n' n''"
  have "in_nodes_version n' = v" if "strip_index n' = strip_index (n\<lparr> in_nodes_version := v, last_reachable_prune := t \<rparr>)"
    using strip_eq_fields(2) [OF that] by simp
  moreover have "strip_index (n'\<lparr> in_nodes_version := v, last_reachable_prune := t \<rparr>) = strip_index (n\<lparr> in_nodes_version := v, last_reachable_prune := t \<rparr>)"
    "in_nodes_version n' = in_nodes_version n" if "strip_index n' = strip_index n"
    using strip_eq_fields [OF that] by (simp_all add: strip_index_def)
  ultimately show ?thesis using a unfolding node_step_def by metis
qed

lemma evolves_trans: "evolves d d' \<Longrightarrow> evolves d' d'' \<Longrightarrow> evolves d d''"
proof -
  assume e: "evolves d d'" "evolves d' d''"
  have "list_all2 (node_step (nodes_version d) (dncp_time d)) (nodes d) (nodes d'')"
  proof (rule list_all2_trans)
    show "list_all2 (node_step (nodes_version d) (dncp_time d)) (nodes d) (nodes d')" using e(1) by (simp add: evolves_def)
    show "list_all2 (node_step (nodes_version d) (dncp_time d)) (nodes d') (nodes d'')"
      using e evolves_time [OF e(1)] by (simp add: evolves_def)
  qed (rule node_step_trans)
  with e show ?thesis by (simp add: evolves_def)
qed

lemma node_step_fields:
  assumes "node_step v t n n'"
  shows "node_id n' = node_id n" "tlv_container n' = tlv_container n" "tlv_container_valid n' = tlv_container_valid n"
    "expiration_time n' = expiration_time n" "in_nodes_version n = v \<Longrightarrow> in_nodes_version n' = v"
proof -
  have "node_id n' = node_id n \<and> tlv_container n' = tlv_container n \<and> tlv_container_valid n' = tlv_container_valid n \<and>
    expiration_time n' = expiration_time n \<and> (in_nodes_version n = v \<longrightarrow> in_nodes_version n' = v)"
  proof (cases "strip_index n' = strip_index n")
    case True
    show ?thesis by (simp add: strip_eq_fields [OF True])
  next
    case False
    then have "strip_index n' = strip_index (n\<lparr> in_nodes_version := v, last_reachable_prune := t \<rparr>)" using assms by (simp add: node_step_def)
    from strip_eq_fields [OF this] show ?thesis by simp
  qed
  then show "node_id n' = node_id n" "tlv_container n' = tlv_container n" "tlv_container_valid n' = tlv_container_valid n"
    "expiration_time n' = expiration_time n" "in_nodes_version n = v \<Longrightarrow> in_nodes_version n' = v" by simp_all
qed

lemma find_step:
  "list_all2 (node_step v t) ns ms \<Longrightarrow>
   rel_option (node_step v t) (find (\<lambda>n. node_id n = p) ns) (find (\<lambda>n. node_id n = p) ms)"
  by (induction rule: list_all2_induct) (auto dest: node_step_fields(1))

lemma evolves_node_at:
  "evolves d d' \<Longrightarrow> rel_option (node_step (nodes_version d) (dncp_time d)) (node_at p d) (node_at p d')"
  unfolding node_at_def by (rule find_step) (simp add: evolves_def)

lemma evolves_Some:
  assumes "evolves d d'" "node_at p d = Some n"
  obtains n' where "node_at p d' = Some n'" "node_step (nodes_version d) (dncp_time d) n n'"
  using evolves_node_at [OF assms(1), of p] assms(2) that by (auto simp: option_rel_Some1)

lemma evolves_graph:
  assumes e: "evolves d d'"
  shows "linked E d' = linked E d" "alive d' = alive d" "bidir E d' = bidir E d" "marks d \<subseteq> marks d'"
proof -
  have peers: "peers_of E n' = peers_of E n" if "node_step v t n n'" for v t n n'
    using node_step_fields(2) [OF that] by (simp add: peers_of_def tlvs_of_node_def)
  have opt: "(case node_at p d' of None \<Rightarrow> False | Some n \<Rightarrow> P n) = (case node_at p d of None \<Rightarrow> False | Some n \<Rightarrow> P n)"
    if "\<And>n n'. node_step (nodes_version d) (dncp_time d) n n' \<Longrightarrow> P n' = P n" for p P
    using evolves_node_at [OF e, of p] that by (cases "node_at p d"; cases "node_at p d'") auto
  show b: "bidir E d' = bidir E d"
    unfolding bidir_def by (intro ext, rule opt) (simp add: peers)
  show "linked E d' = linked E d"
    unfolding linked_def b by (intro ext, rule opt) (simp add: peers)
  show "alive d' = alive d"
    unfolding alive_def evolves_time [OF e] by (intro ext, rule opt) (simp add: node_step_fields(4))
  show "marks d \<subseteq> marks d'"
  proof
    fix p assume "p \<in> marks d"
    then obtain n where n: "node_at p d = Some n" "in_nodes_version n = nodes_version d" by (auto simp: marks_def)
    obtain n' where "node_at p d' = Some n'" "node_step (nodes_version d) (dncp_time d) n n'" by (rule evolves_Some [OF e n(1)])
    then show "p \<in> marks d'" using n(2) e node_step_fields(5) by (auto simp: marks_def evolves_def)
  qed
qed

lemma evolves_unmarked: "evolves d d' \<Longrightarrow> unmarked d' \<le> unmarked d"
proof -
  assume e: "evolves d d'"
  have "length (filter (\<lambda>n. in_nodes_version n \<noteq> v) ms) \<le> length (filter (\<lambda>n. in_nodes_version n \<noteq> v) ns)"
    if "list_all2 (node_step v t) ns ms" for v t ns ms
    using that by (induction rule: list_all2_induct) (auto dest: node_step_fields(5) intro: le_SucI)
  then show ?thesis using e by (auto simp: evolves_def unmarked_def)
qed

lemma strip_version: "strip_index m = strip_index n \<Longrightarrow> (in_nodes_version m = v) = (in_nodes_version n = v)"
  by (drule strip_eq_fields(2)) simp

lemma same_nodes_marks:
  assumes s: "same_nodes d d'"
  shows "marks d' = marks d" "unmarked d' = unmarked d"
proof -
  have st: "map strip_index (nodes d') = map strip_index (nodes d)" using s by (simp add: same_nodes_def)
  have v: "nodes_version d' = nodes_version d" using s by (simp add: same_nodes_def)
  have "(\<exists>n. node_at p d' = Some n \<and> in_nodes_version n = w) = (\<exists>n. node_at p d = Some n \<and> in_nodes_version n = w)" for p w
  proof (cases "node_at p d")
    case None
    then have "node_at p d' = None" using node_at_strip [OF st, of p] by simp
    then show ?thesis using None by simp
  next
    case (Some n)
    then obtain m where m: "node_at p d' = Some m" "strip_index m = strip_index n" using node_at_strip [OF st, of p] by auto
    show ?thesis using Some m(1) strip_version [OF m(2), of w] by simp
  qed
  then show "marks d' = marks d" by (simp add: marks_def v)
  have "length (filter (\<lambda>n. in_nodes_version n \<noteq> w) ms) = length (filter (\<lambda>n. in_nodes_version n \<noteq> w) ns)"
    if "map strip_index ms = map strip_index ns" for w ns ms
    using that
  proof (induction ns arbitrary: ms)
    case (Cons n ns)
    then obtain m ms' where m: "ms = m # ms'" "strip_index m = strip_index n" "map strip_index ms' = map strip_index ns" by auto
    show ?case using Cons.IH [OF m(3)] strip_version [OF m(2), of w] m(1) by simp
  qed simp
  then show "unmarked d' = unmarked d" unfolding unmarked_def v using st by blast
qed

lemma strip_put:
  "map strip_index (nodes (put_node a d)) = map (\<lambda>y. if node_id y = node_id a then strip_index a else y) (map strip_index (nodes d))"
  by (simp add: put_node_def)

lemma index_ok_cong:
  "tlv_container n' = tlv_container n \<Longrightarrow> tlv_container_valid n' = tlv_container_valid n \<Longrightarrow> tlv_index n' = tlv_index n \<Longrightarrow>
   tlv_index_dirty n' = tlv_index_dirty n \<Longrightarrow> index_ok ti num n' = index_ok ti num n"
  by (simp add: index_ok_def index_of_def)

lemma nodes_inv_put:
  assumes i: "nodes_inv E d" and n: "node_at p d = Some n" and f: "node_id n' = node_id n" "tlv_container n' = tlv_container n"
    "tlv_container_valid n' = tlv_container_valid n" "tlv_index n' = tlv_index n" "tlv_index_dirty n' = tlv_index_dirty n"
  shows "nodes_inv E (put_node n' d)"
proof -
  have m: "n \<in> set (nodes d)" using node_at_Some [OF n] by simp
  have "index_ok (tlv_type_to_index d) (num_tlv_indexes d) n'"
    using i m index_ok_cong [OF f(2-5)] by (simp add: nodes_inv_def index_inv_def)
  then have "index_inv (put_node n' d)" using i index_inv_put by (simp add: nodes_inv_def)
  moreover have "node_wf E n'" using i m f by (auto simp: nodes_inv_def node_wf_def node_tlvs_def tlvs_of_node_def)
  moreover have "set (nodes (put_node n' d)) \<subseteq> insert n' (set (nodes d))" by (auto simp: put_node_def)
  moreover have "map node_id (nodes (put_node n' d)) = map node_id (nodes d)" by (rule ids_put)
  ultimately show ?thesis using i unfolding nodes_inv_def by auto
qed

lemma put_node_fields [simp]:
  "nodes_version (put_node n d) = nodes_version d" "own_node (put_node n d) = own_node d" "last_prune (put_node n d) = last_prune d"
  "now (put_node n d) = now d" "clock (put_node n d) = clock d" "dncp_time (put_node n d) = dncp_time d"
  by (simp_all add: put_node_def dncp_time_def)

lemma fewer_unmarked:
  assumes n: "in_nodes_version n \<noteq> v" "in_nodes_version n' = v" "node_id n = p"
  shows "n \<in> set ns \<Longrightarrow> (\<And>x. x \<in> set ns \<Longrightarrow> node_id x = p \<Longrightarrow> x = n) \<Longrightarrow>
    length (filter (\<lambda>x. in_nodes_version x \<noteq> v) (map (\<lambda>x. if node_id x = p then n' else x) ns)) <
    length (filter (\<lambda>x. in_nodes_version x \<noteq> v) ns)"
proof (induction ns)
  case (Cons x ns)
  have le: "length (filter (\<lambda>x. in_nodes_version x \<noteq> v) (map (\<lambda>x. if node_id x = p then n' else x) xs)) \<le>
      length (filter (\<lambda>x. in_nodes_version x \<noteq> v) xs)" for xs
    using n(2) by (induction xs) auto
  show ?case
  proof (cases "x = n")
    case True
    then show ?thesis using n le [of ns] by simp
  next
    case False
    have "node_id x \<noteq> p" using False Cons.prems(2) [of x] by auto
    moreover have "n \<in> set ns" using False Cons.prems(1) by simp
    moreover have "length (filter (\<lambda>x. in_nodes_version x \<noteq> v) (map (\<lambda>x. if node_id x = p then n' else x) ns)) <
        length (filter (\<lambda>x. in_nodes_version x \<noteq> v) ns)"
      by (rule Cons.IH [OF \<open>n \<in> set ns\<close>]) (rule Cons.prems(2), simp_all)
    ultimately show ?thesis by simp
  qed
qed simp

lemma entered_search:
  assumes i: "nodes_inv E d" and n: "node_at p d = Some n" "in_nodes_version n \<noteq> nodes_version d"
  shows "evolves d (put_node (entered d n) d)" "marks (put_node (entered d n) d) = insert p (marks d)"
    "unmarked (put_node (entered d n) d) < unmarked d"
proof -
  have m: "n \<in> set (nodes d)" "node_id n = p" using node_at_Some [OF n(1)] by auto
  have uniq: "x = n" if "x \<in> set (nodes d)" "node_id x = p" for x
    using i m that by (auto simp: nodes_inv_def index_inv_def distinct_map inj_on_def)
  have "list_all2 (node_step (nodes_version d) (dncp_time d)) (nodes d) (nodes (put_node (entered d n) d))"
  proof (unfold put_node_def list_all2_conv_all_nth, intro conjI allI impI)
    fix k assume k: "k < length (nodes d)"
    show "node_step (nodes_version d) (dncp_time d) (nodes d ! k)
        (nodes (d\<lparr>nodes := map (\<lambda>x. if node_id x = node_id (entered d n) then entered d n else x) (nodes d)\<rparr>) ! k)"
      using uniq [OF nth_mem [OF k]] n(2) m(2) k by (cases "node_id (nodes d ! k) = p") (simp_all add: node_step_def)
  qed simp
  then show "evolves d (put_node (entered d n) d)" by (simp add: evolves_def)
  show "marks (put_node (entered d n) d) = insert p (marks d)"
    using n m by (auto simp: marks_def split: if_splits)
  show "unmarked (put_node (entered d n) d) < unmarked d"
  proof -
    have "length (filter (\<lambda>x. in_nodes_version x \<noteq> nodes_version d) (map (\<lambda>x. if node_id x = p then entered d n else x) (nodes d))) <
        length (filter (\<lambda>x. in_nodes_version x \<noteq> nodes_version d) (nodes d))"
      by (rule fewer_unmarked [OF n(2) _ m(2) m(1)]) (simp, rule uniq)
    then show ?thesis using m(2) by (simp add: unmarked_def put_node_def)
  qed
qed

lemma enter_node:
  assumes i: "nodes_inv E d" and c: "calm E" "\<And>x. \<not> alloc_fails E x"
    and n: "node_at p d = Some n" "in_nodes_version n \<noteq> nodes_version d"
  shows "\<exists>d1 d2 ps ts d'. nodes_refresh p d = Some d1 \<and> node_set_reachable E p True d1 = Some d2 \<and>
    dncp_node_for_each_tlv_with_t_v E p (ucast DNCP_T_PEER) False d2 = Some (ps, d') \<and>
    tlvs_at (container_bytes n) ps = Some ts \<and> List.map_filter (peer_of_tlv E) ts = peers_of E n \<and>
    nodes_inv E d' \<and> same_nodes (put_node (entered d n) d) d'"
proof -
  have id: "node_id n = p" using node_at_Some [OF n(1)] by simp
  define d1 where "d1 = put_node (n\<lparr> in_nodes_version := nodes_version d \<rparr>) d"
  have r1: "nodes_refresh p d = Some d1" using n(1) by (simp add: nodes_refresh_def node_modify_def d1_def)
  have i1: "nodes_inv E d1" unfolding d1_def by (rule nodes_inv_put [OF i n(1)]) simp_all
  have n1: "node_at p d1 = Some (n\<lparr> in_nodes_version := nodes_version d \<rparr>)" using n(1) id by (simp add: d1_def)
  obtain e where e: "node_set_reachable E p True d1 = node_modify p (\<lambda>n. n\<lparr> last_reachable_prune := dncp_time e \<rparr>) e"
      "nodes_inv E e" "same_nodes d1 e"
    using set_reachable_notifies [OF c(1) i1 n1, of True] by auto
  obtain m where m: "node_at p e = Some m" "strip_index m = strip_index (n\<lparr> in_nodes_version := nodes_version d \<rparr>)"
    using node_at_strip [of e d1 p] e(3) n1 by (auto simp: same_nodes_def)
  have t: "dncp_time e = dncp_time d" using same_nodes_time [OF e(3)] by (simp add: d1_def)
  define d2 where "d2 = put_node (m\<lparr> last_reachable_prune := dncp_time d \<rparr>) e"
  have r2: "node_set_reachable E p True d1 = Some d2" using e(1) m(1) t by (simp add: node_modify_def d2_def)
  have i2: "nodes_inv E d2" unfolding d2_def by (rule nodes_inv_put [OF e(2) m(1)]) simp_all
  have st: "strip_index (m\<lparr> last_reachable_prune := dncp_time d \<rparr>) = strip_index (entered d n)"
    using m(2) strip_eq_fields [OF m(2)] by (simp add: strip_index_def)
  have idm: "node_id m = p" using node_at_Some [OF m(1)] by simp
  have "map strip_index (nodes d2) = map strip_index (nodes (put_node (entered d n) d))"
  proof -
    have "map strip_index (nodes e) = map strip_index (nodes d1)" using e(3) by (simp add: same_nodes_def)
    then have "map strip_index (nodes d2) = map (\<lambda>y. if node_id y = p then strip_index (entered d n) else y) (map strip_index (nodes d1))"
      unfolding d2_def strip_put using st idm by simp
    also have "\<dots> = map (\<lambda>y. if node_id y = p then strip_index (entered d n) else y) (map strip_index (nodes d))"
      unfolding d1_def strip_put using id by simp
    finally show ?thesis unfolding strip_put using id by simp
  qed
  then have s2: "same_nodes (put_node (entered d n) d) d2"
    using e(3) by (simp add: same_nodes_def d2_def d1_def)
  have n2: "node_at p d2 = Some (m\<lparr> last_reachable_prune := dncp_time d \<rparr>)" using m(1) idm by (simp add: d2_def)
  obtain ps ts d' where r3: "dncp_node_for_each_tlv_with_t_v E p (ucast DNCP_T_PEER) False d2 = Some (ps, d')"
      "tlvs_at (container_bytes (m\<lparr> last_reachable_prune := dncp_time d \<rparr>)) ps = Some ts"
      "List.map_filter (peer_of_tlv E) ts = peers_of E (m\<lparr> last_reachable_prune := dncp_time d \<rparr>)" "nodes_inv E d'" "same_nodes d2 d'"
    using for_each_peer [OF i2 n2 c(2)] by blast
  have cont: "tlv_container m = tlv_container n" using strip_eq_fields(9) [OF m(2)] by simp
  then have "peers_of E (m\<lparr> last_reachable_prune := dncp_time d \<rparr>) = peers_of E n" by (simp add: peers_of_def tlvs_of_node_def)
  moreover have "container_bytes (m\<lparr> last_reachable_prune := dncp_time d \<rparr>) = container_bytes n" using cont by simp
  ultimately show ?thesis using r1 r2 r3(1-4) same_nodes_trans [OF s2 r3(5)] by metis
qed

lemma evolves_reach: "evolves d d' \<Longrightarrow> reach E d' p x = reach E d p x"
proof -
  have *: "reach E d' p x" if "reach E d p x" "linked E d' = linked E d" "alive d' = alive d" for d d'
    using that(1) by (induction rule: reach.induct) (auto simp: that(2,3) intro: reach.intros)
  assume "evolves d d'"
  then have "linked E d' = linked E d" "alive d' = alive d" by (rule evolves_graph)+
  then show ?thesis using * [of d d'] * [of d' d] by auto
qed

lemma reach_prepend: "reach E d q x \<Longrightarrow> linked E d p q \<Longrightarrow> alive d p \<Longrightarrow> reach E d p x"
proof (induction rule: reach.induct)
  case reach_start
  then show ?case by (meson reach.intros)
next
  case (reach_step q' r)
  then show ?case by (meson reach.intros)
qed

lemma searched_refl: "same_nodes d d' \<Longrightarrow> nodes_inv E d' \<Longrightarrow> searched E d d' S"
  using same_nodes_marks(1) [of d d'] same_nodes_evolves [of d d'] by (simp add: searched_def)

lemma searched_trans:
  assumes a: "searched E d d1 S" and b: "searched E d1 d2 T"
  shows "searched E d d2 (S \<union> T)"
proof -
  have e: "evolves d d1" "evolves d1 d2" using a b by (simp_all add: searched_def)
  have m: "marks d1 \<subseteq> marks d2" using evolves_graph(4) [OF e(2)] .
  have i: "nodes_inv E d2" using b by (simp add: searched_def)
  have "(\<exists>s \<in> S \<union> T. reach E d s x) \<and> (\<forall>y. linked E d x y \<longrightarrow> alive d y \<longrightarrow> y \<in> marks d2)" if x: "x \<in> marks d2 - marks d" for x
  proof (cases "x \<in> marks d1")
    case True
    then show ?thesis using a x m by (auto simp: searched_def)
  next
    case False
    then have "(\<exists>s \<in> T. reach E d1 s x) \<and> (\<forall>y. linked E d1 x y \<longrightarrow> alive d1 y \<longrightarrow> y \<in> marks d2)"
      using b x unfolding searched_def by blast
    then show ?thesis unfolding evolves_reach [OF e(1)] evolves_graph [OF e(1)] by blast
  qed
  then show ?thesis unfolding searched_def using evolves_trans [OF e] i by blast
qed

lemma searched_mono: "searched E d d' S \<Longrightarrow> S \<subseteq> T \<Longrightarrow> searched E d d' T"
  unfolding searched_def by blast

lemma targets_Cons:
  "targets E d p (a # ts) = (case peer_of_tlv E a of None \<Rightarrow> {} | Some ne \<Rightarrow> if bidir E d p ne then {ne_node_id ne} else {}) \<union> targets E d p ts"
  by (auto simp: targets_def List.map_filter_def split: option.splits)

lemma prune_peers_searches:
  assumes E: "avl_lib E" "\<And>x. \<not> alloc_fails E x"
    and rec: "\<And>d q. nodes_inv E d \<Longrightarrow> node_at q d \<noteq> None \<Longrightarrow> unmarked d < fuel \<Longrightarrow>
      \<exists>d'. prune_rec fuel E (Some q) d = Some d' \<and> searched E d d' {q} \<and> (alive d q \<longrightarrow> q \<in> marks d')"
  shows "nodes_inv E d \<Longrightarrow> node_at p d = Some n \<Longrightarrow> tlvs_at (container_bytes n) ps = Some ts \<Longrightarrow> unmarked d < fuel \<Longrightarrow>
    \<exists>d'. prune_peers fuel E p ps d = Some d' \<and> searched E d d' (targets E d p ts) \<and>
      (\<forall>q \<in> targets E d p ts. alive d q \<longrightarrow> q \<in> marks d')"
proof (induction ps arbitrary: d n ts)
  case Nil
  then show ?case using searched_refl [of d d] by (simp add: targets_def)
next
  case (Cons a ps)
  from Cons.prems(3) obtain t us where t: "tlv_at (container_bytes n) a = Some t" "tlvs_at (container_bytes n) ps = Some us" "ts = t # us"
    by (auto simp: bind_eq_Some_conv)
  then obtain c where c: "tlv_container n = Some c" "container_bytes n = c"
    using tlv_at_fields(3) [OF t(1)] by (cases "tlv_container n") auto
  have peer: "dncp_tlv_peer E c a = Some (peer_of_tlv E t)" using dncp_tlv_peer_eq t(1) c(2) by simp
  obtain d1 where d1: "(case peer_of_tlv E t of None \<Rightarrow> Some d
      | Some ne \<Rightarrow> do { (n2, d) \<leftarrow> dncp_node_find_neigh_bidir E p ne d; prune_rec fuel E n2 d }) = Some d1"
    "searched E d d1 (targets E d p [t])" "\<forall>q \<in> targets E d p [t]. alive d q \<longrightarrow> q \<in> marks d1"
  proof (cases "peer_of_tlv E t")
    case None
    then show ?thesis using that searched_refl [of d d] Cons.prems(1) by (simp add: targets_def List.map_filter_def)
  next
    case (Some ne)
    have l: "length (ne_node_id ne) = NI_LEN E" using Some by (auto simp: peer_of_tlv_def split: if_splits)
    obtain d0 where d0: "dncp_node_find_neigh_bidir E p ne d = Some (if bidir E d p ne then Some (ne_node_id ne) else None, d0)"
        "nodes_inv E d0" "same_nodes d d0"
      using find_neigh_bidir_eq [OF Cons.prems(1) E l] by blast
    have s0: "searched E d d0 {}" using searched_refl d0 by blast
    show ?thesis
    proof (cases "bidir E d p ne")
      case False
      then show ?thesis using that [of d0] d0 s0 Some by (simp add: targets_Cons targets_def List.map_filter_def)
    next
      case True
      have "node_at (ne_node_id ne) d \<noteq> None" using True by (auto simp: bidir_def split: option.splits)
      then have "node_at (ne_node_id ne) d0 \<noteq> None" using evolves_node_at [OF same_nodes_evolves [OF d0(3)], of "ne_node_id ne"]
        by (auto simp: option_rel_Some1)
      moreover have "unmarked d0 < fuel" using same_nodes_marks(2) [OF d0(3)] Cons.prems(4) by simp
      ultimately obtain d' where d': "prune_rec fuel E (Some (ne_node_id ne)) d0 = Some d'" "searched E d0 d' {ne_node_id ne}"
          "alive d0 (ne_node_id ne) \<longrightarrow> ne_node_id ne \<in> marks d'"
        using rec [OF d0(2)] by blast
      have "targets E d p [t] = {ne_node_id ne}" using True Some by (simp add: targets_Cons targets_def List.map_filter_def)
      moreover have "alive d0 = alive d" using evolves_graph(2) [OF same_nodes_evolves [OF d0(3)]] .
      ultimately show ?thesis using that [of d'] d' d0(1) True Some searched_trans [OF s0 d'(2)] by simp
    qed
  qed
  have e1: "evolves d d1" "nodes_inv E d1" using d1(2) by (simp_all add: searched_def)
  obtain n1 where n1: "node_at p d1 = Some n1" "node_step (nodes_version d) (dncp_time d) n n1"
    using evolves_Some [OF e1(1) Cons.prems(2)] .
  have "container_bytes n1 = container_bytes n" using node_step_fields(2) [OF n1(2)] by simp
  moreover have "targets E d1 p us = targets E d p us" using evolves_graph(3) [OF e1(1)] by (simp add: targets_def)
  moreover have "unmarked d1 < fuel" using evolves_unmarked [OF e1(1)] Cons.prems(4) by simp
  ultimately obtain d2 where d2: "prune_peers fuel E p ps d1 = Some d2" "searched E d1 d2 (targets E d p us)"
      "\<forall>q \<in> targets E d p us. alive d1 q \<longrightarrow> q \<in> marks d2"
    using Cons.IH [OF e1(2) n1(1)] t(2) by metis
  have m: "marks d1 \<subseteq> marks d2" using d2(2) evolves_graph(4) by (simp add: searched_def)
  have T: "targets E d p ts = targets E d p [t] \<union> targets E d p us" using t(3) targets_Cons [of E d p t us] targets_Cons [of E d p t "[]"]
    by (simp add: targets_def List.map_filter_def)
  have "prune_peers fuel E p (a # ps) d = Some d2" using Cons.prems(2) c(1) peer d1(1) d2(1) by simp
  moreover have "searched E d d2 (targets E d p ts)" unfolding T by (rule searched_trans [OF d1(2) d2(2)])
  moreover have "\<forall>q \<in> targets E d p ts. alive d q \<longrightarrow> q \<in> marks d2"
    unfolding T using d1(3) d2(3) m evolves_graph(2) [OF e1(1)] by auto
  ultimately show ?case by blast
qed

lemma alive_Some: "node_at p d = Some n \<Longrightarrow> alive d p = (dncp_time d < expiration_time n)"
  by (simp add: alive_def)

lemma prune_rec_searches:
  assumes E: "calm E" "avl_lib E" "\<And>x. \<not> alloc_fails E x"
  shows "nodes_inv E d \<Longrightarrow> node_at p d \<noteq> None \<Longrightarrow> unmarked d < fuel \<Longrightarrow>
    \<exists>d'. prune_rec fuel E (Some p) d = Some d' \<and> searched E d d' {p} \<and> (alive d p \<longrightarrow> p \<in> marks d')"
proof (induction fuel arbitrary: p d)
  case (Suc fuel)
  from Suc.prems(2) obtain n where n: "node_at p d = Some n" by auto
  consider "in_nodes_version n = nodes_version d" | "in_nodes_version n \<noteq> nodes_version d" "\<not> alive d p"
    | "in_nodes_version n \<noteq> nodes_version d" "alive d p" by blast
  then show ?case
  proof cases
    case 1
    then show ?thesis using n searched_refl [OF same_nodes_refl Suc.prems(1)] by (auto simp: marks_def)
  next
    case 2
    then show ?thesis using n searched_refl [OF same_nodes_refl Suc.prems(1)] by (simp add: alive_Some not_less)
  next
    case 3
    obtain d1 d2 ps ts d3 where r: "nodes_refresh p d = Some d1" "node_set_reachable E p True d1 = Some d2"
        "dncp_node_for_each_tlv_with_t_v E p (ucast DNCP_T_PEER) False d2 = Some (ps, d3)"
        "tlvs_at (container_bytes n) ps = Some ts" "List.map_filter (peer_of_tlv E) ts = peers_of E n"
        "nodes_inv E d3" "same_nodes (put_node (entered d n) d) d3"
      using enter_node [OF Suc.prems(1) E(1,3) n 3(1)] by blast
    note en = entered_search [OF Suc.prems(1) n 3(1)]
    have ev: "evolves d d3" using evolves_trans [OF en(1) same_nodes_evolves [OF r(7)]] .
    have mk: "marks d3 = insert p (marks d)" "unmarked d3 < fuel"
      using same_nodes_marks [OF r(7)] en(2,3) Suc.prems(3) by simp_all
    obtain n3 where n3: "node_at p d3 = Some n3" "node_step (nodes_version d) (dncp_time d) n n3" using evolves_Some [OF ev n] .
    have "container_bytes n3 = container_bytes n" using node_step_fields(2) [OF n3(2)] by simp
    then have ts: "tlvs_at (container_bytes n3) ps = Some ts" using r(4) by simp
    obtain d4 where d4: "prune_peers fuel E p ps d3 = Some d4" "searched E d3 d4 (targets E d3 p ts)"
        "\<forall>q \<in> targets E d3 p ts. alive d3 q \<longrightarrow> q \<in> marks d4"
      using prune_peers_searches [OF E(2,3) Suc.IH r(6) n3(1) ts mk(2)] by blast
    have T: "targets E d3 p ts = {q. linked E d p q}"
      using n r(5) evolves_graph(3) [OF ev] by (auto simp: targets_def linked_def)
    have m4: "marks d3 \<subseteq> marks d4" using d4(2) evolves_graph(4) by (simp add: searched_def)
    have "prune_rec (Suc fuel) E (Some p) d = Some d4"
      using n 3 r(1-3) d4(1) by (simp add: alive_Some)
    moreover have "searched E d d4 {p}" unfolding searched_def
    proof (intro conjI ballI)
      show "evolves d d4" using evolves_trans [OF ev] d4(2) by (simp add: searched_def)
      show "nodes_inv E d4" using d4(2) by (simp add: searched_def)
      fix x assume x: "x \<in> marks d4 - marks d"
      show "\<exists>s \<in> {p}. reach E d s x"
      proof (cases "x = p")
        case False
        then have "x \<in> marks d4 - marks d3" using x mk(1) by simp
        then obtain q where "linked E d p q" "reach E d3 q x" using d4(2) T unfolding searched_def by blast
        then show ?thesis using reach_prepend [OF _ _ 3(2)] evolves_reach [OF ev] by blast
      qed (use reach_start [OF 3(2)] in simp)
      show "\<forall>y. linked E d x y \<longrightarrow> alive d y \<longrightarrow> y \<in> marks d4"
      proof (cases "x = p")
        case True
        then show ?thesis using d4(3) T evolves_graph(2) [OF ev] by auto
      next
        case False
        then have "x \<in> marks d4 - marks d3" using x mk(1) by simp
        then have "\<forall>y. linked E d3 x y \<longrightarrow> alive d3 y \<longrightarrow> y \<in> marks d4" using d4(2) unfolding searched_def by blast
        then show ?thesis unfolding evolves_graph [OF ev] .
      qed
    qed
    moreover have "p \<in> marks d4" using mk(1) m4 by blast
    ultimately show ?thesis by blast
  qed
qed simp

text \<open>A search from \<open>p\<close> in a fresh generation marks exactly what is reachable from \<open>p\<close>.\<close>

lemma searched_reach:
  assumes s: "searched E d d' {p}" and p: "alive d p \<longrightarrow> p \<in> marks d'" and m: "marks d = {}"
  shows "marks d' = {x. reach E d p x}"
proof (rule set_eqI, unfold mem_Collect_eq)
  fix x
  have "x \<in> marks d'" if "reach E d p x"
    using that
  proof (induction rule: reach.induct)
    case (reach_step q r)
    then show ?case using s m unfolding searched_def by blast
  qed (use p in blast)
  then show "(x \<in> marks d') = reach E d p x" using s m unfolding searched_def by blast
qed

lemma kept_strip: "strip_index m = strip_index n \<Longrightarrow> strip_index (kept v ga S m) = strip_index (kept v ga S n)"
  by (cases m; cases n) (auto simp: kept_def strip_index_def)

lemma map_kept_strip:
  "map strip_index ms = map strip_index ns \<Longrightarrow> map (\<lambda>n. strip_index (kept v ga S n)) ms = map (\<lambda>n. strip_index (kept v ga S n)) ns"
proof (induction ms arbitrary: ns)
  case (Cons m ms)
  then obtain n ns' where n: "ns = n # ns'" "strip_index m = strip_index n" "map strip_index ms = map strip_index ns'" by (cases ns) auto
  show ?case using Cons.IH [OF n(3)] kept_strip [OF n(2)] n(1) by simp
qed simp

lemma node_at_exists:
  assumes "nodes_inv E d" "p \<in> set (map node_id (nodes d))"
  obtains n where "node_at p d = Some n" "node_id n = p" "\<And>m. m \<in> set (nodes d) \<Longrightarrow> (node_id m = p) = (m = n)"
proof -
  have "distinct (map node_id (nodes d))" using assms(1) by (simp add: nodes_inv_def index_inv_def)
  moreover obtain n where n: "n \<in> set (nodes d)" "node_id n = p" using assms(2) by auto
  ultimately show ?thesis using that [of n] node_at_eq [of d n] by (auto simp: distinct_map inj_on_def)
qed

lemma prune_sweep_keeps:
  assumes E: "calm E"
  shows "nodes_inv E d \<Longrightarrow> distinct ps \<Longrightarrow> set ps \<subseteq> set (map node_id (nodes d)) \<Longrightarrow>
    \<exists>nt d'. prune_sweep E ga gi ps next d = Some (nt, d') \<and> nodes_inv E d' \<and>
      same_nodes (d\<lparr> nodes := map (kept (nodes_version d) ga (set ps)) (nodes d) \<rparr>) d'"
proof (induction ps arbitrary: d "next")
  case Nil
  then show ?case by (simp add: kept_def)
next
  case (Cons p ps)
  let ?v = "nodes_version d"
  have "p \<in> set (map node_id (nodes d))" using Cons.prems(3) by simp
  then obtain n where n: "node_at p d = Some n" "node_id n = p" "\<And>m. m \<in> set (nodes d) \<Longrightarrow> (node_id m = p) = (m = n)"
    by (rule node_at_exists [OF Cons.prems(1)]) (rule that)
  have ps: "distinct ps" "p \<notin> set ps" "set ps \<subseteq> set (map node_id (nodes d))" using Cons.prems(2,3) by auto
  show ?case
  proof (cases "in_nodes_version n \<noteq> ?v \<and> ga \<le> last_reachable_prune n")
    case False
    have "kept ?v ga (set (p # ps)) m = kept ?v ga (set ps) m" if "m \<in> set (nodes d)" for m
      using False n(2) n(3) [OF that] by (cases "m = n") (simp_all add: kept_def)
    then have k: "map (kept ?v ga (set (p # ps))) (nodes d) = map (kept ?v ga (set ps)) (nodes d)" by simp
    obtain nx where nx: "prune_sweep E ga gi (p # ps) next d = prune_sweep E ga gi ps nx d"
      using False n(1) by (cases "in_nodes_version n = ?v") auto
    show ?thesis unfolding k nx by (rule Cons.IH [OF Cons.prems(1) ps(1,3)])
  next
    case True
    let ?n = "n\<lparr> in_nodes_version := ?v \<rparr>"
    let ?d = "put_node ?n d"
    have i1: "nodes_inv E ?d" by (rule nodes_inv_put [OF Cons.prems(1) n(1)]) simp_all
    have n1: "node_at p ?d = Some ?n" using n by simp
    obtain d2 where d2: "node_set_reachable E p False ?d = Some d2" "nodes_inv E d2" "same_nodes ?d d2"
      using set_reachable_notifies [OF E i1 n1, of False] by auto
    have st: "map strip_index (nodes d2) = map strip_index (nodes ?d)" using d2(3) by (simp add: same_nodes_def)
    have "set ps \<subseteq> set (map node_id (nodes d2))" using ps(3) map_strip_ids [OF st] ids_put [of ?n d] by simp
    moreover have v: "nodes_version d2 = ?v" using d2(3) by (simp add: same_nodes_def)
    ultimately obtain nt d3 where d3: "prune_sweep E ga gi ps (TMIN next (last_reachable_prune n + gi + 1)) d2 = Some (nt, d3)"
        "nodes_inv E d3" "same_nodes (d2\<lparr> nodes := map (kept ?v ga (set ps)) (nodes d2) \<rparr>) d3"
      using Cons.IH [OF d2(2) ps(1)] by metis
    have "map (\<lambda>x. strip_index (kept ?v ga (set ps) x)) (nodes ?d) = map (\<lambda>x. strip_index (kept ?v ga (set (p # ps)) x)) (nodes d)"
    proof -
      have "strip_index (kept ?v ga (set ps) (if node_id m = p then ?n else m)) = strip_index (kept ?v ga (set (p # ps)) m)"
        if "m \<in> set (nodes d)" for m
        using True n(2) n(3) [OF that] ps(2) by (cases "m = n") (simp_all add: kept_def)
      then show ?thesis using n(2) by (simp add: put_node_def)
    qed
    then have "map strip_index (nodes d3) = map strip_index (map (kept ?v ga (set (p # ps))) (nodes d))"
      using d3(3) map_kept_strip [OF st, of ?v ga "set ps"] by (simp add: same_nodes_def comp_def)
    then have "same_nodes (d\<lparr> nodes := map (kept ?v ga (set (p # ps))) (nodes d) \<rparr>) d3"
      using d2(3) d3(3) by (simp add: same_nodes_def)
    moreover have "prune_sweep E ga gi (p # ps) next d = Some (nt, d3)"
      using True n(1) d2(1) d3(1) by (simp add: nodes_refresh_def node_modify_def)
    ultimately show ?thesis using d3(2) by blast
  qed
qed

text \<open>Deleting a node leaves the others as they are.\<close>

lemma schedule_nodes [simp]:
  "nodes_inv E (dncp_schedule d) = nodes_inv E d" "same_nodes d (dncp_schedule d') = same_nodes d d'"
  "same_nodes d (d'\<lparr> graph_dirty := b \<rparr>) = same_nodes d d'"
  by (simp_all add: dncp_schedule_def nodes_inv_def index_inv_def same_nodes_def)

lemma put_node_absent: "node_id n \<notin> set (map node_id (nodes d)) \<Longrightarrow> put_node n d = d"
proof -
  assume "node_id n \<notin> set (map node_id (nodes d))"
  then have "map (\<lambda>m. if node_id m = node_id n then n else m) (nodes d) = nodes d" by (intro map_idI) (metis image_eqI list.set_map)
  then show ?thesis by (cases d) (simp add: put_node_def)
qed

lemma nodes_inv_filter:
  assumes "nodes_inv E d"
  shows "nodes_inv E (d\<lparr> nodes := filter P (nodes d) \<rparr>)"
  using assms sorted_wrt_filter [of "\<lambda>a b. dncp_node_cmp E (node_id a) (node_id b) < 0" "nodes d" P]
  by (auto simp: nodes_inv_def index_inv_def sorted_wrt_map distinct_map inj_on_def)

lemma nodes_delete_calm:
  assumes E: "calm E" and i: "nodes_inv E d" and p: "node_at p d = Some n"
  shows "\<exists>d'. nodes_delete E p d = Some d' \<and> nodes_inv E d' \<and> same_nodes (d\<lparr> nodes := filter (\<lambda>m. node_id m \<noteq> p) (nodes d) \<rparr>) d'"
proof -
  let ?d = "d\<lparr> nodes := filter (\<lambda>m. node_id m \<noteq> p) (nodes d) \<rparr>"
  have m: "n \<in> set (nodes d)" "node_id n = p" using node_at_Some [OF p] by auto
  have i1: "nodes_inv E ?d" by (rule nodes_inv_filter [OF i])
  have abs: "put_node m d' = d'" if "node_id m = p" "same_nodes ?d d'" for m d'
    using that map_strip_ids [of "nodes d'" "nodes ?d"] by (intro put_node_absent) (auto simp: same_nodes_def)
  obtain ts where ts: "holds_opt (tlv_container_valid n) ts"
    by (rule holds_valid [of E n]) (use i m in \<open>auto simp: nodes_inv_def\<close>)
  obtain d1 where d1: "(if last_reachable_prune n = last_prune ?d
      then dncp_notify_subscribers_tlvs_changed E p (tlv_container_valid n) None ?d else Some ?d) = Some d1" "nodes_inv E d1" "same_nodes ?d d1"
    using tlvs_changed_calm [OF E i1 ts holds_None, of p] i1 by (cases "last_reachable_prune n = last_prune ?d") auto
  have r: "node_id (reload m d1) = p" if "node_id m = p" for m
    using that node_at_Some [of p d1] by (cases "node_at p d1") (auto simp: reload_def)
  have "\<exists>d'. dncp_node_set E n 0 0 None ?d = Some d' \<and> nodes_inv E d' \<and> same_nodes ?d d'"
  proof (cases "tlv_container n")
    case None
    then show ?thesis using i1 m(2) abs [of "n\<lparr> update_number := 0 \<rparr>" ?d]
      by (auto simp: dncp_node_set_def tlv_attr_equal_def aptr_def Let_def)
  next
    case (Some c)
    then show ?thesis using d1 i1 m(2) abs [of _ ?d] abs [of _ d1] r
      by (auto simp: dncp_node_set_def tlv_attr_equal_def aptr_def Let_def)
  qed
  then show ?thesis using p by (auto simp: nodes_delete_def update_node_def)
qed

lemma filter_strip:
  assumes "\<And>m n. strip_index m = strip_index n \<Longrightarrow> P m = P n"
  shows "map strip_index ms = map strip_index ns \<Longrightarrow> map strip_index (filter P ms) = map strip_index (filter P ns)"
proof (induction ms arbitrary: ns)
  case (Cons m ms)
  then obtain n ns' where n: "ns = n # ns'" "strip_index m = strip_index n" "map strip_index ms = map strip_index ns'" by (cases ns) auto
  show ?case using Cons.IH [OF n(3)] assms [OF n(2)] n(1,2) by simp
qed simp

lemma nodes_delete_all_calm:
  assumes E: "calm E"
  shows "nodes_inv E d \<Longrightarrow> distinct ps \<Longrightarrow> set ps \<subseteq> set (map node_id (nodes d)) \<Longrightarrow>
    \<exists>d'. nodes_delete_all E ps d = Some d' \<and> nodes_inv E d' \<and> same_nodes (d\<lparr> nodes := filter (\<lambda>m. node_id m \<notin> set ps) (nodes d) \<rparr>) d'"
proof (induction ps arbitrary: d)
  case (Cons p ps)
  have "p \<in> set (map node_id (nodes d))" using Cons.prems(3) by simp
  then obtain n where "node_at p d = Some n" by (rule node_at_exists [OF Cons.prems(1)]) (rule that)
  then obtain d1 where d1: "nodes_delete E p d = Some d1" "nodes_inv E d1"
      "same_nodes (d\<lparr> nodes := filter (\<lambda>m. node_id m \<noteq> p) (nodes d) \<rparr>) d1"
    using nodes_delete_calm [OF E Cons.prems(1)] by blast
  have st: "map strip_index (nodes d1) = map strip_index (filter (\<lambda>m. node_id m \<noteq> p) (nodes d))" using d1(3) by (simp add: same_nodes_def)
  have "set ps \<subseteq> set (map node_id (nodes d1))" unfolding map_strip_ids [OF st]
  proof
    fix x assume x: "x \<in> set ps"
    then obtain m where "m \<in> set (nodes d)" "node_id m = x" using Cons.prems(3) by auto
    moreover have "x \<noteq> p" using x Cons.prems(2) by auto
    ultimately show "x \<in> set (map node_id (filter (\<lambda>m. node_id m \<noteq> p) (nodes d)))" by auto
  qed
  then obtain d2 where d2: "nodes_delete_all E ps d1 = Some d2" "nodes_inv E d2"
      "same_nodes (d1\<lparr> nodes := filter (\<lambda>m. node_id m \<notin> set ps) (nodes d1) \<rparr>) d2"
    using Cons.IH [OF d1(2)] Cons.prems(2) by auto
  have "map strip_index (filter (\<lambda>m. node_id m \<notin> set ps) (nodes d1)) = map strip_index (filter (\<lambda>m. node_id m \<notin> set ps) (filter (\<lambda>m. node_id m \<noteq> p) (nodes d)))"
    by (rule filter_strip [OF _ st]) (drule strip_eq_fields(1), simp)
  moreover have "filter (\<lambda>m. node_id m \<notin> set ps) (filter (\<lambda>m. node_id m \<noteq> p) (nodes d)) = filter (\<lambda>m. node_id m \<notin> set (p # ps)) (nodes d)"
    by (simp add: conj_commute)
  ultimately have "same_nodes (d\<lparr> nodes := filter (\<lambda>m. node_id m \<notin> set (p # ps)) (nodes d) \<rparr>) d2"
    using d1(3) d2(3) by (simp add: same_nodes_def)
  then show ?case using d1(1) d2(1,2) by auto
qed simp

lemma nodes_flush_calm:
  assumes E: "calm E" "vlist_lib E" and i: "nodes_inv E d" and v: "\<forall>n \<in> set (nodes d). 0 \<le> in_nodes_version n"
  shows "\<exists>d'. nodes_flush E d = Some d' \<and> nodes_inv E d' \<and>
    same_nodes (d\<lparr> nodes := filter (\<lambda>n. in_nodes_version n = nodes_version d) (nodes d) \<rparr>) d'"
proof -
  let ?ps = "map node_id (filter (\<lambda>n. vlist_stale E (nodes_version d) (in_nodes_version n)) (nodes d))"
  have dis: "distinct (map node_id (nodes d))" using i by (simp add: nodes_inv_def index_inv_def)
  have "node_id n \<notin> set ?ps \<longleftrightarrow> in_nodes_version n = nodes_version d" if n: "n \<in> set (nodes d)" for n
    using E(2) v n dis by (auto simp: vlist_lib_def distinct_map inj_on_def)
  then have "filter (\<lambda>n. node_id n \<notin> set ?ps) (nodes d) = filter (\<lambda>n. in_nodes_version n = nodes_version d) (nodes d)"
    by (rule filter_cong [OF refl])
  moreover have "distinct ?ps" using dis by (simp add: distinct_map_filter)
  ultimately show ?thesis using nodes_delete_all_calm [OF E(1) i, of ?ps] by (auto simp: nodes_flush_def)
qed

lemma reach_cong: "linked E d' = linked E d \<Longrightarrow> alive d' = alive d \<Longrightarrow> reach E d' = reach E d"
proof (intro ext iffI)
  fix p x assume g: "linked E d' = linked E d" "alive d' = alive d"
  show "reach E d p x" if "reach E d' p x" using that by (induction rule: reach.induct) (auto simp: g intro: reach.intros)
  show "reach E d' p x" if "reach E d p x" using that by (induction rule: reach.induct) (auto simp: g [symmetric] intro: reach.intros)
qed

lemma reach_version: "reach E (d\<lparr> nodes_version := v \<rparr>) = reach E d"
proof -
  have n: "node_at p (d\<lparr> nodes_version := v \<rparr>) = node_at p d" for p by (simp add: node_at_def)
  have "bidir E (d\<lparr> nodes_version := v \<rparr>) = bidir E d" by (intro ext) (simp add: bidir_def n)
  then have "linked E (d\<lparr> nodes_version := v \<rparr>) = linked E d" by (intro ext) (simp add: linked_def n split: option.split)
  moreover have "alive (d\<lparr> nodes_version := v \<rparr>) = alive d" by (intro ext) (simp add: alive_def n dncp_time_def split: option.split)
  ultimately show ?thesis by (rule reach_cong)
qed

lemma list_all2_map_filter:
  assumes "list_all2 R xs ys" "\<And>x y. R x y \<Longrightarrow> P x = Q y" "\<And>x y. R x y \<Longrightarrow> P x \<Longrightarrow> f x = g y"
  shows "map f (filter P xs) = map g (filter Q ys)"
  using assms(1) by (induction rule: list_all2_induct) (auto dest: assms(2,3))

lemma prune_step_strip: "strip_index m' = strip_index m \<Longrightarrow> prune_step v nw ga r n m' = prune_step v nw ga r n m"
  using strip_eq_fields [of m' m] by (simp add: prune_step_def)

lemma prune_step_kept:
  assumes s: "node_step v nw n m" and n: "0 \<le> in_nodes_version n" "in_nodes_version n < v" "last_reachable_prune n < nw"
    and S: "node_id n \<in> S"
  shows "prune_step v nw ga (in_nodes_version m = v) n (kept v ga S m)"
proof -
  consider "strip_index m = strip_index n" | "strip_index m = strip_index (n\<lparr> in_nodes_version := v, last_reachable_prune := nw \<rparr>)"
    using s by (auto simp: node_step_def)
  then show ?thesis
  proof cases
    case 1
    show ?thesis using strip_eq_fields [OF 1] n S by (simp add: prune_step_def kept_def)
  next
    case 2
    show ?thesis using strip_eq_fields [OF 2] n S by (simp add: prune_step_def kept_def)
  qed
qed

lemma list_all2_strip:
  assumes "list_all2 R xs ys" "map strip_index zs = map strip_index ys" "\<And>x m m'. strip_index m' = strip_index m \<Longrightarrow> R x m' = R x m"
  shows "list_all2 R xs zs"
  unfolding list_all2_conv_all_nth
proof (intro conjI allI impI)
  have l: "length zs = length ys" using assms(2) by (rule map_eq_imp_length_eq)
  show "length xs = length zs" using assms(1) l by (simp add: list_all2_lengthD)
  fix k assume k: "k < length xs"
  then have ky: "k < length ys" using assms(1) by (simp add: list_all2_lengthD)
  have "strip_index (zs ! k) = strip_index (ys ! k)" using assms(2) ky l nth_map [of k zs strip_index] nth_map [of k ys strip_index] by simp
  then show "R (xs ! k) (zs ! k)" using assms(3) list_all2_nthD [OF assms(1) k] by blast
qed

lemma unmarked_le: "unmarked d \<le> length (nodes d)"
  by (simp add: unmarked_def)

lemma prune_result:
  assumes E: "calm E" "avl_lib E" "vlist_lib E" "\<And>x. \<not> alloc_fails E x" and i: "prune_inv E d" and own: "own_node d = Some own"
    and t: "last_prune d < dncp_time d"
  shows "\<exists>d' ns. dncp_prune E d = Some d' \<and> nodes_inv E d' \<and> last_prune d' = dncp_time d \<and> own_node d' = Some own \<and>
    list_all2 (\<lambda>n m. prune_step (vlist_next E (nodes_version d)) (dncp_time d) (dncp_time d - to_int (grace_interval (ext_conf E)))
      (reach E d own (node_id n)) n m) (nodes d) ns \<and>
    nodes_version d' = vlist_next E (nodes_version d) \<and>
    map strip_index (nodes d') = map strip_index (filter (\<lambda>n. in_nodes_version n = vlist_next E (nodes_version d)) ns)"
proof -
  define V nw ga d0 where defs: "V = vlist_next E (nodes_version d)" "nw = dncp_time d"
    "ga = nw - to_int (grace_interval (ext_conf E))" "d0 = d\<lparr> nodes_version := V \<rparr>"
  have V: "nodes_version d < V" using E(3) by (simp add: vlist_lib_def defs)
  have i0: "nodes_inv E d0" using i by (simp add: prune_inv_def defs(4))
  have nd: "\<forall>n \<in> set (nodes d). 0 \<le> in_nodes_version n \<and> in_nodes_version n < V \<and> last_reachable_prune n < nw"
    using i V t by (fastforce simp: prune_inv_def defs(2))
  have t0: "dncp_time d0 = nw" "nodes_version d0 = V" "nodes d0 = nodes d" by (simp_all add: defs dncp_time_def)
  have "in_nodes_version n \<noteq> V" if "node_at p d0 = Some n" for p n using nd t0(3) node_at_Some [OF that] by auto
  then have m0: "marks d0 = {}" using t0(2) by (auto simp: marks_def)
  have "node_at own d0 \<noteq> None" using i own by (auto simp: prune_inv_def node_at_def t0)
  then obtain d1 where d1: "prune_rec (Suc (length (nodes d0))) E (Some own) d0 = Some d1" "searched E d0 d1 {own}"
      "alive d0 own \<longrightarrow> own \<in> marks d1"
    using prune_rec_searches [OF E(1,2,4) i0, of own "Suc (length (nodes d0))"] unmarked_le [of d0] by auto
  have ev: "evolves d0 d1" "nodes_inv E d1" using d1(2) by (simp_all add: searched_def)
  have mk: "marks d1 = {x. reach E d own x}" using searched_reach [OF d1(2,3) m0] by (simp add: defs(4) reach_version)
  have v1: "nodes_version d1 = V" "own_node d1 = Some own" "dncp_time d1 = nw" "last_prune d1 = last_prune d"
    using ev(1) evolves_time [OF ev(1)] t0 own by (simp_all add: evolves_def defs(4))
  let ?ids = "map node_id (nodes d1)"
  have dis: "distinct ?ids" using ev(2) by (simp add: nodes_inv_def index_inv_def)
  obtain nt d2 where d2: "prune_sweep E ga (to_int (grace_interval (ext_conf E))) ?ids 0 d1 = Some (nt, d2)" "nodes_inv E d2"
      "same_nodes (d1\<lparr> nodes := map (kept V ga (set ?ids)) (nodes d1) \<rparr>) d2"
    using prune_sweep_keeps [OF E(1) ev(2) dis subset_refl] v1(1) by metis
  have st: "list_all2 (node_step V nw) (nodes d) (nodes d1)" using ev(1) t0 by (simp add: evolves_def)
  have ps: "list_all2 (\<lambda>n m. prune_step V nw ga (reach E d own (node_id n)) n m) (nodes d) (map (kept V ga (set ?ids)) (nodes d1))"
    unfolding list_all2_conv_all_nth
  proof (intro conjI allI impI)
    show "length (nodes d) = length (map (kept V ga (set ?ids)) (nodes d1))" using st by (simp add: list_all2_lengthD)
    fix k assume k: "k < length (nodes d)"
    then have k1: "k < length (nodes d1)" using st by (simp add: list_all2_lengthD)
    have s: "node_step V nw (nodes d ! k) (nodes d1 ! k)" by (rule list_all2_nthD [OF st k])
    have id: "node_id (nodes d1 ! k) = node_id (nodes d ! k)" by (rule node_step_fields(1) [OF s])
    have at: "node_at (node_id (nodes d ! k)) d1 = Some (nodes d1 ! k)" using node_at_eq [OF dis nth_mem [OF k1]] id by simp
    have "reach E d own (node_id (nodes d ! k)) = (node_id (nodes d ! k) \<in> marks d1)" unfolding mk by simp
    also have "\<dots> = (in_nodes_version (nodes d1 ! k) = V)" using at v1(1) by (simp add: marks_def)
    finally have r: "reach E d own (node_id (nodes d ! k)) = (in_nodes_version (nodes d1 ! k) = V)" .
    have "node_id (nodes d ! k) \<in> set ?ids" using id nth_mem [OF k1] by (metis image_eqI list.set_map)
    then show "prune_step V nw ga (reach E d own (node_id (nodes d ! k))) (nodes d ! k) (map (kept V ga (set ?ids)) (nodes d1) ! k)"
      unfolding r nth_map [OF k1] using nd nth_mem [OF k] by (intro prune_step_kept [OF s]) auto
  qed
  have st2: "map strip_index (nodes d2) = map strip_index (map (kept V ga (set ?ids)) (nodes d1))" using d2(3) by (simp add: same_nodes_def)
  have ps2: "list_all2 (\<lambda>n m. prune_step V nw ga (reach E d own (node_id n)) n m) (nodes d) (nodes d2)"
    by (rule list_all2_strip [OF ps st2]) (rule prune_step_strip)
  let ?d2 = "d2\<lparr> next_prune := nt \<rparr>"
  have "\<forall>n \<in> set (nodes ?d2). 0 \<le> in_nodes_version n"
    using ps2 by (auto simp: list_all2_conv_all_nth prune_step_def in_set_conv_nth)
  moreover have "nodes_inv E ?d2" using d2(2) by simp
  ultimately obtain d3 where d3: "nodes_flush E ?d2 = Some d3" "nodes_inv E d3"
      "same_nodes (?d2\<lparr> nodes := filter (\<lambda>n. in_nodes_version n = nodes_version ?d2) (nodes ?d2) \<rparr>) d3"
    using nodes_flush_calm [OF E(1,3), of ?d2] by blast
  have v2: "nodes_version d2 = V" "own_node d2 = Some own" using d2(3) v1 by (simp_all add: same_nodes_def)
  have "dncp_prune E d = Some (d3\<lparr> last_prune := nw \<rparr>)"
    using t own d1(1) d2(1) d3(1) by (simp add: dncp_prune_def Let_def defs)
  moreover have "nodes_inv E (d3\<lparr> last_prune := nw \<rparr>)" using d3(2) by simp
  ultimately show ?thesis using ps2 d3(3) v2 by (intro exI [of _ "d3\<lparr> last_prune := nw \<rparr>"] exI [of _ "nodes d2"]) (simp add: same_nodes_def defs(1-3))
qed

text \<open>C9: pruning refines the abstract specification of reachability.  On every well-formed instance \<open>dncp_prune\<close>
  returns, the nodes it keeps are exactly those with a path of bidirectional links over unexpired nodes from the
  own node and those that were reachable within the grace interval, with their data unchanged, and exactly the
  former count as reachable afterwards.\<close>

theorem dncp_prune_exact:
  assumes "calm E" "avl_lib E" "vlist_lib E" "\<And>x. \<not> alloc_fails E x" "prune_inv E d" "last_prune d < dncp_time d"
  shows "\<exists>d'. dncp_prune E d = Some d' \<and> network_view d' = pruned_view E d"
proof -
  obtain own where own: "own_node d = Some own" using assms(5) by (auto simp: prune_inv_def)
  let ?V = "vlist_next E (nodes_version d)" and ?ga = "dncp_time d - to_int (grace_interval (ext_conf E))"
  obtain d' ns where r: "dncp_prune E d = Some d'" "last_prune d' = dncp_time d"
      "list_all2 (\<lambda>n m. prune_step ?V (dncp_time d) ?ga (reach E d own (node_id n)) n m) (nodes d) ns"
      "map strip_index (nodes d') = map strip_index (filter (\<lambda>n. in_nodes_version n = ?V) ns)"
    using prune_result [OF assms(1-5) own assms(6)] by blast
  let ?f = "\<lambda>n. (node_id n, tlv_container n, last_reachable_prune n = dncp_time d)"
  have "network_view d' = map ?f (map strip_index (nodes d'))" using r(2) by (simp add: network_view_def strip_index_def)
  also have "\<dots> = map ?f (filter (\<lambda>n. in_nodes_version n = ?V) ns)" unfolding r(4) by (simp add: strip_index_def)
  also have "\<dots> = pruned_view E d"
    unfolding pruned_view_def Let_def own
    by (rule list_all2_map_filter [OF r(3), symmetric]) (auto simp: prune_step_def)
  finally show ?thesis using r(1) by blast
qed

lemma plain_env_calm: "calm plain_env"
  by (simp add: calm_def plain_env_def nodes_inv_def)

lemma reach_alive: "reach E d p x \<Longrightarrow> alive d x"
  by (induction rule: reach.induct) auto

lemma peer_container_holds: "length p = 4 \<Longrightarrow> container_holds (peer_container p) [(8, p @ [1, 0, 0, 0, 1, 0, 0, 0])]"
proof -
  assume l: "length p = 4"
  have "word_be 4 (tlv_hdr 0 16) = [0, 0, 0, 16 :: u8]" "word_be 4 (tlv_hdr 8 12) = [0, 8, 0, 12 :: u8]" by code_simp+
  then show ?thesis using l
    by (auto simp: container_holds_def tlv_ok_def length_tlv_enc pad4_def peer_container_def tlv_enc_def tlv_raw_def)
qed

lemma trio_peers:
  "peers_of plain_env (nodes trio ! 0) = [\<lparr> ne_node_id = [5, 6, 7, 8], peer_ep_id = 1, ne_ep_id = 1 \<rparr>]"
  "peers_of plain_env (nodes trio ! 1) = [\<lparr> ne_node_id = [1, 2, 3, 4], peer_ep_id = 1, ne_ep_id = 1 \<rparr>]"
  by code_simp+

lemma trio_wf: "\<forall>n \<in> set (nodes trio). node_wf plain_env n"
proof -
  have ts: "tlvs_of_node (nodes trio ! 0) = [(8, [5, 6, 7, 8] @ [1, 0, 0, 0, 1, 0, 0, 0])]"
    "tlvs_of_node (nodes trio ! 1) = [(8, [1, 2, 3, 4] @ [1, 0, 0, 0, 1, 0, 0, 0])]" "tlvs_of_node (nodes trio ! 2) = []" by code_simp+
  have "node_wf plain_env (nodes trio ! k)" if "k = 0 \<or> k = 1 \<or> k = 2" for k
    using that ts peer_container_holds [of "[5, 6, 7, 8]"] peer_container_holds [of "[1, 2, 3, 4]"]
    by (auto simp: node_wf_def node_tlvs_def holds_opt_def trio_def fresh_node_def plain_env_def)
  then have "node_wf plain_env (nodes trio ! 0)" "node_wf plain_env (nodes trio ! 1)" "node_wf plain_env (nodes trio ! 2)" by blast+
  then show ?thesis by (simp add: trio_def)
qed

lemma trio_inv: "prune_inv plain_env trio"
proof -
  have "index_inv trio" by (auto simp: index_inv_def types_ok_def index_ok_def trio_def fresh_node_def zero_dncp_def)
  moreover have "sorted_wrt (\<lambda>a b. dncp_node_cmp plain_env a b < 0) (map node_id (nodes trio))" by code_simp
  ultimately have "nodes_inv plain_env trio" using trio_wf by (simp add: nodes_inv_def)
  then show ?thesis by (auto simp: prune_inv_def trio_def fresh_node_def zero_dncp_def node_at_def)
qed

theorem dncp_prune_exact_witness:
  "\<exists>d'. dncp_prune plain_env trio = Some d' \<and>
     network_view d' = [([1, 2, 3, 4], Some (peer_container [5, 6, 7, 8]), True), ([5, 6, 7, 8], Some (peer_container [1, 2, 3, 4]), True)]"
proof -
  have t: "dncp_time trio = 100000" "last_prune trio = 1" "own_node trio = Some [1, 2, 3, 4]" by (simp_all add: trio_def dncp_time_def zero_dncp_def)
  have al: "alive trio [1, 2, 3, 4]" "alive trio [5, 6, 7, 8]" "\<not> alive trio [9, 9, 9, 9]"
    by code_simp+
  have at: "node_at [1, 2, 3, 4] trio = Some (nodes trio ! 0)" "node_at [5, 6, 7, 8] trio = Some (nodes trio ! 1)"
    by (simp_all add: node_at_def trio_def fresh_node_def)
  have "linked plain_env trio [1, 2, 3, 4] [5, 6, 7, 8]" using at trio_peers by (simp add: linked_def bidir_def crossed_def)
  then have r: "reach plain_env trio [1, 2, 3, 4] [1, 2, 3, 4]" "reach plain_env trio [1, 2, 3, 4] [5, 6, 7, 8]"
    "\<not> reach plain_env trio [1, 2, 3, 4] [9, 9, 9, 9]"
    using al reach_alive reach.intros by blast+
  have "pruned_view plain_env trio = [([1, 2, 3, 4], Some (peer_container [5, 6, 7, 8]), True), ([5, 6, 7, 8], Some (peer_container [1, 2, 3, 4]), True)]"
    using r t by (simp add: pruned_view_def) (simp add: trio_def fresh_node_def plain_env_def to_int_def)
  moreover have "\<not> alloc_fails plain_env x" for x by (simp add: plain_env_def)
  ultimately show ?thesis using dncp_prune_exact [OF plain_env_calm plain_env_lib _ trio_inv] t by simp
qed

end
