(* ===== verification/DncpSafety.thy ===== *)
theory DncpSafety
  imports DncpProto DncpPrune
begin

unbundle bit_operations_syntax

text \<open>
  What a received message can change: steps that leave the published data of every node, the local TLVs
  and the configuration of the endpoints alone, and the conditions under which node data is taken over.
\<close>

section \<open>Published data\<close>

definition node_data :: "dncp_node \<Rightarrow> bytes \<times> u32 \<times> bytes option \<times> bytes option" where
  "node_data n = (node_id n, update_number n, tlv_container n, tlv_container_valid n)"

definition quiet :: "dncp \<Rightarrow> dncp \<Rightarrow> bool" where
  "quiet d d' \<longleftrightarrow> map node_data (nodes d') = map node_data (nodes d) \<and> own_node d' = own_node d \<and>
     map t_tlv (tlvs d') = map t_tlv (tlvs d) \<and> (\<forall>p. map_option conf (ep_at p d') = map_option conf (ep_at p d))"

text \<open>The fields of a node state TLV.\<close>

definition state_tlv :: "env \<Rightarrow> bytes \<Rightarrow> nat \<Rightarrow> (bytes \<times> u32 \<times> u32 \<times> bytes \<times> bytes) option" where
  "state_tlv E msg a =
     do { len \<leftarrow> tlv_len msg a;
          let ns_len = 8 + NI_LEN E + HASH_LEN E;
          if unat len < ns_len then None
          else do {
            ni \<leftarrow> payload_at msg (tlv_data a) (NI_LEN E);
            un \<leftarrow> ld_be32 msg (tlv_data a + NI_LEN E);
            ms \<leftarrow> ld_be32 msg (tlv_data a + NI_LEN E + 4);
            h \<leftarrow> payload_at msg (tlv_data a + NI_LEN E + 8) (HASH_LEN E);
            nd \<leftarrow> payload_at msg (tlv_data a + ns_len) (unat len - ns_len);
            Some (ni, un, ms, h, nd) } }"

text \<open>An instance with an endpoint, the state of a handler at its start, and a message with a node state TLV.\<close>

definition listening :: "bool \<Rightarrow> dncp" where
  "listening mc = trio\<lparr> eps := [(fresh_ep plain_env [7] 1)\<lparr> conf := plain_ep\<lparr> ifname := [7], accept_node_data_updates_via_multicast := mc \<rparr> \<rparr>] \<rparr>"

definition start_msg :: msg_state where
  "start_msg = \<lparr> seen_lid = False, ms_ne = None, should_request_network_state = False, updated_or_requested_state = False,
     is_local = False, ms_reply = \<lparr> rep_buf = None, rep_l = [7], has_src = False, rep_src = [], rep_dst = [] \<rparr> \<rparr>"

definition state_msg :: "bytes \<Rightarrow> bytes" where
  "state_msg p = [0, 0, 0, 32, 0, 5, 0, 28] @ p @ [0, 0, 0, 1, 0, 0, 0, 0] @ [0, 8, 0, 1, 1, 0, 0, 0] @ [0, 8, 0, 1, 1, 0, 0, 0]"

section \<open>Lemmas: steps that change no data\<close>

lemma quiet_refl [simp]: "quiet d d"
  by (simp add: quiet_def)

lemma quiet_trans [trans]: "quiet d d' \<Longrightarrow> quiet d' d'' \<Longrightarrow> quiet d d''"
  by (simp add: quiet_def)

lemma quiet_fields [simp]:
  "quiet d (d'\<lparr> outp := x1 \<rparr>) = quiet d d'" "quiet d (d'\<lparr> rand_used := x2 \<rparr>) = quiet d d'"
  "quiet d (d'\<lparr> network_hash := x3 \<rparr>) = quiet d d'" "quiet d (d'\<lparr> network_hash_dirty := x4 \<rparr>) = quiet d d'"
  "quiet d (d'\<lparr> immediate_scheduled := x5 \<rparr>) = quiet d d'"
  by (simp_all add: quiet_def ep_at_def)

lemma quiet_schedule [simp]: "quiet d (dncp_schedule d') = quiet d d'"
  by (simp add: dncp_schedule_def)

lemma quiet_draw: "draw E d = (x, d') \<Longrightarrow> quiet d d'"
  by (auto simp: draw_def)

lemma find_put_other:
  "ifname (conf l') \<noteq> q \<Longrightarrow> find (\<lambda>l. ifname (conf l) = q) (map (\<lambda>m. if ifname (conf m) = ifname (conf l') then l' else m) ls) =
   find (\<lambda>l. ifname (conf l) = q) ls"
  by (induction ls) auto

lemma find_put_ep:
  "find (\<lambda>l. ifname (conf l) = p) ls = Some l \<Longrightarrow> conf l' = conf l \<Longrightarrow>
   map_option conf (find (\<lambda>l. ifname (conf l) = q) (map (\<lambda>m. if ifname (conf m) = ifname (conf l') then l' else m) ls)) =
   map_option conf (find (\<lambda>l. ifname (conf l) = q) ls)"
proof (induction ls)
  case (Cons m ls)
  show ?case
  proof (cases "ifname (conf m) = p")
    case True
    then have m: "m = l" using Cons.prems(1) by simp
    then show ?thesis using True Cons.prems(2) find_put_other [of l' q ls] by (cases "q = p") simp_all
  next
    case False
    have "find (\<lambda>l. ifname (conf l) = p) ls = Some l" using Cons.prems(1) False by simp
    then have "ifname (conf l) = p" by (auto simp: find_Some_iff)
    then show ?thesis using Cons False by auto
  qed
qed simp

lemma quiet_put_ep: "ep_at p d = Some l \<Longrightarrow> conf l' = conf l \<Longrightarrow> quiet d (put_ep l' d)"
  using find_put_ep [of p "eps d" l l'] by (simp add: quiet_def ep_at_def put_ep_def)

lemma quiet_put_tlv_rec: "quiet d (put_tlv_rec t d)"
  by (auto simp: quiet_def put_tlv_rec_def ep_at_def comp_def)

lemma quiet_put_node:
  assumes "node_at p d = Some n" "node_data n' = node_data n" "distinct (map node_id (nodes d))"
  shows "quiet d (put_node n' d)"
proof -
  have "node_data (if node_id m = node_id n' then n' else m) = node_data m" if m: "m \<in> set (nodes d)" for m
    using assms m node_at_Some [OF assms(1)] by (auto simp: node_data_def distinct_map inj_on_def)
  then show ?thesis by (simp add: quiet_def put_node_def ep_at_def)
qed

lemma quiet_distinct: "quiet d d' \<Longrightarrow> distinct (map node_id (nodes d)) \<Longrightarrow> distinct (map node_id (nodes d'))"
proof -
  have *: "map node_id (nodes x) = map fst (map node_data (nodes x))" for x by (simp add: node_data_def comp_def)
  assume "quiet d d'" "distinct (map node_id (nodes d))"
  then show ?thesis unfolding * by (simp add: quiet_def)
qed

lemma trickle_set_i_quiet: "trickle_set_i E t c i d = Some (t', d') \<Longrightarrow> quiet d d'"
  by (auto simp: trickle_set_i_def Let_def draw_def split: if_splits)

lemma trickle_reset_eps_quiet: "trickle_reset_eps E ps d = Some d' \<Longrightarrow> quiet d d'"
proof (induction ps arbitrary: d)
  case (Cons p ps)
  then obtain l t d1 where r: "ep_at p d = Some l" "trickle_set_i E (trickle l) (conf l) (to_int (trickle_imin (conf l))) d = Some (t, d1)"
      "trickle_reset_eps E ps (put_ep (l\<lparr> trickle := t \<rparr>) d1) = Some d'"
    by (auto simp: bind_eq_Some_conv)
  have q1: "quiet d d1" by (rule trickle_set_i_quiet [OF r(2)])
  then obtain l1 where "ep_at p d1 = Some l1" "conf l1 = conf l" using r(1) unfolding quiet_def by (metis map_option_eq_Some option.map(2))
  then have "quiet d1 (put_ep (l\<lparr> trickle := t \<rparr>) d1)" using quiet_put_ep [of p d1 l1 "l\<lparr> trickle := t \<rparr>"] by simp
  then show ?case using q1 Cons.IH [OF r(3)] quiet_trans by blast
qed simp

lemma trickle_reset_peers_quiet: "trickle_reset_peers E as d = Some d' \<Longrightarrow> quiet d d'"
proof (induction as arbitrary: d)
  case (Cons a as)
  show ?case using Cons.prems
    by (auto simp: bind_eq_Some_conv split: option.splits
        intro: Cons.IH quiet_trans [OF quiet_trans [OF trickle_set_i_quiet quiet_put_tlv_rec] Cons.IH])
qed simp

lemma dncp_trickle_reset_quiet: "dncp_trickle_reset E d = Some d' \<Longrightarrow> quiet d d'"
  by (auto simp: dncp_trickle_reset_def bind_eq_Some_conv intro: quiet_trans [OF trickle_reset_eps_quiet trickle_reset_peers_quiet])

lemma node_hash_quiet:
  "dncp_calculate_node_data_hash E p d = Some d' \<Longrightarrow> distinct (map node_id (nodes d)) \<Longrightarrow> quiet d d'"
  by (auto simp: dncp_calculate_node_data_hash_def bind_eq_Some_conv node_data_def intro: quiet_put_node split: if_splits)

lemma network_hash_loop_quiet:
  "network_hash_loop E ps d = Some (buf, d') \<Longrightarrow> distinct (map node_id (nodes d)) \<Longrightarrow> quiet d d'"
proof (induction ps arbitrary: d buf)
  case (Cons p ps)
  then obtain d1 b where r: "dncp_calculate_node_data_hash E p d = Some d1" "network_hash_loop E ps d1 = Some (b, d')"
    by (auto simp: bind_eq_Some_conv)
  have q: "quiet d d1" by (rule node_hash_quiet [OF r(1) Cons.prems(2)])
  show ?case using quiet_trans [OF q Cons.IH [OF r(2) quiet_distinct [OF q Cons.prems(2)]]] .
qed simp

lemma network_hash_quiet:
  assumes "dncp_calculate_network_hash E d = Some d'" "distinct (map node_id (nodes d))"
  shows "quiet d d'"
proof (cases "network_hash_dirty d \<and> \<not> alloc_fails E (Alloc_hash (length (dncp_for_each_node d) * (4 + HASH_LEN E)))")
  case True
  then obtain buf d1 d2 where r: "network_hash_loop E (dncp_for_each_node d) d = Some (buf, d1)"
      "(if take (HASH_LEN E) (network_hash d) \<noteq> take (HASH_LEN E) (cb_hash E buf)
        then dncp_trickle_reset E (d1\<lparr> network_hash := cb_hash E buf \<rparr>) else Some (d1\<lparr> network_hash := cb_hash E buf \<rparr>)) = Some d2"
      "d' = d2\<lparr> network_hash_dirty := False \<rparr>"
    using assms(1) by (auto simp: dncp_calculate_network_hash_def Let_def bind_eq_Some_conv)
  have "quiet d d1" by (rule network_hash_loop_quiet [OF r(1) assms(2)])
  moreover have "quiet (d1\<lparr> network_hash := cb_hash E buf \<rparr>) d2" using r(2) by (auto intro: dncp_trickle_reset_quiet split: if_splits)
  ultimately have "quiet d d2" using quiet_trans [of d "d1\<lparr> network_hash := cb_hash E buf \<rparr>" d2] by simp
  then show ?thesis using r(3) by simp
next
  case False
  then show ?thesis using assms(1) by (auto simp: dncp_calculate_network_hash_def Let_def split: if_splits)
qed

text \<open>Sending and the construction of a reply.\<close>

lemma dncp_reply_send_quiet: "dncp_reply_send r d = Some d' \<Longrightarrow> quiet d d'"
  by (auto simp: dncp_reply_send_def dncp_ep_i_send_buf_def bind_eq_Some_conv)

lemma push_tlv_quiet:
  assumes "push_tlv E t len r d = Some z"
  shows "quiet d (snd (snd z))"
proof (rule push_tlv.raw_induct [where P = "\<lambda>E t len r d z. quiet d (snd (snd z))", OF _ assms])
  fix f E t len r d z
  assume f: "\<And>E t len r d z. f E t len r d = Some z \<Longrightarrow> quiet d (snd (snd z))"
    and z: "(case rep_buf r of None \<Rightarrow> Some (r, d)
      | Some tb \<Rightarrow> do {
          ot \<leftarrow> tlv_id (tb_buf tb) (tb_head tb);
          l \<leftarrow> tlv_len (tb_buf tb) (tb_head tb);
          if ot = 0 then Some (r, d)
          else if 31 \<le> unat ot then None
          else if 2 ^ unat ot < unat l + len + 4
          then do { d \<leftarrow> dncp_reply_send r d; Some (r\<lparr> rep_buf := None \<rparr>, d) }
          else Some (r, d) }) \<bind> (\<lambda>(r, d).
        (case rep_buf r of None \<Rightarrow> do {
             l \<leftarrow> ep_at (rep_l r) d;
             x \<leftarrow> bytes_to_exp (of_int (maximum_unicast_size (conf l)));
             tb \<leftarrow> tlv_buf_init (buf_oom E) zero_buf (of_int x);
             let r = r\<lparr> rep_buf := Some tb \<rparr>;
             if unicast_is_reliable_stream (conf l) then Some (r, d)
             else do {
               (a, r, d) \<leftarrow> f E DNCP_T_NODE_ENDPOINT (NI_LEN E + 4) r d;
               own \<leftarrow> own_node d;
               tb \<leftarrow> rep_buf r;
               buf \<leftarrow> memcpy_at (tb_buf tb) (tlv_data a) own 0 (NI_LEN E);
               buf \<leftarrow> memcpy_at buf (tlv_data a + NI_LEN E) (host32 E (ep_id l)) 0 4;
               Some (r\<lparr> rep_buf := Some (tb\<lparr> tb_buf := buf \<rparr>) \<rparr>, d) } }
         | Some tb \<Rightarrow> Some (r, d)) \<bind> (\<lambda>(r, d). do {
        tb \<leftarrow> rep_buf r;
        (tb, a) \<leftarrow> tlv_new (buf_oom E) tb t len;
        Some (a, r\<lparr> rep_buf := Some tb \<rparr>, d) })) = Some z"
  then show "quiet d (snd (snd z))"
    by (auto simp: bind_eq_Some_conv Let_def split: option.splits if_splits dest!: f dncp_reply_send_quiet intro: quiet_trans)
qed

text \<open>Same as a step that succeeds with some result.\<close>

lemma push_network_state_tlv_quiet:
  "push_network_state_tlv E r d = Some (r', d') \<Longrightarrow> distinct (map node_id (nodes d)) \<Longrightarrow> quiet d d'"
  unfolding push_network_state_tlv_def
  by (auto simp: bind_eq_Some_conv dest!: push_tlv_quiet)
    (metis network_hash_quiet quiet_distinct quiet_trans)

lemma push_req_node_data_tlv_quiet: "push_req_node_data_tlv E ni r d = Some (r', d') \<Longrightarrow> quiet d d'"
  unfolding push_req_node_data_tlv_def by (auto simp: bind_eq_Some_conv dest!: push_tlv_quiet)

lemma peer_modify_quiet: "peer_modify a f d = Some d' \<Longrightarrow> quiet d d'"
  by (auto simp: peer_modify_def bind_eq_Some_conv quiet_put_tlv_rec)

lemma heard_multicast_quiet: "heard E l ni lep src True d = Some (t, d') \<Longrightarrow> quiet d d'"
  by (auto simp: heard_def bind_eq_Some_conv Let_def split: option.splits)

lemma find_node_quiet: "dncp_find_node_by_node_id E ni False d = Some (n, d') \<Longrightarrow> quiet d d'"
  by (auto simp: dncp_find_node_by_node_id_def bind_eq_Some_conv Let_def split: option.splits if_splits)

lemma handle_endpoint_quiet: "handle_endpoint E l src True msg a m d = Some (r, d') \<Longrightarrow> quiet d d'"
  unfolding handle_endpoint_def
  by (auto simp: bind_eq_Some_conv Let_def split: option.splits if_splits dest!: heard_multicast_quiet)

lemma handle_net_state_quiet:
  assumes "handle_net_state E l msg a m d = Some (r, d')"
  shows "quiet d d'"
proof -
  have *: "quiet d d'" if "ep_at l d = Some li" "conf li' = conf li"
      "(case t of None \<Rightarrow> Some (put_ep li' d) | Some x \<Rightarrow> peer_modify x f (put_ep li' d)) = Some d'" for li li' t f
  proof -
    have q: "quiet d (put_ep li' d)" by (rule quiet_put_ep [OF that(1,2)])
    show ?thesis
    proof (cases t)
      case (Some x)
      then show ?thesis using that(3) quiet_trans [OF q peer_modify_quiet] by simp
    qed (use that(3) q in simp)
  qed
  obtain len where len: "tlv_len msg a = Some len" using assms by (auto simp: handle_net_state_def bind_eq_Some_conv)
  show ?thesis
  proof (cases "unat len = HASH_LEN E")
    case True
    obtain h li where h: "payload_at msg (tlv_data a) (HASH_LEN E) = Some h" "ep_at l d = Some li"
      using assms len True by (auto simp: handle_net_state_def bind_eq_Some_conv)
    show ?thesis
    proof (cases "h = take (HASH_LEN E) (network_hash d)")
      case eq: True
      show ?thesis using assms len True h eq
        by (simp add: handle_net_state_def Let_def bind_eq_Some_conv) (elim conjE, erule * [OF h(2), rotated], simp)
    qed (use assms len True h in \<open>simp add: handle_net_state_def\<close>)
  qed (use assms len in \<open>simp add: handle_net_state_def\<close>)
qed

lemma handle_node_state_quiet:
  assumes r: "handle_node_state E l True msg a m d = Some (r, d')" and l: "ep_at l d = Some li" "\<not> accept_node_data_updates_via_multicast (conf li)"
  shows "quiet d d'"
proof -
  obtain len where len: "tlv_len msg a = Some len" using r by (auto simp: handle_node_state_def bind_eq_Some_conv)
  show ?thesis
  proof (cases "unat len < 8 + NI_LEN E + HASH_LEN E")
    case False
    obtain ni un ms h nd n d1 where s: "payload_at msg (tlv_data a) (NI_LEN E) = Some ni" "ld_be32 msg (tlv_data a + NI_LEN E) = Some un"
        "ld_be32 msg (tlv_data a + NI_LEN E + 4) = Some ms" "payload_at msg (tlv_data a + NI_LEN E + 8) (HASH_LEN E) = Some h"
        "payload_at msg (tlv_data a + (8 + NI_LEN E + HASH_LEN E)) (unat len - (8 + NI_LEN E + HASH_LEN E)) = Some nd"
        "dncp_find_node_by_node_id E ni False d = Some (n, d1)"
      using r len False by (auto simp: handle_node_state_def bind_eq_Some_conv Let_def)
    have d1: "d1 = d" using s(6) by (auto simp: dncp_find_node_by_node_id_def bind_eq_Some_conv split: option.splits)
    show ?thesis
    proof (cases "state_interesting E (case n of None \<Rightarrow> None | Some p \<Rightarrow> node_at p d) un h")
      case True
      show ?thesis using r len False s d1 True l
        by (auto simp: handle_node_state_def Let_def bind_eq_Some_conv dest: push_req_node_data_tlv_quiet)
    qed (use r len False s d1 in \<open>simp add: handle_node_state_def Let_def\<close>)
  qed (use r len in \<open>simp add: handle_node_state_def Let_def\<close>)
qed

lemma handle_tlv_quiet:
  assumes r: "handle_tlv E l src True msg a m d = Some (r, d')" and l: "ep_at l d = Some li" "\<not> accept_node_data_updates_via_multicast (conf li)"
  shows "quiet d d'"
  using r handle_endpoint_quiet handle_net_state_quiet handle_node_state_quiet [OF _ l]
  by (auto simp: handle_tlv_def handle_req_net_state_def handle_req_node_state_def bind_eq_Some_conv split: if_splits)

lemma quiet_ep_at:
  assumes "quiet d d'" "ep_at l d = Some li"
  obtains li' where "ep_at l d' = Some li'" "conf li' = conf li"
  using assms unfolding quiet_def by (metis map_option_eq_Some option.map(2))

lemma handle_tlvs_quiet:
  "handle_tlvs E l src True msg as m d = Some (r, d') \<Longrightarrow> ep_at l d = Some li \<Longrightarrow> \<not> accept_node_data_updates_via_multicast (conf li) \<Longrightarrow>
   quiet d d'"
proof (induction as arbitrary: m d li)
  case (Cons a as)
  obtain x d1 where d1: "handle_tlv E l src True msg a m d = Some (x, d1)" using Cons.prems(1) by (auto simp: bind_eq_Some_conv)
  have q: "quiet d d1" by (rule handle_tlv_quiet [OF d1 Cons.prems(2,3)])
  obtain li1 where l1: "ep_at l d1 = Some li1" "conf li1 = conf li" by (rule quiet_ep_at [OF q Cons.prems(2)])
  show ?case
  proof (cases x)
    case (Some y)
    then have "handle_tlvs E l src True msg as y d1 = Some (r, d')" using Cons.prems(1) d1 by simp
    then have "quiet d1 d'" using Cons.IH l1 Cons.prems(3) by metis
    then show ?thesis by (rule quiet_trans [OF q])
  qed (use Cons.prems(1) d1 q in simp)
qed simp

lemma request_network_state_quiet:
  assumes "request_network_state E l m d = Some (r, d')" "distinct (map node_id (nodes d))"
  shows "quiet d d'"
proof (cases "should_request_network_state m \<and> \<not> updated_or_requested_state m \<and> \<not> is_local m")
  case True
  then obtain r1 d1 x r2 d2 li where s: "push_network_state_tlv E (ms_reply m) d = Some (r1, d1)"
      "push_tlv E DNCP_T_REQ_NET_STATE 0 r1 d1 = Some (x, r2, d2)" "ep_at l d2 = Some li"
      "d' = put_ep (li\<lparr> last_req_network_state := dncp_time d2 \<rparr>) d2"
    using assms(1) by (auto simp: request_network_state_def bind_eq_Some_conv)
  have "quiet d d1" by (rule push_network_state_tlv_quiet [OF s(1) assms(2)])
  also have "quiet d1 d2" using push_tlv_quiet [OF s(2)] by simp
  also have "quiet d2 d'" unfolding s(4) by (rule quiet_put_ep [OF s(3)]) simp
  finally show ?thesis .
qed (use assms in \<open>auto simp: request_network_state_def split: if_splits\<close>)

lemma finish_reply_quiet:
  assumes "finish_reply E l mc r d = Some d'"
  shows "quiet d d'"
proof (cases "rep_buf r = None \<or> \<not> mc")
  case False
  obtain x d1 where dr: "draw E d = (x, d1)" by fastforce
  have q: "quiet d d1" by (rule quiet_draw [OF dr])
  obtain li where li: "ep_at l d = Some li" using assms False by (auto simp: finish_reply_def bind_eq_Some_conv)
  obtain li1 where l1: "ep_at l d1 = Some li1" "conf li1 = conf li" by (rule quiet_ep_at [OF q li])
  have "quiet d (put_ep (li\<lparr> send_reply_at := t, reply := r \<rparr>) d1)" for t
    by (rule quiet_trans [OF q quiet_put_ep [OF l1(1)]]) (simp add: l1(2))
  then show ?thesis using assms False dr li q by (auto simp: finish_reply_def Let_def split: if_splits)
qed (use assms dncp_reply_send_quiet in \<open>auto simp: finish_reply_def split: if_splits\<close>)

text \<open>C13: a multicast message changes no data.  On an endpoint that does not accept node data via multicast no message
  received via multicast, whatever its content, changes the identifiers, update numbers or TLVs of the nodes,
  the own node, the local TLVs (peers included) or the configuration of an endpoint.\<close>

theorem multicast_changes_no_data:
  assumes "ep_at l d = Some li" "\<not> accept_node_data_updates_via_multicast (conf li)" "distinct (map node_id (nodes d))"
    and "handle_message E l src None msg d = Some d'"
  shows "quiet d d'"
proof -
  obtain ps m d1 where s: "tlv_for_each_attr msg 0 = Some ps"
      "handle_tlvs E l src True msg ps \<lparr> seen_lid = False, ms_ne = None, should_request_network_state = False,
        updated_or_requested_state = False, is_local = False,
        ms_reply = \<lparr> rep_buf = None, rep_l = l, has_src = False, rep_src = [], rep_dst = src \<rparr> \<rparr> d = Some (m, d1)"
    using assms(1,4) by (auto simp: handle_message_def reuse_peer_def bind_eq_Some_conv Let_def)
  have q: "quiet d d1" by (rule handle_tlvs_quiet [OF s(2) assms(1,2)])
  show ?thesis
  proof (cases m)
    case None
    then show ?thesis using assms(1,4) s q by (simp add: handle_message_def reuse_peer_def Let_def)
  next
    case (Some m)
    obtain r d2 where t: "request_network_state E l m d1 = Some (r, d2)" "finish_reply E l True r d2 = Some d'"
      using assms(1,4) s Some by (auto simp: handle_message_def reuse_peer_def Let_def bind_eq_Some_conv)
    show ?thesis using quiet_trans [OF quiet_trans [OF q request_network_state_quiet [OF t(1) quiet_distinct [OF q assms(3)]]] finish_reply_quiet [OF t(2)]] .
  qed
qed

section \<open>Lemmas: node data\<close>

lemma attr_equal_holds:
  assumes "container_holds c ts" "container_holds c' ts'"
  shows "tlv_attr_equal (Some (c, 0)) (Some (c', 0)) = Some (tlvs_enc ts = tlvs_enc ts')"
proof -
  obtain r where c: "c = [] @ word_be 4 (tlv_hdr 0 (length (tlvs_enc ts))) @ (tlvs_enc ts @ r)" and l: "length (tlvs_enc ts) < 0x10000"
    using assms(1) by (auto simp: container_holds_def)
  obtain r' where c': "c' = [] @ word_be 4 (tlv_hdr 0 (length (tlvs_enc ts'))) @ (tlvs_enc ts' @ r')" and l': "length (tlvs_enc ts') < 0x10000"
    using assms(2) by (auto simp: container_holds_def)
  have al: "pad4 (length (tlvs_enc ts) + 4) = length (tlvs_enc ts) + 4" for ts
    using length_tlvs_enc_mod [of ts] by (simp add: pad4_add4 pad4_aligned)
  have p: "tlv_pad_len c 0 = Some (of_nat (length (tlvs_enc ts) + 4))" "tlv_pad_len c' 0 = Some (of_nat (length (tlvs_enc ts') + 4))"
    using tlv_fields(4) [of 0 "length (tlvs_enc ts)" 0 "[]" "tlvs_enc ts @ r"] tlv_fields(4) [of 0 "length (tlvs_enc ts')" 0 "[]" "tlvs_enc ts' @ r'"]
      c c' l l' al by simp_all
  show ?thesis
  proof (cases "length (tlvs_enc ts) = length (tlvs_enc ts')")
    case True
    have u: "unat (of_nat (length (tlvs_enc ts) + 4) :: u32) = length (tlvs_enc ts) + 4" using l by (simp add: unat_of_nat del: of_nat_add)
    have "memcmp c 0 c' 0 (length (tlvs_enc ts) + 4) = Some (bytes_cmp (take (length (tlvs_enc ts) + 4) c) (take (length (tlvs_enc ts) + 4) c'))"
      using True c c' by (simp add: memcmp_def)
    moreover have "take (length (tlvs_enc ts) + 4) c = word_be 4 (tlv_hdr 0 (length (tlvs_enc ts))) @ tlvs_enc ts"
      "take (length (tlvs_enc ts) + 4) c' = word_be 4 (tlv_hdr 0 (length (tlvs_enc ts))) @ tlvs_enc ts'"
      using True c c' by simp_all
    ultimately have "memcmp c 0 c' 0 (length (tlvs_enc ts) + 4) =
        Some (bytes_cmp (word_be 4 (tlv_hdr 0 (length (tlvs_enc ts))) @ tlvs_enc ts) (word_be 4 (tlv_hdr 0 (length (tlvs_enc ts))) @ tlvs_enc ts'))" by simp
    then show ?thesis using p True u bytes_cmp_eq_0 [of "word_be 4 (tlv_hdr 0 (length (tlvs_enc ts))) @ tlvs_enc ts" "word_be 4 (tlv_hdr 0 (length (tlvs_enc ts))) @ tlvs_enc ts'"]
      by (simp add: tlv_attr_equal_def del: of_nat_add)
  next
    case False
    then have "(of_nat (length (tlvs_enc ts) + 4) :: u32) \<noteq> of_nat (length (tlvs_enc ts') + 4)"
      using l l' by (simp add: word_of_nat_eq_iff take_bit_nat_eq_self del: of_nat_add)
    then show ?thesis using p False by (auto simp: tlv_attr_equal_def simp del: of_nat_add)
  qed
qed

lemma attr_equal_opt:
  assumes "holds_opt a ts" "holds_opt b us"
  shows "tlv_attr_equal (aptr a) (aptr b) = Some ((a = None \<longleftrightarrow> b = None) \<and> tlvs_enc ts = tlvs_enc us)"
  using assms attr_equal_holds by (cases a; cases b) (auto simp: holds_opt_def aptr_def tlv_attr_equal_def)

lemma container_holds_enc: "container_holds c ts \<Longrightarrow> tlvs_enc us = tlvs_enc ts \<Longrightarrow> list_all tlv_ok us \<Longrightarrow> container_holds c us"
  by (simp add: container_holds_def)

lemma node_at_flags [simp]:
  "node_at q (dncp_schedule d) = node_at q d" "node_at q (d\<lparr> network_hash_dirty := b \<rparr>) = node_at q d"
  "node_at q (d\<lparr> graph_dirty := b \<rparr>) = node_at q d" "own_node (dncp_schedule d) = own_node d"
  by (simp_all add: node_at_def dncp_schedule_def)

text \<open>New data for a node: the state in which the data is in place, up to the indexes of the other nodes.\<close>

lemma node_set_takes:
  assumes E: "calm E" and i: "nodes_inv E d" and n: "node_at p d = Some n" and un: "un \<noteq> update_number n" and c: "container_holds c ts"
  shows "\<exists>d' n'. dncp_node_set E n un t (Some c) d = Some d' \<and> node_at p d' = Some n' \<and> update_number n' = un \<and>
    (\<exists>c'. tlv_container n' = Some c' \<and> container_holds c' ts) \<and> own_node d' = own_node d \<and>
    (\<forall>q. q \<noteq> p \<longrightarrow> map_option strip_index (node_at q d') = map_option strip_index (node_at q d))"
proof -
  have m: "n \<in> set (nodes d)" "node_id n = p" using node_at_Some [OF n] by auto
  have wf: "node_wf E n" using i m by (simp add: nodes_inv_def)
  have h: "holds_opt (tlv_container n) (tlvs_of_node n)" using wf by (simp add: node_wf_def node_tlvs_def)
  have hc: "holds_opt (Some c) ts" using c by (simp add: holds_opt_def)
  let ?sim = "tlv_container n \<noteq> None \<and> tlvs_enc (tlvs_of_node n) = tlvs_enc ts"
  have eq: "tlv_attr_equal (aptr (Some c)) (aptr (tlv_container n)) = Some ?sim" "tlv_attr_equal (aptr (tlv_container n)) (aptr (Some c)) = Some ?sim"
    using attr_equal_opt [OF hc h] attr_equal_opt [OF h hc] by auto
  define n2 where "n2 = (let n1 = n\<lparr> update_number := un \<rparr> in if t \<noteq> 0 then n1\<lparr> origination_time := t, expiration_time := t + (2 ^ 32 - 2 ^ 15) \<rparr> else n1)"
  have n2: "node_id n2 = p" "tlv_container n2 = tlv_container n" "tlv_container_valid n2 = tlv_container_valid n" "tlv_index n2 = tlv_index n"
    "tlv_index_dirty n2 = tlv_index_dirty n" "update_number n2 = un"
    using m(2) by (simp_all add: n2_def Let_def)
  let ?d = "put_node n2 d"
  have i2: "nodes_inv E ?d" by (rule nodes_inv_put [OF i n]) (simp_all add: n2 m(2))
  have at2: "node_at p ?d = Some n2" using n n2 by simp
  show ?thesis
  proof (cases ?sim)
    case True
    then obtain c0 where c0: "tlv_container n = Some c0" by auto
    then have "container_holds c0 ts" using h True c by (auto simp: holds_opt_def container_holds_def)
    moreover have "dncp_node_set E n un t (Some c) d = Some (dncp_schedule (?d\<lparr> network_hash_dirty := True \<rparr>))"
      using un eq True by (simp add: dncp_node_set_def Let_def n2_def)
    ultimately show ?thesis using at2 n2 c0 by auto
  next
    case False
    have eqF: "tlv_attr_equal (aptr (Some c)) (aptr (tlv_container n)) = Some False"
      "tlv_attr_equal (aptr (tlv_container n)) (aptr (Some c)) = Some False"
      using eq False by auto
    define av where "av = (if cb_validate_node_data E (node_id n) c then Some c else None)"
    obtain us where av: "holds_opt av us" using that [of ts] that [of "[]"] hc
      by (cases "cb_validate_node_data E (node_id n) c") (simp_all add: av_def)
    obtain vs where vs: "holds_opt (tlv_container_valid n2) vs" using holds_valid [OF wf] n2(3) by metis
    obtain d3 where d3: "(if last_reachable_prune n = last_prune ?d
        then dncp_notify_subscribers_tlvs_changed E (node_id n) (tlv_container_valid n2) av ?d else Some ?d) = Some d3" "nodes_inv E d3" "same_nodes ?d d3"
      using tlvs_changed_calm [OF E i2 vs av, of "node_id n"] i2 by (cases "last_reachable_prune n = last_prune ?d") auto
    obtain n3 where n3: "node_at p d3 = Some n3" "strip_index n3 = strip_index n2"
      using node_at_strip [of d3 ?d p] d3(3) at2 by (auto simp: same_nodes_def)
    have r: "reload n2 d3 = n3" using n3(1) n2(1) by (simp add: reload_def)
    let ?n4 = "n3\<lparr> tlv_container := Some c, tlv_container_valid := av, tlv_index_dirty := True, node_data_hash_dirty := True \<rparr>"
    have id3: "node_id n3 = p" using node_at_Some [OF n3(1)] by simp
    have res: "dncp_node_set E n un t (Some c) d = Some (dncp_schedule (put_node ?n4 d3\<lparr> graph_dirty := True, network_hash_dirty := True \<rparr>))"
      using un eqF d3(1) r by (simp add: dncp_node_set_def Let_def n2_def [unfolded Let_def, symmetric] av_def [symmetric] split: if_splits)
    have "map_option strip_index (node_at q d3) = map_option strip_index (node_at q d)" if "q \<noteq> p" for q
      using node_at_strip [of d3 ?d q] d3(3) n2(1) that by (simp add: same_nodes_def)
    moreover have "own_node d3 = own_node d" using d3(3) by (simp add: same_nodes_def)
    moreover have "update_number n3 = un" using strip_eq_fields(3) [OF n3(2)] n2(6) by simp
    ultimately show ?thesis using res n3(1) id3 c by auto
  qed
qed

lemma payload_at_length: "payload_at buf p n = Some x \<Longrightarrow> length x = n"
  by (auto simp: payload_at_def split: if_splits)

lemma state_tlv_lengths:
  assumes "state_tlv E msg a = Some (ni, un, ms, h, nd)"
  shows "length ni = NI_LEN E" "length nd < 0x10000"
proof -
  obtain len where len: "tlv_len msg a = Some len" "length ni = NI_LEN E" "length nd \<le> unat len"
    using assms by (auto simp: state_tlv_def bind_eq_Some_conv Let_def split: if_splits dest!: payload_at_length)
  have "len \<le> TLV_ATTR_LEN_MASK" using len(1) by (auto simp: tlv_len_def bind_eq_Some_conv word_and_le1)
  then have "unat len \<le> 0xFFFF" by (simp add: TLV_ATTR_LEN_MASK_def word_le_nat_alt)
  then show "length ni = NI_LEN E" "length nd < 0x10000" using len by auto
qed

lemma tlvs_enc_ge4: "ts \<noteq> [] \<Longrightarrow> 4 \<le> length (tlvs_enc ts)"
  by (cases ts) (auto simp: length_tlv_enc)

lemma take_node_data_takes:
  assumes E: "calm E" "\<And>x. \<not> buf_oom E x" and i: "nodes_inv E d" and n: "node_at p d = Some n" and un: "un \<noteq> update_number n"
    and ts: "list_all tlv_ok ts" "ts \<noteq> []" "length (tlvs_enc ts) < 0x10000"
  shows "\<exists>d' n'. take_node_data E p un ms h (tlvs_enc ts) d = Some d' \<and> node_at p d' = Some n' \<and> update_number n' = un \<and>
    (\<exists>c. tlv_container n' = Some c \<and> container_holds c ts) \<and> node_data_hash n' = h \<and>
    (\<forall>q. q \<noteq> p \<longrightarrow> map_option strip_index (node_at q d') = map_option strip_index (node_at q d))"
proof -
  have len4: "4 \<le> length (tlvs_enc ts)" by (rule tlvs_enc_ge4 [OF ts(2)])
  obtain b0 where b0: "tlv_buf_init (buf_oom E) zero_buf 0 = Some b0" "tb_holds b0 [] 0 []"
    using tlv_buf_init_holds [of zero_buf 0 "buf_oom E"] E(2) by (auto simp: zero_buf_def)
  obtain b1 where b1: "tlv_put_raw (buf_oom E) b0 (Some (tlvs_enc ts)) (length (tlvs_enc ts)) = Some (b1, Some 4)" "tb_holds b1 [] 0 (tlvs_enc ts)"
    using tlv_put_raw_aligned [of b0 "[]" 0 "[]" "tlvs_enc ts" "buf_oom E"] b0(2) length_tlvs_enc_mod len4 E(2) ts(3) by auto
  have c: "container_holds (tb_buf b1) ts" using b1(2) ts by (auto simp: tb_holds_def container_holds_def)
  obtain d1 n1 where d1: "dncp_node_set E n un (dncp_time d - uint ms) (Some (tb_buf b1)) d = Some d1" "node_at p d1 = Some n1" "update_number n1 = un"
      "\<exists>c. tlv_container n1 = Some c \<and> container_holds c ts"
      "\<forall>q. q \<noteq> p \<longrightarrow> map_option strip_index (node_at q d1) = map_option strip_index (node_at q d)"
    using node_set_takes [OF E(1) i n un c] by blast
  have id: "node_id n1 = p" using node_at_Some [OF d1(2)] by simp
  have "take_node_data E p un ms h (tlvs_enc ts) d = Some (put_node (n1\<lparr> node_data_hash := h, node_data_hash_dirty := False \<rparr>) d1)"
    using b0(1) b1(1) n d1(1,2) by (simp add: take_node_data_def node_modify_def)
  then show ?thesis using d1 id by auto
qed


lemma listening_inv: "nodes_inv plain_env (listening mc)"
  using trio_inv by (simp add: prune_inv_def nodes_inv_def index_inv_def listening_def)


theorem multicast_changes_no_data_witness:
  "\<exists>d'. handle_message plain_env [7] [] None (state_msg [5, 6, 7, 8]) (listening False) = Some d' \<and> quiet (listening False) d'"
proof -
  have "\<not> Option.is_none (handle_message plain_env [7] [] None (state_msg [5, 6, 7, 8]) (listening False))" by code_simp
  then obtain d' where d': "handle_message plain_env [7] [] None (state_msg [5, 6, 7, 8]) (listening False) = Some d'" by (auto simp: Option.is_none_def)
  have l: "ep_at [7] (listening False) = Some (hd (eps (listening False)))" "\<not> accept_node_data_updates_via_multicast (conf (hd (eps (listening False))))"
    by (simp_all add: ep_at_def listening_def)
  have "distinct (map node_id (nodes (listening False)))" using listening_inv [of False] by (simp add: nodes_inv_def index_inv_def)
  then show ?thesis using multicast_changes_no_data [OF l _ d'] d' by blast
qed

end
