(* ===== verification/DncpPublish.thy ===== *)
theory DncpPublish
  imports DncpSafety
begin

unbundle bit_operations_syntax

text \<open>
  The local TLVs of an instance: they are well-formed TLVs in the order of the attribute comparison, which
  adding and removing keep, and they are what is published as the data of the own node.
\<close>

section \<open>The local TLVs\<close>

definition tlvs_typed :: "dncp \<Rightarrow> tlv list \<Rightarrow> bool" where
  "tlvs_typed d ts \<longleftrightarrow> map t_tlv (tlvs d) = map tlv_enc ts \<and> list_all tlv_ok ts \<and> sorted_wrt (\<lambda>a b. tlv_cmp a b < 0) ts"

text \<open>Subscribers that return and leave the local TLVs alone.\<close>

definition local_calm :: "env \<Rightarrow> bool" where
  "local_calm E \<longleftrightarrow> (\<forall>s e d. \<exists>d'. sub_cb E s e d = Some d' \<and> tlvs d' = tlvs d)"

text \<open>An instance with one local TLV that is not published yet.\<close>

abbreviation unpublished :: dncp where
  "unpublished \<equiv> trio\<lparr> tlvs := [\<lparr> t_tlv = tlv_enc (9, [1, 2]), t_extra = None \<rparr>], tlvs_dirty := True \<rparr>"

section \<open>Lemmas: attributes\<close>

lemma tlv_here_enc: "tlv_ok a \<Longrightarrow> tlv_here (tlv_enc a) 0 a"
  using tlv_here_append [of a "[]" "[]"] by simp

lemma compare_tlvs_enc: "tlv_ok a \<Longrightarrow> tlv_ok b \<Longrightarrow> compare_tlvs (tlv_enc a) (tlv_enc b) = tlv_cmp a b"
  by (simp add: compare_tlvs_def tlv_here_attr_cmp [OF tlv_here_enc tlv_here_enc])

lemma tlv_enc_inj: "tlv_ok a \<Longrightarrow> tlv_ok b \<Longrightarrow> tlv_enc a = tlv_enc b \<longleftrightarrow> a = b"
  using tlv_here_enc tlv_here_at by (metis option.inject)

lemma compare_tlvs_comparator:
  "\<forall>x \<in> S. \<exists>a. tlv_ok a \<and> x = tlv_enc a \<Longrightarrow> comparator (\<lambda>x. x \<in> S) compare_tlvs"
proof (rule comparator.intro)
  assume S: "\<forall>x \<in> S. \<exists>a. tlv_ok a \<and> x = tlv_enc a"
  fix x y z
  assume x: "x \<in> S" "y \<in> S"
  obtain a b where ab: "tlv_ok a" "x = tlv_enc a" "tlv_ok b" "y = tlv_enc b" using S x by blast
  show "(0 < compare_tlvs x y) = (compare_tlvs y x < 0)" using ab tlv_order.antisym by (simp add: compare_tlvs_enc)
  assume z: "z \<in> S" "compare_tlvs x y \<le> 0" "compare_tlvs y z \<le> 0"
  obtain c where c: "tlv_ok c" "z = tlv_enc c" using S z by blast
  show "compare_tlvs x z \<le> 0" using ab c z(2,3) tlv_order.le_trans [of a b c] by (simp add: compare_tlvs_enc)
qed

lemma ucast_type_less: "(ucast (type :: u16) :: u32) < 0x10000"
  using unsigned_less [of type, where 'a = nat] by (simp add: word_less_nat_alt unsigned_ucast_eq le_less_trans [OF take_bit_nat_less_eq_self])

lemma make_attr_enc:
  assumes "length data = unat len"
  shows "make_attr type data len = Some (tlv_enc (ucast type, data))"
proof -
  define n k where nk: "n = unat len" "k = pad4 n - n"
  define hd where "hd = word_be 4 (tlv_hdr (ucast type) n)"
  have n: "n < 0x10000" using unsigned_less [of len, where 'a = nat] by (simp add: nk(1))
  have p: "pad4 (4 + n) = 4 + n + k" using pad4_add4 [of n] pad4_ge(1) [of n] by (simp add: add.commute nk(2))
  have e: "replicate (4 + pad4 (4 + n)) 0 = [] @ replicate 4 (0::u8) @ replicate n 0 @ replicate k 0 @ replicate 4 0"
  proof -
    have "4 + pad4 (4 + n) = 4 + (n + (k + 4))" using p by simp
    then show ?thesis by (simp only: replicate_add append_Nil append_assoc)
  qed
  have "(ucast len + 4 :: u32) = of_nat (n + 4)" by (simp add: nk(1) of_nat_unat)
  then have init: "tlv_init (replicate (4 + pad4 (4 + n)) 0) 0 (ucast type) (ucast len + 4) = Some (hd @ replicate n 0 @ replicate k 0 @ replicate 4 0)"
    unfolding e using tlv_init_append [of "ucast type" n 0 "[]" "replicate 4 0" "replicate n 0 @ replicate k 0 @ replicate 4 0", OF ucast_type_less n]
    by (simp only: hd_def append_Nil length_replicate list.size(3))
  have cp: "memcpy_at (hd @ replicate n 0 @ replicate k 0 @ replicate 4 0) (tlv_data 0) data 0 n = Some (hd @ take n data @ replicate k 0 @ replicate 4 0)"
    using assms by (intro memcpy_at_append) (simp_all add: tlv_data_def hd_def nk(1))
  have d: "take n data = data" "length data = n" using assms by (simp_all add: nk(1))
  have fp: "tlv_fill_pad (hd @ data @ replicate k 0 @ replicate 4 0) 0 = Some (hd @ data @ replicate k 0 @ replicate 4 0)"
    using tlv_fill_pad_append [of "ucast type" n 0 "[]" data "replicate k 0" "replicate 4 0", OF ucast_type_less n _ d(2)]
    by (simp only: hd_def nk(2) append_Nil length_replicate list.size(3))
  have "make_attr type data len = Some (take (4 + n + k) (hd @ data @ replicate k 0 @ replicate 4 0))"
    unfolding make_attr_def nk(1) [symmetric] init Let_def
    by (simp only: init cp d(1) fp p Option.bind_lunit)
  then show ?thesis using d(2) by (simp add: tlv_enc_eq hd_def nk(2))
qed

lemma ucast_type_ok: "length data < 0x10000 \<Longrightarrow> tlv_ok (ucast (type :: u16), data)"
  by (simp add: tlv_ok_def ucast_type_less)

lemma ucast_u16_inj: "(ucast (x :: u16) :: u32) = ucast y \<longleftrightarrow> x = y"
proof -
  have "unat (ucast z :: u32) = unat z" for z :: u16
    using unsigned_less [of z, where 'a = nat] by (simp add: unsigned_ucast_eq take_bit_nat_eq_self)
  then show ?thesis by (metis word_unat_eq_iff)
qed

section \<open>Lemmas: looking up\<close>

lemma avl_find_tlv:
  assumes a: "avl_lib E" and t: "tlvs_typed d ts" and k: "tlv_ok k"
  shows "case avl_find E compare_tlvs (map t_tlv (tlvs d)) (tlv_enc k) of None \<Rightarrow> k \<notin> set ts | Some i \<Rightarrow> i < length ts \<and> ts ! i = k"
    and "k \<notin> set ts \<Longrightarrow> sorted_wrt (\<lambda>a b. tlv_cmp a b < 0)
      (take (avl_pos E compare_tlvs (map t_tlv (tlvs d)) (tlv_enc k)) ts @ k # drop (avl_pos E compare_tlvs (map t_tlv (tlvs d)) (tlv_enc k)) ts)"
proof -
  let ?keys = "map tlv_enc ts"
  have ok: "\<forall>x \<in> set ts. tlv_ok x" using t by (simp add: tlvs_typed_def list_all_iff)
  have keys: "map t_tlv (tlvs d) = ?keys" using t by (simp add: tlvs_typed_def)
  have cmp: "compare_tlvs (tlv_enc x) (tlv_enc y) = tlv_cmp x y" if "x \<in> insert k (set ts)" "y \<in> insert k (set ts)" for x y
    using that ok k by (intro compare_tlvs_enc) auto
  have c: "comparator (\<lambda>x. x \<in> insert (tlv_enc k) (set ?keys)) compare_tlvs"
    by (rule compare_tlvs_comparator) (unfold list.set_map, use ok k in blast)
  have s: "sorted_wrt (\<lambda>a b. compare_tlvs a b < 0) ?keys" using t ok
    by (auto simp: tlvs_typed_def sorted_wrt_map compare_tlvs_enc elim!: sorted_wrt_mono_rel [rotated])
  have 0: "compare_tlvs (tlv_enc x) (tlv_enc k) = 0 \<longleftrightarrow> x = k" if "x \<in> set ts" for x
    using that ok k cmp tlv_cmp_eq_0 by simp
  note lib = a [unfolded avl_lib_def, rule_format, OF conjI [OF c s]]
  show "case avl_find E compare_tlvs (map t_tlv (tlvs d)) (tlv_enc k) of None \<Rightarrow> k \<notin> set ts | Some i \<Rightarrow> i < length ts \<and> ts ! i = k"
  proof (cases "avl_find E compare_tlvs ?keys (tlv_enc k)")
    case None
    then have "\<forall>x \<in> set ts. compare_tlvs (tlv_enc x) (tlv_enc k) \<noteq> 0" using conjunct1 [OF lib] by simp
    then have "k \<notin> set ts" using 0 by blast
    then show ?thesis using None keys by simp
  next
    case (Some i)
    then have i: "i < length ts" "compare_tlvs (tlv_enc (ts ! i)) (tlv_enc k) = 0" using conjunct1 [OF lib] by auto
    then have "ts ! i = k" using 0 [OF nth_mem [OF i(1)]] by blast
    then show ?thesis using Some keys i(1) by simp
  qed
  assume "k \<notin> set ts"
  then have "\<forall>x \<in> set ?keys. compare_tlvs x (tlv_enc k) \<noteq> 0" using 0 by (simp, metis)
  then have r: "sorted_wrt (\<lambda>a b. compare_tlvs a b < 0) (map tlv_enc (take (avl_pos E compare_tlvs ?keys (tlv_enc k)) ts @ k # drop (avl_pos E compare_tlvs ?keys (tlv_enc k)) ts))"
    using conjunct2 [OF lib] by (simp add: take_map drop_map)
  show "sorted_wrt (\<lambda>a b. tlv_cmp a b < 0)
      (take (avl_pos E compare_tlvs (map t_tlv (tlvs d)) (tlv_enc k)) ts @ k # drop (avl_pos E compare_tlvs (map t_tlv (tlvs d)) (tlv_enc k)) ts)"
    unfolding keys
  proof (rule sorted_wrt_mono_rel [OF _ r [unfolded sorted_wrt_map]])
    fix x y
    assume xy: "x \<in> set (take (avl_pos E compare_tlvs ?keys (tlv_enc k)) ts @ k # drop (avl_pos E compare_tlvs ?keys (tlv_enc k)) ts)"
      "y \<in> set (take (avl_pos E compare_tlvs ?keys (tlv_enc k)) ts @ k # drop (avl_pos E compare_tlvs ?keys (tlv_enc k)) ts)"
      and lt: "compare_tlvs (tlv_enc x) (tlv_enc y) < 0"
    have "x \<in> insert k (set ts)" "y \<in> insert k (set ts)" using xy by (auto dest: in_set_takeD in_set_dropD)
    from cmp [OF this] lt show "tlv_cmp x y < 0" by simp
  qed
qed

lemma find_tlv_typed:
  assumes a: "avl_lib E" and t: "tlvs_typed d ts" and l: "length data = unat len"
  shows "dncp_find_tlv E type data len d = Some (if (ucast type, data) \<in> set ts then Some (tlv_enc (ucast type, data)) else None)"
proof -
  let ?k = "(ucast type :: u32, data)"
  have ok: "tlv_ok ?k" by (rule ucast_type_ok) (use l unsigned_less [of len, where 'a = nat] in simp)
  have keys: "map t_tlv (tlvs d) = map tlv_enc ts" using t by (simp add: tlvs_typed_def)
  show ?thesis
  proof (cases "avl_find E compare_tlvs (map t_tlv (tlvs d)) (tlv_enc ?k)")
    case None
    then show ?thesis using avl_find_tlv(1) [OF a t ok] make_attr_enc [OF l] by (simp add: dncp_find_tlv_def)
  next
    case (Some i)
    then have i: "i < length ts" "ts ! i = ?k" using avl_find_tlv(1) [OF a t ok] by simp_all
    then have "?k \<in> set ts" using nth_mem by metis
    moreover have "rd (map t_tlv (tlvs d)) i = Some (tlv_enc ?k)" unfolding keys using i by (simp add: rd_def)
    ultimately show ?thesis using Some make_attr_enc [OF l] by (simp add: dncp_find_tlv_def)
  qed
qed

section \<open>Lemmas: adding and removing\<close>

lemma notify_all_local: "local_calm E \<Longrightarrow> \<exists>d'. notify_all E es d = Some d' \<and> tlvs d' = tlvs d"
proof (induction es arbitrary: d)
  case (Cons x es)
  obtain s e where x: "x = (s, e)" by (cases x)
  obtain d1 where d1: "sub_cb E s e (d\<lparr> outp := outp d @ [Notified s e] \<rparr>) = Some d1" "tlvs d1 = tlvs d"
    using Cons.prems by (fastforce simp: local_calm_def)
  obtain d2 where "notify_all E es d1 = Some d2" "tlvs d2 = tlvs d1" using Cons.IH [OF Cons.prems] by blast
  then show ?case using x d1 by (simp add: notify_one_def)
qed simp

lemma local_tlv_changed_local: "local_calm E \<Longrightarrow> \<exists>d'. dncp_notify_subscribers_local_tlv_changed E a add d = Some d' \<and> tlvs d' = tlvs d"
  unfolding dncp_notify_subscribers_local_tlv_changed_def notify_def by (rule notify_all_local)

lemma update_tlv_local:
  assumes "local_calm E"
  shows "\<exists>d'. update_tlv E x y d = Some d' \<and> tlvs d' = tlvs d \<and> tlvs_dirty d'"
proof -
  have *: "\<exists>d1. (case z of None \<Rightarrow> Some d | Some a \<Rightarrow> dncp_notify_subscribers_local_tlv_changed E a b d) = Some d1 \<and> tlvs d1 = tlvs d" for z b d
    using local_tlv_changed_local [OF assms] by (cases z) simp_all
  obtain d1 where d1: "(case y of None \<Rightarrow> Some d | Some a \<Rightarrow> dncp_notify_subscribers_local_tlv_changed E a False d) = Some d1" "tlvs d1 = tlvs d"
    using * by blast
  obtain d2 where d2: "(case x of None \<Rightarrow> Some d1 | Some a \<Rightarrow> dncp_notify_subscribers_local_tlv_changed E a True d1) = Some d2" "tlvs d2 = tlvs d1"
    using * by blast
  show ?thesis using d1 d2 by (simp add: update_tlv_def dncp_schedule_def)
qed

lemma sorted_wrt_without: "sorted_wrt P xs \<Longrightarrow> sorted_wrt P (take i xs @ drop (Suc i) xs)"
proof -
  assume "sorted_wrt P xs"
  then have "sorted_wrt P (take i xs @ drop i xs)" by simp
  then show ?thesis by (cases "drop i xs") (simp_all add: sorted_wrt_append drop_Suc tl_drop [symmetric] del: append_take_drop_id)
qed

lemma sorted_cmp_distinct:
  assumes "list_all tlv_ok ts" "sorted_wrt (\<lambda>a b. tlv_cmp a b < 0) ts"
  shows "distinct ts"
  using assms
proof (induction ts)
  case (Cons a ts)
  have "a \<notin> set ts"
  proof
    assume "a \<in> set ts"
    then have "tlv_cmp a a < 0" using Cons.prems(2) by simp
    then show False using tlv_cmp_eq_0 [of a a] Cons.prems(1) by simp
  qed
  then show ?case using Cons by simp
qed simp

lemma without_set:
  assumes "distinct xs" "i < length xs"
  shows "set (take i xs @ drop (Suc i) xs) = set xs - {xs ! i}"
proof -
  have "xs = take i xs @ xs ! i # drop (Suc i) xs" using assms(2) by (rule id_take_nth_drop)
  moreover have "distinct (take i xs @ xs ! i # drop (Suc i) xs)" using assms by (simp flip: id_take_nth_drop)
  ultimately show ?thesis by (metis (no_types, lifting) Diff_insert_absorb distinct_append distinct.simps(2) insert_is_Un list.simps(15) not_distinct_conv_prefix set_append Un_insert_right Un_iff)
qed

lemma tlvs_insert_typed:
  assumes a: "avl_lib E" "local_calm E" and t: "tlvs_typed d ts" and k: "tlv_ok k" and x: "t_tlv x = tlv_enc k"
  shows "\<exists>d' ts'. tlvs_insert E x d = Some d' \<and> tlvs_typed d' ts' \<and> set ts' = insert k (set ts)"
proof -
  have keys: "map t_tlv (tlvs d) = map tlv_enc ts" using t by (simp add: tlvs_typed_def)
  have ok: "list_all tlv_ok ts" "sorted_wrt (\<lambda>a b. tlv_cmp a b < 0) ts" using t by (simp_all add: tlvs_typed_def)
  let ?old = "avl_find E compare_tlvs (map t_tlv (tlvs d)) (tlv_enc k)"
  obtain us vs where u: "vs = (case ?old of None \<Rightarrow> tlvs d | Some i \<Rightarrow> take i (tlvs d) @ drop (Suc i) (tlvs d))"
      "tlvs_typed (d\<lparr> tlvs := vs \<rparr>) us" "k \<notin> set us" "insert k (set us) = insert k (set ts)"
  proof (cases ?old)
    case None
    then show ?thesis using that [of "tlvs d" ts] t avl_find_tlv(1) [OF a(1) t k] by (simp add: tlvs_typed_def)
  next
    case (Some i)
    then have i: "i < length ts" "ts ! i = k" using avl_find_tlv(1) [OF a(1) t k] by simp_all
    let ?us = "take i ts @ drop (Suc i) ts"
    have "set ?us = set ts - {k}" using without_set [OF sorted_cmp_distinct [OF ok] i(1)] i(2) by simp
    moreover have "map t_tlv (take i (tlvs d) @ drop (Suc i) (tlvs d)) = map tlv_enc ?us"
      using keys by (simp flip: take_map drop_map)
    moreover have "list_all tlv_ok ?us" using ok(1) by (auto simp: list_all_iff dest: in_set_takeD in_set_dropD)
    ultimately show ?thesis using that [of "take i (tlvs d) @ drop (Suc i) (tlvs d)" ?us] Some sorted_wrt_without [OF ok(2), of i]
      by (auto simp: tlvs_typed_def)
  qed
  let ?p = "avl_pos E compare_tlvs (map t_tlv vs) (tlv_enc k)"
  have so: "sorted_wrt (\<lambda>a b. tlv_cmp a b < 0) (take ?p us @ k # drop ?p us)" using avl_find_tlv(2) [OF a(1) u(2) k u(3)] by simp
  have mu: "map t_tlv vs = map tlv_enc us" using u(2) by (simp add: tlvs_typed_def)
  have ty: "tlvs_typed d' (take ?p us @ k # drop ?p us)" if "tlvs d' = take ?p vs @ x # drop ?p vs" for d'
    using that so x k u(2) mu by (auto simp: tlvs_typed_def list_all_iff take_map [symmetric] drop_map [symmetric] dest: in_set_takeD in_set_dropD)
  obtain d' where d': "tlvs_insert E x d = Some d'" "tlvs d' = take ?p vs @ x # drop ?p vs"
    using update_tlv_local [OF a(2), of "Some (t_tlv x)" "case ?old of None \<Rightarrow> None | Some j \<Rightarrow> rd (map t_tlv (tlvs d)) j" "d\<lparr> tlvs := take ?p vs @ x # drop ?p vs \<rparr>"]
    by (auto simp: tlvs_insert_def Let_def x u(1) [symmetric])
  moreover have "set (take ?p us @ k # drop ?p us) = insert k (set us)"
    using set_append [of "take ?p us" "drop ?p us"] by auto
  ultimately show ?thesis using ty [OF d'(2)] u(4) by metis
qed

section \<open>Lemmas: publishing\<close>

lemma fill_pad_done:
  assumes "tlv_ok a" "off = length xs"
  shows "tlv_fill_pad (xs @ tlv_enc a @ zs) off = Some (xs @ tlv_enc a @ zs)"
  using tlv_fill_pad_append [of "fst a" "length (snd a)" off xs "snd a" "replicate (pad4 (length (snd a)) - length (snd a)) 0" zs] assms
  by (simp add: tlv_enc_eq tlv_ok_def)

lemma put_tlvs_holds:
  assumes oom: "\<And>x. \<not> buf_oom E x"
  shows "tb_holds b [] 0 pl \<Longrightarrow> list_all tlv_ok ts \<Longrightarrow> length pl + length (tlvs_enc ts) < 0x10000 \<Longrightarrow>
    \<exists>b'. put_tlvs E (map tlv_enc ts) b = Some (Some b') \<and> tb_holds b' [] 0 (pl @ tlvs_enc ts)"
proof (induction ts arbitrary: b pl)
  case (Cons a ts)
  have a: "tlv_ok a" using Cons.prems(2) by simp
  obtain l where l: "tlv_pad_len (tlv_enc a) 0 = Some l" "unat l = length (tlv_enc a)" using tlv_here_pad_len [OF tlv_here_enc [OF a]] by blast
  have "length pl + length (tlv_enc a) < 0x10000" using Cons.prems(3) by simp
  then obtain b1 where b1: "tlv_put_raw (buf_oom E) b (Some (tlv_enc a)) (length (tlv_enc a)) = Some (b1, Some (4 + length pl))"
      "tb_holds b1 [] 0 (pl @ tlv_enc a)"
    using tlv_put_raw_holds [of b "[]" 0 pl a "buf_oom E"] Cons.prems(1) a oom by auto
  obtain rest where "tb_buf b1 = (word_be 4 (tlv_hdr 0 (length (pl @ tlv_enc a))) @ pl) @ tlv_enc a @ rest"
    using b1(2) by (auto simp: tb_holds_def)
  then have f: "tlv_fill_pad (tb_buf b1) (4 + length pl) = Some (tb_buf b1)"
    using fill_pad_done [OF a, of "4 + length pl" "word_be 4 (tlv_hdr 0 (length (pl @ tlv_enc a))) @ pl" rest] by simp
  obtain b' where "put_tlvs E (map tlv_enc ts) b1 = Some (Some b')" "tb_holds b' [] 0 ((pl @ tlv_enc a) @ tlvs_enc ts)"
    using Cons.IH [OF b1(2)] Cons.prems(2,3) by auto
  then show ?case using l b1(1) f by simp
qed auto

lemma produce_new_tlvs_eq:
  assumes oom: "\<And>x. \<not> buf_oom E x" and t: "tlvs_typed d ts" "length (tlvs_enc ts) < 0x10000" and n: "node_at p d = Some n"
    and h: "holds_opt (tlv_container n) os"
  shows "\<exists>c. container_holds c ts \<and> produce_new_tlvs E p d =
    Some (if \<not> tlvs_dirty d \<or> tlv_container n \<noteq> None \<and> tlvs_enc os = tlvs_enc ts then None else Some c, d\<lparr> tlvs_dirty := False \<rparr>)"
proof -
  have ts: "list_all tlv_ok ts" "map t_tlv (tlvs d) = map tlv_enc ts" using t(1) by (simp_all add: tlvs_typed_def)
  obtain b0 where b0: "tlv_buf_init (buf_oom E) zero_buf 0 = Some b0" "tb_holds b0 [] 0 []"
    using tlv_buf_init_holds [of zero_buf 0 "buf_oom E"] oom by (auto simp: zero_buf_def)
  obtain b1 where b1: "put_tlvs E (map tlv_enc ts) b0 = Some (Some b1)" "tb_holds b1 [] 0 (tlvs_enc ts)"
    using put_tlvs_holds [OF oom b0(2) ts(1)] t(2) by auto
  obtain rest where rest: "tb_buf b1 = word_be 4 (tlv_hdr 0 (length (tlvs_enc ts))) @ tlvs_enc ts @ rest" "tb_head b1 = 0"
    using b1(2) by (auto simp: tb_holds_def)
  have f: "tlv_fill_pad (tb_buf b1) 0 = Some (tb_buf b1)"
    using tlv_fill_pad_append [of 0 "length (tlvs_enc ts)" 0 "[]" "tlvs_enc ts" "[]" rest] t(2) rest(1) pad4_aligned [OF length_tlvs_enc_mod] by simp
  have c: "container_holds (tb_buf b1) ts" using ts(1) t(2) rest(1) by (auto simp: container_holds_def)
  have eq: "tlv_container n \<noteq> None \<Longrightarrow> tlv_attr_equal (Some (tb_buf b1, 0)) (aptr (tlv_container n)) = Some (tlvs_enc ts = tlvs_enc os)"
    using attr_equal_opt [of "Some (tb_buf b1)" ts, OF _ h] c by (simp add: holds_opt_def aptr_def)
  have same: "d\<lparr> tlvs_dirty := False \<rparr> = d" if "\<not> tlvs_dirty d" using that by (cases d) simp
  show ?thesis using c n b0(1) b1(1) ts(2) rest(2) f eq same
    by (intro exI [of _ "tb_buf b1"]) (auto simp: produce_new_tlvs_def Let_def)
qed

lemma tlvs_enc_inj: "list_all tlv_ok ts \<Longrightarrow> list_all tlv_ok us \<Longrightarrow> tlvs_enc ts = tlvs_enc us \<longleftrightarrow> ts = us"
proof
  assume ok: "list_all tlv_ok ts" "list_all tlv_ok us" and e: "tlvs_enc ts = tlvs_enc us"
  show "ts = us" using tlv_parse_enc [OF ok(1), of "[]" "[]"] tlv_parse_enc [OF ok(2), of "[]" "[]"] unfolding e by (simp only: option.inject)
qed simp

lemma notify_all_both:
  "calm E \<Longrightarrow> local_calm E \<Longrightarrow> nodes_inv E d \<Longrightarrow>
   \<exists>d'. notify_all E es d = Some d' \<and> nodes_inv E d' \<and> same_nodes d d' \<and> tlvs d' = tlvs d"
  using notify_all_calm [of E d es] notify_all_local [of E es d] by auto

lemma nodes_inv_dirty [simp]: "nodes_inv E (d\<lparr> tlvs_dirty := b \<rparr>) = nodes_inv E d" "nodes_inv E (d\<lparr> republish_tlvs := b \<rparr>) = nodes_inv E d"
  by (simp_all add: nodes_inv_def index_inv_def)

lemma node_at_dirty [simp]: "node_at p (d\<lparr> tlvs_dirty := b \<rparr>) = node_at p d" "node_at p (d\<lparr> republish_tlvs := b \<rparr>) = node_at p d"
  by (simp_all add: node_at_def)

lemma tlvs_typed_cong: "tlvs d' = tlvs d \<Longrightarrow> tlvs_typed d' = tlvs_typed d"
  by (intro ext) (simp add: tlvs_typed_def)

lemma node_tlvs_of:
  assumes "nodes_inv E d" "node_at p d = Some n"
  shows "holds_opt (tlv_container n) (tlvs_of_node n)" "list_all tlv_ok (tlvs_of_node n)"
proof -
  show h: "holds_opt (tlv_container n) (tlvs_of_node n)"
    using assms(1) node_at_Some [OF assms(2)] by (auto simp: nodes_inv_def node_wf_def node_tlvs_def)
  then show "list_all tlv_ok (tlvs_of_node n)" by (cases "tlv_container n") (auto simp: holds_opt_def container_holds_def)
qed

section \<open>Properties: local TLVs\<close>

text \<open>C21: the local TLVs stay well-formed: when they are well-formed TLVs in strictly ascending order, so they are
  after \<open>dncp_add_tlv\<close>, which returns, and they are the earlier ones and the new one.\<close>

theorem dncp_add_tlv_typed:
  assumes "avl_lib E" "local_calm E" "\<not> alloc_fails E (Alloc_tlv (pad4 (4 + unat len)))" "tlvs_typed d ts" "length data = unat len"
  shows "\<exists>d' ts'. dncp_add_tlv E type data len extra d = Some (Some (tlv_enc (ucast type, data)), d') \<and>
    tlvs_typed d' ts' \<and> set ts' = insert (ucast type, data) (set ts)"
proof -
  have ok: "tlv_ok (ucast type, data)" by (rule ucast_type_ok) (use assms(5) unsigned_less [of len, where 'a = nat] in simp)
  let ?x = "\<lparr> t_tlv = tlv_enc (ucast type, data), t_extra = (if extra then Some zero_peer else None) \<rparr>"
  obtain d' ts' where "tlvs_insert E ?x d = Some d'" "tlvs_typed d' ts'" "set ts' = insert (ucast type, data) (set ts)"
    using tlvs_insert_typed [OF assms(1,2,4) ok, of ?x] by auto
  then show ?thesis using assms(3) make_attr_enc [OF assms(5)] by (auto simp: dncp_add_tlv_def)
qed

text \<open>C23: looking up after adding: \<open>dncp_find_tlv\<close> finds the TLV that was added, and every other TLV exactly when it
  was there before.\<close>

theorem find_after_add:
  assumes "avl_lib E" "local_calm E" "\<not> alloc_fails E (Alloc_tlv (pad4 (4 + unat len)))" "tlvs_typed d ts" "length data = unat len"
    "length data' = unat len'"
  shows "\<exists>a d'. dncp_add_tlv E type data len extra d = Some (Some a, d') \<and>
    dncp_find_tlv E type' data' len' d' = (if type' = type \<and> data' = data then Some (Some a) else dncp_find_tlv E type' data' len' d)"
proof -
  have ok: "tlv_ok (ucast type, data)" by (rule ucast_type_ok) (use assms(5) unsigned_less [of len, where 'a = nat] in simp)
  let ?x = "\<lparr> t_tlv = tlv_enc (ucast type, data), t_extra = (if extra then Some zero_peer else None) \<rparr>"
  obtain d' ts' where d': "tlvs_insert E ?x d = Some d'" "tlvs_typed d' ts'" "set ts' = insert (ucast type, data) (set ts)"
    using tlvs_insert_typed [OF assms(1,2,4) ok, of ?x] by auto
  have u: "(ucast type' :: u32) = ucast type \<longleftrightarrow> type' = type" by (rule ucast_u16_inj)
  have "dncp_add_tlv E type data len extra d = Some (Some (tlv_enc (ucast type, data)), d')"
    using assms(3) make_attr_enc [OF assms(5)] d'(1) by (simp add: dncp_add_tlv_def)
  moreover have "dncp_find_tlv E type' data' len' d' =
      (if type' = type \<and> data' = data then Some (Some (tlv_enc (ucast type, data))) else dncp_find_tlv E type' data' len' d)"
    unfolding find_tlv_typed [OF assms(1) d'(2) assms(6)] find_tlv_typed [OF assms(1,4,6)] d'(3) using u by auto
  ultimately show ?thesis by blast
qed


lemma plain_env_local: "local_calm plain_env"
  by (simp add: local_calm_def plain_env_def)

lemma plain_env_alloc: "\<not> alloc_fails plain_env x"
  by (simp add: plain_env_def)

lemma unpublished_typed: "tlvs_typed unpublished [(9, [1, 2])]"
  by (simp add: tlvs_typed_def tlv_ok_def)

theorem dncp_add_tlv_typed_witness:
  "\<exists>d' ts'. dncp_add_tlv plain_env 8 [7] 1 False unpublished = Some (Some (tlv_enc (8, [7])), d') \<and>
     tlvs_typed d' ts' \<and> set ts' = {(8, [7]), (9, [1, 2])}"
  using dncp_add_tlv_typed [OF plain_env_lib(1) plain_env_local plain_env_alloc unpublished_typed, of "[7]" 1 8 False] by simp

theorem find_after_add_witness:
  "\<exists>a d'. dncp_add_tlv plain_env 8 [7] 1 False unpublished = Some (Some a, d') \<and>
     dncp_find_tlv plain_env 8 [7] 1 d' = Some (Some a)"
  using find_after_add [OF plain_env_lib(1) plain_env_local plain_env_alloc unpublished_typed, of "[7]" 1 "[7]" 1 8 False 8] by simp


end
