(* ===== verification/Spec2Isabelle.thy ===== *)
theory Spec2Isabelle
  imports Bitops Prefix Tlv Btrie BtrieAvail BtrieFree PrefixStore PaCore PaRules PaFilters PaStore DncpPublish
begin

text \<open>
  Verification of hnetd, an implementation of the Home Networking Control Protocol in C.

  \<^bold>\<open>The program.\<close>  The nodes of a home network flood a set of TLVs (type, length, value attributes) with the
  Distributed Node Consensus Protocol.  On top of this shared state a distributed algorithm assigns prefixes
  to links.  From the bottom up:
    \<^item> bit operations, prefixes, TLV buffers and a Patricia trie with several elements per key
      (\<open>bitops.c\<close>, \<open>prefix.c\<close>, \<open>prefix_utils.c\<close>, \<open>tlv.c\<close>, \<open>btrie.c\<close>);
    \<^item> the prefix assignment algorithm \<open>pa_core.c\<close>, which keeps all prefixes in the trie, the rules that make its
      decisions \<open>pa_rules.c\<close>, the filters that restrict rules \<open>pa_filters.c\<close>, and the store that keeps
      assignments in a file \<open>pa_store.c\<close>;
    \<^item> the DNCP instance \<open>dncp.c\<close> with its subscribers \<open>dncp_notify.c\<close>, its timers \<open>dncp_timeout.c\<close> and its messages
      \<open>dncp_proto.c\<close>;
    \<^item> the profile HNCP and its clients (\<open>hncp*.c\<close>, \<open>dncp_trust.c\<close>, \<open>iface.c\<close>, \<open>pd.c\<close>, \<open>platform-*.c\<close>), which connect
      both parts with the operating system.

  \<^bold>\<open>Conventions.\<close>  File names are relative to src/src.  A definition has the name of the C function or structure it
  translates.  Machine integers are words of their width (\<open>u8\<close>, \<open>u16\<close>, \<open>u32\<close>, \<open>u64\<close>); times and lengths the code keeps in
  wide signed integers are \<open>int\<close> or \<open>nat\<close>.  A buffer is a list of bytes and an access outside it is \<open>None\<close>, as is a
  failed assertion, a division by zero or the use of a null pointer; so a theorem that an operation yields
  \<open>Some\<close> includes its memory safety.  State is passed explicitly, and callbacks that leave the modelled code are
  arguments or recorded as output.  The library libubox (lists, AVL trees, vlists, uloop), the hash function,
  the random numbers, the clock, the allocator and the address printer of the C library are parameters; what is used
  of them is a named hypothesis with an instance in a witness (\<open>avl_lib\<close>, \<open>vlist_lib\<close>, \<open>calm\<close>, \<open>local_calm\<close>).

  \<^bold>\<open>Theories.\<close>
    \<^item> HnetdPrelude: machine types, memory accesses (\<open>rd\<close>, \<open>wr\<close>, \<open>memcpy_at\<close>, \<open>memcmp\<close>), bits of byte buffers.
      BitStrings: generic facts on bit strings.  Comparators: the contract of three-way comparison functions, a
      locale interpreted for byte strings and for TLVs.
    \<^item> Bitops (\<open>bitops.c\<close>, \<open>bitops.h\<close>): copies and comparisons of bit ranges change and read exactly their range;
      the population count and the Hamming minimisation agree with their definitions; hexadecimal round trip and
      memory safety for every input.
    \<^item> Prefix (\<open>prefix.c\<close>, \<open>prefix_utils.c\<close>): containment is inclusion of address sets; text round trip.
    \<^item> Tlv (\<open>tlv.c\<close>, \<open>tlv.h\<close>): a buffer filled by puts is iterated to the same attributes; iteration over any
      received bytes stays inside them; sorting is a permutation in the order of \<open>tlv_attr_cmp\<close>.
    \<^item> Btrie (\<open>btrie.c\<close>): the trie as a tree whose nodes have at most 32 bits of key each; \<open>btrie_add\<close> and
      \<open>btrie_remove\<close> keep the invariant and change the multiset of entries as they should, also when memory runs
      out; the five iterations visit exactly the entries they are for.  A pointer to a node is the path from the root.
      BtrieAvail, BtrieFree: the enumeration of free prefixes, a loop over labels; it terminates and yields
      exactly the maximal free prefixes.
    \<^item> PrefixStore: the interface of the trie for prefixes, as a locale with its interpretation by the trie.
      PaCore (\<open>pa_core.c\<close>): the state of the algorithm is the record \<open>pa_core\<close>, its operations are functions on it.
      After publishing, no conflicting prefix is assigned; the best advertised prefix is maximal; delays are bounded.
    \<^item> PaRules (\<open>pa_rules.c\<close>): adopt, backoff, destroy, random, Hamming and static rules; one run of the routine
      leads to a published assignment when a rule offers one, and a random rule only publishes free prefixes.
      PaFilters (\<open>pa_filters.c\<close>): filters are boolean combinations.  PaStore (\<open>pa_store.c\<close>): the text format, the
      cache and the token bucket that limits writing; every save had a token.
    \<^item> DncpBase, Dncp (\<open>dncp.c\<close>, \<open>dncp_notify.c\<close>): the instance is the record \<open>dncp\<close>; a pointer to a node, a local TLV or an
      endpoint is its key in its tree.  The change notifications are the exact difference of old and new TLVs; the
      index by type finds exactly the TLVs of a type.
    \<^item> DncpSend, DncpProto (\<open>dncp_proto.c\<close>): building of messages, and the message handler TLV by TLV.
      DncpTimeout (\<open>dncp_timeout.c\<close>): Trickle, keepalives, pruning, the timeout handler.
    \<^item> DncpPrune: the network as a graph, and that pruning implements reachability in it.
      DncpSafety: what a message can change.  DncpPublish: the type of the local TLVs, and that the own node
      publishes them.

  \<^bold>\<open>Loops and bounds.\<close>  Loops over a structure are structural recursions.  Loops that follow labels or may not end
  are partial functions in the option monad, and the theorems show that they return.  The recursion of
  \<open>_prune_rec\<close> carries a bound on its depth; \<open>dncp_prune\<close> passes one more than the number of nodes, which is
  enough because each level marks a node (\<open>unmarked\<close> decreases).  The size of an attribute is bounded by its
  16 bit length field, which the theorems on buffers have as a hypothesis.

  \<^bold>\<open>Composition.\<close>  PaCore uses the trie only through PrefixStore, PaRules and PaStore use PaCore; Dncp uses the
  attribute buffers of Tlv.  The theorems on pruning, messages and publishing are about the composed functions,
  notifications of subscribers included.

  \<^bold>\<open>Not modelled.\<close>
    \<^item> Input and output and the operating system: \<open>hnetd.c\<close> (command line, main loop), \<open>platform-generic.c\<close> and
      \<open>platform-openwrt.c\<close> (processes, ubus), \<open>hncp_io.c\<close>, \<open>udp46.c\<close> (sockets), \<open>dtls.c\<close> (OpenSSL), \<open>exeq.c\<close> (child processes),
      \<open>hncp_tunnel.c\<close>, \<open>hncp_routing.c\<close>, \<open>hncp_multicast.c\<close>, \<open>hncp_wifi.c\<close>, \<open>pd.c\<close> (scripts and processes of other
      programs), \<open>hncp_dump.c\<close> (output as blobmsg of libubox), \<open>hnetd_time.c\<close> (the clock, a parameter).
    \<^item> The HNCP profile (\<open>hncp.c\<close>, \<open>hncp_link.c\<close>, \<open>hncp_pa.c\<close>, \<open>hncp_sd.c\<close>), the trust consensus \<open>dncp_trust.c\<close> and the interface
      table \<open>iface.c\<close>: clients of the modelled parts through the subscriber callbacks, mostly translation between
      their TLVs, uloop timers and platform calls; their callbacks are the parameters \<open>sub_cb\<close>,
      \<open>cb_validate_node_data\<close> and \<open>cb_handle_collision\<close>.
    \<^item> Log messages, and freeing of memory apart from the order of the operations around it.
\<close>

end
